(* ===== verification/Prelude.thy ===== *)
theory Prelude
  imports Main "HOL-Library.List_Lexorder" "HOL-Library.Char_ord"
begin

text \<open>
  What every component of the control plane shares: the JSON values the whole program works
  on, ordered maps, the pieces of the standard string library the sources call, fixed-width
  arithmetic written over \<open>nat\<close> and \<open>int\<close>, and the lemma collections the component proofs
  are driven by.

  Objects are \<^verbatim>\<open>serde_json::Value\<close> throughout the program (there are no typed Kubernetes
  structs), so \<open>json\<close> is that enum with its constructors, and the accessors below are the
  documented behaviour of the methods the sources call on it: \<open>v["k"]\<close> is \<open>jidx\<close>
  (\<open>Null\<close> when absent or not an object), \<open>v.get("k")\<close> is \<open>jget\<close>, and assignment
  through \<open>v["a"]["b"] = x\<close> is \<open>jset\<close> (which creates objects over \<open>Null\<close> and
  panics, here \<open>None\<close>, on any other value). A JSON object is a \<^verbatim>\<open>BTreeMap\<close>: an
  association list sorted by key without repetition (\<open>bt_wf\<close>), so equality of values is
  equality of terms.

  Strings are the bytes of the UTF-8 text; white space is the ASCII white space.
\<close>

named_theorems json_simps \<open>reading and writing JSON values\<close>
named_theorems bt_simps \<open>ordered maps\<close>
named_theorems str_simps \<open>strings\<close>

section \<open>Ordered maps\<close>

text \<open>A \<^verbatim>\<open>BTreeMap\<close> as its sorted list of entries.\<close>

type_synonym ('k, 'v) btree = "('k \<times> 'v) list"

fun bt_insert :: "'k::linorder \<Rightarrow> 'v \<Rightarrow> ('k, 'v) btree \<Rightarrow> ('k, 'v) btree" where
  "bt_insert k v [] = [(k, v)]"
| "bt_insert k v (e # m) =
     (if k = fst e then (k, v) # m
      else if k < fst e then (k, v) # e # m
      else e # bt_insert k v m)"

definition bt_remove :: "'k \<Rightarrow> ('k, 'v) btree \<Rightarrow> ('k, 'v) btree" where
  "bt_remove k m = filter (\<lambda>e. fst e \<noteq> k) m"

definition bt_wf :: "('k::linorder, 'v) btree \<Rightarrow> bool" where
  "bt_wf m \<longleftrightarrow> sorted_wrt (<) (map fst m)"

lemma bt_wf_Nil [bt_simps, simp]: "bt_wf []"
  by (simp add: bt_wf_def)

lemma bt_wf_Cons [bt_simps]: "bt_wf (e # m) \<longleftrightarrow> (\<forall>x \<in> set m. fst e < fst x) \<and> bt_wf m"
  by (simp add: bt_wf_def)

lemma set_fst_bt_insert [bt_simps]: "fst ` set (bt_insert k v m) = insert k (fst ` set m)"
  by (induction m) auto

lemma bt_insert_wf [bt_simps, intro]: "bt_wf m \<Longrightarrow> bt_wf (bt_insert k v m)"
proof (induction m)
  case Nil
  then show ?case by (simp add: bt_wf_def)
next
  case (Cons e m)
  then have wf: "bt_wf (bt_insert k v m)" and lt: "\<forall>x \<in> set m. fst e < fst x"
    by (auto simp: bt_wf_Cons)
  have keys: "fst x = k \<or> fst x \<in> fst ` set m" if "x \<in> set (bt_insert k v m)" for x
    using that set_fst_bt_insert[of k v m] by (metis imageI insertE)
  show ?case
  proof (cases "k = fst e \<or> k < fst e")
    case True
    with Cons.prems show ?thesis by (auto simp: bt_wf_Cons)
  next
    case False
    then have "\<forall>x \<in> set (bt_insert k v m). fst e < fst x"
      using keys lt by fastforce
    with wf False show ?thesis by (auto simp: bt_wf_Cons)
  qed
qed

lemma map_of_bt_insert [bt_simps]: "map_of (bt_insert k v m) = (map_of m)(k \<mapsto> v)"
  by (induction m) auto

lemma set_bt_insert: "e \<in> set (bt_insert k v m) \<Longrightarrow> e = (k, v) \<or> e \<in> set m"
  by (induction m) (auto split: if_splits)

lemma set_bt_remove: "e \<in> set (bt_remove k m) \<longleftrightarrow> e \<in> set m \<and> fst e \<noteq> k"
  by (simp add: bt_remove_def)

lemma bt_remove_wf [bt_simps, intro]: "bt_wf m \<Longrightarrow> bt_wf (bt_remove k m)"
  by (induction m) (auto simp: bt_remove_def bt_wf_Cons)

lemma map_of_bt_remove [bt_simps]: "map_of (bt_remove k m) = (map_of m)(k := None)"
  by (induction m) (auto simp: bt_remove_def)

lemma bt_wf_distinct: "bt_wf m \<Longrightarrow> distinct (map fst m)"
  by (simp add: bt_wf_def strict_sorted_iff)

text \<open>Two ordered maps with the same lookups are the same map.\<close>

lemma bt_ext: "bt_wf m \<Longrightarrow> bt_wf m' \<Longrightarrow> map_of m = map_of m' \<Longrightarrow> m = m'"
proof -
  assume wf: "bt_wf m" "bt_wf m'" and eq: "map_of m = map_of m'"
  have d: "distinct (map fst m)" "distinct (map fst m')"
    using wf by (auto intro: bt_wf_distinct)
  have "set m = set m'"
    using eq d by (metis map_of_inject_set)
  moreover have "sorted_wrt (\<lambda>x y. fst x < fst y) m" "sorted_wrt (\<lambda>x y. fst x < fst y) m'"
    using wf by (auto simp: bt_wf_def sorted_wrt_map)
  ultimately show "m = m'"
  proof (induction m arbitrary: m')
    case Nil
    then show ?case by simp
  next
    case (Cons e m)
    then obtain e' n where m': "m' = e' # n" by (cases m') auto
    have "e = e'"
      using Cons.prems m' by (metis insertE less_asym list.set(2) insertI1 sorted_wrt.simps(2))
    moreover have "set m = set n"
      using Cons.prems m' \<open>e = e'\<close> by (auto; metis insertE less_irrefl)
    ultimately show ?case
      using Cons m' by auto
  qed
qed

section \<open>Lists\<close>

text \<open>Taking the element at an index out of a list without repetition.\<close>

lemma remove_nth_distinct:
  assumes "distinct r" "i < length r"
  shows "set (take i r @ drop (Suc i) r) = set r - {r ! i}" "distinct (take i r @ drop (Suc i) r)"
proof -
  have "r = take i r @ r ! i # drop (Suc i) r" using assms(2) by (rule id_take_nth_drop)
  then have d: "distinct (take i r @ r ! i # drop (Suc i) r)" and s: "set r = set (take i r @ r ! i # drop (Suc i) r)"
    using assms(1) by metis+
  show "distinct (take i r @ drop (Suc i) r)" using d by simp
  show "set (take i r @ drop (Suc i) r) = set r - {r ! i}" using d s by auto
qed

section \<open>JSON values\<close>

text \<open>
  A number is an integer in the range of \<^verbatim>\<open>i64\<close> and \<^verbatim>\<open>u64\<close> together, or a float kept as its
  printed text (no modelled code computes with JSON floats).
\<close>

datatype number = NInt int | NFloat string

datatype json =
    JNull
  | JBool bool
  | JNum number
  | JStr string
  | JArr "json list"
  | JObj "(string \<times> json) list"

fun jget :: "json \<Rightarrow> string \<Rightarrow> json option" where
  "jget (JObj m) k = map_of m k"
| "jget _ k = None"

definition jidx :: "json \<Rightarrow> string \<Rightarrow> json" where
  "jidx v k = (case jget v k of Some x \<Rightarrow> x | None \<Rightarrow> JNull)"

definition jat :: "json \<Rightarrow> string list \<Rightarrow> json" where
  "jat v ks = foldl jidx v ks"

fun as_str :: "json \<Rightarrow> string option" where
  "as_str (JStr s) = Some s"
| "as_str _ = None"

fun as_bool :: "json \<Rightarrow> bool option" where
  "as_bool (JBool b) = Some b"
| "as_bool _ = None"

fun as_array :: "json \<Rightarrow> json list option" where
  "as_array (JArr xs) = Some xs"
| "as_array _ = None"

fun as_object :: "json \<Rightarrow> (string \<times> json) list option" where
  "as_object (JObj m) = Some m"
| "as_object _ = None"

fun as_i64 :: "json \<Rightarrow> int option" where
  "as_i64 (JNum (NInt i)) = (if - (2 ^ 63) \<le> i \<and> i < 2 ^ 63 then Some i else None)"
| "as_i64 _ = None"

fun as_u64 :: "json \<Rightarrow> nat option" where
  "as_u64 (JNum (NInt i)) = (if 0 \<le> i \<and> i < 2 ^ 64 then Some (nat i) else None)"
| "as_u64 _ = None"

fun is_null :: "json \<Rightarrow> bool" where
  "is_null JNull = True"
| "is_null _ = False"

fun is_string :: "json \<Rightarrow> bool" where
  "is_string (JStr _) = True"
| "is_string _ = False"

fun is_object :: "json \<Rightarrow> bool" where
  "is_object (JObj _) = True"
| "is_object _ = False"

text \<open>\<open>x.as_array().into_iter().flatten()\<close>, and \<open>as_array().unwrap_or(&[])\<close>: no array, no items.\<close>

definition arr :: "json \<Rightarrow> json list" where
  "arr v = (case as_array v of Some xs \<Rightarrow> xs | None \<Rightarrow> [])"

definition entries :: "json \<Rightarrow> (string \<times> json) list" where
  "entries v = (case as_object v of Some m \<Rightarrow> m | None \<Rightarrow> [])"

text \<open>\<open>v.as_str().unwrap_or(d)\<close>.\<close>

definition str_or :: "string \<Rightarrow> json \<Rightarrow> string" where
  "str_or d v = (case as_str v of Some s \<Rightarrow> s | None \<Rightarrow> d)"

text \<open>
  Assignment through a path of index expressions, \<open>v["a"]["b"] = x\<close>: \<open>IndexMut\<close> turns
  \<open>Null\<close> into an object, inserts a missing key, and panics (\<open>None\<close>) on a string, a
  number, a boolean or an array. \<open>jtouch\<close> is a path that is only borrowed mutably: it
  creates what is missing on the way, and leaves the value there unchanged.
\<close>

fun jset :: "json \<Rightarrow> string list \<Rightarrow> json \<Rightarrow> json option" where
  "jset v [] x = Some x"
| "jset v (k # ks) x =
     (case v of
        JNull \<Rightarrow> map_option (\<lambda>c. JObj [(k, c)]) (jset JNull ks x)
      | JObj m \<Rightarrow> map_option (\<lambda>c. JObj (bt_insert k c m)) (jset (jidx v k) ks x)
      | _ \<Rightarrow> None)"

definition jtouch :: "json \<Rightarrow> string list \<Rightarrow> json option" where
  "jtouch v ks = jset v ks (jat v ks)"

lemma jat_Nil [json_simps, simp]: "jat v [] = v"
  by (simp add: jat_def)

lemma jat_Cons [json_simps, simp]: "jat v (k # ks) = jat (jidx v k) ks"
  by (simp add: jat_def)

lemma jidx_simps [json_simps, simp]:
  "jidx JNull k = JNull" "jidx (JBool b) k = JNull" "jidx (JNum n) k = JNull"
  "jidx (JStr s) k = JNull" "jidx (JArr xs) k = JNull"
  "jidx (JObj m) k = (case map_of m k of Some x \<Rightarrow> x | None \<Rightarrow> JNull)"
  by (simp_all add: jidx_def)

lemma jat_JNull [json_simps, simp]: "jat JNull ks = JNull"
  by (induction ks) simp_all

lemma arr_simps [json_simps, simp]:
  "arr (JArr xs) = xs" "arr JNull = []" "arr (JObj m) = []" "arr (JStr s) = []"
  by (simp_all add: arr_def)

lemma entries_simps [json_simps, simp]:
  "entries (JObj m) = m" "entries JNull = []" "entries (JArr xs) = []" "entries (JStr s) = []"
  by (simp_all add: entries_def)

lemma str_or_simps [json_simps, simp]:
  "str_or d (JStr s) = s" "str_or d JNull = d" "str_or d (JObj m) = d" "str_or d (JArr xs) = d"
  by (simp_all add: str_or_def)

lemma as_str_Some [json_simps]: "as_str v = Some s \<longleftrightarrow> v = JStr s"
  by (cases v) auto

lemma as_object_Some [json_simps]: "as_object v = Some m \<longleftrightarrow> v = JObj m"
  by (cases v) auto

lemma as_array_Some [json_simps]: "as_array v = Some xs \<longleftrightarrow> v = JArr xs"
  by (cases v) auto

lemma is_object_iff [json_simps]: "is_object v \<longleftrightarrow> (\<exists>m. v = JObj m)"
  by (cases v) auto

lemma is_null_iff [json_simps]: "is_null v \<longleftrightarrow> v = JNull"
  by (cases v) auto

text \<open>What is written through a path is what is read through it.\<close>

lemma jset_jat: "jset v ks x = Some v' \<Longrightarrow> jat v' ks = x"
  by (induction v ks x arbitrary: v' rule: jset.induct)
     (auto split: json.splits simp: bt_simps)

lemma jset_other:
  "jset v (k # ks) x = Some v' \<Longrightarrow> k' \<noteq> k \<Longrightarrow> jidx v' k' = jidx v k'"
  by (auto split: json.splits simp: bt_simps)

lemma jset_sub:
  assumes "jset v [a, b] x = Some w"
  shows "jat w [a, b] = x" "c \<noteq> b \<Longrightarrow> jat w [a, c] = jat v [a, c]" "d \<noteq> a \<Longrightarrow> jidx w d = jidx v d"
proof -
  show "jat w [a, b] = x" by (rule jset_jat[OF assms])
  show "d \<noteq> a \<Longrightarrow> jidx w d = jidx v d" by (rule jset_other[OF assms])
  show "jat w [a, c] = jat v [a, c]" if "c \<noteq> b"
  proof (cases v)
    case JNull
    then show ?thesis using assms that by auto
  next
    case (JObj m)
    then obtain y where y: "jset (jidx v a) [b] x = Some y" "w = JObj (bt_insert a y m)" using assms by (auto simp del: jset.simps simp: jset.simps(2)[of _ a])
    have "jidx y c = jidx (jidx v a) c" by (rule jset_other[OF y(1) that])
    then show ?thesis using y(2) by (simp add: bt_simps)
  qed (use assms in auto)
qed

section \<open>Strings\<close>

definition is_space :: "char \<Rightarrow> bool" where
  "is_space c \<longleftrightarrow> of_char c \<in> {9, 10, 11, 12, 13, 32 :: nat}"

definition trim_start :: "string \<Rightarrow> string" where
  "trim_start s = dropWhile is_space s"

definition trim :: "string \<Rightarrow> string" where
  "trim s = rev (dropWhile is_space (rev (dropWhile is_space s)))"

text \<open>\<open>s.trim_start_matches(c)\<close> and \<open>s.trim_end_matches(c)\<close> for a character.\<close>

definition trim_start_matches :: "char \<Rightarrow> string \<Rightarrow> string" where
  "trim_start_matches c s = dropWhile (\<lambda>x. x = c) s"

definition trim_end_matches :: "char \<Rightarrow> string \<Rightarrow> string" where
  "trim_end_matches c s = rev (dropWhile (\<lambda>x. x = c) (rev s))"

definition starts_with :: "string \<Rightarrow> string \<Rightarrow> bool" where
  "starts_with s p \<longleftrightarrow> take (length p) s = p"

definition ends_with :: "string \<Rightarrow> string \<Rightarrow> bool" where
  "ends_with s p \<longleftrightarrow> starts_with (rev s) (rev p)"

definition strip_prefix :: "string \<Rightarrow> string \<Rightarrow> string option" where
  "strip_prefix s p = (if starts_with s p then Some (drop (length p) s) else None)"

definition strip_suffix :: "string \<Rightarrow> string \<Rightarrow> string option" where
  "strip_suffix s p =
     (if ends_with s p then Some (take (length s - length p) s) else None)"

text \<open>\<open>s.split(c)\<close>: always at least one piece.\<close>

fun split_on :: "char \<Rightarrow> string \<Rightarrow> string list" where
  "split_on c [] = [[]]"
| "split_on c (x # s) =
     (if x = c then [] # split_on c s
      else (case split_on c s of p # ps \<Rightarrow> (x # p) # ps | [] \<Rightarrow> [[x]]))"

definition join_on :: "char \<Rightarrow> string list \<Rightarrow> string" where
  "join_on c ps = (case ps of [] \<Rightarrow> [] | p # qs \<Rightarrow> p @ concat (map (\<lambda>q. c # q) qs))"

text \<open>\<open>s.split_once(c)\<close>: around the first occurrence.\<close>

fun split_once :: "char \<Rightarrow> string \<Rightarrow> (string \<times> string) option" where
  "split_once c [] = None"
| "split_once c (x # s) =
     (if x = c then Some ([], s)
      else map_option (\<lambda>(a, b). (x # a, b)) (split_once c s))"

text \<open>\<open>s.find(pat)\<close> for a string pattern, as the text before and after the first match.\<close>

fun split_at_sub :: "string \<Rightarrow> string \<Rightarrow> (string \<times> string) option" where
  "split_at_sub pat [] = (if pat = [] then Some ([], []) else None)"
| "split_at_sub pat (x # s) =
     (if starts_with (x # s) pat then Some ([], drop (length pat) (x # s))
      else map_option (\<lambda>(a, b). (x # a, b)) (split_at_sub pat s))"

text \<open>\<open>s.split_whitespace()\<close>.\<close>

fun words_acc :: "string \<Rightarrow> string \<Rightarrow> string list" where
  "words_acc w [] = (if w = [] then [] else [rev w])"
| "words_acc w (c # s) =
     (if is_space c then (if w = [] then words_acc [] s else rev w # words_acc [] s)
      else words_acc (c # w) s)"

definition split_whitespace :: "string \<Rightarrow> string list" where
  "split_whitespace s = words_acc [] s"

lemma split_on_neq_Nil [str_simps, simp]: "split_on c s \<noteq> []"
  by (induction s) (auto split: list.splits)

lemma split_on_nosep [str_simps]: "c \<notin> set s \<Longrightarrow> split_on c s = [s]"
  by (induction s) auto

lemma split_on_append [str_simps]:
  "c \<notin> set p \<Longrightarrow> split_on c (p @ c # s) = p # split_on c s"
  by (induction p) auto

lemma split_on_join: "ps \<noteq> [] \<Longrightarrow> \<forall>p \<in> set ps. c \<notin> set p \<Longrightarrow> split_on c (join_on c ps) = ps"
proof (induction ps rule: induct_list012)
  case 1
  then show ?case by simp
next
  case (2 p)
  then show ?case by (simp add: join_on_def split_on_nosep)
next
  case (3 p q ps)
  have "join_on c (p # q # ps) = p @ c # join_on c (q # ps)"
    by (simp add: join_on_def)
  with 3 show ?case by (simp add: split_on_append)
qed

lemma join_split_on: "join_on c (split_on c s) = s"
proof (induction s)
  case Nil
  then show ?case by (simp add: join_on_def)
next
  case (Cons x s)
  obtain p ps where s: "split_on c s = p # ps" by (cases "split_on c s") auto
  with Cons show ?case by (auto simp: join_on_def)
qed

lemma split_once_append [str_simps]:
  "c \<notin> set p \<Longrightarrow> split_once c (p @ c # s) = Some (p, s)"
  by (induction p) auto

lemma split_once_None [str_simps]: "split_once c s = None \<longleftrightarrow> c \<notin> set s"
  by (induction s) (auto split: if_splits)

lemma split_once_Some: "split_once c s = Some (a, b) \<Longrightarrow> s = a @ c # b \<and> c \<notin> set a"
  by (induction s arbitrary: a) (auto split: if_splits)

lemma starts_with_append [str_simps, simp]: "starts_with (p @ s) p"
  by (simp add: starts_with_def)

lemma starts_with_iff: "starts_with s p \<longleftrightarrow> (\<exists>t. s = p @ t)"
  by (metis append_eq_conv_conj append_take_drop_id starts_with_def)

lemma strip_prefix_append [str_simps, simp]: "strip_prefix (p @ s) p = Some s"
  by (simp add: strip_prefix_def starts_with_def)

lemma strip_prefix_Some: "strip_prefix s p = Some t \<longleftrightarrow> s = p @ t"
  by (auto simp: strip_prefix_def starts_with_iff)

lemma ends_with_iff: "ends_with s p \<longleftrightarrow> (\<exists>t. s = t @ p)"
  by (metis ends_with_def rev_append rev_rev_ident starts_with_iff)

lemma strip_suffix_Some: "strip_suffix s p = Some t \<longleftrightarrow> s = t @ p"
  by (auto simp: strip_suffix_def ends_with_iff)

lemma strip_suffix_append [str_simps, simp]: "strip_suffix (s @ t) t = Some s"
  by (simp add: strip_suffix_Some)

section \<open>Decimal numbers\<close>

definition digit_char :: "nat \<Rightarrow> char" where
  "digit_char d = char_of (48 + d)"

definition is_digit :: "char \<Rightarrow> bool" where
  "is_digit c \<longleftrightarrow> 48 \<le> (of_char c :: nat) \<and> (of_char c :: nat) \<le> 57"

definition digit_val :: "char \<Rightarrow> nat" where
  "digit_val c = of_char c - 48"

text \<open>\<open>n.to_string()\<close> of an unsigned integer.\<close>

fun show_nat :: "nat \<Rightarrow> string" where
  "show_nat n = (if n < 10 then [digit_char n] else show_nat (n div 10) @ [digit_char (n mod 10)])"

declare show_nat.simps [simp del]

definition show_int :: "int \<Rightarrow> string" where
  "show_int i = (if i < 0 then CHR ''-'' # show_nat (nat (- i)) else show_nat (nat i))"

definition digits_val :: "string \<Rightarrow> nat" where
  "digits_val s = foldl (\<lambda>a c. a * 10 + digit_val c) 0 s"

text \<open>
  \<open>s.parse::<uN>()\<close>: an optional \<open>+\<close>, then at least one digit and nothing else, and an
  error where the value does not fit in \<open>N\<close> bits.
\<close>

definition parse_uint :: "nat \<Rightarrow> string \<Rightarrow> nat option" where
  "parse_uint bits s =
     (let ds = (case s of c # t \<Rightarrow> if c = CHR ''+'' then t else s | [] \<Rightarrow> [])
      in if ds \<noteq> [] \<and> list_all is_digit ds \<and> digits_val ds < 2 ^ bits
         then Some (digits_val ds) else None)"

text \<open>\<open>s.parse::<iN>()\<close>: the same with a sign.\<close>

definition parse_sint :: "nat \<Rightarrow> string \<Rightarrow> int option" where
  "parse_sint bits s =
     (let neg = (case s of c # _ \<Rightarrow> c = CHR ''-'' | [] \<Rightarrow> False);
          ds = (case s of c # t \<Rightarrow> if c = CHR ''+'' \<or> c = CHR ''-'' then t else s | [] \<Rightarrow> []);
          v = (if neg then - int (digits_val ds) else int (digits_val ds))
      in if ds \<noteq> [] \<and> list_all is_digit ds \<and> - (2 ^ (bits - 1)) \<le> v \<and> v < 2 ^ (bits - 1)
         then Some v else None)"

lemma of_char_digit: "d < 10 \<Longrightarrow> of_char (digit_char d) = (48 + d :: nat)"
  by (simp add: digit_char_def)

lemma digit_char_digit [str_simps, simp]: "d < 10 \<Longrightarrow> is_digit (digit_char d)"
  by (simp add: is_digit_def of_char_digit)

lemma digit_char_val [str_simps, simp]: "d < 10 \<Longrightarrow> digit_val (digit_char d) = d"
  by (simp add: digit_val_def of_char_digit)

lemma digits_val_snoc [str_simps, simp]: "digits_val (s @ [c]) = digits_val s * 10 + digit_val c"
  by (simp add: digits_val_def)

lemma digits_val_Nil [str_simps, simp]: "digits_val [] = 0"
  by (simp add: digits_val_def)

lemma show_nat_digits [str_simps, simp]: "list_all is_digit (show_nat n)"
  by (induction n rule: show_nat.induct) (subst show_nat.simps, auto)

lemma show_nat_neq_Nil [str_simps, simp]: "show_nat n \<noteq> []"
  by (subst show_nat.simps) auto

lemma digits_val_show_nat [str_simps, simp]: "digits_val (show_nat n) = n"
proof (induction n rule: show_nat.induct)
  case (1 n)
  show ?case
  proof (cases "n < 10")
    case True
    then show ?thesis by (subst show_nat.simps) (simp add: digits_val_def)
  next
    case False
    with 1 show ?thesis by (subst show_nat.simps) simp
  qed
qed

lemma digit_chars [simp]:
  "digit_char 0 = CHR ''0''" "digit_char (Suc 0) = CHR ''1''" "digit_char 2 = CHR ''2''" "digit_char 3 = CHR ''3''"
  "digit_char 4 = CHR ''4''" "digit_char 5 = CHR ''5''" "digit_char 6 = CHR ''6''" "digit_char 7 = CHR ''7''"
  "digit_char 8 = CHR ''8''" "digit_char 9 = CHR ''9''"
  by (simp_all add: digit_char_def char_of_def bit_simps)

lemma show_nat_small: "n < 10 \<Longrightarrow> show_nat n = [digit_char n]"
  by (subst show_nat.simps) simp

lemma show_nat_big: "10 \<le> n \<Longrightarrow> show_nat n = show_nat (n div 10) @ [digit_char (n mod 10)]"
  by (subst show_nat.simps) simp

lemmas show_nat_eval = show_nat_small show_nat_big

lemma not_digit_plus: "\<not> is_digit CHR ''+''"
  by (simp add: is_digit_def)

text \<open>Printing and parsing an unsigned integer is the identity.\<close>

lemma parse_show_nat [str_simps]: "n < 2 ^ bits \<Longrightarrow> parse_uint bits (show_nat n) = Some n"
proof -
  assume "n < 2 ^ bits"
  obtain c t where s: "show_nat n = c # t" by (cases "show_nat n") auto
  then have "c \<noteq> CHR ''+''"
    using show_nat_digits[of n] not_digit_plus by auto
  then have "(case show_nat n of c # t \<Rightarrow> if c = CHR ''+'' then t else show_nat n | [] \<Rightarrow> []) = show_nat n"
    using s by auto
  with \<open>n < 2 ^ bits\<close> show ?thesis
    by (simp add: parse_uint_def Let_def)
qed

lemma show_nat_inj [str_simps]: "show_nat m = show_nat n \<longleftrightarrow> m = n"
  by (metis digits_val_show_nat)

section \<open>Fixed-width arithmetic\<close>

text \<open>
  The release profile turns overflow checks off, so \<open>+\<close> and \<open>*\<close> on \<^verbatim>\<open>u64\<close> wrap;
  \<open>saturating_sub\<close> on an unsigned type is subtraction on \<open>nat\<close>.
\<close>

definition add64 :: "nat \<Rightarrow> nat \<Rightarrow> nat" where
  "add64 a b = (a + b) mod 2 ^ 64"

definition mul64 :: "nat \<Rightarrow> nat \<Rightarrow> nat" where
  "mul64 a b = (a * b) mod 2 ^ 64"

lemma add64_small: "a + b < 2 ^ 64 \<Longrightarrow> add64 a b = a + b"
  by (simp add: add64_def)

lemma mul64_small: "a * b < 2 ^ 64 \<Longrightarrow> mul64 a b = a * b"
  by (simp add: mul64_def)

definition sat_add_i64 :: "int \<Rightarrow> int \<Rightarrow> int" where
  "sat_add_i64 a b = max (- (2 ^ 63)) (min (2 ^ 63 - 1) (a + b))"

end
