(* ===== verification/Store.thy ===== *)
theory Store
  imports Prelude
begin

text \<open>
  \<^verbatim>\<open>pkg/apimachinery/src/store.rs\<close>, \<^verbatim>\<open>watch.rs\<close> and \<^verbatim>\<open>error.rs\<close>: the key-value store behind the
  API server, its errors and watch events. The \<^verbatim>\<open>KvStore\<close> trait is two contracts: \<open>kv_store\<close>
  (reads, and writes with a compare-and-swap on the revision that last wrote a key) and
  \<open>kv_mvcc\<close> (pages of a prefix at a fixed revision). \<^verbatim>\<open>MemStore\<close> of
  \<^verbatim>\<open>pkg/apiserver/src/test_store.rs\<close> is modelled here and satisfies the first; the etcd
  adapter, in its own theory, satisfies both. Values are opaque; revisions are unbounded.
\<close>

section \<open>Errors, events, pages\<close>

datatype error =
    NotFound string
  | AlreadyExists string
  | Conflict
  | Gone nat
  | Invalid string
  | Unauthorized string
  | Forbidden string
  | Internal string
  | Serialization string
  | Io string
  | StoreError string
  | Unavailable string
  | Raft string
  | Tls string

datatype 'v watch_event =
    Added string 'v nat
  | Modified string 'v nat "'v option"
  | Deleted string nat "'v option"
  | Bookmark nat
  | WatchError nat string nat

fun ev_revision :: "'v watch_event \<Rightarrow> nat" where
  "ev_revision (Added k v r) = r"
| "ev_revision (Modified k v r p) = r"
| "ev_revision (Deleted k r p) = r"
| "ev_revision (Bookmark r) = r"
| "ev_revision (WatchError c m r) = r"

record 'v list_result =
  lr_items :: "(string \<times> 'v \<times> nat) list"
  lr_continue :: "string option"
  lr_revision :: nat
  lr_remaining :: "nat option"

text \<open>The trait's default \<^verbatim>\<open>list_at\<close>, over a \<^verbatim>\<open>list\<close> that only knows the present.\<close>

definition list_at_default ::
    "(string \<Rightarrow> nat \<Rightarrow> string option \<Rightarrow> 's \<Rightarrow> error + 'v list_result) \<Rightarrow>
     string \<Rightarrow> nat \<Rightarrow> string option \<Rightarrow> nat option \<Rightarrow> 's \<Rightarrow> error + 'v list_result" where
  "list_at_default lst prefix limit tok revision s =
     (case lst prefix limit tok s of
        Inl e \<Rightarrow> Inl e
      | Inr page \<Rightarrow>
          (case revision of
             Some r \<Rightarrow> if lr_revision page \<noteq> r then Inl (Gone r) else Inr page
           | None \<Rightarrow> Inr page))"

section \<open>Pages of a sorted map\<close>

text \<open>
  What a page is meant to be: the keys under the prefix after the token, cut at the limit (0
  is no limit), with the last key as the next token when more follow.
\<close>

definition after :: "string option \<Rightarrow> string \<Rightarrow> bool" where
  "after tok k = (case tok of None \<Rightarrow> True | Some t \<Rightarrow> t < k)"

definition matching :: "(string, 'a) btree \<Rightarrow> string \<Rightarrow> string option \<Rightarrow> (string \<times> 'a) list" where
  "matching m prefix tok = filter (\<lambda>e. starts_with (fst e) prefix \<and> after tok (fst e)) m"

definition cut :: "nat \<Rightarrow> 'a list \<Rightarrow> 'a list" where
  "cut limit xs = (if limit = 0 then xs else take limit xs)"

definition next_token :: "nat \<Rightarrow> (string \<times> 'a) list \<Rightarrow> string option" where
  "next_token limit xs = (if limit \<noteq> 0 \<and> limit < length xs then Some (fst (last (take limit xs))) else None)"

definition page_of :: "(string, 'v \<times> nat) btree \<Rightarrow> string \<Rightarrow> nat \<Rightarrow> string option \<Rightarrow> nat \<Rightarrow> 'v list_result" where
  "page_of m prefix limit tok r =
     (let xs = matching m prefix tok
      in \<lparr>lr_items = cut limit xs, lr_continue = next_token limit xs, lr_revision = r,
          lr_remaining = Some (length xs - length (cut limit xs))\<rparr>)"

section \<open>MemStore\<close>

record 'v mem_store =
  mem_rev :: nat
  mem_data :: "(string, 'v \<times> nat) btree"
  mem_unavailable :: bool

definition mem_default :: "'v mem_store" where
  "mem_default = \<lparr>mem_rev = 0, mem_data = [], mem_unavailable = False\<rparr>"

definition mem_get :: "string \<Rightarrow> 'v mem_store \<Rightarrow> error + ('v \<times> nat) option" where
  "mem_get key s = (if mem_unavailable s then Inl (Unavailable ''no quorum'') else Inr (map_of (mem_data s) key))"

definition mem_put :: "string \<Rightarrow> 'v \<Rightarrow> nat option \<Rightarrow> 'v mem_store \<Rightarrow> 'v mem_store \<times> (error + nat)" where
  "mem_put key v prev s =
     (if mem_unavailable s then (s, Inl (Unavailable ''no quorum''))
      else
        (let have_rev = (case map_of (mem_data s) key of Some (_, r) \<Rightarrow> r | None \<Rightarrow> 0)
         in if (case prev of Some want \<Rightarrow> have_rev \<noteq> want | None \<Rightarrow> False) then (s, Inl Conflict)
            else
              (let rev = mem_rev s + 1
               in (s\<lparr>mem_rev := rev, mem_data := bt_insert key (v, rev) (mem_data s)\<rparr>, Inr rev))))"

definition mem_delete :: "string \<Rightarrow> nat option \<Rightarrow> 'v mem_store \<Rightarrow> 'v mem_store \<times> (error + nat)" where
  "mem_delete key prev s =
     (if (case prev of Some want \<Rightarrow> map_option snd (map_of (mem_data s) key) \<noteq> Some want | None \<Rightarrow> False)
      then (s, Inl Conflict)
      else (s\<lparr>mem_rev := mem_rev s + 1, mem_data := bt_remove key (mem_data s)\<rparr>, Inr (mem_rev s + 1)))"

definition mem_list :: "string \<Rightarrow> nat \<Rightarrow> string option \<Rightarrow> 'v mem_store \<Rightarrow> error + 'v list_result" where
  "mem_list prefix limit tok s =
     (if mem_unavailable s then Inl (Unavailable ''no quorum'')
      else
        (let xs = filter (\<lambda>e. after tok (fst e))
               (takeWhile (\<lambda>e. starts_with (fst e) prefix) (dropWhile (\<lambda>e. fst e < prefix) (mem_data s)));
             items = cut limit xs;
             left = length xs - length items
         in Inr \<lparr>lr_items = items,
                 lr_continue = (if 0 < left then (if items = [] then None else Some (fst (last items))) else None),
                 lr_revision = mem_rev s, lr_remaining = Some left\<rparr>))"

section \<open>Ranges of keys\<close>

lemma starts_with_Cons [simp]: "starts_with (x # s) (c # p) \<longleftrightarrow> x = c \<and> starts_with s p"
  by (auto simp: starts_with_def)

lemma starts_with_Nil [simp]: "starts_with s []" "starts_with [] p \<longleftrightarrow> p = []"
  by (auto simp: starts_with_def)

lemma starts_with_ge: "starts_with k p \<Longrightarrow> p \<le> k"
  by (induction p arbitrary: k) (auto simp: starts_with_iff)

text \<open>The keys under a prefix are an interval of the key order.\<close>

lemma starts_with_between:
  "p \<le> a \<Longrightarrow> a \<le> b \<Longrightarrow> starts_with b p \<Longrightarrow> starts_with a p"
proof (induction p arbitrary: a b)
  case (Cons c p)
  obtain y b' where b: "b = y # b'" using Cons.prems(3) by (cases b) auto
  obtain x a' where a: "a = x # a'" using Cons.prems(1) by (cases a) auto
  have "y = c" "starts_with b' p" using Cons.prems(3) b by auto
  with Cons.prems(1,2) a b have "x = c" "p \<le> a'" "a' \<le> b'" by (auto simp: Cons_le_Cons)
  with Cons.IH[of a' b'] \<open>starts_with b' p\<close> a show ?case by simp
qed simp

lemma takeWhile_starts:
  assumes "bt_wf m" "\<forall>e \<in> set m. p \<le> fst e"
  shows "takeWhile (\<lambda>e. starts_with (fst e) p) m = filter (\<lambda>e. starts_with (fst e) p) m"
  using assms
proof (induction m)
  case (Cons e m)
  show ?case
  proof (cases "starts_with (fst e) p")
    case False
    have "\<not> starts_with (fst x) p" if "x \<in> set m" for x
      using Cons.prems that False starts_with_between[of p "fst e" "fst x"] by (force simp: bt_wf_Cons)
    then have "filter (\<lambda>e. starts_with (fst e) p) m = []" by (auto simp: filter_empty_conv)
    with False show ?thesis by simp
  qed (use Cons in \<open>auto simp: bt_wf_Cons\<close>)
qed simp

lemma range_starts:
  "bt_wf m \<Longrightarrow> takeWhile (\<lambda>e. starts_with (fst e) p) (dropWhile (\<lambda>e. fst e < p) m) =
     filter (\<lambda>e. starts_with (fst e) p) m"
proof (induction m)
  case (Cons e m)
  show ?case
  proof (cases "fst e < p")
    case True
    then have "\<not> starts_with (fst e) p" using starts_with_ge by (meson not_le)
    with True Cons show ?thesis by (simp add: bt_wf_Cons)
  next
    case False
    then have "\<forall>x \<in> set (e # m). p \<le> fst x" using Cons.prems by (auto simp: bt_wf_Cons)
    with False Cons.prems takeWhile_starts[of "e # m" p] show ?thesis by simp
  qed
qed simp

lemma mem_list_page:
  assumes "bt_wf (mem_data s)"
  shows "mem_list prefix limit tok s =
    (if mem_unavailable s then Inl (Unavailable ''no quorum'') else Inr (page_of (mem_data s) prefix limit tok (mem_rev s)))"
proof -
  let ?xs = "matching (mem_data s) prefix tok"
  have "filter (\<lambda>e. after tok (fst e))
      (takeWhile (\<lambda>e. starts_with (fst e) prefix) (dropWhile (\<lambda>e. fst e < prefix) (mem_data s))) = ?xs"
    by (simp add: range_starts[OF assms] matching_def conj_commute)
  moreover have "(if 0 < length ?xs - length (cut limit ?xs)
      then if cut limit ?xs = [] then None else Some (fst (last (cut limit ?xs))) else None) = next_token limit ?xs"
    by (auto simp: cut_def next_token_def)
  ultimately show ?thesis by (simp add: mem_list_def page_of_def Let_def)
qed

section \<open>Paging\<close>

lemma sorted_filter_drop:
  assumes "bt_wf xs" "0 < n" "n \<le> length xs"
  shows "filter (\<lambda>x. fst (last (take n xs)) < fst x) xs = drop n xs"
  using assms
proof (induction xs arbitrary: n)
  case (Cons e xs)
  show ?case
  proof (cases "n = 1")
    case True
    have "filter (\<lambda>x. fst e < fst x) xs = xs" using Cons.prems by (auto simp: bt_wf_Cons filter_id_conv)
    with True show ?thesis by simp
  next
    case False
    then have n: "0 < n - 1" "n - 1 \<le> length xs" using Cons.prems by auto
    then have t: "take n (e # xs) = e # take (n - 1) xs" "take (n - 1) xs \<noteq> []" by (auto simp: take_Cons')
    have "last (take (n - 1) xs) \<in> set xs" using t(2) by (meson in_set_takeD last_in_set)
    then have "\<not> fst (last (take (n - 1) xs)) < fst e" using Cons.prems by (force simp: bt_wf_Cons)
    with Cons.IH[OF _ n] Cons.prems t False show ?thesis by (simp add: bt_wf_Cons drop_Cons')
  qed
qed simp

lemma bt_wf_matching [intro]: "bt_wf m \<Longrightarrow> bt_wf (matching m prefix tok)"
  unfolding bt_wf_def matching_def by (induction m) auto

text \<open>After a page, what is left is exactly what the next page starts with.\<close>

lemma matching_next:
  assumes "bt_wf m" "next_token limit (matching m prefix tok) = Some t"
  shows "matching m prefix (Some t) = drop limit (matching m prefix tok)"
    and "starts_with t prefix" and "0 < limit" and "limit < length (matching m prefix tok)"
proof -
  let ?xs = "matching m prefix tok"
  have l: "0 < limit" "limit < length ?xs" and t: "t = fst (last (take limit ?xs))"
    using assms(2) by (auto simp: next_token_def split: if_splits)
  show "0 < limit" "limit < length ?xs" by (fact l)+
  have "take limit ?xs \<noteq> []" using l by auto
  then have "last (take limit ?xs) \<in> set ?xs" by (meson in_set_takeD last_in_set)
  then have mem: "starts_with t prefix" "after tok t" unfolding t by (auto simp: matching_def)
  then have "matching m prefix (Some t) = filter (\<lambda>x. t < fst x) ?xs"
    by (auto simp: matching_def after_def filter_filter split: option.splits intro!: filter_cong)
  then show "matching m prefix (Some t) = drop limit ?xs"
    using sorted_filter_drop[OF bt_wf_matching[OF assms(1)], of limit prefix tok] l t by simp
  show "starts_with t prefix" by (fact mem(1))
qed

lemma page_continue [simp]:
  "lr_items (page_of m prefix limit tok r) = cut limit (matching m prefix tok)"
  "lr_continue (page_of m prefix limit tok r) = next_token limit (matching m prefix tok)"
  "lr_revision (page_of m prefix limit tok r) = r"
  by (simp_all add: page_of_def Let_def)

lemma next_token_None: "next_token limit xs = None \<Longrightarrow> cut limit xs = xs"
  by (auto simp: next_token_def cut_def split: if_splits)

section \<open>The contracts\<close>

text \<open>
  What the API server's storage layer relies on. \<open>wrote s k v s'\<close> and \<open>removed s k s'\<close>
  say that \<open>s'\<close> is \<open>s\<close> after one write or delete of \<open>k\<close>. A key's revision is
  positive and no newer than the store's; a write with an expected revision takes place only
  if that is the key's (0 where the key is absent). After \<open>Conflict\<close> nothing has changed;
  after any other error the operation may or may not have taken place.
\<close>

definition mod_rev :: "(string \<rightharpoonup> 'v \<times> nat) \<Rightarrow> string \<Rightarrow> nat" where
  "mod_rev m k = (case m k of Some (_, r) \<Rightarrow> r | None \<Rightarrow> 0)"

locale kv_store =
  fixes inv :: "'s \<Rightarrow> bool"
    and contents :: "'s \<Rightarrow> string \<rightharpoonup> 'v \<times> nat"
    and rev :: "'s \<Rightarrow> nat"
    and wrote :: "'s \<Rightarrow> string \<Rightarrow> 'v \<Rightarrow> 's \<Rightarrow> bool"
    and removed :: "'s \<Rightarrow> string \<Rightarrow> 's \<Rightarrow> bool"
    and get :: "string \<Rightarrow> 's \<Rightarrow> error + ('v \<times> nat) option"
    and put :: "string \<Rightarrow> 'v \<Rightarrow> nat option \<Rightarrow> 's \<Rightarrow> 's \<times> (error + nat)"
    and delete :: "string \<Rightarrow> nat option \<Rightarrow> 's \<Rightarrow> 's \<times> (error + nat)"
  assumes rev_pos: "inv s \<Longrightarrow> contents s k = Some (v, r) \<Longrightarrow> 0 < r \<and> r \<le> rev s"
    and wrote_effect: "inv s \<Longrightarrow> wrote s k v s' \<Longrightarrow>
      inv s' \<and> rev s < rev s' \<and> contents s' = (contents s)(k \<mapsto> (v, rev s'))"
    and removed_effect: "inv s \<Longrightarrow> removed s k s' \<Longrightarrow>
      inv s' \<and> rev s \<le> rev s' \<and> contents s' = (contents s)(k := None)"
    and get_ok: "inv s \<Longrightarrow> get k s = Inr x \<Longrightarrow> x = contents s k"
    and put_ok: "inv s \<Longrightarrow> put k v prev s = (s', Inr r) \<Longrightarrow> wrote s k v s' \<and> r = rev s' \<and>
      (\<forall>w < 2 ^ 63. prev = Some w \<longrightarrow> mod_rev (contents s) k = w)"
    and put_err: "inv s \<Longrightarrow> put k v prev s = (s', Inl e) \<Longrightarrow>
      s' = s \<and> (e = Conflict \<longrightarrow> (\<exists>w. prev = Some w \<and> mod_rev (contents s) k \<noteq> w)) \<or>
      e \<noteq> Conflict \<and> wrote s k v s' \<and> (\<forall>w < 2 ^ 63. prev = Some w \<longrightarrow> mod_rev (contents s) k = w)"
    and delete_ok: "inv s \<Longrightarrow> delete k prev s = (s', Inr r) \<Longrightarrow> removed s k s' \<and>
      (\<forall>w < 2 ^ 63. prev = Some w \<longrightarrow> mod_rev (contents s) k = w)"
    and delete_err: "inv s \<Longrightarrow> delete k prev s = (s', Inl e) \<Longrightarrow>
      s' = s \<or> e \<noteq> Conflict \<and> removed s k s' \<and> (\<forall>w < 2 ^ 63. prev = Some w \<longrightarrow> mod_rev (contents s) k = w)"

text \<open>
  A store that keeps its past: \<open>hist s r\<close> is the contents at revision \<open>r\<close>, which later
  writes do not change.
\<close>

locale kv_mvcc =
  fixes inv :: "'s \<Rightarrow> bool"
    and rev :: "'s \<Rightarrow> nat"
    and hist :: "'s \<Rightarrow> nat \<Rightarrow> (string, 'v \<times> nat) btree"
    and evolves :: "'s \<Rightarrow> 's \<Rightarrow> bool"
    and list_at :: "string \<Rightarrow> nat \<Rightarrow> string option \<Rightarrow> nat option \<Rightarrow> 's \<Rightarrow> error + 'v list_result"
  assumes hist_wf: "inv s \<Longrightarrow> r \<le> rev s \<Longrightarrow> bt_wf (hist s r)"
    and evolves_keeps: "inv s \<Longrightarrow> evolves s t \<Longrightarrow> inv t \<and> rev s \<le> rev t \<and> (\<forall>r \<le> rev s. hist t r = hist s r)"
    and rev_positive: "inv s \<Longrightarrow> 0 < rev s"
    and list_at_ok: "inv s \<Longrightarrow> prefix \<noteq> [] \<Longrightarrow> last prefix \<noteq> CHR 0xFF \<Longrightarrow> limit < 2 ^ 63 \<Longrightarrow>
      (\<forall>t. tok = Some t \<longrightarrow> starts_with t prefix) \<Longrightarrow> pinned \<noteq> Some 0 \<Longrightarrow>
      list_at prefix limit tok pinned s = Inr page \<Longrightarrow>
      (let r = (case pinned of Some r \<Rightarrow> r | None \<Rightarrow> rev s)
       in r \<le> rev s \<and> page = page_of (hist s r) prefix limit tok r)"

section \<open>MemStore keeps the first contract\<close>

definition mem_inv :: "'v mem_store \<Rightarrow> bool" where
  "mem_inv s \<longleftrightarrow> bt_wf (mem_data s) \<and> (\<forall>k v r. map_of (mem_data s) k = Some (v, r) \<longrightarrow> 0 < r \<and> r \<le> mem_rev s)"

definition mem_wrote :: "'v mem_store \<Rightarrow> string \<Rightarrow> 'v \<Rightarrow> 'v mem_store \<Rightarrow> bool" where
  "mem_wrote s k v s' \<longleftrightarrow>
     s' = s\<lparr>mem_rev := mem_rev s + 1, mem_data := bt_insert k (v, mem_rev s + 1) (mem_data s)\<rparr>"

definition mem_removed :: "'v mem_store \<Rightarrow> string \<Rightarrow> 'v mem_store \<Rightarrow> bool" where
  "mem_removed s k s' \<longleftrightarrow> s' = s\<lparr>mem_rev := mem_rev s + 1, mem_data := bt_remove k (mem_data s)\<rparr>"

lemma mem_wrote_inv: "mem_inv s \<Longrightarrow> mem_wrote s k v s' \<Longrightarrow> mem_inv s'"
  by (fastforce simp: mem_wrote_def mem_inv_def bt_simps split: if_splits)

lemma mem_removed_inv: "mem_inv s \<Longrightarrow> mem_removed s k s' \<Longrightarrow> mem_inv s'"
  by (fastforce simp: mem_removed_def mem_inv_def bt_simps split: if_splits)

interpretation mem: kv_store mem_inv "\<lambda>s. map_of (mem_data s)" mem_rev mem_wrote mem_removed mem_get mem_put mem_delete
proof
  fix s s' :: "'v mem_store" and k v prev r
  assume "mem_put k v prev s = (s', Inr r)"
  then show "mem_wrote s k v s' \<and> r = mem_rev s' \<and> (\<forall>w < 2 ^ 63. prev = Some w \<longrightarrow> mod_rev (map_of (mem_data s)) k = w)"
    by (auto simp: mem_put_def mem_wrote_def mod_rev_def Let_def split: if_splits option.splits)
next
  fix s s' :: "'v mem_store" and k v prev e
  assume "mem_put k v prev s = (s', Inl e)"
  then show "s' = s \<and> (e = Conflict \<longrightarrow> (\<exists>w. prev = Some w \<and> mod_rev (map_of (mem_data s)) k \<noteq> w)) \<or>
      e \<noteq> Conflict \<and> mem_wrote s k v s' \<and> (\<forall>w < 2 ^ 63. prev = Some w \<longrightarrow> mod_rev (map_of (mem_data s)) k = w)"
    by (auto simp: mem_put_def mod_rev_def Let_def split: if_splits option.splits)
next
  fix s s' :: "'v mem_store" and k prev r
  assume "mem_delete k prev s = (s', Inr r)"
  then show "mem_removed s k s' \<and> (\<forall>w < 2 ^ 63. prev = Some w \<longrightarrow> mod_rev (map_of (mem_data s)) k = w)"
    by (auto simp: mem_delete_def mem_removed_def mod_rev_def split: if_splits option.splits)
next
  fix s s' :: "'v mem_store" and k prev e
  assume "mem_delete k prev s = (s', Inl e)"
  then show "s' = s \<or> e \<noteq> Conflict \<and> mem_removed s k s' \<and> (\<forall>w < 2 ^ 63. prev = Some w \<longrightarrow> mod_rev (map_of (mem_data s)) k = w)"
    by (auto simp: mem_delete_def split: if_splits)
next
  fix s s' :: "'v mem_store" and k v
  assume "mem_inv s" and w: "mem_wrote s k v s'"
  then have "mem_inv s'" by (rule mem_wrote_inv)
  with w show "mem_inv s' \<and> mem_rev s < mem_rev s' \<and> map_of (mem_data s') = (map_of (mem_data s))(k \<mapsto> (v, mem_rev s'))"
    by (simp add: mem_wrote_def bt_simps)
next
  fix s s' :: "'v mem_store" and k
  assume "mem_inv s" and w: "mem_removed s k s'"
  then have "mem_inv s'" by (rule mem_removed_inv)
  with w show "mem_inv s' \<and> mem_rev s \<le> mem_rev s' \<and> map_of (mem_data s') = (map_of (mem_data s))(k := None)"
    by (simp add: mem_removed_def bt_simps)
next
  fix s :: "'v mem_store" and k v r
  assume "mem_inv s" "map_of (mem_data s) k = Some (v, r)"
  then show "0 < r \<and> r \<le> mem_rev s" by (simp add: mem_inv_def)
next
  fix s :: "'v mem_store" and k x
  assume "mem_get k s = Inr x"
  then show "x = map_of (mem_data s) k" by (simp add: mem_get_def split: if_splits)
qed

end
