(* ===== verification/ApiError.thy ===== *)
theory ApiError
  imports Store
begin

text \<open>
  \<^verbatim>\<open>pkg/apiserver/src/error.rs\<close>: the errors the API server answers with, the translation of
  store errors, and the shortening of a backend's message. Messages are UTF-8 bytes; a
  character is counted at its first byte.
\<close>

record api_error =
  ae_status :: nat
  ae_reason :: string
  ae_message :: string
  ae_continue :: "string option"
  ae_details :: "json option"

definition mk_error :: "nat \<Rightarrow> string \<Rightarrow> string \<Rightarrow> api_error" where
  "mk_error status reason message =
     \<lparr>ae_status = status, ae_reason = reason, ae_message = message, ae_continue = None, ae_details = None\<rparr>"

definition quoted :: "string \<Rightarrow> string" where
  "quoted s = CHR 0x22 # s @ [CHR 0x22]"

definition not_found :: "string \<Rightarrow> string \<Rightarrow> api_error" where
  "not_found resource name =
     (let (kind, group) = (case split_once CHR ''.'' resource of Some p \<Rightarrow> p | None \<Rightarrow> (resource, []))
      in (mk_error 404 ''NotFound'' (resource @ '' '' @ quoted name @ '' not found''))
           \<lparr>ae_details := Some (JObj [(''group'', JStr group), (''kind'', JStr kind), (''name'', JStr name)])\<rparr>)"

definition already_exists :: "string \<Rightarrow> string \<Rightarrow> api_error" where
  "already_exists resource name =
     mk_error 409 ''AlreadyExists'' (resource @ '' '' @ quoted name @ '' already exists'')"

definition is_already_exists :: "api_error \<Rightarrow> bool" where
  "is_already_exists e \<longleftrightarrow> ae_reason e = ''AlreadyExists''"

definition conflict :: "string \<Rightarrow> api_error" where
  "conflict message = mk_error 409 ''Conflict'' message"

definition bad_request :: "string \<Rightarrow> api_error" where
  "bad_request message = mk_error 400 ''BadRequest'' message"

definition invalid :: "string \<Rightarrow> api_error" where
  "invalid message = mk_error 422 ''Invalid'' message"

definition internal :: "string \<Rightarrow> api_error" where
  "internal message = mk_error 500 ''InternalError'' message"

definition gone :: "string \<Rightarrow> api_error" where
  "gone message = mk_error 410 ''Expired'' message"

definition unauthorized :: "string \<Rightarrow> api_error" where
  "unauthorized message = mk_error 401 ''Unauthorized'' message"

definition forbidden :: "string \<Rightarrow> api_error" where
  "forbidden message = mk_error 403 ''Forbidden'' message"

definition unavailable :: "string \<Rightarrow> api_error" where
  "unavailable message = mk_error 503 ''ServiceUnavailable'' message"

section \<open>Shortening a backend's message\<close>

definition MAX_CAUSE :: nat where
  "MAX_CAUSE = 160"

definition continuation_byte :: "char \<Rightarrow> bool" where
  "continuation_byte c \<longleftrightarrow> 128 \<le> (of_char c :: nat) \<and> (of_char c :: nat) < 192"

definition char_count :: "string \<Rightarrow> nat" where
  "char_count s = length (filter (\<lambda>c. \<not> continuation_byte c) s)"

fun take_chars :: "nat \<Rightarrow> string \<Rightarrow> string" where
  "take_chars n [] = []"
| "take_chars n (c # s) =
     (if continuation_byte c then c # take_chars n s
      else (case n of 0 \<Rightarrow> [] | Suc m \<Rightarrow> c # take_chars m s))"

definition trim_end :: "string \<Rightarrow> string" where
  "trim_end s = rev (dropWhile is_space (rev s))"

text \<open>The text after the last occurrence of a pattern.\<close>

fun after_last :: "string \<Rightarrow> string \<Rightarrow> string option" where
  "after_last pat [] = (if pat = [] then Some [] else None)"
| "after_last pat (c # s) =
     (case after_last pat s of
        Some t \<Rightarrow> Some t
      | None \<Rightarrow> if starts_with (c # s) pat then Some (drop (length pat) (c # s)) else None)"

definition first_line :: "string \<Rightarrow> string" where
  "first_line s =
     (let l = takeWhile (\<lambda>c. c \<noteq> CHR 0x0A) s
      in if length l < length s \<and> l \<noteq> [] \<and> last l = CHR 0x0D then butlast l else l)"

definition condense :: "string \<Rightarrow> string" where
  "condense cause0 =
     (let cause = trim cause0;
          first = first_line cause;
          core = (case after_last ''source: '' first of
                    Some tail \<Rightarrow>
                      trim_end_matches CHR '','' (trim (case split_at_sub '', backtrace:'' tail of
                        Some (a, _) \<Rightarrow> a | None \<Rightarrow> tail))
                  | None \<Rightarrow> first)
      in if char_count core \<le> MAX_CAUSE then core
         else trim_end (take_chars MAX_CAUSE core) @ [CHR 0xE2, CHR 0x80, CHR 0xA6])"

section \<open>Store errors\<close>

fun error_text :: "error \<Rightarrow> string" where
  "error_text (NotFound m) = ''not found: '' @ m"
| "error_text (AlreadyExists m) = ''already exists: '' @ m"
| "error_text Conflict = ''conflict: resource version mismatch''"
| "error_text (Gone r) = ''gone: resource version '' @ show_nat r @ '' has been compacted''"
| "error_text (Invalid m) = ''invalid: '' @ m"
| "error_text (Unauthorized m) = ''unauthorized: '' @ m"
| "error_text (Forbidden m) = ''forbidden: '' @ m"
| "error_text (Internal m) = ''internal: '' @ m"
| "error_text (Serialization m) = ''serialization: '' @ m"
| "error_text (Io m) = ''io: '' @ m"
| "error_text (StoreError m) = ''store: '' @ m"
| "error_text (Unavailable m) = ''datastore unavailable: '' @ m"
| "error_text (Raft m) = ''raft: '' @ m"
| "error_text (Tls m) = ''tls: '' @ m"

fun api_error_from :: "error \<Rightarrow> api_error" where
  "api_error_from (NotFound m) = mk_error 404 ''NotFound'' m"
| "api_error_from (AlreadyExists m) = mk_error 409 ''AlreadyExists'' m"
| "api_error_from Conflict = conflict ''resource version mismatch''"
| "api_error_from (Gone r) = gone (''resource version '' @ show_nat r @ '' has been compacted'')"
| "api_error_from (Unauthorized m) = mk_error 401 ''Unauthorized'' m"
| "api_error_from (Forbidden m) = mk_error 403 ''Forbidden'' m"
| "api_error_from (Invalid m) = invalid m"
| "api_error_from (Unavailable cause) = unavailable (''datastore unavailable: '' @ condense cause)"
| "api_error_from e = internal (error_text e)"

text \<open>The \<^verbatim>\<open>Status\<close> body of a response.\<close>

definition status_body :: "api_error \<Rightarrow> json" where
  "status_body e =
     JObj ([(''apiVersion'', JStr ''v1''), (''code'', JNum (NInt (int (ae_status e))))] @
           (case ae_details e of Some d \<Rightarrow> [(''details'', d)] | None \<Rightarrow> []) @
           [(''kind'', JStr ''Status''), (''message'', JStr (ae_message e)),
            (''metadata'', case ae_continue e of Some t \<Rightarrow> JObj [(''continue'', JStr t)] | None \<Rightarrow> JObj []),
            (''reason'', JStr (ae_reason e)), (''status'', JStr ''Failure'')])"

text \<open>The response: status, headers, body.\<close>

definition into_response :: "api_error \<Rightarrow> nat \<times> (string \<times> string) list \<times> json" where
  "into_response e =
     (ae_status e,
      (''content-type'', ''application/json'') # (if ae_status e = 503 then [(''retry-after'', ''1'')] else []),
      status_body e)"

section \<open>Properties\<close>

lemma char_count_append [simp]: "char_count (s @ t) = char_count s + char_count t"
  by (simp add: char_count_def)

lemma char_count_take: "char_count (take_chars n s) \<le> n"
  by (induction n s rule: take_chars.induct) (auto simp: char_count_def split: nat.splits)

lemma char_count_trim_end: "char_count (trim_end s) \<le> char_count s"
proof -
  have "rev s = takeWhile is_space (rev s) @ dropWhile is_space (rev s)" by simp
  then have "s = rev (dropWhile is_space (rev s)) @ rev (takeWhile is_space (rev s))" by (metis rev_append rev_rev_ident)
  then show ?thesis unfolding trim_end_def by (metis char_count_append le_add1)
qed

text \<open>
  A client never sees more than 161 characters of a datastore's own message: whatever
  the cause, its shortened form has at most \<open>MAX_CAUSE\<close> characters and an ellipsis, and a
  short cause without a chain is kept as it is.
\<close>

theorem condense_bounded:
  "char_count (condense cause) \<le> 161 \<and>
   (after_last ''source: '' (first_line (trim cause)) = None \<longrightarrow> char_count (first_line (trim cause)) \<le> 160 \<longrightarrow>
      condense cause = first_line (trim cause))"
proof -
  have "char_count (trim_end (take_chars 160 s)) \<le> 160" for s
    using char_count_trim_end char_count_take by (rule order_trans)
  moreover have "char_count [CHR 0xE2, CHR 0x80, CHR 0xA6] = 1"
    by (simp add: char_count_def continuation_byte_def)
  ultimately have "char_count (trim_end (take_chars 160 s) @ [CHR 0xE2, CHR 0x80, CHR 0xA6]) \<le> 161" for s
    by (metis add_mono_thms_linordered_semiring(3) char_count_append numeral_plus_one semiring_norm(5))
  then show ?thesis by (auto simp: condense_def MAX_CAUSE_def Let_def)
qed

theorem condense_bounded_witness: "condense ''no space left'' = ''no space left''"
proof -
  have "trim ''no space left'' = ''no space left''" by (simp add: trim_def is_space_def)
  moreover have "first_line ''no space left'' = ''no space left''" by (simp add: first_line_def)
  moreover have "after_last ''source: '' ''no space left'' = None" by (simp add: starts_with_def)
  ultimately show ?thesis using condense_bounded[of "''no space left''"]
    by (simp add: char_count_def continuation_byte_def)
qed

end
