(* ===== verification/Etcd.thy ===== *)
theory Etcd
  imports Store
begin

text \<open>
  \<^verbatim>\<open>pkg/storage/src/adapter.rs\<close>: the \<^verbatim>\<open>KvStore\<close> over an etcd v3 server. The server is not part
  of the program: its Range, Put, DeleteRange and Txn calls are arguments of the operations
  below, and the locale \<open>etcd\<close> states what its API documentation promises of them. From
  those promises the adapter satisfies both store contracts. The connection set-up, leases and
  the text of error messages are not modelled.
\<close>

section \<open>The server's interface\<close>

record 'v kv =
  kv_value :: 'v
  kv_create :: int
  kv_mod :: int
  kv_version :: int

record 'v range_response =
  rr_kvs :: "(string \<times> 'v kv) list"
  rr_more :: bool
  rr_count :: int
  rr_header :: "int option"

text \<open>Failures by gRPC status: unavailable (also transport failures), compacted, anything else.\<close>

datatype etcd_failure = EUnavailable string | ECompacted string | EOther string

datatype 'v txn_op = OpPut string 'v | OpDelete string | OpGet string

datatype compare = ModRevision string int | Version string int

record 'v txn_response =
  tr_succeeded :: bool
  tr_header :: "int option"
  tr_gets :: "(string \<times> 'v kv) list list"

type_synonym ('s, 'v) range_call = "string \<Rightarrow> string option \<Rightarrow> int \<Rightarrow> int option \<Rightarrow> 's \<Rightarrow> etcd_failure + 'v range_response"
type_synonym ('s, 'v) txn_call =
  "compare list \<Rightarrow> 'v txn_op list \<Rightarrow> 'v txn_op list \<Rightarrow> 's \<Rightarrow> 's \<times> (etcd_failure + 'v txn_response)"
type_synonym ('s, 'v) put_call = "string \<Rightarrow> 'v \<Rightarrow> 's \<Rightarrow> 's \<times> (etcd_failure + int option)"
type_synonym 's delete_call = "string \<Rightarrow> 's \<Rightarrow> 's \<times> (etcd_failure + int option)"

section \<open>The adapter\<close>

text \<open>\<open>x as u64\<close> of a 64-bit signed integer, and \<open>n as i64\<close> back.\<close>

definition to_u64 :: "int \<Rightarrow> nat" where
  "to_u64 i = nat (i mod 2 ^ 64)"

definition to_i64 :: "nat \<Rightarrow> int" where
  "to_i64 n = (int n + 2 ^ 63) mod 2 ^ 64 - 2 ^ 63"

fun etcd_err :: "etcd_failure \<Rightarrow> error" where
  "etcd_err (EUnavailable m) = Unavailable m"
| "etcd_err (ECompacted m) = StoreError m"
| "etcd_err (EOther m) = StoreError m"

fun is_compacted :: "etcd_failure \<Rightarrow> bool" where
  "is_compacted (ECompacted m) = True"
| "is_compacted _ = False"

definition byte_succ :: "char \<Rightarrow> char" where
  "byte_succ c = char_of ((of_char c + 1 :: nat) mod 256)"

definition prefix_range_end :: "string \<Rightarrow> string" where
  "prefix_range_end prefix =
     (if prefix = [] then [CHR 0x00]
      else butlast prefix @ [byte_succ (last prefix)])"

definition header_rev :: "int option \<Rightarrow> nat" where
  "header_rev h = (case h of Some i \<Rightarrow> to_u64 i | None \<Rightarrow> 0)"

definition etcd_get :: "('s, 'v) range_call \<Rightarrow> string \<Rightarrow> 's \<Rightarrow> error + ('v \<times> nat) option" where
  "etcd_get range_fn key s =
     (case range_fn key None 0 None s of
        Inl e \<Rightarrow> Inl (etcd_err e)
      | Inr resp \<Rightarrow>
          Inr (case rr_kvs resp of [] \<Rightarrow> None | (_, x) # _ \<Rightarrow> Some (kv_value x, to_u64 (kv_mod x))))"

definition etcd_put ::
    "('s, 'v) put_call \<Rightarrow> ('s, 'v) txn_call \<Rightarrow> string \<Rightarrow> 'v \<Rightarrow> nat option \<Rightarrow> 's \<Rightarrow> 's \<times> (error + nat)" where
  "etcd_put put_fn txn_fn key v prev s =
     (case prev of
        Some expected_rev \<Rightarrow>
          (case txn_fn [ModRevision key (to_i64 expected_rev)] [OpPut key v] [] s of
             (s', Inl e) \<Rightarrow> (s', Inl (etcd_err e))
           | (s', Inr resp) \<Rightarrow>
               if \<not> tr_succeeded resp then (s', Inl Conflict) else (s', Inr (header_rev (tr_header resp))))
      | None \<Rightarrow>
          (case put_fn key v s of
             (s', Inl e) \<Rightarrow> (s', Inl (etcd_err e))
           | (s', Inr h) \<Rightarrow> (s', Inr (header_rev h))))"

definition etcd_delete ::
    "'s delete_call \<Rightarrow> ('s, 'v) txn_call \<Rightarrow> string \<Rightarrow> nat option \<Rightarrow> 's \<Rightarrow> 's \<times> (error + nat)" where
  "etcd_delete delete_fn txn_fn key prev s =
     (case prev of
        Some expected_rev \<Rightarrow>
          (case txn_fn [ModRevision key (to_i64 expected_rev)] [OpDelete key] [] s of
             (s', Inl e) \<Rightarrow> (s', Inl (etcd_err e))
           | (s', Inr resp) \<Rightarrow>
               if \<not> tr_succeeded resp then (s', Inl Conflict) else (s', Inr (header_rev (tr_header resp))))
      | None \<Rightarrow>
          (case delete_fn key s of
             (s', Inl e) \<Rightarrow> (s', Inl (etcd_err e))
           | (s', Inr h) \<Rightarrow> (s', Inr (header_rev h))))"

definition etcd_list_at ::
    "('s, 'v) range_call \<Rightarrow> string \<Rightarrow> nat \<Rightarrow> string option \<Rightarrow> nat option \<Rightarrow> 's \<Rightarrow> error + 'v list_result" where
  "etcd_list_at range_fn prefix limit tok pinned s =
     (let start_key = (case tok of Some t \<Rightarrow> t @ [CHR 0x00] | None \<Rightarrow> prefix)
      in if (case pinned of Some r \<Rightarrow> 2 ^ 63 \<le> r | None \<Rightarrow> False)
         then Inl (Invalid ''revision out of range'')
         else
           (case range_fn start_key (Some (prefix_range_end prefix)) (to_i64 limit) (map_option int pinned) s of
              Inl e \<Rightarrow>
                (case pinned of
                   Some r \<Rightarrow> if is_compacted e then Inl (Gone r) else Inl (etcd_err e)
                 | None \<Rightarrow> Inl (etcd_err e))
            | Inr resp \<Rightarrow>
                (let revision = (case pinned of Some r \<Rightarrow> r | None \<Rightarrow> header_rev (rr_header resp));
                     items = map (\<lambda>(k, x). (k, kv_value x, to_u64 (kv_mod x))) (rr_kvs resp)
                 in Inr \<lparr>lr_items = items,
                         lr_continue = (if rr_more resp
                                        then (if items = [] then None else Some (fst (last items))) else None),
                         lr_revision = revision,
                         lr_remaining = Some (nat (max 0 (rr_count resp)) - length items)\<rparr>)))"

definition etcd_list ::
    "('s, 'v) range_call \<Rightarrow> string \<Rightarrow> nat \<Rightarrow> string option \<Rightarrow> 's \<Rightarrow> error + 'v list_result" where
  "etcd_list range_fn prefix limit tok s = etcd_list_at range_fn prefix limit tok None s"

definition etcd_compact :: "(int \<Rightarrow> 's \<Rightarrow> 's \<times> (etcd_failure + unit)) \<Rightarrow> nat \<Rightarrow> 's \<Rightarrow> 's \<times> (error + unit)" where
  "etcd_compact compact_fn revision s =
     (case compact_fn (to_i64 revision) s of
        (s', Inr _) \<Rightarrow> (s', Inr ())
      | (s', Inl e) \<Rightarrow> if is_compacted e then (s', Inr ()) else (s', Inl (etcd_err e)))"

definition etcd_compact_claim ::
    "('s, 'v) txn_call \<Rightarrow> string \<Rightarrow> int \<Rightarrow> 'v \<Rightarrow> 's \<Rightarrow> 's \<times> (error + bool \<times> int \<times> nat)" where
  "etcd_compact_claim txn_fn key seen v s =
     (case txn_fn [Version key seen] [OpPut key v] [OpGet key] s of
        (s', Inl e) \<Rightarrow> (s', Inl (etcd_err e))
      | (s', Inr resp) \<Rightarrow>
          (let revision = header_rev (tr_header resp)
           in if tr_succeeded resp then (s', Inr (True, seen + 1, revision))
              else
                (let found = (case concat (tr_gets resp) of [] \<Rightarrow> 0 | (_, x) # _ \<Rightarrow> kv_version x)
                 in (s', Inr (False, found, revision)))))"

text \<open>The watch's translation of one server event.\<close>

datatype 'v server_event = ServerPut string "'v kv" | ServerDelete string int | ServerNoKv

fun etcd_event :: "'v server_event \<Rightarrow> 'v watch_event option" where
  "etcd_event (ServerPut key x) =
     Some (if kv_create x = kv_mod x then Added key (kv_value x) (to_u64 (kv_mod x))
           else Modified key (kv_value x) (to_u64 (kv_mod x)) None)"
| "etcd_event (ServerDelete key r) = Some (Deleted key (to_u64 r) None)"
| "etcd_event ServerNoKv = None"

text \<open>
  The responses of the watch stream: a cancelled or compacted one ends the stream with an
  error, the end of the stream or a transport error just ends it.
\<close>

datatype 'v watch_response = Canceled "int" | Events "'v server_event list" | StreamEnd

fun etcd_watch :: "'v watch_response list \<Rightarrow> 'v watch_event list" where
  "etcd_watch [] = []"
| "etcd_watch (Canceled compact_rev # rs) =
     [WatchError (if 0 < compact_rev then 410 else 503)
        (if 0 < compact_rev then ''watch history compacted'' else ''datastore cancelled watch'')
        (to_u64 (max 0 compact_rev))]"
| "etcd_watch (Events es # rs) = List.map_filter etcd_event es @ etcd_watch rs"
| "etcd_watch (StreamEnd # rs) = []"

section \<open>Key ranges\<close>

lemma to_u64_small [simp]: "0 \<le> i \<Longrightarrow> i < 2 ^ 64 \<Longrightarrow> to_u64 i = nat i"
  by (simp add: to_u64_def)

lemma to_i64_small [simp]: "n < 2 ^ 63 \<Longrightarrow> to_i64 n = int n"
  by (simp add: to_i64_def)

text \<open>Resuming at the last key with a zero byte appended is resuming after it.\<close>

lemma after_token: "t @ [CHR 0x00] \<le> k \<longleftrightarrow> t < k"
proof (induction t arbitrary: k)
  case Nil
  have "CHR 0x00 < c \<or> CHR 0x00 = c" for c by (simp add: less_eq_char_def flip: le_less)
  then show ?case by (cases k) (auto simp: Cons_le_Cons)
next
  case (Cons c t)
  then show ?case by (cases k) (auto simp: Cons_le_Cons)
qed

lemma byte_succ_less:
  assumes "c \<noteq> CHR 0xFF"
  shows "x < byte_succ c \<longleftrightarrow> x \<le> c"
proof -
  have "char_of (255 :: nat) = CHR 0xFF" by (simp add: char_of_def bit_simps)
  then have "(of_char c :: nat) \<noteq> 255" using assms by (metis char_of_char)
  moreover have "(of_char c :: nat) < 256" by simp
  ultimately have "of_char c + 1 < (256 :: nat)" by linarith
  then have "of_char (byte_succ c) = (of_char c + 1 :: nat)" by (simp add: byte_succ_def)
  then show ?thesis by (simp add: less_char_def less_eq_char_def less_Suc_eq_le)
qed

text \<open>
  The range the adapter asks for is exactly the keys under the prefix (a prefix is UTF-8, so
  it does not end in the byte \<open>0xFF\<close>).
\<close>

lemma prefix_range:
  assumes "prefix \<noteq> []" "last prefix \<noteq> CHR 0xFF"
  shows "prefix \<le> k \<and> k < prefix_range_end prefix \<longleftrightarrow> starts_with k prefix"
  using assms
proof (induction prefix arbitrary: k)
  case (Cons c p)
  show ?case
  proof (cases p)
    case Nil
    then show ?thesis using Cons.prems
      by (cases k) (auto simp: prefix_range_end_def byte_succ_less Cons_le_Cons)
  next
    case p: (Cons d q)
    have e: "prefix_range_end (c # p) = c # prefix_range_end p" using p by (simp add: prefix_range_end_def)
    have ih: "p \<le> k' \<and> k' < prefix_range_end p \<longleftrightarrow> starts_with k' p" for k'
      using Cons.IH[of k'] Cons.prems p by simp
    show ?thesis unfolding e by (cases k) (auto simp: Cons_le_Cons ih[symmetric])
  qed
qed simp

section \<open>What the server promises\<close>

text \<open>
  The API documentation: a Range reads the keys of a half-open interval at the current or at
  a given revision, in key order, cut at a positive limit, with the count of all of them and
  the current revision in the header; Put and a successful Txn make one new revision, a
  delete of an absent key none; a Txn's writes take place if and only if its comparisons
  hold, an absent key having modification revision 0. A call that fails may still have taken
  place.
\<close>

locale etcd =
  fixes e_inv :: "'s \<Rightarrow> bool"
    and e_rev :: "'s \<Rightarrow> nat"
    and e_hist :: "'s \<Rightarrow> nat \<Rightarrow> (string, 'v kv) btree"
    and e_evolves :: "'s \<Rightarrow> 's \<Rightarrow> bool"
    and e_wrote :: "'s \<Rightarrow> string \<Rightarrow> 'v \<Rightarrow> 's \<Rightarrow> bool"
    and e_removed :: "'s \<Rightarrow> string \<Rightarrow> 's \<Rightarrow> bool"
    and range_fn :: "('s, 'v) range_call"
    and put_fn :: "('s, 'v) put_call"
    and delete_fn :: "'s delete_call"
    and txn_fn :: "('s, 'v) txn_call"
  assumes rev_range: "e_inv s \<Longrightarrow> 0 < e_rev s \<and> e_rev s < 2 ^ 63"
    and e_hist_wf: "e_inv s \<Longrightarrow> r \<le> e_rev s \<Longrightarrow> bt_wf (e_hist s r)"
    and e_hist_mod: "e_inv s \<Longrightarrow> r \<le> e_rev s \<Longrightarrow> (k, x) \<in> set (e_hist s r) \<Longrightarrow> 0 < kv_mod x \<and> kv_mod x \<le> int r"
    and e_evolves_keeps: "e_inv s \<Longrightarrow> e_evolves s t \<Longrightarrow>
      e_inv t \<and> e_rev s \<le> e_rev t \<and> (\<forall>r \<le> e_rev s. e_hist t r = e_hist s r)"
    and e_wrote_effect: "e_inv s \<Longrightarrow> e_wrote s k v s' \<Longrightarrow> e_inv s' \<and> e_rev s' = e_rev s + 1 \<and>
      (\<exists>x. kv_value x = v \<and> kv_mod x = int (e_rev s') \<and>
         map_of (e_hist s' (e_rev s')) = (map_of (e_hist s (e_rev s)))(k \<mapsto> x))"
    and e_removed_effect: "e_inv s \<Longrightarrow> e_removed s k s' \<Longrightarrow> e_inv s' \<and> e_rev s \<le> e_rev s' \<and>
      map_of (e_hist s' (e_rev s')) = (map_of (e_hist s (e_rev s)))(k := None)"
    and range_one: "e_inv s \<Longrightarrow> range_fn key None 0 None s = Inr resp \<Longrightarrow>
      rr_kvs resp = (case map_of (e_hist s (e_rev s)) key of None \<Rightarrow> [] | Some x \<Rightarrow> [(key, x)])"
    and range_many: "e_inv s \<Longrightarrow> start \<noteq> [] \<Longrightarrow> 0 \<le> limit \<Longrightarrow> at \<noteq> Some 0 \<Longrightarrow>
      range_fn start (Some fin) limit at s = Inr resp \<Longrightarrow>
      (let r = (case at of Some i \<Rightarrow> nat i | None \<Rightarrow> e_rev s);
           xs = filter (\<lambda>e. start \<le> fst e \<and> fst e < fin) (e_hist s r)
       in r \<le> e_rev s \<and> rr_kvs resp = cut (nat limit) xs \<and> (rr_more resp \<longleftrightarrow> next_token (nat limit) xs \<noteq> None) \<and>
          rr_count resp = int (length xs) \<and> rr_header resp = Some (int (e_rev s)))"
    and put_done: "e_inv s \<Longrightarrow> put_fn k v s = (s', Inr h) \<Longrightarrow> e_wrote s k v s' \<and> h = Some (int (e_rev s'))"
    and put_failed: "e_inv s \<Longrightarrow> put_fn k v s = (s', Inl e) \<Longrightarrow> s' = s \<or> e_wrote s k v s'"
    and delete_done: "e_inv s \<Longrightarrow> delete_fn k s = (s', Inr h) \<Longrightarrow> e_removed s k s'"
    and delete_failed: "e_inv s \<Longrightarrow> delete_fn k s = (s', Inl e) \<Longrightarrow> s' = s \<or> e_removed s k s'"
    and txn_put: "e_inv s \<Longrightarrow> txn_fn [ModRevision k w] [OpPut k v] [] s = (s', res) \<Longrightarrow>
      (let ok = ((case map_of (e_hist s (e_rev s)) k of Some x \<Rightarrow> kv_mod x | None \<Rightarrow> 0) = w)
       in case res of
            Inr resp \<Rightarrow> (tr_succeeded resp \<longleftrightarrow> ok) \<and>
              (if ok then e_wrote s k v s' \<and> tr_header resp = Some (int (e_rev s')) else s' = s)
          | Inl e \<Rightarrow> s' = s \<or> ok \<and> e_wrote s k v s')"
    and txn_delete: "e_inv s \<Longrightarrow> txn_fn [ModRevision k w] [OpDelete k] [] s = (s', res) \<Longrightarrow>
      (let ok = ((case map_of (e_hist s (e_rev s)) k of Some x \<Rightarrow> kv_mod x | None \<Rightarrow> 0) = w)
       in case res of
            Inr resp \<Rightarrow> (tr_succeeded resp \<longleftrightarrow> ok) \<and> (if ok then e_removed s k s' else s' = s)
          | Inl e \<Rightarrow> s' = s \<or> ok \<and> e_removed s k s')"

text \<open>The store's view of the server's keys.\<close>

definition kv_view :: "'v kv \<Rightarrow> 'v \<times> nat" where
  "kv_view x = (kv_value x, to_u64 (kv_mod x))"

definition hist_view :: "(string, 'v kv) btree \<Rightarrow> (string, 'v \<times> nat) btree" where
  "hist_view m = map (\<lambda>(k, x). (k, kv_view x)) m"

lemma map_of_hist_view: "map_of (hist_view m) k = map_option kv_view (map_of m k)"
  by (induction m) (auto simp: hist_view_def)

lemma hist_view_wf [simp]: "bt_wf (hist_view m) = bt_wf m"
  by (simp add: bt_wf_def hist_view_def comp_def case_prod_beta)

lemma filter_hist_view: "filter (\<lambda>e. P (fst e)) (hist_view m) = hist_view (filter (\<lambda>e. P (fst e)) m)"
  by (induction m) (auto simp: hist_view_def)

lemma cut_hist_view: "cut n (hist_view m) = hist_view (cut n m)"
  by (simp add: cut_def hist_view_def take_map)

lemma next_token_hist_view: "next_token n (hist_view m) = next_token n m"
proof (cases "n \<noteq> 0 \<and> n < length m")
  case True
  then have "take n m \<noteq> []" by auto
  then have "fst (last (map (\<lambda>(k, x). (k, kv_view x)) (take n m))) = fst (last (take n m))"
    by (simp add: last_map case_prod_beta)
  with True show ?thesis by (simp add: next_token_def hist_view_def take_map)
qed (auto simp: next_token_def hist_view_def)

section \<open>The adapter keeps both contracts\<close>

context etcd
begin

lemma mod_rev_view:
  assumes "e_inv s"
  shows "int (mod_rev (map_of (hist_view (e_hist s (e_rev s)))) k) =
    (case map_of (e_hist s (e_rev s)) k of Some x \<Rightarrow> kv_mod x | None \<Rightarrow> 0)"
proof (cases "map_of (e_hist s (e_rev s)) k")
  case (Some x)
  then have "0 < kv_mod x" "kv_mod x \<le> int (e_rev s)" using e_hist_mod[OF assms le_refl map_of_SomeD] by blast+
  with rev_range[OF assms] Some show ?thesis by (simp add: mod_rev_def map_of_hist_view kv_view_def)
qed (simp add: mod_rev_def map_of_hist_view)

lemma cas_view:
  assumes "e_inv s"
  shows "(case map_of (e_hist s (e_rev s)) k of Some x \<Rightarrow> kv_mod x | None \<Rightarrow> 0) = to_i64 w \<Longrightarrow> w < 2 ^ 63 \<Longrightarrow>
      mod_rev (map_of (hist_view (e_hist s (e_rev s)))) k = w"
    and "(case map_of (e_hist s (e_rev s)) k of Some x \<Rightarrow> kv_mod x | None \<Rightarrow> 0) \<noteq> to_i64 w \<Longrightarrow>
      mod_rev (map_of (hist_view (e_hist s (e_rev s)))) k \<noteq> w"
proof -
  let ?m = "mod_rev (map_of (hist_view (e_hist s (e_rev s)))) k"
  have "?m < 2 ^ 63"
  proof (cases "map_of (e_hist s (e_rev s)) k")
    case (Some x)
    then have "kv_mod x \<le> int (e_rev s)" using e_hist_mod[OF assms le_refl map_of_SomeD] by blast
    with rev_range[OF assms] mod_rev_view[OF assms, of k] Some show ?thesis by simp
  qed (simp add: mod_rev_def map_of_hist_view)
  then have i: "to_i64 ?m = int ?m" by simp
  show "(case map_of (e_hist s (e_rev s)) k of Some x \<Rightarrow> kv_mod x | None \<Rightarrow> 0) = to_i64 w \<Longrightarrow> w < 2 ^ 63 \<Longrightarrow> ?m = w"
    using mod_rev_view[OF assms, of k] by simp
  show "(case map_of (e_hist s (e_rev s)) k of Some x \<Rightarrow> kv_mod x | None \<Rightarrow> 0) \<noteq> to_i64 w \<Longrightarrow> ?m \<noteq> w"
    using mod_rev_view[OF assms, of k] i by auto
qed

lemma etcd_put_ok:
  assumes "e_inv s" "etcd_put put_fn txn_fn k v prev s = (s', Inr r)"
  shows "e_wrote s k v s' \<and> r = e_rev s' \<and>
    (\<forall>w < 2 ^ 63. prev = Some w \<longrightarrow> mod_rev (map_of (hist_view (e_hist s (e_rev s)))) k = w)"
proof -
  have h: "header_rev (Some (int (e_rev t))) = e_rev t" if "e_inv t" for t
    using rev_range[OF that] by (simp add: header_rev_def)
  show ?thesis
  proof (cases prev)
    case None
    with assms obtain hd where "put_fn k v s = (s', Inr hd)" "r = header_rev hd"
      by (auto simp: etcd_put_def split: prod.splits sum.splits)
    with put_done[OF assms(1)] have w: "e_wrote s k v s'" "r = header_rev (Some (int (e_rev s')))" by auto
    moreover have "e_inv s'" using e_wrote_effect[OF assms(1) w(1)] by simp
    ultimately show ?thesis using h None by simp
  next
    case (Some w)
    with assms(2) obtain resp where t: "txn_fn [ModRevision k (to_i64 w)] [OpPut k v] [] s = (s', Inr resp)"
      "tr_succeeded resp" "r = header_rev (tr_header resp)"
      by (auto simp: etcd_put_def split: prod.splits sum.splits if_splits)
    from txn_put[OF assms(1) t(1)] t(2) have
      "(case map_of (e_hist s (e_rev s)) k of Some x \<Rightarrow> kv_mod x | None \<Rightarrow> 0) = to_i64 w"
      "e_wrote s k v s'" "tr_header resp = Some (int (e_rev s'))" by (simp_all add: Let_def)
    moreover have "e_inv s'" using e_wrote_effect[OF assms(1) \<open>e_wrote s k v s'\<close>] by simp
    ultimately show ?thesis using cas_view(1)[OF assms(1)] h t(3) Some by auto
  qed
qed

lemma etcd_put_err:
  assumes "e_inv s" "etcd_put put_fn txn_fn k v prev s = (s', Inl e)"
  shows "s' = s \<and> (e = Conflict \<longrightarrow> (\<exists>w. prev = Some w \<and> mod_rev (map_of (hist_view (e_hist s (e_rev s)))) k \<noteq> w)) \<or>
    e \<noteq> Conflict \<and> e_wrote s k v s' \<and>
      (\<forall>w < 2 ^ 63. prev = Some w \<longrightarrow> mod_rev (map_of (hist_view (e_hist s (e_rev s)))) k = w)"
proof (cases prev)
  case None
  with assms(2) obtain f where "put_fn k v s = (s', Inl f)" "e = etcd_err f"
    by (auto simp: etcd_put_def split: prod.splits sum.splits)
  with put_failed[OF assms(1)] None show ?thesis by (cases f) auto
next
  case (Some w)
  obtain res where t: "txn_fn [ModRevision k (to_i64 w)] [OpPut k v] [] s = (s', res)"
    and r: "(\<exists>f. res = Inl f \<and> e = etcd_err f) \<or> (\<exists>x. res = Inr x \<and> \<not> tr_succeeded x \<and> e = Conflict)"
    using assms(2) Some by (auto simp: etcd_put_def split: prod.splits sum.splits if_splits)
  from r show ?thesis
  proof (elim disjE exE conjE)
    fix f assume f: "res = Inl f" "e = etcd_err f"
    from txn_put[OF assms(1) t] f(1) have "s' = s \<or>
      (case map_of (e_hist s (e_rev s)) k of Some x \<Rightarrow> kv_mod x | None \<Rightarrow> 0) = to_i64 w \<and> e_wrote s k v s'"
      by (simp add: Let_def)
    with cas_view(1)[OF assms(1)] Some f(2) show ?thesis by (cases f) auto
  next
    fix x assume x: "res = Inr x" "\<not> tr_succeeded x" "e = Conflict"
    from txn_put[OF assms(1) t] x have "s' = s"
      "(case map_of (e_hist s (e_rev s)) k of Some x \<Rightarrow> kv_mod x | None \<Rightarrow> 0) \<noteq> to_i64 w"
      by (auto simp: Let_def split: if_splits)
    with cas_view(2)[OF assms(1)] Some show ?thesis by auto
  qed
qed

lemma etcd_delete_ok:
  assumes "e_inv s" "etcd_delete delete_fn txn_fn k prev s = (s', Inr r)"
  shows "e_removed s k s' \<and>
    (\<forall>w < 2 ^ 63. prev = Some w \<longrightarrow> mod_rev (map_of (hist_view (e_hist s (e_rev s)))) k = w)"
proof (cases prev)
  case None
  with assms obtain hd where "delete_fn k s = (s', Inr hd)"
    by (auto simp: etcd_delete_def split: prod.splits sum.splits)
  with delete_done[OF assms(1)] None show ?thesis by auto
next
  case (Some w)
  with assms(2) obtain resp where t: "txn_fn [ModRevision k (to_i64 w)] [OpDelete k] [] s = (s', Inr resp)" "tr_succeeded resp"
    by (auto simp: etcd_delete_def split: prod.splits sum.splits if_splits)
  from txn_delete[OF assms(1) t(1)] t(2) have
    "(case map_of (e_hist s (e_rev s)) k of Some x \<Rightarrow> kv_mod x | None \<Rightarrow> 0) = to_i64 w" "e_removed s k s'"
    by (simp_all add: Let_def)
  with cas_view(1)[OF assms(1)] Some show ?thesis by auto
qed

lemma etcd_delete_err:
  assumes "e_inv s" "etcd_delete delete_fn txn_fn k prev s = (s', Inl e)"
  shows "s' = s \<or> e \<noteq> Conflict \<and> e_removed s k s' \<and>
    (\<forall>w < 2 ^ 63. prev = Some w \<longrightarrow> mod_rev (map_of (hist_view (e_hist s (e_rev s)))) k = w)"
proof (cases prev)
  case None
  with assms(2) obtain f where "delete_fn k s = (s', Inl f)" "e = etcd_err f"
    by (auto simp: etcd_delete_def split: prod.splits sum.splits)
  with delete_failed[OF assms(1)] None show ?thesis by (cases f) auto
next
  case (Some w)
  obtain res where t: "txn_fn [ModRevision k (to_i64 w)] [OpDelete k] [] s = (s', res)"
    and r: "(\<exists>f. res = Inl f \<and> e = etcd_err f) \<or> (\<exists>x. res = Inr x \<and> \<not> tr_succeeded x \<and> e = Conflict)"
    using assms(2) Some by (auto simp: etcd_delete_def split: prod.splits sum.splits if_splits)
  from r show ?thesis
  proof (elim disjE exE conjE)
    fix f assume f: "res = Inl f" "e = etcd_err f"
    from txn_delete[OF assms(1) t] f(1) have "s' = s \<or>
      (case map_of (e_hist s (e_rev s)) k of Some x \<Rightarrow> kv_mod x | None \<Rightarrow> 0) = to_i64 w \<and> e_removed s k s'"
      by (simp add: Let_def)
    with cas_view(1)[OF assms(1)] Some f(2) show ?thesis by (cases f) auto
  next
    fix x assume x: "res = Inr x" "\<not> tr_succeeded x" "e = Conflict"
    from txn_delete[OF assms(1) t] x show ?thesis by (auto simp: Let_def split: if_splits)
  qed
qed

lemma etcd_list_at_ok:
  assumes "e_inv s" "prefix \<noteq> []" "last prefix \<noteq> CHR 0xFF" "limit < 2 ^ 63"
    and "\<forall>t. tok = Some t \<longrightarrow> starts_with t prefix" "pinned \<noteq> Some 0"
    and "etcd_list_at range_fn prefix limit tok pinned s = Inr page"
  shows "let r = (case pinned of Some r \<Rightarrow> r | None \<Rightarrow> e_rev s)
    in r \<le> e_rev s \<and> page = page_of (hist_view (e_hist s r)) prefix limit tok r"
proof -
  let ?start = "case tok of Some t \<Rightarrow> t @ [CHR 0x00] | None \<Rightarrow> prefix"
  let ?r = "case pinned of Some r \<Rightarrow> r | None \<Rightarrow> e_rev s"
  let ?xs = "filter (\<lambda>e. ?start \<le> fst e \<and> fst e < prefix_range_end prefix) (e_hist s ?r)"
  obtain resp where resp: "range_fn ?start (Some (prefix_range_end prefix)) (int limit) (map_option int pinned) s = Inr resp"
    and page: "page = \<lparr>lr_items = hist_view (rr_kvs resp),
       lr_continue = (if rr_more resp then (if hist_view (rr_kvs resp) = [] then None else Some (fst (last (hist_view (rr_kvs resp))))) else None),
       lr_revision = (case pinned of Some r \<Rightarrow> r | None \<Rightarrow> header_rev (rr_header resp)),
       lr_remaining = Some (nat (max 0 (rr_count resp)) - length (hist_view (rr_kvs resp)))\<rparr>"
    using assms(4,7) by (auto simp: etcd_list_at_def hist_view_def kv_view_def Let_def split: if_splits sum.splits option.splits)
  have r: "(case map_option int pinned of Some i \<Rightarrow> nat i | None \<Rightarrow> e_rev s) = ?r" by (cases pinned) auto
  have ne: "?start \<noteq> []" using assms(2) by (cases tok) auto
  have p0: "map_option int pinned \<noteq> Some 0" using assms(6) by (cases pinned) auto
  have m: "?r \<le> e_rev s" "rr_kvs resp = cut limit ?xs" "rr_more resp \<longleftrightarrow> next_token limit ?xs \<noteq> None"
    "rr_count resp = int (length ?xs)" "rr_header resp = Some (int (e_rev s))"
    using range_many[OF assms(1) ne _ p0 resp] unfolding Let_def r by simp_all
  have iff: "?start \<le> k \<and> k < prefix_range_end prefix \<longleftrightarrow> starts_with k prefix \<and> after tok k" for k
  proof (cases tok)
    case (Some t)
    have "prefix \<le> k" if "t < k"
      using that starts_with_ge[of t prefix] assms(5) Some by auto
    then show ?thesis using Some prefix_range[OF assms(2,3), of k] starts_with_ge[of k prefix]
      by (auto simp: after_def after_token)
  qed (use prefix_range[OF assms(2,3), of k] in \<open>simp add: after_def\<close>)
  have xs: "hist_view ?xs = matching (hist_view (e_hist s ?r)) prefix tok"
    unfolding matching_def iff
    by (rule filter_hist_view[where P = "\<lambda>k. starts_with k prefix \<and> after tok k", symmetric])
  have "header_rev (Some (int (e_rev s))) = e_rev s" using rev_range[OF assms(1)] by (simp add: header_rev_def)
  moreover have "(if rr_more resp then (if hist_view (rr_kvs resp) = [] then None else Some (fst (last (hist_view (rr_kvs resp))))) else None) =
      next_token limit (hist_view ?xs)"
    unfolding m(2,3) cut_hist_view[symmetric] next_token_hist_view[symmetric]
    by (auto simp: next_token_def cut_def)
  moreover have "length (hist_view ?xs) = length ?xs" by (simp add: hist_view_def)
  ultimately have "page = page_of (hist_view (e_hist s ?r)) prefix limit tok ?r"
    unfolding page using m by (simp add: page_of_def Let_def xs[symmetric] cut_hist_view split: option.splits)
  with m(1) show ?thesis by (simp add: Let_def)
qed

end

sublocale etcd \<subseteq> kv_store e_inv "\<lambda>s. map_of (hist_view (e_hist s (e_rev s)))" e_rev e_wrote e_removed
    "etcd_get range_fn" "etcd_put put_fn txn_fn" "etcd_delete delete_fn txn_fn"
proof
  fix s k v r
  assume s: "e_inv s" "map_of (hist_view (e_hist s (e_rev s))) k = Some (v, r)"
  then obtain x where "(k, x) \<in> set (e_hist s (e_rev s))" "r = to_u64 (kv_mod x)"
    by (auto simp: map_of_hist_view kv_view_def dest: map_of_SomeD)
  with e_hist_mod[OF s(1)] rev_range[OF s(1)] show "0 < r \<and> r \<le> e_rev s" by fastforce
next
  fix s k v s'
  assume "e_inv s" "e_wrote s k v s'"
  from e_wrote_effect[OF this] obtain x where x: "e_inv s'" "e_rev s' = e_rev s + 1" "kv_value x = v" "kv_mod x = int (e_rev s')"
    "map_of (e_hist s' (e_rev s')) = (map_of (e_hist s (e_rev s)))(k \<mapsto> x)" by blast
  have "kv_view x = (v, e_rev s')" using x(3,4) rev_range[OF x(1)] by (simp add: kv_view_def)
  with x show "e_inv s' \<and> e_rev s < e_rev s' \<and>
      map_of (hist_view (e_hist s' (e_rev s'))) = (map_of (hist_view (e_hist s (e_rev s))))(k \<mapsto> (v, e_rev s'))"
    by (auto simp: map_of_hist_view)
next
  fix s k s'
  assume "e_inv s" "e_removed s k s'"
  from e_removed_effect[OF this] show "e_inv s' \<and> e_rev s \<le> e_rev s' \<and>
      map_of (hist_view (e_hist s' (e_rev s'))) = (map_of (hist_view (e_hist s (e_rev s))))(k := None)"
    by (auto simp: map_of_hist_view)
next
  fix s k x
  assume "e_inv s" "etcd_get range_fn k s = Inr x"
  then show "x = map_of (hist_view (e_hist s (e_rev s))) k"
    using range_one[of s k] by (auto simp: etcd_get_def map_of_hist_view kv_view_def split: sum.splits option.splits)
qed (rule etcd_put_ok etcd_put_err etcd_delete_ok etcd_delete_err; assumption)+

sublocale etcd \<subseteq> mvcc: kv_mvcc e_inv e_rev "\<lambda>s r. hist_view (e_hist s r)" e_evolves "etcd_list_at range_fn"
proof
  fix s t
  assume "e_inv s" "e_evolves s t"
  from e_evolves_keeps[OF this] show "e_inv t \<and> e_rev s \<le> e_rev t \<and> (\<forall>r \<le> e_rev s. hist_view (e_hist t r) = hist_view (e_hist s r))"
    by simp
qed (use e_hist_wf rev_range etcd_list_at_ok in simp_all)

section \<open>A server\<close>

text \<open>
  One server that keeps these promises, to show that they can be kept: the contents at every
  revision, in a list. It fails when its revisions are used up.
\<close>

type_synonym 'v server = "(string, 'v kv) btree list"

definition srv_rev :: "'v server \<Rightarrow> nat" where
  "srv_rev s = length s - 1"

definition srv_hist :: "'v server \<Rightarrow> nat \<Rightarrow> (string, 'v kv) btree" where
  "srv_hist s r = (if r < length s then s ! r else [])"

definition srv_inv :: "'v server \<Rightarrow> bool" where
  "srv_inv s \<longleftrightarrow> 2 \<le> length s \<and> length s \<le> 2 ^ 63 \<and>
     (\<forall>r < length s. bt_wf (s ! r) \<and> (\<forall>(k, x) \<in> set (s ! r). 0 < kv_mod x \<and> kv_mod x \<le> int r))"

definition srv_extend :: "(string, 'v kv) btree \<Rightarrow> 'v server \<Rightarrow> 'v server" where
  "srv_extend m s = s @ [m]"

definition srv_kv :: "string \<Rightarrow> 'v \<Rightarrow> 'v server \<Rightarrow> 'v kv" where
  "srv_kv k v s =
     (let n = int (length s)
      in case map_of (last s) k of
           None \<Rightarrow> \<lparr>kv_value = v, kv_create = n, kv_mod = n, kv_version = 1\<rparr>
         | Some x \<Rightarrow> x\<lparr>kv_value := v, kv_mod := n, kv_version := kv_version x + 1\<rparr>)"

definition srv_wrote :: "'v server \<Rightarrow> string \<Rightarrow> 'v \<Rightarrow> 'v server \<Rightarrow> bool" where
  "srv_wrote s k v s' \<longleftrightarrow> length s < 2 ^ 63 \<and> s' = s @ [bt_insert k (srv_kv k v s) (last s)]"

definition srv_removed :: "'v server \<Rightarrow> string \<Rightarrow> 'v server \<Rightarrow> bool" where
  "srv_removed s k s' \<longleftrightarrow>
     (if map_of (last s) k = None then s' = s else length s < 2 ^ 63 \<and> s' = s @ [bt_remove k (last s)])"

definition srv_evolves :: "'v server \<Rightarrow> 'v server \<Rightarrow> bool" where
  "srv_evolves s t \<longleftrightarrow> (\<exists>u. t = s @ u) \<and> srv_inv t"

definition srv_range :: "('v server, 'v) range_call" where
  "srv_range start fin limit at s =
     (case fin of
        None \<Rightarrow>
          (let xs = (case map_of (last s) start of None \<Rightarrow> [] | Some x \<Rightarrow> [(start, x)])
           in Inr \<lparr>rr_kvs = xs, rr_more = False, rr_count = int (length xs), rr_header = Some (int (srv_rev s))\<rparr>)
      | Some f \<Rightarrow>
          (let r = (case at of Some i \<Rightarrow> nat i | None \<Rightarrow> srv_rev s);
               xs = filter (\<lambda>e. start \<le> fst e \<and> fst e < f) (srv_hist s r)
           in if srv_rev s < r then Inl (EOther ''future revision'')
              else Inr \<lparr>rr_kvs = cut (nat limit) xs, rr_more = (next_token (nat limit) xs \<noteq> None),
                        rr_count = int (length xs), rr_header = Some (int (srv_rev s))\<rparr>))"

definition srv_put :: "('v server, 'v) put_call" where
  "srv_put k v s =
     (if length s < 2 ^ 63
      then (s @ [bt_insert k (srv_kv k v s) (last s)], Inr (Some (int (length s))))
      else (s, Inl (EOther ''full'')))"

definition srv_delete :: "'v server delete_call" where
  "srv_delete k s =
     (if map_of (last s) k = None then (s, Inr (Some (int (srv_rev s))))
      else if length s < 2 ^ 63 then (s @ [bt_remove k (last s)], Inr (Some (int (length s))))
      else (s, Inl (EOther ''full'')))"

fun srv_holds :: "'v server \<Rightarrow> compare \<Rightarrow> bool" where
  "srv_holds s (ModRevision k w) = ((case map_of (last s) k of Some x \<Rightarrow> kv_mod x | None \<Rightarrow> 0) = w)"
| "srv_holds s (Version k w) = ((case map_of (last s) k of Some x \<Rightarrow> kv_version x | None \<Rightarrow> 0) = w)"

fun srv_op :: "'v txn_op \<Rightarrow> 'v server \<Rightarrow> 'v server \<times> (etcd_failure + int option \<times> (string \<times> 'v kv) list list)" where
  "srv_op (OpPut k v) s = (case srv_put k v s of (s', Inr h) \<Rightarrow> (s', Inr (h, [])) | (s', Inl e) \<Rightarrow> (s', Inl e))"
| "srv_op (OpDelete k) s = (case srv_delete k s of (s', Inr h) \<Rightarrow> (s', Inr (h, [])) | (s', Inl e) \<Rightarrow> (s', Inl e))"
| "srv_op (OpGet k) s =
     (s, Inr (Some (int (srv_rev s)), [case map_of (last s) k of None \<Rightarrow> [] | Some x \<Rightarrow> [(k, x)]]))"

text \<open>Transactions of at most one operation a branch, which is all the adapter sends.\<close>

definition srv_txn :: "('v server, 'v) txn_call" where
  "srv_txn cmps thens elses s =
     (let ok = list_all (srv_holds s) cmps
      in case (if ok then thens else elses) of
           [] \<Rightarrow> (s, Inr \<lparr>tr_succeeded = ok, tr_header = Some (int (srv_rev s)), tr_gets = []\<rparr>)
         | oper # _ \<Rightarrow>
             (case srv_op oper s of
                (s', Inr (h, g)) \<Rightarrow> (s', Inr \<lparr>tr_succeeded = ok, tr_header = h, tr_gets = g\<rparr>)
              | (s', Inl e) \<Rightarrow> (s', Inl e)))"

lemma srv_last: "srv_inv s \<Longrightarrow> srv_hist s (srv_rev s) = last s"
  by (cases "s = []") (auto simp: srv_hist_def srv_rev_def srv_inv_def last_conv_nth)

lemma srv_inv_extend:
  assumes "srv_inv s" "length s < 2 ^ 63" "bt_wf m" "\<forall>(k, x) \<in> set m. 0 < kv_mod x \<and> kv_mod x \<le> int (length s)"
  shows "srv_inv (s @ [m])" "srv_rev (s @ [m]) = length s" "srv_hist (s @ [m]) (length s) = m"
  using assms by (auto simp: srv_inv_def srv_rev_def srv_hist_def nth_append less_Suc_eq)

lemma srv_last_ok:
  assumes "srv_inv s"
  shows "bt_wf (last s)" "\<forall>(k, x) \<in> set (last s). 0 < kv_mod x \<and> kv_mod x \<le> int (length s)"
proof -
  have "length s - 1 < length s" "s \<noteq> []" using assms by (auto simp: srv_inv_def)
  then have l: "last s = s ! (length s - 1)" by (simp add: last_conv_nth)
  show "bt_wf (last s)" unfolding l using assms \<open>length s - 1 < length s\<close> by (simp add: srv_inv_def)
  show "\<forall>(k, x) \<in> set (last s). 0 < kv_mod x \<and> kv_mod x \<le> int (length s)"
    unfolding l using assms \<open>length s - 1 < length s\<close> by (fastforce simp: srv_inv_def)
qed

lemma srv_kv_fields [simp]: "kv_value (srv_kv k v s) = v" "kv_mod (srv_kv k v s) = int (length s)"
  by (auto simp: srv_kv_def Let_def split: option.splits)

lemma srv_wrote_effect:
  assumes "srv_inv s" "srv_wrote s k v s'"
  shows "srv_inv s' \<and> srv_rev s' = srv_rev s + 1 \<and>
      (\<exists>x. kv_value x = v \<and> kv_mod x = int (srv_rev s') \<and>
         map_of (srv_hist s' (srv_rev s')) = (map_of (srv_hist s (srv_rev s)))(k \<mapsto> x))"
proof -
  let ?m = "bt_insert k (srv_kv k v s) (last s)"
  have s': "s' = s @ [?m]" "length s < 2 ^ 63" using assms(2) by (auto simp: srv_wrote_def)
  have n: "2 \<le> length s" using assms(1) by (simp add: srv_inv_def)
  have "\<forall>(j, x) \<in> set ?m. 0 < kv_mod x \<and> kv_mod x \<le> int (length s)"
    using srv_last_ok(2)[OF assms(1)] n by (auto dest!: set_bt_insert)
  note e = srv_inv_extend[OF assms(1) s'(2) bt_insert_wf[OF srv_last_ok(1)[OF assms(1)]] this]
  have "srv_rev s + 1 = length s" using n by (simp add: srv_rev_def)
  then show ?thesis unfolding s'(1) e(2,3) srv_last[OF assms(1)]
    using e(1) by (auto simp: bt_simps intro!: exI[of _ "srv_kv k v s"])
qed

lemma srv_removed_effect:
  assumes "srv_inv s" "srv_removed s k s'"
  shows "srv_inv s' \<and> srv_rev s \<le> srv_rev s' \<and>
      map_of (srv_hist s' (srv_rev s')) = (map_of (srv_hist s (srv_rev s)))(k := None)"
proof (cases "map_of (last s) k")
  case None
  then show ?thesis using assms by (auto simp: srv_removed_def srv_last)
next
  case (Some x)
  let ?m = "bt_remove k (last s)"
  have s': "s' = s @ [?m]" "length s < 2 ^ 63" using assms(2) Some by (auto simp: srv_removed_def)
  have "\<forall>(j, x) \<in> set ?m. 0 < kv_mod x \<and> kv_mod x \<le> int (length s)"
    using srv_last_ok(2)[OF assms(1)] by (auto simp: set_bt_remove)
  note e = srv_inv_extend[OF assms(1) s'(2) bt_remove_wf[OF srv_last_ok(1)[OF assms(1)]] this]
  have "srv_rev s \<le> length s" by (simp add: srv_rev_def)
  then show ?thesis unfolding s'(1) e(2,3) srv_last[OF assms(1)] using e(1) by (simp add: bt_simps)
qed

interpretation srv: etcd srv_inv srv_rev srv_hist srv_evolves srv_wrote srv_removed srv_range srv_put srv_delete srv_txn
proof
  fix s :: "'v server" and r k x
  show "srv_inv s \<Longrightarrow> 0 < srv_rev s \<and> srv_rev s < 2 ^ 63" by (auto simp: srv_inv_def srv_rev_def)
  show "srv_inv s \<Longrightarrow> r \<le> srv_rev s \<Longrightarrow> bt_wf (srv_hist s r)" by (auto simp: srv_inv_def srv_hist_def)
  show "srv_inv s \<Longrightarrow> r \<le> srv_rev s \<Longrightarrow> (k, x) \<in> set (srv_hist s r) \<Longrightarrow> 0 < kv_mod x \<and> kv_mod x \<le> int r"
    by (auto simp: srv_inv_def srv_hist_def split: if_splits)
next
  fix s t :: "'v server"
  assume "srv_inv s" "srv_evolves s t"
  then show "srv_inv t \<and> srv_rev s \<le> srv_rev t \<and> (\<forall>r \<le> srv_rev s. srv_hist t r = srv_hist s r)"
    by (auto simp: srv_evolves_def srv_rev_def srv_hist_def srv_inv_def nth_append)
next
  fix s :: "'v server" and key resp
  assume "srv_inv s" "srv_range key None 0 None s = Inr resp"
  then show "rr_kvs resp = (case map_of (srv_hist s (srv_rev s)) key of None \<Rightarrow> [] | Some x \<Rightarrow> [(key, x)])"
    by (auto simp: srv_range_def srv_last Let_def)
next
  fix s :: "'v server" and start limit at fin resp
  assume "srv_range start (Some fin) limit at s = Inr resp"
  then show "let r = (case at of Some i \<Rightarrow> nat i | None \<Rightarrow> srv_rev s);
         xs = filter (\<lambda>e. start \<le> fst e \<and> fst e < fin) (srv_hist s r)
     in r \<le> srv_rev s \<and> rr_kvs resp = cut (nat limit) xs \<and> (rr_more resp \<longleftrightarrow> next_token (nat limit) xs \<noteq> None) \<and>
        rr_count resp = int (length xs) \<and> rr_header resp = Some (int (srv_rev s))"
    by (auto simp: srv_range_def Let_def split: if_splits)
next
  fix s s' :: "'v server" and k v h
  assume "srv_inv s" "srv_put k v s = (s', Inr h)"
  then show "srv_wrote s k v s' \<and> h = Some (int (srv_rev s'))"
    by (auto simp: srv_put_def srv_wrote_def srv_rev_def split: if_splits)
next
  fix s s' :: "'v server" and k v w res
  assume i: "srv_inv s" and "srv_txn [ModRevision k w] [OpPut k v] [] s = (s', res)"
  then show "let ok = ((case map_of (srv_hist s (srv_rev s)) k of Some x \<Rightarrow> kv_mod x | None \<Rightarrow> 0) = w)
     in case res of
          Inr resp \<Rightarrow> (tr_succeeded resp \<longleftrightarrow> ok) \<and>
            (if ok then srv_wrote s k v s' \<and> tr_header resp = Some (int (srv_rev s')) else s' = s)
        | Inl e \<Rightarrow> s' = s \<or> ok \<and> srv_wrote s k v s'"
    unfolding srv_last[OF i]
    by (auto simp: srv_txn_def srv_put_def srv_wrote_def srv_rev_def Let_def split: if_splits sum.splits)
next
  fix s s' :: "'v server" and k w res
  assume i: "srv_inv s" and "srv_txn [ModRevision k w] [OpDelete k] [] s = (s', res)"
  then show "let ok = ((case map_of (srv_hist s (srv_rev s)) k of Some x \<Rightarrow> kv_mod x | None \<Rightarrow> 0) = w)
     in case res of
          Inr resp \<Rightarrow> (tr_succeeded resp \<longleftrightarrow> ok) \<and> (if ok then srv_removed s k s' else s' = s)
        | Inl e \<Rightarrow> s' = s \<or> ok \<and> srv_removed s k s'"
    unfolding srv_last[OF i]
    by (auto simp: srv_txn_def srv_delete_def srv_removed_def Let_def split: if_splits sum.splits)
qed (rule srv_wrote_effect srv_removed_effect; assumption |
     auto simp: srv_put_def srv_delete_def srv_removed_def split: if_splits)+

section \<open>Properties\<close>

text \<open>
  The prefix scan asks the server for exactly the keys under the prefix: for a non-empty
  prefix that does not end in the byte \<open>0xFF\<close> (no UTF-8 text does), a key lies in the range
  \<^verbatim>\<open>[prefix, prefix_range_end(prefix))\<close> if and only if it starts with the prefix, and it lies in
  the range of a continuation page if and only if it also comes after the continue token.
\<close>

theorem prefix_scan_exact:
  assumes "prefix \<noteq> []" "last prefix \<noteq> CHR 0xFF"
  shows "(prefix \<le> k \<and> k < prefix_range_end prefix \<longleftrightarrow> starts_with k prefix) \<and>
    (starts_with t prefix \<longrightarrow>
       (t @ [CHR 0x00] \<le> k \<and> k < prefix_range_end prefix \<longleftrightarrow> starts_with k prefix \<and> t < k))"
proof -
  have "prefix \<le> k" if "starts_with t prefix" "t < k" using that starts_with_ge[of t prefix] by auto
  then show ?thesis using prefix_range[OF assms, of k] starts_with_ge[of k prefix] after_token[of t k] by auto
qed

theorem prefix_scan_exact_witness:
  "''/registry/pods/a'' < prefix_range_end ''/registry/pods/'' \<and> prefix_range_end ''/registry/pods/'' = ''/registry/pods0''"
proof -
  have e: "prefix_range_end ''/registry/pods/'' = ''/registry/pods0''"
    by (simp add: prefix_range_end_def byte_succ_def char_of_def bit_simps)
  have "starts_with ''/registry/pods/a'' ''/registry/pods/''" by simp
  then show ?thesis
    using prefix_scan_exact[of "''/registry/pods/''" "''/registry/pods/a''" "[]"] e by simp
qed

end
