(* ===== verification/F64.thy ===== *)
theory F64
  imports Prelude Complex_Main "HOL-Library.Log_Nat"
begin

text \<open>
  The part of \<^verbatim>\<open>f64\<close> the quantity parser uses: IEEE 754 binary64 values as exact rationals
  with an explicit rounding (to nearest, ties to even, 53 significant bits, subnormals down
  to \<open>2 ^ -1074\<close>), Rust's \<^verbatim>\<open>str::parse::<f64>\<close>, multiplication, \<^verbatim>\<open>max(0.0)\<close> and the
  saturating cast \<^verbatim>\<open>as u64\<close>. The sign of zero is not kept: nothing here reads it.
\<close>

datatype f64 = Fin rat | Inf bool | NaN

definition pow2 :: "int \<Rightarrow> rat" where
  "pow2 k = (if 0 \<le> k then 2 ^ nat k else 1 / 2 ^ nat (- k))"

definition pow10 :: "int \<Rightarrow> rat" where
  "pow10 k = (if 0 \<le> k then 10 ^ nat k else 1 / 10 ^ nat (- k))"

definition round_even :: "rat \<Rightarrow> int" where
  "round_even x =
     (let n = \<lfloor>x\<rfloor>; r = x - of_int n
      in if r < 1 / 2 then n else if 1 / 2 < r then n + 1 else if even n then n else n + 1)"

text \<open>The binary exponent of a positive rational: \<open>pow2 (exponent x) \<le> x < pow2 (exponent x + 1)\<close>.\<close>

definition exponent :: "rat \<Rightarrow> int" where
  "exponent x =
     (let (a, b) = quotient_of x; e = bitlen a - bitlen b
      in if x < pow2 e then e - 1 else e)"

definition rnd :: "rat \<Rightarrow> f64" where
  "rnd x =
     (if x = 0 then Fin 0
      else
        (let e = max (- 1074) (exponent \<bar>x\<bar> - 52);
             v = of_int (round_even (\<bar>x\<bar> / pow2 e)) * pow2 e
         in if pow2 1024 \<le> v then Inf (x < 0) else Fin (if x < 0 then - v else v)))"

fun f64_mul :: "f64 \<Rightarrow> f64 \<Rightarrow> f64" where
  "f64_mul (Fin a) (Fin b) = rnd (a * b)"
| "f64_mul (Inf s) (Fin b) = (if b = 0 then NaN else Inf (s \<noteq> (b < 0)))"
| "f64_mul (Fin a) (Inf s) = (if a = 0 then NaN else Inf (s \<noteq> (a < 0)))"
| "f64_mul (Inf s) (Inf t) = Inf (s \<noteq> t)"
| "f64_mul _ _ = NaN"

fun f64_pos :: "f64 \<Rightarrow> bool" where
  "f64_pos (Fin a) \<longleftrightarrow> 0 < a"
| "f64_pos (Inf s) \<longleftrightarrow> \<not> s"
| "f64_pos NaN \<longleftrightarrow> False"

definition max0 :: "f64 \<Rightarrow> f64" where
  "max0 v = (if f64_pos v then v else Fin 0)"

fun as_u64_sat :: "f64 \<Rightarrow> nat" where
  "as_u64_sat (Fin a) = nat (min (2 ^ 64 - 1) \<lfloor>a\<rfloor>)"
| "as_u64_sat (Inf s) = (if s then 0 else 2 ^ 64 - 1)"
| "as_u64_sat NaN = 0"

section \<open>Parsing\<close>

definition lower :: "char \<Rightarrow> char" where
  "lower c = (if 65 \<le> (of_char c :: nat) \<and> (of_char c :: nat) \<le> 90 then char_of (of_char c + 32 :: nat) else c)"

text \<open>An exponent: an optional sign and digits, nothing after.\<close>

definition parse_exponent :: "string \<Rightarrow> int option" where
  "parse_exponent s =
     (let neg = (case s of c # _ \<Rightarrow> c = CHR ''-'' | [] \<Rightarrow> False);
          ds = (case s of c # t \<Rightarrow> if c = CHR ''+'' \<or> c = CHR ''-'' then t else s | [] \<Rightarrow> [])
      in if ds \<noteq> [] \<and> list_all is_digit ds
         then Some (if neg then - int (digits_val ds) else int (digits_val ds)) else None)"

definition parse_unsigned :: "string \<Rightarrow> rat option" where
  "parse_unsigned s =
     (let int_part = takeWhile is_digit s; r1 = dropWhile is_digit s;
          (frac, r2) = (case r1 of
              c # t \<Rightarrow> if c = CHR ''.'' then (takeWhile is_digit t, dropWhile is_digit t) else ([], r1)
            | [] \<Rightarrow> ([], []))
      in if int_part = [] \<and> frac = [] then None
         else
           (let m = of_nat (digits_val (int_part @ frac)) * pow10 (- int (length frac))
            in case r2 of
                 [] \<Rightarrow> Some m
               | c # t \<Rightarrow>
                   if c = CHR ''e'' \<or> c = CHR ''E''
                   then map_option (\<lambda>e. m * pow10 e) (parse_exponent t) else None))"

definition parse_f64 :: "string \<Rightarrow> f64 option" where
  "parse_f64 s =
     (let neg = (case s of c # _ \<Rightarrow> c = CHR ''-'' | [] \<Rightarrow> False);
          t = (case s of c # u \<Rightarrow> if c = CHR ''+'' \<or> c = CHR ''-'' then u else s | [] \<Rightarrow> [])
      in case parse_unsigned t of
           Some m \<Rightarrow> Some (rnd (if neg then - m else m))
         | None \<Rightarrow>
             (let l = map lower t
              in if l = ''inf'' \<or> l = ''infinity'' then Some (Inf neg)
                 else if l = ''nan'' then Some NaN else None))"

section \<open>Exact values\<close>

lemma pow2_pos [simp]: "0 < pow2 k"
  by (simp add: pow2_def)

lemma pow2_powr: "of_rat (pow2 k) = 2 powr k"
  by (auto simp: pow2_def of_rat_power of_rat_divide powr_minus_divide powr_realpow' simp flip: powr_realpow)

lemma pow2_add: "pow2 (a + b) = pow2 a * pow2 b"
proof -
  have "(of_rat (pow2 (a + b)) :: real) = of_rat (pow2 a * pow2 b)"
    by (simp add: of_rat_mult pow2_powr powr_add)
  then show ?thesis by (simp only: of_rat_eq_iff)
qed

lemma pow2_diff: "pow2 (a - b) = pow2 a / pow2 b"
  using pow2_add[of "a - b" b] by (simp add: field_simps less_imp_neq[OF pow2_pos, symmetric])

lemma pow2_nat [simp]: "pow2 (int n) = 2 ^ n"
  by (simp add: pow2_def)

lemma pow2_mono: "a \<le> b \<Longrightarrow> pow2 a \<le> pow2 b"
proof -
  assume "a \<le> b"
  then have "(of_rat (pow2 a) :: real) \<le> of_rat (pow2 b)" by (simp add: pow2_powr)
  then show ?thesis by (simp only: of_rat_less_eq)
qed

lemma pow2_le_iff: "pow2 a < pow2 b \<longleftrightarrow> a < b"
proof -
  have "(of_rat (pow2 a) :: real) < of_rat (pow2 b) \<longleftrightarrow> a < b" by (simp add: pow2_powr)
  then show ?thesis by (simp only: of_rat_less)
qed

lemma round_even_int [simp]: "round_even (of_int n) = n"
  by (simp add: round_even_def Let_def)

lemma exponent_bounds:
  assumes "0 < x"
  shows "pow2 (exponent x) \<le> x"
proof -
  obtain a b where q: "quotient_of x = (a, b)" by (cases "quotient_of x")
  have b: "0 < b" using quotient_of_denom_pos[OF q] .
  have x: "x = of_int a / of_int b" using quotient_of_div[OF q] .
  have a: "0 < a" using assms b x by (simp add: zero_less_divide_iff)
  let ?e = "bitlen a - bitlen b"
  have "2 ^ nat (bitlen a - 1) \<le> a" "b < 2 ^ nat (bitlen b)" using bitlen_bounds a b by auto
  then have ab: "(2::rat) ^ nat (bitlen a - 1) \<le> of_int a" "(of_int b::rat) < 2 ^ nat (bitlen b)"
    by (metis of_int_le_iff of_int_numeral of_int_power, metis of_int_less_iff of_int_numeral of_int_power)
  have l: "1 \<le> bitlen a" "1 \<le> bitlen b" using a b by (simp_all add: bitlen_def floorlog_def)
  have "pow2 (?e - 1) = pow2 (bitlen a - 1) / pow2 (bitlen b)" by (simp flip: pow2_diff add: algebra_simps)
  also have "\<dots> = 2 ^ nat (bitlen a - 1) / 2 ^ nat (bitlen b)" using l by (simp add: pow2_def)
  also have "\<dots> \<le> of_int a / of_int b"
    using ab a b by (intro frac_le) (auto intro: less_imp_le)
  finally have "pow2 (?e - 1) \<le> x" by (simp add: x)
  then show ?thesis using q by (auto simp: exponent_def Let_def)
qed

text \<open>Every value with at most 53 significant bits is a binary64 value: rounding keeps it.\<close>

lemma rnd_exact:
  assumes "n < 2 ^ 53" "- 1074 \<le> k" "of_nat n * pow2 k < pow2 1024"
  shows "rnd (of_nat n * pow2 k) = Fin (of_nat n * pow2 k)"
proof (cases "n = 0")
  case False
  let ?x = "of_nat n * pow2 k"
  have pos: "0 < ?x" using False by simp
  have "(of_nat n :: rat) < 2 ^ 53" using assms(1) by (metis of_nat_less_iff of_nat_numeral of_nat_power)
  then have "?x < 2 ^ 53 * pow2 k" by (intro mult_strict_right_mono pow2_pos)
  also have "2 ^ 53 * pow2 k = pow2 (53 + k)" using pow2_add[of 53 k] pow2_nat[of 53] by simp
  finally have "exponent ?x < 53 + k"
    using exponent_bounds[OF pos] pow2_le_iff by (meson le_less_trans)
  then have e: "max (- 1074) (exponent ?x - 52) \<le> k" (is "?e \<le> k") using assms(2) by simp
  have "?x / pow2 ?e = of_int (int n * 2 ^ nat (k - ?e))"
    using e by (simp add: pow2_diff[of k ?e, symmetric] pow2_def[of "k - ?e"] times_divide_eq_right[symmetric] del: times_divide_eq_right)
  then have "round_even (?x / pow2 ?e) = int n * 2 ^ nat (k - ?e)" by (metis round_even_int)
  moreover have "of_int (int n * 2 ^ nat (k - ?e)) * pow2 ?e = ?x"
    using e pow2_add[of "k - ?e" ?e] by (simp add: pow2_def[of "k - ?e"])
  ultimately have "of_int (round_even (?x / pow2 ?e)) * pow2 ?e = ?x" by simp
  with pos assms(3) show ?thesis by (simp add: rnd_def Let_def abs_of_pos[OF pos] not_le)
qed (simp add: rnd_def)

lemma parse_unsigned_digits:
  assumes "list_all is_digit s" "s \<noteq> []"
  shows "parse_unsigned s = Some (of_nat (digits_val s))"
proof -
  have w: "takeWhile is_digit s = s" "dropWhile is_digit s = []"
    using assms(1) by (auto simp: takeWhile_eq_all_conv dropWhile_eq_Nil_conv list_all_iff)
  show ?thesis using assms(2) by (simp add: parse_unsigned_def pow10_def Let_def w)
qed

lemma parse_f64_show_nat: "n < 2 ^ 53 \<Longrightarrow> parse_f64 (show_nat n) = Some (Fin (of_nat n))"
proof -
  assume n: "n < 2 ^ 53"
  obtain c t where s: "show_nat n = c # t" by (cases "show_nat n") auto
  have "is_digit c" using show_nat_digits[of n] s by simp
  then have c: "c \<noteq> CHR ''+''" "c \<noteq> CHR ''-''" by (auto simp: is_digit_def)
  have "(of_nat n :: rat) < 2 ^ 1024"
  proof -
    have "n < 2 ^ 1024" using n by (rule less_le_trans) simp
    then show ?thesis by (metis of_nat_less_iff of_nat_numeral of_nat_power)
  qed
  then have "rnd (of_nat n) = Fin (of_nat n)" using rnd_exact[of n 0] n by (simp add: pow2_def)
  moreover have "parse_unsigned (c # t) = Some (of_nat n)"
    using parse_unsigned_digits[of "show_nat n"] by (simp flip: s)
  ultimately show ?thesis using c by (simp add: s parse_f64_def)
qed

end
