(* ===== verification/Quantity.thy ===== *)
theory Quantity
  imports F64
begin

text \<open>
  \<^verbatim>\<open>pkg/apimachinery/src/quantity.rs\<close>: parsing resource quantities to bytes and millicores,
  printing bytes, and rewriting the JSON numbers at quantity paths of an object as canonical
  strings. \<^verbatim>\<open>u128\<close> is \<open>nat\<close> with the checked operations' bound written out; \<^verbatim>\<open>i32\<close>
  is \<open>int\<close> with the wrap-around of \<open>exp += 1\<close> written out.
\<close>

section \<open>Parsing\<close>

definition scale :: "string \<Rightarrow> f64 \<Rightarrow> nat" where
  "scale num mult =
     (case parse_f64 num of
        Some v \<Rightarrow> if f64_pos v then as_u64_sat (f64_mul v mult) else 0
      | None \<Rightarrow> 0)"

definition BINARY :: "(string \<times> f64) list" where
  "BINARY = [(''Ki'', Fin (2 ^ 10)), (''Mi'', Fin (2 ^ 20)), (''Gi'', Fin (2 ^ 30)),
             (''Ti'', Fin (2 ^ 40)), (''Pi'', Fin (2 ^ 50)), (''Ei'', Fin (2 ^ 60))]"

definition DECIMAL :: "(string \<times> f64) list" where
  "DECIMAL = [(''n'', rnd (pow10 (- 9))), (''u'', rnd (pow10 (- 6))), (''m'', rnd (pow10 (- 3))),
              (''k'', rnd (pow10 3)), (''K'', rnd (pow10 3)), (''M'', rnd (pow10 6)), (''G'', rnd (pow10 9)),
              (''T'', rnd (pow10 12)), (''P'', rnd (pow10 15)), (''E'', rnd (pow10 18))]"

fun try_binary :: "(string \<times> f64) list \<Rightarrow> string \<Rightarrow> nat option" where
  "try_binary [] s = None"
| "try_binary ((suffix, mult) # us) s =
     (case strip_suffix s suffix of Some num \<Rightarrow> Some (scale num mult) | None \<Rightarrow> try_binary us s)"

fun try_decimal :: "(string \<times> f64) list \<Rightarrow> string \<Rightarrow> nat option" where
  "try_decimal [] s = None"
| "try_decimal ((suffix, mult) # us) s =
     (case strip_suffix s suffix of
        Some num \<Rightarrow> if parse_f64 num \<noteq> None then Some (scale num mult) else try_decimal us s
      | None \<Rightarrow> try_decimal us s)"

definition parse_bytes :: "string \<Rightarrow> nat" where
  "parse_bytes s0 =
     (let s = trim s0 in
      if s = [] then 0
      else
        (case try_binary BINARY s of
           Some n \<Rightarrow> n
         | None \<Rightarrow>
             (case try_decimal DECIMAL s of
                Some n \<Rightarrow> n
              | None \<Rightarrow> (case parse_f64 s of Some v \<Rightarrow> as_u64_sat (max0 v) | None \<Rightarrow> 0))))"

definition parse_cpu_millis :: "string \<Rightarrow> nat" where
  "parse_cpu_millis s0 =
     (let s = trim s0 in
      case strip_suffix s ''m'' of
        Some t \<Rightarrow> (case parse_f64 t of Some v \<Rightarrow> as_u64_sat (max0 v) | None \<Rightarrow> 0)
      | None \<Rightarrow> (case parse_f64 s of Some v \<Rightarrow> as_u64_sat (f64_mul (max0 v) (Fin 1000)) | None \<Rightarrow> 0))"

section \<open>Printing\<close>

definition UNITS :: "(string \<times> nat) list" where
  "UNITS = [(''Ei'', 2 ^ 60), (''Pi'', 2 ^ 50), (''Ti'', 2 ^ 40), (''Gi'', 2 ^ 30),
            (''Mi'', 2 ^ 20), (''Ki'', 2 ^ 10)]"

fun format_with :: "(string \<times> nat) list \<Rightarrow> nat \<Rightarrow> string" where
  "format_with [] bytes = show_nat bytes"
| "format_with ((suffix, unit_size) # us) bytes =
     (if unit_size \<le> bytes \<and> bytes mod unit_size = 0 then show_nat (bytes div unit_size) @ suffix else format_with us bytes)"

definition format_bytes :: "nat \<Rightarrow> string" where
  "format_bytes bytes = format_with UNITS bytes"

section \<open>Canonical numbers\<close>

definition wrap32 :: "int \<Rightarrow> int" where
  "wrap32 i = (i + 2 ^ 31) mod 2 ^ 32 - 2 ^ 31"

text \<open>\<open>while m % 10 == 0\<close>: the caller's \<open>m\<close> is never 0.\<close>

fun strip_tens :: "nat \<Rightarrow> int \<Rightarrow> nat \<times> int" where
  "strip_tens m e = (if 0 < m \<and> m mod 10 = 0 then strip_tens (m div 10) (wrap32 (e + 1)) else (m, e))"

declare strip_tens.simps [simp del]

definition si_suffix :: "int \<Rightarrow> string" where
  "si_suffix e3 =
     (if e3 = - 9 then ''n'' else if e3 = - 6 then ''u'' else if e3 = - 3 then ''m''
      else if e3 = 0 then [] else if e3 = 3 then ''k'' else if e3 = 6 then ''M''
      else if e3 = 9 then ''G'' else if e3 = 12 then ''T'' else if e3 = 15 then ''P'' else ''E'')"

definition canonical_scaled :: "bool \<Rightarrow> nat \<Rightarrow> int \<Rightarrow> string option" where
  "canonical_scaled negative m ex =
     (let (m1, exp1) =
            (if ex < - 9 then
               (let shift = nat (- 9 - ex)
                in (if 10 ^ shift < (2 ^ 128 :: nat) then (m + 10 ^ shift - 1) div 10 ^ shift else 1, - 9))
             else (m, ex));
          e3 = min (exp1 div 3 * 3) 18;
          p = 10 ^ nat (exp1 - e3) :: nat
      in if 2 ^ 128 \<le> p \<or> 2 ^ 128 \<le> m1 * p then None
         else Some ((if negative then ''-'' else []) @ show_nat (m1 * p) @ si_suffix e3))"

definition split_exponent :: "string \<Rightarrow> (string \<times> int) option" where
  "split_exponent s =
     (case dropWhile (\<lambda>c. c \<noteq> CHR ''e'' \<and> c \<noteq> CHR ''E'') s of
        [] \<Rightarrow> Some (s, 0)
      | _ # t \<Rightarrow>
          map_option (\<lambda>e. (takeWhile (\<lambda>c. c \<noteq> CHR ''e'' \<and> c \<noteq> CHR ''E'') s, e)) (parse_sint 32 t))"

text \<open>The digits without leading zeros, and the exponent as \<open>checked_sub\<close> computes it.\<close>

definition canonical_digits :: "bool \<Rightarrow> string \<Rightarrow> int \<Rightarrow> string option" where
  "canonical_digits negative digits ex =
     (if digits = [] then Some ''0''
      else if 38 < length digits \<or> \<not> list_all is_digit digits then None
      else if ex < - (2 ^ 31) then None
      else (case strip_tens (digits_val digits) ex of (m, e) \<Rightarrow> canonical_scaled negative m e))"

definition canonical_decimal :: "string \<Rightarrow> string option" where
  "canonical_decimal text =
     (let (negative, unsigned) =
            (case strip_prefix text ''-'' of Some rest \<Rightarrow> (True, rest) | None \<Rightarrow> (False, text))
      in Option.bind (split_exponent unsigned) (\<lambda>(mantissa, exp_part).
           let (int_part, frac) = (case split_once CHR ''.'' mantissa of Some p \<Rightarrow> p | None \<Rightarrow> (mantissa, []));
               digits = trim_start_matches CHR ''0'' (int_part @ frac)
           in canonical_digits negative digits (exp_part - int (length frac))))"

fun number_text :: "number \<Rightarrow> string" where
  "number_text (NInt i) = show_int i"
| "number_text (NFloat s) = s"

definition canonical_number :: "number \<Rightarrow> string" where
  "canonical_number n = (case canonical_decimal (number_text n) of Some s \<Rightarrow> s | None \<Rightarrow> number_text n)"

section \<open>Quantities in objects\<close>

definition QUANTITY_RESOURCES :: "string list" where
  "QUANTITY_RESOURCES =
     [''pods'', ''podtemplates'', ''replicationcontrollers'', ''replicasets'', ''deployments'',
      ''statefulsets'', ''daemonsets'', ''jobs'', ''cronjobs'', ''nodes'', ''persistentvolumeclaims'',
      ''persistentvolumes'', ''resourcequotas'', ''limitranges'', ''runtimeclasses'',
      ''horizontalpodautoscalers'', ''csistoragecapacities'', ''resourceslices'', ''resourceclaims'',
      ''resourceclaimtemplates'']"

definition QUANTITY_MAPS :: "string list" where
  "QUANTITY_MAPS =
     [''limits'', ''requests'', ''capacity'', ''allocatable'', ''hard'', ''used'', ''overhead'', ''podFixed'',
      ''allocatedResources'', ''min'', ''max'', ''default'', ''defaultRequest'', ''maxLimitRequestRatio'']"

definition QUANTITY_FIELDS :: "string list" where
  "QUANTITY_FIELDS = [''sizeLimit'', ''averageValue'', ''maximumVolumeSize'']"

definition is_quantity :: "string \<Rightarrow> string list \<Rightarrow> string \<Rightarrow> bool" where
  "is_quantity resource path key \<longleftrightarrow>
     (let parent = (if path = [] then None else Some (last path));
          grandparent = (if length path < 2 then None else Some (path ! (length path - 2)))
      in (case parent of Some p \<Rightarrow> p \<in> set QUANTITY_MAPS | None \<Rightarrow> False) \<or>
         key \<in> set QUANTITY_FIELDS \<or>
         (resource = ''csistoragecapacities'' \<and> key = ''capacity'' \<and> path = []) \<or>
         (resource = ''horizontalpodautoscalers'' \<and> key = ''value'' \<and>
            (parent = Some ''target'' \<or> parent = Some ''current'')) \<or>
         (key = ''value'' \<and> grandparent = Some ''capacity''))"

text \<open>The rewritten value and whether anything changed.\<close>

fun walk :: "string \<Rightarrow> string list \<Rightarrow> json \<Rightarrow> json \<times> bool"
  and walk_fields :: "string \<Rightarrow> string list \<Rightarrow> (string \<times> json) list \<Rightarrow> (string \<times> json) list \<times> bool"
  and walk_items :: "string \<Rightarrow> string list \<Rightarrow> json list \<Rightarrow> json list \<times> bool" where
  "walk r path (JObj m) = (let (m', c) = walk_fields r path m in (JObj m', c))"
| "walk r path (JArr xs) = (let (xs', c) = walk_items r path xs in (JArr xs', c))"
| "walk r path v = (v, False)"
| "walk_fields r path [] = ([], False)"
| "walk_fields r path ((k, child) # m) =
     (let (child', c1) =
            (case child of
               JNum n \<Rightarrow> if is_quantity r path k then (JStr (canonical_number n), True) else (child, False)
             | _ \<Rightarrow> walk r (path @ [k]) child);
          (m', c2) = walk_fields r path m
      in ((k, child') # m', c1 \<or> c2))"
| "walk_items r path [] = ([], False)"
| "walk_items r path (x # xs) =
     (let (x', c1) = walk r path x; (xs', c2) = walk_items r path xs in (x' # xs', c1 \<or> c2))"

definition numbers_to_strings :: "string \<Rightarrow> json \<Rightarrow> json \<times> bool" where
  "numbers_to_strings resource obj =
     (if resource \<in> set QUANTITY_RESOURCES then walk resource [] obj else (obj, False))"

section \<open>Rewriting leaves no number\<close>

text \<open>No number at a quantity path.\<close>

fun settled :: "string \<Rightarrow> string list \<Rightarrow> json \<Rightarrow> bool"
  and settled_fields :: "string \<Rightarrow> string list \<Rightarrow> (string \<times> json) list \<Rightarrow> bool"
  and settled_items :: "string \<Rightarrow> string list \<Rightarrow> json list \<Rightarrow> bool" where
  "settled r path (JObj m) = settled_fields r path m"
| "settled r path (JArr xs) = settled_items r path xs"
| "settled r path v = True"
| "settled_fields r path [] = True"
| "settled_fields r path ((k, child) # m) =
     ((case child of JNum n \<Rightarrow> \<not> is_quantity r path k | _ \<Rightarrow> settled r (path @ [k]) child) \<and> settled_fields r path m)"
| "settled_items r path [] = True"
| "settled_items r path (x # xs) = (settled r path x \<and> settled_items r path xs)"

definition is_num :: "json \<Rightarrow> bool" where
  "is_num v = (case v of JNum n \<Rightarrow> True | _ \<Rightarrow> False)"

lemma walk_fields_cons:
  "walk_fields r path ((k, JNum n) # m) =
     ((k, if is_quantity r path k then JStr (canonical_number n) else JNum n) # fst (walk_fields r path m),
      is_quantity r path k \<or> snd (walk_fields r path m))"
  "\<not> is_num v \<Longrightarrow> walk_fields r path ((k, v) # m) =
     ((k, fst (walk r (path @ [k]) v)) # fst (walk_fields r path m),
      snd (walk r (path @ [k]) v) \<or> snd (walk_fields r path m))"
  by (cases "walk_fields r path m"; simp)
     (cases "walk_fields r path m"; cases "walk r (path @ [k]) v"; cases v;
      simp add: is_num_def del: walk.simps)

lemma settled_fields_cons:
  "\<not> is_num v \<Longrightarrow> settled_fields r path ((k, v) # m) = (settled r (path @ [k]) v \<and> settled_fields r path m)"
  by (cases v) (simp_all add: is_num_def)

lemma walk_not_num: "\<not> is_num v \<Longrightarrow> \<not> is_num (fst (walk r path v))"
  by (cases v) (auto simp: is_num_def split: prod.splits)

text \<open>The rewriting leaves no number, changes nothing where there was none, and says which it was.\<close>

lemma walk_settled:
  "settled r path (fst (walk r path v)) \<and> (settled r path v \<longrightarrow> fst (walk r path v) = v) \<and>
   (snd (walk r path v) \<longleftrightarrow> \<not> settled r path v)"
  "settled_fields r path (fst (walk_fields r path m)) \<and> (settled_fields r path m \<longrightarrow> fst (walk_fields r path m) = m) \<and>
   (snd (walk_fields r path m) \<longleftrightarrow> \<not> settled_fields r path m)"
  "settled_items r path (fst (walk_items r path xs)) \<and> (settled_items r path xs \<longrightarrow> fst (walk_items r path xs) = xs) \<and>
   (snd (walk_items r path xs) \<longleftrightarrow> \<not> settled_items r path xs)"
proof (induction r path v and r path m and r path xs rule: walk_walk_fields_walk_items.induct)
  case (5 r path k child m)
  note rest = 5(6)[OF refl surjective_pairing[symmetric]]
  show ?case
  proof (cases "is_num child")
    case True
    then obtain n where "child = JNum n" by (cases child) (auto simp: is_num_def)
    then show ?thesis using rest by (simp add: walk_fields_cons(1) del: walk_fields.simps)
  next
    case False
    have "settled r (path @ [k]) (fst (walk r (path @ [k]) child)) \<and>
        (settled r (path @ [k]) child \<longrightarrow> fst (walk r (path @ [k]) child) = child) \<and>
        (snd (walk r (path @ [k]) child) \<longleftrightarrow> \<not> settled r (path @ [k]) child)"
    proof (cases child)
      case (JNum n) with False show ?thesis by (simp add: is_num_def)
    qed (rule 5(1) 5(2) 5(3) 5(4) 5(5), assumption)+
    then show ?thesis using rest False
      by (simp add: walk_fields_cons(2) settled_fields_cons walk_not_num
          del: walk_fields.simps settled_fields.simps)
  qed
next
  case (7 r path x xs)
  then show ?case by (cases "walk r path x"; cases "walk_items r path xs"; simp)
qed (auto split: prod.splits)

section \<open>Bytes\<close>

lemma not_space_digit: "is_digit c \<Longrightarrow> \<not> is_space c"
  by (auto simp: is_digit_def is_space_def)

lemma trim_id: "s \<noteq> [] \<Longrightarrow> \<not> is_space (hd s) \<Longrightarrow> \<not> is_space (last s) \<Longrightarrow> trim s = s"
  by (simp add: trim_def dropWhile_eq_self_iff[THEN iffD2] hd_rev)

lemma show_nat_hd: "is_digit (hd (show_nat n))"
  using show_nat_digits[of n] show_nat_neq_Nil[of n] by (cases "show_nat n") auto

lemma show_nat_last: "is_digit (last (show_nat n))"
  using show_nat_digits[of n] show_nat_neq_Nil[of n] by (simp add: list_all_iff)

lemma strip_suffix_last: "t \<noteq> [] \<Longrightarrow> s \<noteq> [] \<Longrightarrow> last s \<noteq> last t \<Longrightarrow> strip_suffix s t = None"
  by (cases "strip_suffix s t") (auto simp: strip_suffix_Some)

lemma strip_suffix_unit: "c \<noteq> d \<Longrightarrow> strip_suffix (s @ [c, CHR ''i'']) [d, CHR ''i''] = None"
  by (cases "strip_suffix (s @ [c, CHR ''i'']) [d, CHR ''i'']") (auto simp: strip_suffix_Some)

lemma as_u64_sat_nat: "m < 2 ^ 64 \<Longrightarrow> as_u64_sat (Fin (of_nat m)) = m"
proof -
  assume "m < 2 ^ 64"
  then have "int m < 2 ^ 64" by simp
  then have "min (2 ^ 64 - 1) (int m) = int m" by (intro min_absorb2) simp
  then show ?thesis by (simp only: as_u64_sat.simps floor_of_nat nat_int)
qed

lemma scale_unit:
  assumes "0 < n" "n < 2 ^ 53" "n * 2 ^ k < 2 ^ 64"
  shows "scale (show_nat n) (Fin (2 ^ k)) = n * 2 ^ k"
proof -
  have "(of_nat (n * 2 ^ k) :: rat) < of_nat (2 ^ 1024)"
    using assms(3) by (subst of_nat_less_iff) (rule less_le_trans, assumption, simp)
  then have "of_nat n * pow2 (int k) < pow2 1024"
    using pow2_nat[of 1024] by simp
  then have "rnd (of_nat n * 2 ^ k) = Fin (of_nat (n * 2 ^ k))" using rnd_exact[OF assms(2), of "int k"] by simp
  moreover have "as_u64_sat (Fin (of_nat (n * 2 ^ k))) = n * 2 ^ k" by (rule as_u64_sat_nat[OF assms(3)])
  ultimately show ?thesis
    using assms(1) by (simp add: scale_def parse_f64_show_nat[OF assms(2)] del: as_u64_sat.simps of_nat_mult of_nat_power)
qed

lemma format_with_cases:
  "(format_with us b = show_nat b \<and> (\<forall>u \<in> set us. \<not> (snd u \<le> b \<and> snd u dvd b))) \<or>
   (\<exists>u \<in> set us. snd u \<le> b \<and> snd u dvd b \<and> format_with us b = show_nat (b div snd u) @ fst u)"
  by (induction us b rule: format_with.induct) (simp_all add: dvd_eq_mod_eq_0, blast)

lemma parse_bytes_digits:
  assumes "n < 2 ^ 53"
  shows "parse_bytes (show_nat n) = n"
proof -
  let ?s = "show_nat n"
  have d: "is_digit (hd ?s)" "is_digit (last ?s)" by (rule show_nat_hd, rule show_nat_last)
  have t: "trim ?s = ?s" using d by (intro trim_id) (auto dest: not_space_digit)
  have no: "strip_suffix ?s u = None" if "u \<noteq> []" "\<not> is_digit (last u)" for u
    using strip_suffix_last[OF that(1), of ?s] d(2) that(2) by force
  have "try_binary BINARY ?s = None" by (simp add: BINARY_def no is_digit_def)
  moreover have "try_decimal DECIMAL ?s = None" by (simp add: DECIMAL_def no is_digit_def)
  moreover have "as_u64_sat (max0 (Fin (of_nat n))) = n"
  proof -
    have "n < 2 ^ 64" using assms by (rule less_le_trans) simp
    from as_u64_sat_nat[OF this] show ?thesis by (cases "n = 0") (simp_all add: max0_def)
  qed
  ultimately show ?thesis by (simp add: parse_bytes_def t parse_f64_show_nat[OF assms] del: as_u64_sat.simps)
qed

lemma parse_bytes_unit:
  assumes "0 < n" "n < 2 ^ 53" "n * 2 ^ k < 2 ^ 64" "([c, CHR ''i''], Fin (2 ^ k)) \<in> set BINARY"
  shows "parse_bytes (show_nat n @ [c, CHR ''i'']) = n * 2 ^ k"
proof -
  let ?s = "show_nat n @ [c, CHR ''i'']"
  have "is_digit (hd (show_nat n))" by (rule show_nat_hd)
  then have t: "trim ?s = ?s" by (intro trim_id) (auto dest: not_space_digit simp: is_space_def)
  have "strip_suffix ?s [c, CHR ''i''] = Some (show_nat n)" by (simp add: strip_suffix_Some)
  then have "try_binary BINARY ?s = Some (scale (show_nat n) (Fin (2 ^ k)))"
    using assms(4) by (auto simp: BINARY_def strip_suffix_unit)
  then show ?thesis by (simp add: parse_bytes_def t scale_unit[OF assms(1-3)])
qed

lemma units_binary:
  assumes "u \<in> set UNITS"
  obtains c k where "u = ([c, CHR ''i''], 2 ^ k)" "10 \<le> k" "([c, CHR ''i''], Fin (2 ^ k)) \<in> set BINARY"
proof -
  have m: "([c, CHR ''i''], Fin (2 ^ k)) \<in> set BINARY"
    if "(c, k) \<in> {(CHR ''K'', 10), (CHR ''M'', 20), (CHR ''G'', 30), (CHR ''T'', 40), (CHR ''P'', 50), (CHR ''E'', 60)}"
    for c and k :: nat
    using that unfolding BINARY_def by fastforce
  from assms consider "u = (''Ei'', 2 ^ 60)" | "u = (''Pi'', 2 ^ 50)" | "u = (''Ti'', 2 ^ 40)" | "u = (''Gi'', 2 ^ 30)" | "u = (''Mi'', 2 ^ 20)" | "u = (''Ki'', 2 ^ 10)"
    unfolding UNITS_def list.set insert_iff empty_iff by blast
  then show ?thesis
  proof cases
    case 1 then show ?thesis by (rule that[of "CHR ''E''" 60]) (simp, rule m, blast)
  next
    case 2 then show ?thesis by (rule that[of "CHR ''P''" 50]) (simp, rule m, blast)
  next
    case 3 then show ?thesis by (rule that[of "CHR ''T''" 40]) (simp, rule m, blast)
  next
    case 4 then show ?thesis by (rule that[of "CHR ''G''" 30]) (simp, rule m, blast)
  next
    case 5 then show ?thesis by (rule that[of "CHR ''M''" 20]) (simp, rule m, blast)
  next
    case 6 then show ?thesis by (rule that[of "CHR ''K''" 10]) (simp, rule m, blast)
  qed
qed

text \<open>
  C23. Printing a byte count and parsing it back is exact: for every count below \<open>2 ^ 53\<close>,
  and for every multiple of 1024 below \<open>2 ^ 63\<close>. (Odd counts above \<open>2 ^ 53\<close> lose their
  low bits, since the parser goes through a 64-bit float.)
\<close>

theorem parse_format_bytes:
  assumes "b < 2 ^ 53 \<or> (1024 dvd b \<and> b < 2 ^ 63)"
  shows "parse_bytes (format_bytes b) = b"
  using format_with_cases[of UNITS b]
proof (elim disjE conjE bexE)
  assume p: "format_with UNITS b = show_nat b" and no: "\<forall>u \<in> set UNITS. \<not> (snd u \<le> b \<and> snd u dvd b)"
  have "b < 2 ^ 53"
  proof (cases "1024 dvd b")
    case True
    then have "b = 0" using no by (auto simp: UNITS_def dest: dvd_imp_le)
    then show ?thesis by simp
  qed (use assms in simp)
  then show ?thesis by (simp add: format_bytes_def p parse_bytes_digits)
next
  fix u assume u: "u \<in> set UNITS" "snd u \<le> b" "snd u dvd b"
    "format_with UNITS b = show_nat (b div snd u) @ fst u"
  from u(1) obtain c k where k: "u = ([c, CHR ''i''], 2 ^ k)" "10 \<le> k" "([c, CHR ''i''], Fin (2 ^ k)) \<in> set BINARY"
    by (rule units_binary)
  let ?n = "b div 2 ^ k"
  have b: "?n * 2 ^ k = b" using u(3) k(1) by simp
  have b63: "b < 2 ^ 63" using assms by auto
  have "(2::nat) ^ 10 \<le> 2 ^ k" using k(2) by (intro power_increasing) simp_all
  then have "?n * 2 ^ 10 \<le> ?n * 2 ^ k" by (rule mult_le_mono2)
  then have "?n * 1024 \<le> b" using b by simp
  then have "?n < 2 ^ 53" using b63 by simp
  moreover have "0 < ?n" using u(2) k(1) by (simp add: div_greater_zero_iff)
  ultimately show ?thesis
    using parse_bytes_unit[of ?n k c] b b63 k u(4) by (simp add: format_bytes_def)
qed

theorem parse_format_bytes_witness:
  "parse_bytes (format_bytes 1073741824) = 1073741824 \<and> format_bytes 1073741824 = ''1Gi''"
proof
  show "parse_bytes (format_bytes 1073741824) = 1073741824" by (rule parse_format_bytes) simp
  show "format_bytes 1073741824 = ''1Gi''"
    by (simp add: format_bytes_def UNITS_def show_nat_eval)
qed

section \<open>Canonical numbers keep the value\<close>

text \<open>What a quantity string denotes: a signed integer and a power of ten.\<close>

definition si_exponent :: "string \<Rightarrow> int" where
  "si_exponent u =
     (if u = ''n'' then - 9 else if u = ''u'' then - 6 else if u = ''m'' then - 3
      else if u = [] then 0 else if u = ''k'' then 3 else if u = ''M'' then 6
      else if u = ''G'' then 9 else if u = ''T'' then 12 else if u = ''P'' then 15 else 18)"

definition quantity_value :: "string \<Rightarrow> rat" where
  "quantity_value q =
     (let (sign, t) = (case strip_prefix q ''-'' of Some t \<Rightarrow> (- 1, t) | None \<Rightarrow> (1, q))
      in sign * of_nat (digits_val (takeWhile is_digit t)) * pow10 (si_exponent (dropWhile is_digit t)))"

text \<open>A JSON number's text, from its parts.\<close>

definition number_parts :: "bool \<Rightarrow> string \<Rightarrow> string option \<Rightarrow> int option \<Rightarrow> string" where
  "number_parts negative ip fp ex =
     (if negative then ''-'' else []) @ ip @ (case fp of Some f \<Rightarrow> CHR ''.'' # f | None \<Rightarrow> []) @
     (case ex of Some e \<Rightarrow> CHR ''e'' # show_int e | None \<Rightarrow> [])"

definition parts_value :: "string \<Rightarrow> string option \<Rightarrow> int option \<Rightarrow> rat" where
  "parts_value ip fp ex =
     (let f = (case fp of Some f \<Rightarrow> f | None \<Rightarrow> [])
      in of_nat (digits_val (ip @ f)) * pow10 ((case ex of Some e \<Rightarrow> e | None \<Rightarrow> 0) - int (length f)))"

lemma pow10_powr: "of_rat (pow10 k) = 10 powr k"
  by (auto simp: pow10_def of_rat_power of_rat_divide powr_minus_divide powr_realpow' simp flip: powr_realpow)

lemma pow10_add: "pow10 (a + b) = pow10 a * pow10 b"
proof -
  have "(of_rat (pow10 (a + b)) :: real) = of_rat (pow10 a * pow10 b)"
    by (simp add: of_rat_mult pow10_powr powr_add)
  then show ?thesis by (simp only: of_rat_eq_iff)
qed

lemma pow10_nat [simp]: "pow10 (int n) = 10 ^ n"
  by (simp add: pow10_def)

lemma pow10_pos [simp]: "0 < pow10 k"
  by (simp add: pow10_def)

lemma wrap32_small: "- (2 ^ 31) \<le> i \<Longrightarrow> i < 2 ^ 31 \<Longrightarrow> wrap32 i = i"
  by (simp add: wrap32_def)

lemma strip_tens_value:
  assumes "0 < m" "m < 10 ^ k" "- (2 ^ 31) \<le> e" "e + int k < 2 ^ 31"
  shows "\<exists>m' e'. strip_tens m e = (m', e') \<and> of_nat m' * pow10 e' = (of_nat m * pow10 e :: rat) \<and> 0 < m' \<and> m' \<le> m \<and> e \<le> e'"
  using assms
proof (induction k arbitrary: m e)
  case (Suc k)
  show ?case
  proof (cases "m mod 10 = 0")
    case True
    have m: "m = 10 * (m div 10)" using True by auto
    have w: "wrap32 (e + 1) = e + 1" using Suc.prems by (intro wrap32_small) auto
    have "\<exists>m' e'. strip_tens (m div 10) (e + 1) = (m', e') \<and>
        of_nat m' * pow10 e' = (of_nat (m div 10) * pow10 (e + 1) :: rat) \<and> 0 < m' \<and> m' \<le> m div 10 \<and> e + 1 \<le> e'"
      using Suc.prems m by (intro Suc.IH) auto
    moreover have "of_nat (m div 10) * pow10 (e + 1) = (of_nat m * pow10 e :: rat)"
      by (subst (2) m) (simp add: pow10_add pow10_def[of 1])
    moreover have "strip_tens m e = strip_tens (m div 10) (e + 1)"
      using True Suc.prems(1) by (subst strip_tens.simps) (simp add: w)
    ultimately show ?thesis by (metis add_le_imp_le_right div_le_dividend le_trans zle_add1_eq_le add.commute less_add_one less_imp_le)
  next
    case False
    then have "strip_tens m e = (m, e)" by (subst strip_tens.simps) simp
    with Suc.prems(1) show ?thesis by simp
  qed
qed simp

lemma ceiling_div:
  assumes "0 < d"
  shows "\<lceil>of_nat m / (of_nat d :: rat)\<rceil> = int ((m + d - 1) div d)"
proof (rule ceiling_unique)
  let ?q = "(m + d - 1) div d"
  have le: "?q * d \<le> m + d - 1" by simp
  have "m + d - 1 < ?q * d + d" using assms mod_less_divisor[of d "m + d - 1"] div_mult_mod_eq[of "m + d - 1" d] by linarith
  then have ge: "m \<le> ?q * d" using assms by linarith
  from le assms have "?q * d < m + d" by linarith
  then have "(of_nat (?q * d) :: rat) < of_nat (m + d)" by (simp only: of_nat_less_iff)
  then show "of_int (int ?q) - 1 < of_nat m / (of_nat d :: rat)" using assms by (simp add: field_simps)
  from ge have "(of_nat m :: rat) \<le> of_nat (?q * d)" by (simp only: of_nat_le_iff)
  then show "of_nat m / (of_nat d :: rat) \<le> of_int (int ?q)" using assms by (simp add: field_simps)
qed

lemma si_suffix_exponent:
  assumes "e3 \<in> {- 9, - 6, - 3, 0, 3, 6, 9, 12, 15, 18}"
  shows "si_exponent (si_suffix e3) = e3" "dropWhile is_digit (si_suffix e3) = si_suffix e3"
    "takeWhile is_digit (si_suffix e3) = []"
  using assms by (auto simp: si_exponent_def si_suffix_def is_digit_def)

lemma quantity_value_show:
  assumes "e3 \<in> {- 9, - 6, - 3, 0, 3, 6, 9, 12, 15, 18}"
  shows "quantity_value ((if negative then ''-'' else []) @ show_nat n @ si_suffix e3) =
    (if negative then - 1 else 1) * of_nat n * pow10 e3"
proof -
  have tk: "takeWhile is_digit (show_nat n @ si_suffix e3) = show_nat n"
    "dropWhile is_digit (show_nat n @ si_suffix e3) = si_suffix e3"
    using si_suffix_exponent[OF assms] show_nat_digits[of n]
    by (auto simp: takeWhile_append2 dropWhile_append2 list_all_iff)
  have "strip_prefix (show_nat n @ si_suffix e3) ''-'' = None"
  proof -
    have "hd (show_nat n) \<noteq> CHR ''-''" using show_nat_hd[of n] by (auto simp: is_digit_def)
    then show ?thesis by (cases "show_nat n") (auto simp: strip_prefix_def starts_with_def)
  qed
  moreover have "strip_prefix (''-'' @ show_nat n @ si_suffix e3) ''-'' = Some (show_nat n @ si_suffix e3)"
    by (rule strip_prefix_append)
  ultimately show ?thesis
    using si_suffix_exponent[OF assms] tk by (simp add: quantity_value_def)
qed

lemma canonical_scaled_value:
  assumes "canonical_scaled negative m ex = Some out" "0 < m" "m < 10 ^ 38"
  shows "quantity_value out * 10 ^ 9 = (if negative then - 1 else 1) * of_int \<lceil>of_nat m * pow10 (ex + 9)\<rceil>"
proof (cases "ex < - 9")
  case True
  let ?d = "10 ^ nat (- 9 - ex) :: nat"
  let ?m1 = "if ?d < 2 ^ 128 then (m + ?d - 1) div ?d else 1"
  have out: "out = (if negative then ''-'' else []) @ show_nat ?m1 @ si_suffix (- 9)"
    using assms(1) True by (auto simp: canonical_scaled_def Let_def split: if_splits)
  have p: "of_nat m * pow10 (ex + 9) = of_nat m / (of_nat ?d :: rat)"
  proof -
    have "- (ex + 9) = - 9 - ex" by simp
    then show ?thesis using True by (simp only: pow10_def) simp
  qed
  have "\<lceil>of_nat m / (of_nat ?d :: rat)\<rceil> = int ?m1"
  proof (cases "?d < 2 ^ 128")
    case False
    have "(10::nat) ^ 38 < 2 ^ 128" by simp
    then have "m < ?d" using assms(3) False by linarith
    then have "(m + ?d - 1) div ?d = 1" using assms(2) by (intro div_nat_eqI) auto
    then show ?thesis using False ceiling_div[of ?d m] by simp
  qed (use ceiling_div[of ?d m] in simp)
  then show ?thesis
    unfolding out p by (subst quantity_value_show) (simp_all add: pow10_def)
next
  case False
  let ?e3 = "min (ex div 3 * 3) 18"
  let ?M = "m * 10 ^ nat (ex - ?e3)"
  have out: "out = (if negative then ''-'' else []) @ show_nat ?M @ si_suffix ?e3"
    using assms(1) False by (auto simp: canonical_scaled_def Let_def split: if_splits)
  have k: "- 3 \<le> ex div 3" using False by linarith
  have e3: "?e3 \<in> {- 9, - 6, - 3, 0, 3, 6, 9, 12, 15, 18}"
  proof (cases "6 \<le> ex div 3")
    case False
    with k have "ex div 3 \<in> {- 3, - 2, - 1, 0, 1, 2, 3, 4, 5}" by auto
    then show ?thesis by auto
  qed simp
  have le: "?e3 \<le> ex" using div_mult_mod_eq[of ex 3] pos_mod_sign[of 3 ex] by linarith
  have "of_nat ?M * pow10 ?e3 = of_nat m * pow10 ex"
    using pow10_add[of "ex - ?e3" ?e3] le by (simp add: pow10_def[of "ex - ?e3"])
  moreover have "of_nat m * pow10 ex * 10 ^ 9 = (of_nat m * pow10 (ex + 9) :: rat)"
    using pow10_add[of ex 9] pow10_nat[of 9] by simp
  moreover have "of_nat m * pow10 (ex + 9) = (of_int (int (m * 10 ^ nat (ex + 9))) :: rat)"
    using False by (simp add: pow10_def)
  ultimately show ?thesis
    unfolding out by (subst quantity_value_show[OF e3]) (metis (no_types, lifting) ceiling_of_int mult.assoc)
qed

lemma split_once_skip: "c \<notin> set s \<Longrightarrow> split_once c s = None"
  by (simp add: split_once_None)

lemma not_e: "list_all is_digit s \<Longrightarrow> x \<in> set s \<Longrightarrow> x \<noteq> CHR ''e'' \<and> x \<noteq> CHR ''E'' \<and> x \<noteq> CHR ''.'' \<and> x \<noteq> CHR ''-''"
  by (auto simp: list_all_iff is_digit_def)

lemma parse_show_int:
  assumes "- (2 ^ 31) \<le> e" "e < 2 ^ 31"
  shows "parse_sint 32 (show_int e) = Some e"
proof (cases "e < 0")
  case True
  then show ?thesis using assms by (simp add: parse_sint_def show_int_def)
next
  case False
  obtain c t where s: "show_nat (nat e) = c # t" by (cases "show_nat (nat e)") auto
  have "is_digit c" using show_nat_digits[of "nat e"] s by simp
  then have "c \<noteq> CHR ''+''" "c \<noteq> CHR ''-''" by (auto simp: is_digit_def)
  moreover have "list_all is_digit (c # t)" "digits_val (c # t) = nat e" by (simp_all flip: s)
  ultimately show ?thesis using False assms by (simp add: parse_sint_def show_int_def s Let_def)
qed

lemma split_exponent_parts:
  assumes "list_all is_digit ip" "\<forall>f. fp = Some f \<longrightarrow> list_all is_digit f"
    and "\<forall>e. ex = Some e \<longrightarrow> - (2 ^ 31) \<le> e \<and> e < 2 ^ 31"
  shows "split_exponent (number_parts False ip fp ex) =
    Some (number_parts False ip fp None, case ex of Some e \<Rightarrow> e | None \<Rightarrow> 0)"
proof -
  let ?p = "\<lambda>c. c \<noteq> CHR ''e'' \<and> c \<noteq> CHR ''E''"
  have ok: "\<forall>x \<in> set (number_parts False ip fp None). ?p x"
    using assms(1,2) not_e by (fastforce simp: number_parts_def split: option.splits)
  show ?thesis
  proof (cases ex)
    case None
    then have d: "dropWhile ?p (number_parts False ip fp ex) = []" using ok by (simp add: dropWhile_eq_Nil_conv)
    show ?thesis unfolding split_exponent_def d by (simp add: None)
  next
    case (Some e)
    have n: "number_parts False ip fp ex = number_parts False ip fp None @ CHR ''e'' # show_int e"
      by (simp add: number_parts_def Some)
    have "dropWhile ?p (number_parts False ip fp ex) = CHR ''e'' # show_int e"
      "takeWhile ?p (number_parts False ip fp ex) = number_parts False ip fp None"
      unfolding n using ok by (simp_all add: dropWhile_append2 takeWhile_append2)
    then show ?thesis using parse_show_int[of e] assms(3) by (simp add: split_exponent_def Some)
  qed
qed

lemma split_mantissa:
  assumes "list_all is_digit ip"
  shows "(case split_once CHR ''.'' (number_parts False ip fp None) of Some p \<Rightarrow> p
      | None \<Rightarrow> (number_parts False ip fp None, [])) = (ip, case fp of Some f \<Rightarrow> f | None \<Rightarrow> [])"
proof -
  have "CHR ''.'' \<notin> set ip" using assms not_e by blast
  then show ?thesis by (simp add: number_parts_def split_once_append split_once_skip split: option.splits)
qed

lemma digits_val_strip_zeros: "digits_val (trim_start_matches CHR ''0'' s) = digits_val s"
proof (induction s)
  case (Cons c s)
  have "digits_val (CHR ''0'' # s) = digits_val s" by (simp add: digits_val_def digit_val_def)
  with Cons show ?case by (simp add: trim_start_matches_def)
qed (simp add: trim_start_matches_def)

lemma foldl_digits_pos: "0 < a \<Longrightarrow> 0 < foldl (\<lambda>a c. a * 10 + digit_val c) a s"
  by (induction s arbitrary: a) auto

lemma digits_val_pos:
  assumes "d = trim_start_matches CHR ''0'' s" "d \<noteq> []" "list_all is_digit d"
  shows "0 < digits_val d"
proof -
  obtain c t where d: "d = c # t" using assms(2) by (cases d) auto
  have "c \<noteq> CHR ''0''" using assms(1) d hd_dropWhile[of "\<lambda>x. x = CHR ''0''" s]
    by (metis list.sel(1) list.simps(3) trim_start_matches_def)
  moreover have "is_digit c" using assms(3) d by simp
  moreover have "of_char c \<noteq> (48 :: nat)"
  proof
    assume "of_char c = (48 :: nat)"
    then have "c = char_of (48 :: nat)" by (metis char_of_char)
    then show False using \<open>c \<noteq> CHR ''0''\<close> digit_chars(1) by (simp add: digit_char_def)
  qed
  ultimately have "0 < digit_val c" by (simp add: is_digit_def digit_val_def)
  then show ?thesis by (simp add: d digits_val_def foldl_digits_pos)
qed

lemma digits_val_bound: "list_all is_digit d \<Longrightarrow> digits_val d < 10 ^ length d"
proof (induction d rule: rev_induct)
  case (snoc c d)
  then have "digit_val c \<le> 9" by (auto simp: is_digit_def digit_val_def)
  with snoc show ?case by auto
qed simp

lemma strip_sign:
  assumes "list_all is_digit ip" "ip \<noteq> []"
  shows "(case strip_prefix (number_parts negative ip fp ex) ''-'' of Some rest \<Rightarrow> (True, rest)
      | None \<Rightarrow> (False, number_parts negative ip fp ex)) = (negative, number_parts False ip fp ex)"
proof (cases negative)
  case True
  have "number_parts True ip fp ex = ''-'' @ number_parts False ip fp ex" by (simp add: number_parts_def)
  then show ?thesis using True by (simp only: strip_prefix_append option.simps)
next
  case False
  have "hd ip \<noteq> CHR ''-''" using assms not_e by (metis hd_in_set)
  then show ?thesis using False assms(2)
    by (cases ip) (auto simp: number_parts_def strip_prefix_def starts_with_def)
qed

text \<open>
  C22. A JSON number is rewritten as a quantity of the same value, rounded up in magnitude to
  a whole number of nanos: for every number text with a sign, an integer part, an optional
  fraction and an optional exponent, if \<open>canonical_decimal\<close> answers at all (it gives up on
  numbers too large to hold exactly, which are then kept as written), the string it gives
  denotes that value.
\<close>

theorem canonical_decimal_value:
  assumes "list_all is_digit ip" "ip \<noteq> []" "\<forall>f. fp = Some f \<longrightarrow> list_all is_digit f"
    and "\<forall>e. ex = Some e \<longrightarrow> \<bar>e\<bar> \<le> 1000000"
    and "canonical_decimal (number_parts negative ip fp ex) = Some out"
  shows "quantity_value out * 10 ^ 9 =
    (if negative then - 1 else 1) * of_int \<lceil>parts_value ip fp ex * 10 ^ 9\<rceil>"
proof -
  let ?f = "case fp of Some f \<Rightarrow> f | None \<Rightarrow> []"
  let ?e = "case ex of Some e \<Rightarrow> e | None \<Rightarrow> 0"
  let ?d = "trim_start_matches CHR ''0'' (ip @ ?f)"
  let ?x = "?e - int (length ?f)"
  have ex: "\<forall>e. ex = Some e \<longrightarrow> - (2 ^ 31) \<le> e \<and> e < 2 ^ 31" using assms(4) by force
  have e: "?e \<le> 1000000" using assms(4) by (auto split: option.splits)
  have c: "canonical_digits negative ?d ?x = Some out"
    using assms(5) unfolding canonical_decimal_def strip_sign[OF assms(1,2)]
    by (simp add: split_exponent_parts[OF assms(1,3) ex] split_mantissa[OF assms(1)])
  have v: "parts_value ip fp ex * 10 ^ 9 = of_nat (digits_val ?d) * pow10 (?x + 9)"
    using pow10_add[of ?x 9] pow10_nat[of 9] by (simp add: parts_value_def digits_val_strip_zeros Let_def)
  show ?thesis
  proof (cases "?d = []")
    case True
    then have "digits_val ?d = 0" by simp
    moreover have "quantity_value ''0'' = 0"
      using quantity_value_show[of 0 False 0] by (simp add: show_nat_eval si_suffix_def)
    ultimately show ?thesis using c True unfolding v by (simp add: canonical_digits_def)
  next
    case False
    with c have d: "length ?d \<le> 38" "list_all is_digit ?d" "- (2 ^ 31) \<le> ?x"
      and c': "(case strip_tens (digits_val ?d) ?x of (m, e) \<Rightarrow> canonical_scaled negative m e) = Some out"
      by (auto simp: canonical_digits_def split: if_splits)
    have pos: "0 < digits_val ?d" by (rule digits_val_pos[OF refl False d(2)])
    have "(10::nat) ^ length ?d \<le> 10 ^ 38" using d(1) by (intro power_increasing) simp_all
    then have lt: "digits_val ?d < 10 ^ 38" using digits_val_bound[OF d(2)] by linarith
    obtain m e' where m: "strip_tens (digits_val ?d) ?x = (m, e')"
      "of_nat m * pow10 e' = (of_nat (digits_val ?d) * pow10 ?x :: rat)" "0 < m" "m \<le> digits_val ?d"
      using strip_tens_value[OF pos lt d(3)] e by auto
    have "of_nat m * pow10 (e' + 9) = (of_nat (digits_val ?d) * pow10 (?x + 9) :: rat)"
      using m(2) by (simp add: pow10_add)
    moreover have "canonical_scaled negative m e' = Some out" using c' m(1) by simp
    ultimately show ?thesis using canonical_scaled_value[of negative m e' out] m(3,4) lt unfolding v by simp
  qed
qed

theorem canonical_decimal_value_witness:
  "canonical_decimal ''0.5'' = Some ''500m'' \<and> quantity_value ''500m'' * 10 ^ 9 = 500000000"
proof -
  have n: "number_parts False ''0'' (Some ''5'') None = ''0.5''" by (simp add: number_parts_def)
  have c: "canonical_decimal ''0.5'' = Some ''500m''"
    by (simp add: canonical_decimal_def canonical_digits_def strip_prefix_def starts_with_def split_exponent_def
        trim_start_matches_def is_digit_def digits_val_def digit_val_def strip_tens.simps
        canonical_scaled_def show_nat_eval si_suffix_def Let_def)
  have "quantity_value ''500m'' * 10 ^ 9 =
      (if False then - 1 else 1) * of_int \<lceil>parts_value ''0'' (Some ''5'') None * 10 ^ 9\<rceil>"
    by (rule canonical_decimal_value) (simp_all add: is_digit_def n c)
  then show ?thesis using c by (simp add: parts_value_def digits_val_def digit_val_def pow10_def)
qed

text \<open>
  After the write path's rewriting no quantity of a built-in object is a JSON number, an
  object that had none is stored exactly as given, and the function reports which; so
  rewriting again changes nothing.
\<close>

theorem numbers_to_strings_settles:
  "numbers_to_strings r obj = (obj', changed) \<Longrightarrow>
     (r \<in> set QUANTITY_RESOURCES \<longrightarrow> settled r [] obj') \<and>
     (changed \<longleftrightarrow> r \<in> set QUANTITY_RESOURCES \<and> \<not> settled r [] obj) \<and>
     (\<not> changed \<longrightarrow> obj' = obj) \<and> numbers_to_strings r obj' = (obj', False)"
proof (cases "r \<in> set QUANTITY_RESOURCES")
  case True
  assume "numbers_to_strings r obj = (obj', changed)"
  then have w: "walk r [] obj = (obj', changed)" using True by (simp add: numbers_to_strings_def)
  have "settled r [] obj'" "changed \<longleftrightarrow> \<not> settled r [] obj" "settled r [] obj \<longrightarrow> obj' = obj"
    using walk_settled(1)[of r "[]" obj] w by simp_all
  moreover have "walk r [] obj' = (obj', False)"
    using walk_settled(1)[of r "[]" obj'] calculation(1) by (metis prod.collapse)
  ultimately show ?thesis using True by (simp add: numbers_to_strings_def)
qed (simp add: numbers_to_strings_def)

theorem numbers_to_strings_settles_witness:
  "numbers_to_strings ''pods'' (JObj [(''limits'', JObj [(''cpu'', JNum (NFloat ''0.5''))])]) =
     (JObj [(''limits'', JObj [(''cpu'', JStr ''500m'')])], True) \<and>
   numbers_to_strings ''pods'' (JObj [(''limits'', JObj [(''cpu'', JStr ''500m'')])]) =
     (JObj [(''limits'', JObj [(''cpu'', JStr ''500m'')])], False)"
proof -
  have c: "canonical_decimal ''0.5'' = Some ''500m''"
    by (simp add: canonical_decimal_def canonical_digits_def strip_prefix_def starts_with_def split_exponent_def
        trim_start_matches_def is_digit_def digits_val_def digit_val_def strip_tens.simps
        canonical_scaled_def show_nat_eval si_suffix_def Let_def)
  have n: "numbers_to_strings ''pods'' (JObj [(''limits'', JObj [(''cpu'', JNum (NFloat ''0.5''))])]) =
     (JObj [(''limits'', JObj [(''cpu'', JStr ''500m'')])], True)"
    by (simp add: numbers_to_strings_def QUANTITY_RESOURCES_def is_quantity_def QUANTITY_MAPS_def
        canonical_number_def c)
  from numbers_to_strings_settles[OF n] n show ?thesis by simp
qed

text \<open>
  A number rounded up to nanos is not brought to the largest suffix again.
\<close>

lemma canonical_rounded: "canonical_decimal ''0.9999999999'' = Some ''1000000000n''"
  by (simp add: canonical_decimal_def canonical_digits_def strip_prefix_def starts_with_def split_exponent_def
      trim_start_matches_def is_digit_def digits_val_def digit_val_def strip_tens.simps
      canonical_scaled_def show_nat_eval si_suffix_def Let_def)

end
