(* ===== verification/Storage.thy ===== *)
theory Storage
  imports ApiError Etcd Quantity
begin

text \<open>
  \<^verbatim>\<open>pkg/apiserver/src/storage.rs\<close>: objects over the key-value store. The store's operations and
  \<^verbatim>\<open>serde_json\<close>'s \<open>to_vec\<close> and \<open>from_slice\<close> are arguments; an operation returns the new
  store state and an error or a value, or \<open>None\<close> where the code panics. The metrics timers
  are left out. Reads through the watch cache are with the watch cache.
\<close>

section \<open>Keys\<close>

definition REGISTRY_PREFIX :: string where
  "REGISTRY_PREFIX = ''/registry''"

definition metric_resource :: "string \<Rightarrow> string" where
  "metric_resource key =
     (case tl (split_on CHR ''/'' (trim_start_matches CHR ''/'' key)) of
        [] \<Rightarrow> ''unknown''
      | grp # rest \<Rightarrow>
          if grp = [] then ''unknown''
          else if CHR ''.'' \<in> set grp then
            (case rest of
               plural # _ \<Rightarrow> if plural = [] then grp else plural @ ''.'' @ grp
             | [] \<Rightarrow> grp)
          else grp)"

definition custom_resource :: "string \<Rightarrow> string \<Rightarrow> string" where
  "custom_resource grp plural = grp @ ''/'' @ plural"

definition cluster_key :: "string \<Rightarrow> string \<Rightarrow> string" where
  "cluster_key resource name = REGISTRY_PREFIX @ ''/'' @ resource @ ''/'' @ name"

definition namespaced_key :: "string \<Rightarrow> string \<Rightarrow> string \<Rightarrow> string" where
  "namespaced_key resource namespace name = REGISTRY_PREFIX @ ''/'' @ resource @ ''/'' @ namespace @ ''/'' @ name"

definition cluster_prefix :: "string \<Rightarrow> string" where
  "cluster_prefix resource = REGISTRY_PREFIX @ ''/'' @ resource @ ''/''"

definition namespace_prefix :: "string \<Rightarrow> string \<Rightarrow> string" where
  "namespace_prefix resource namespace = REGISTRY_PREFIX @ ''/'' @ resource @ ''/'' @ namespace @ ''/''"

definition all_namespaces_prefix :: "string \<Rightarrow> string" where
  "all_namespaces_prefix resource = REGISTRY_PREFIX @ ''/'' @ resource @ ''/''"

section \<open>Naming a missing object\<close>

definition API_VERSIONS :: "(string list \<times> string) list" where
  "API_VERSIONS =
    [([''deployments'', ''replicasets'', ''statefulsets'', ''daemonsets'', ''controllerrevisions''], ''apps/v1''),
     ([''jobs'', ''cronjobs''], ''batch/v1''),
     ([''leases''], ''coordination.k8s.io/v1''),
     ([''endpointslices''], ''discovery.k8s.io/v1''),
     ([''storageclasses'', ''csidrivers'', ''csinodes'', ''volumeattachments'', ''csistoragecapacities'',
       ''volumeattributesclasses''], ''storage.k8s.io/v1''),
     ([''clusterroles'', ''clusterrolebindings'', ''roles'', ''rolebindings''], ''rbac.authorization.k8s.io/v1''),
     ([''certificatesigningrequests''], ''certificates.k8s.io/v1''),
     ([''customresourcedefinitions''], ''apiextensions.k8s.io/v1''),
     ([''horizontalpodautoscalers''], ''autoscaling/v2''),
     ([''networkpolicies'', ''ingresses'', ''ingressclasses'', ''servicecidrs'', ''ipaddresses''], ''networking.k8s.io/v1''),
     ([''priorityclasses''], ''scheduling.k8s.io/v1''),
     ([''flowschemas'', ''prioritylevelconfigurations''], ''flowcontrol.apiserver.k8s.io/v1''),
     ([''runtimeclasses''], ''node.k8s.io/v1''),
     ([''poddisruptionbudgets''], ''policy/v1''),
     ([''deviceclasses'', ''resourceclaims'', ''resourceclaimtemplates'', ''resourceslices''], ''resource.k8s.io/v1''),
     ([''mutatingwebhookconfigurations'', ''validatingwebhookconfigurations'', ''validatingadmissionpolicies'',
       ''validatingadmissionpolicybindings'', ''mutatingadmissionpolicies'', ''mutatingadmissionpolicybindings''],
      ''admissionregistration.k8s.io/v1''),
     ([''gatewayclasses'', ''gateways'', ''httproutes''], ''gateway.networking.k8s.io/v1''),
     ([''apiservices''], ''apiregistration.k8s.io/v1''),
     ([''podmigrations''], ''rustkube.io/v1alpha1'')]"

definition resource_to_api_version :: "string \<Rightarrow> string" where
  "resource_to_api_version resource =
     (case find (\<lambda>e. resource \<in> set (fst e)) API_VERSIONS of Some (_, v) \<Rightarrow> v | None \<Rightarrow> ''v1'')"

text \<open>\<open>s.trim_start_matches(pat)\<close> for a string pattern.\<close>

function trim_start_str :: "string \<Rightarrow> string \<Rightarrow> string" where
  "trim_start_str pat s =
     (if pat \<noteq> [] \<and> starts_with s pat then trim_start_str pat (drop (length pat) s) else s)"
  by pat_completeness auto
termination
  by (relation "measure (\<lambda>(pat, s). length s)") (auto simp: starts_with_iff)

declare trim_start_str.simps [simp del]

definition not_found_at :: "string \<Rightarrow> api_error" where
  "not_found_at key =
     (let segs = filter (\<lambda>s. s \<noteq> []) (split_on CHR ''/'' (trim_start_str ''/registry/'' key));
          name = (if segs = [] then key else last segs);
          builtin = (\<lambda>p. ((case split_once CHR ''/'' (resource_to_api_version p) of Some (g, _) \<Rightarrow> g | None \<Rightarrow> []), p));
          (group, plural) =
            (case segs of
               g # p # rest \<Rightarrow> if rest \<noteq> [] \<and> CHR ''.'' \<in> set g then (g, p) else builtin g
             | _ \<Rightarrow> ([], ''resource''))
      in not_found (if group = [] then plural else plural @ ''.'' @ group) name)"

section \<open>The resource version in an object\<close>

definition inject_resource_version :: "json \<Rightarrow> nat \<Rightarrow> json option" where
  "inject_resource_version obj rv =
     (case (if \<not> (case jget obj ''metadata'' of Some m \<Rightarrow> is_object m | None \<Rightarrow> False)
            then jset obj [''metadata''] (JObj []) else Some obj) of
        None \<Rightarrow> None
      | Some o1 \<Rightarrow> jset o1 [''metadata'', ''resourceVersion''] (JStr (show_nat rv)))"

definition strip_resource_version :: "json \<Rightarrow> json" where
  "strip_resource_version obj =
     (case obj of
        JObj m \<Rightarrow>
          (case map_of m ''metadata'' of
             Some (JObj meta) \<Rightarrow> JObj (bt_insert ''metadata'' (JObj (bt_remove ''resourceVersion'' meta)) m)
           | _ \<Rightarrow> obj)
      | _ \<Rightarrow> obj)"

section \<open>Reads and writes\<close>

type_synonym 'b from_slice = "'b \<Rightarrow> string + json"
type_synonym 'b to_vec = "json \<Rightarrow> string + 'b"

text \<open>The object stored as \<open>bytes\<close> by revision \<open>rv\<close>.\<close>

definition decode :: "'b from_slice \<Rightarrow> 'b \<Rightarrow> nat \<Rightarrow> (api_error + json) option" where
  "decode from_slice bytes rv =
     (case from_slice bytes of
        Inl e \<Rightarrow> Some (Inl (internal e))
      | Inr obj \<Rightarrow> map_option Inr (inject_resource_version obj rv))"

definition st_get ::
    "'b from_slice \<Rightarrow> (string \<Rightarrow> 's \<Rightarrow> error + ('b \<times> nat) option) \<Rightarrow> string \<Rightarrow> 's \<Rightarrow> (api_error + json) option" where
  "st_get from_slice get key s =
     (case get key s of
        Inl e \<Rightarrow> Some (Inl (api_error_from e))
      | Inr None \<Rightarrow> Some (Inl (not_found_at key))
      | Inr (Some (bytes, rv)) \<Rightarrow> decode from_slice bytes rv)"

type_synonym ('s, 'b) put_op = "string \<Rightarrow> 'b \<Rightarrow> nat option \<Rightarrow> 's \<Rightarrow> 's \<times> (error + nat)"

definition stored_form :: "string \<Rightarrow> json \<Rightarrow> json" where
  "stored_form key obj = strip_resource_version (fst (numbers_to_strings (metric_resource key) obj))"

definition st_create ::
    "'b to_vec \<Rightarrow> ('s, 'b) put_op \<Rightarrow> string \<Rightarrow> json \<Rightarrow> 's \<Rightarrow> ('s \<times> (api_error + json)) option" where
  "st_create to_vec put key obj0 s =
     (let obj = stored_form key obj0
      in case to_vec obj of
           Inl e \<Rightarrow> Some (s, Inl (internal e))
         | Inr bytes \<Rightarrow>
             (case put key bytes (Some 0) s of
                (s', Inr rv) \<Rightarrow> map_option (\<lambda>r. (s', Inr r)) (inject_resource_version obj rv)
              | (s', Inl Conflict) \<Rightarrow>
                  Some (s', Inl (already_exists (str_or ''resource'' (jidx obj ''kind''))
                                   (str_or ''unknown'' (jat obj [''metadata'', ''name'']))))
              | (s', Inl e) \<Rightarrow> Some (s', Inl (api_error_from e))))"

definition st_update ::
    "'b to_vec \<Rightarrow> ('s, 'b) put_op \<Rightarrow> string \<Rightarrow> json \<Rightarrow> nat option \<Rightarrow> 's \<Rightarrow> ('s \<times> (api_error + json)) option" where
  "st_update to_vec put key obj0 prev s =
     (let obj = stored_form key obj0
      in case to_vec obj of
           Inl e \<Rightarrow> Some (s, Inl (internal e))
         | Inr bytes \<Rightarrow>
             (case put key bytes prev s of
                (s', Inr rv) \<Rightarrow> map_option (\<lambda>r. (s', Inr r)) (inject_resource_version obj rv)
              | (s', Inl e) \<Rightarrow> Some (s', Inl (api_error_from e))))"

definition st_delete ::
    "(string \<Rightarrow> nat option \<Rightarrow> 's \<Rightarrow> 's \<times> (error + nat)) \<Rightarrow> string \<Rightarrow> nat option \<Rightarrow> 's \<Rightarrow> 's \<times> (api_error + unit)" where
  "st_delete delete key prev s =
     (case delete key prev s of
        (s', Inr _) \<Rightarrow> (s', Inr ())
      | (s', Inl e) \<Rightarrow> (s', Inl (api_error_from e)))"

section \<open>Lists\<close>

record list_page_result =
  lp_items :: "json list"
  lp_continue :: "string option"
  lp_revision :: nat
  lp_remaining :: "nat option"

definition INCONSISTENT_CONTINUE :: string where
  "INCONSISTENT_CONTINUE = ''The provided continue parameter is too old to display a consistent list result. You can start a new list without the continue parameter, or use the continue token in this response to retrieve the remainder of the results. Continuing with the provided token results in an inconsistent list - objects that were created, modified, or deleted between the time the first chunk was returned and now may show up in the list.''"

definition parse_continue :: "string \<Rightarrow> nat option \<times> string" where
  "parse_continue token =
     (case split_once CHR '':'' token of
        Some (rv, key) \<Rightarrow>
          if rv \<noteq> [] \<and> list_all is_digit rv then (parse_uint 64 rv, key) else (None, token)
      | None \<Rightarrow> (None, token))"

definition continue_token :: "nat \<Rightarrow> string \<Rightarrow> string" where
  "continue_token revision k = show_nat revision @ '':'' @ k"

fun decode_items :: "'b from_slice \<Rightarrow> (string \<times> 'b \<times> nat) list \<Rightarrow> (api_error + json list) option" where
  "decode_items from_slice [] = Some (Inr [])"
| "decode_items from_slice ((k, bytes, rv) # items) =
     (case decode from_slice bytes rv of
        None \<Rightarrow> None
      | Some (Inl e) \<Rightarrow> Some (Inl e)
      | Some (Inr obj) \<Rightarrow>
          (case decode_items from_slice items of
             None \<Rightarrow> None
           | Some (Inl e) \<Rightarrow> Some (Inl e)
           | Some (Inr objs) \<Rightarrow> Some (Inr (obj # objs))))"

type_synonym ('s, 'b) list_at_op = "string \<Rightarrow> nat \<Rightarrow> string option \<Rightarrow> nat option \<Rightarrow> 's \<Rightarrow> error + 'b list_result"

definition list_pinned ::
    "'b from_slice \<Rightarrow> ('s, 'b) list_at_op \<Rightarrow> string \<Rightarrow> nat \<Rightarrow> string option \<Rightarrow> nat option \<Rightarrow> 's \<Rightarrow>
     (api_error + list_page_result) option" where
  "list_pinned from_slice list_at prefix limit tok pinned s =
     (case list_at prefix limit tok pinned s of
        Inl (Gone r) \<Rightarrow>
          if tok \<noteq> None then Some (Inl ((gone INCONSISTENT_CONTINUE)\<lparr>ae_continue := tok\<rparr>))
          else Some (Inl (api_error_from (Gone r)))
      | Inl e \<Rightarrow> Some (Inl (api_error_from e))
      | Inr page \<Rightarrow>
          (case decode_items from_slice (lr_items page) of
             None \<Rightarrow> None
           | Some (Inl e) \<Rightarrow> Some (Inl e)
           | Some (Inr items) \<Rightarrow>
               (let revision = (case pinned of Some r \<Rightarrow> r | None \<Rightarrow> lr_revision page)
                in Some (Inr \<lparr>lp_items = items,
                              lp_continue = map_option (continue_token revision) (lr_continue page),
                              lp_revision = revision, lp_remaining = lr_remaining page\<rparr>))))"

definition list_page ::
    "'b from_slice \<Rightarrow> ('s, 'b) list_at_op \<Rightarrow> string \<Rightarrow> nat \<Rightarrow> string option \<Rightarrow> 's \<Rightarrow> (api_error + list_page_result) option" where
  "list_page from_slice list_at prefix limit token s =
     (case map_option parse_continue token of
        Some (rv, key) \<Rightarrow> list_pinned from_slice list_at prefix limit (Some key) rv s
      | None \<Rightarrow> list_pinned from_slice list_at prefix limit None None s)"

definition list_page_at ::
    "'b from_slice \<Rightarrow> ('s, 'b) list_at_op \<Rightarrow> string \<Rightarrow> nat \<Rightarrow> nat \<Rightarrow> 's \<Rightarrow> (api_error + list_page_result) option" where
  "list_page_at from_slice list_at prefix limit rv s = list_pinned from_slice list_at prefix limit None (Some rv) s"

datatype read = Consistent | NotOlderThan nat | Exact nat

text \<open>The \<open>{v:?}\<close> of a request's text is \<open>quoted\<close> (without the escapes).\<close>

definition from_params :: "string option \<Rightarrow> string option \<Rightarrow> api_error + read" where
  "from_params resource_version match_mode =
     (let given = (case resource_version of Some v \<Rightarrow> if v = [] then None else Some v | None \<Rightarrow> None);
          mode = (case match_mode of Some m \<Rightarrow> m | None \<Rightarrow> [])
      in case given of
           None \<Rightarrow>
             if mode \<noteq> []
             then Inl (bad_request ''resourceVersionMatch is forbidden unless resourceVersion is provided'')
             else Inr Consistent
         | Some v \<Rightarrow>
             (case parse_uint 64 v of
                None \<Rightarrow> Inl (bad_request (''invalid resourceVersion '' @ quoted v @ '': must be a number''))
              | Some rv \<Rightarrow>
                  if mode = [] \<or> mode = ''NotOlderThan'' then Inr (NotOlderThan rv)
                  else if mode = ''Exact'' \<and> rv = 0
                  then Inl (bad_request (''resourceVersionMatch '' @ quoted ''Exact'' @
                              '' is forbidden for resourceVersion '' @ quoted ''0''))
                  else if mode = ''Exact'' then Inr (Exact rv)
                  else Inl (bad_request (''invalid resourceVersionMatch '' @ quoted mode @
                              '': must be NotOlderThan or Exact''))))"


section \<open>Objects and their versions\<close>

text \<open>Reading the resource version of an object as the handlers do before an update.\<close>

definition object_version :: "json \<Rightarrow> nat option" where
  "object_version obj = parse_uint 64 (str_or [] (jat obj [''metadata'', ''resourceVersion'']))"

lemma inject_version:
  "inject_resource_version obj r = Some o' \<Longrightarrow> jat o' [''metadata'', ''resourceVersion''] = JStr (show_nat r)"
  unfolding inject_resource_version_def by (auto split: option.splits if_splits dest: jset_jat simp del: jset.simps)

lemma object_version_inject: "inject_resource_version obj r = Some o' \<Longrightarrow> r < 2 ^ 64 \<Longrightarrow> object_version o' = Some r"
  using inject_version[of obj r o'] by (simp add: object_version_def parse_show_nat del: jat_Cons)

definition serde_ok :: "'b to_vec \<Rightarrow> 'b from_slice \<Rightarrow> bool" where
  "serde_ok to_vec from_slice \<longleftrightarrow> (\<forall>j b. to_vec j = Inr b \<longrightarrow> from_slice b = Inr j)"

lemma st_create_Inr:
  assumes "st_create to_vec put key obj s = Some (s', Inr r)"
  obtains bytes rv where "to_vec (stored_form key obj) = Inr bytes" "put key bytes (Some 0) s = (s', Inr rv)"
    "inject_resource_version (stored_form key obj) rv = Some r"
  using assms by (auto simp: st_create_def Let_def split: sum.splits prod.splits error.splits)

lemma st_update_Inr:
  assumes "st_update to_vec put key obj prev s = Some (s', Inr r)"
  obtains bytes rv where "to_vec (stored_form key obj) = Inr bytes" "put key bytes prev s = (s', Inr rv)"
    "inject_resource_version (stored_form key obj) rv = Some r"
  using assms by (auto simp: st_update_def Let_def split: sum.splits prod.splits)

lemma st_get_Inr:
  assumes "st_get from_slice get key s = Some (Inr r)"
  obtains bytes rv obj where "get key s = Inr (Some (bytes, rv))" "from_slice bytes = Inr obj"
    "inject_resource_version obj rv = Some r"
  using assms by (auto simp: st_get_def decode_def split: sum.splits option.splits)

section \<open>Writes over the store contract\<close>

text \<open>What any clients may do to the store between two calls of one client.\<close>

inductive changes :: "('s \<Rightarrow> string \<Rightarrow> 'v \<Rightarrow> 's \<Rightarrow> bool) \<Rightarrow> ('s \<Rightarrow> string \<Rightarrow> 's \<Rightarrow> bool) \<Rightarrow> 's \<Rightarrow> 's \<Rightarrow> bool"
  for wrote removed where
  none: "changes wrote removed s s"
| writes: "changes wrote removed s t \<Longrightarrow> wrote t k v u \<Longrightarrow> changes wrote removed s u"
| removes: "changes wrote removed s t \<Longrightarrow> removed t k u \<Longrightarrow> changes wrote removed s u"

context kv_store
begin

text \<open>A key is as it was, gone, or newer than anything there was.\<close>

lemma changes_keep:
  "changes wrote removed s t \<Longrightarrow> inv s \<Longrightarrow> inv t \<and> rev s \<le> rev t \<and>
     (contents t k = contents s k \<or> contents t k = None \<or> (\<exists>v r. contents t k = Some (v, r) \<and> rev s < r))"
proof (induction rule: changes.induct)
  case (writes s t k' v u)
  then have t: "inv t" "rev s \<le> rev t" by auto
  note e = wrote_effect[OF t(1) writes.hyps(2)]
  show ?case using e t writes.IH writes.prems by (cases "k = k'") auto
next
  case (removes s t k' u)
  then have t: "inv t" "rev s \<le> rev t" by auto
  note e = removed_effect[OF t(1) removes.hyps(2)]
  show ?case using e t removes.IH removes.prems by (cases "k = k'") auto
qed simp

lemma unchanged_since:
  assumes "inv s" "contents s k = Some (b, r)" "changes wrote removed s t" "mod_rev (contents t) k = r"
  shows "contents t k = contents s k"
proof -
  have "0 < r" "r \<le> rev s" using rev_pos[OF assms(1,2)] by auto
  with changes_keep[OF assms(3,1), of k] assms(4) show ?thesis
    by (auto simp: mod_rev_def)
qed

lemma update_replaces_read:
  assumes s: "inv s" "rev s < 2 ^ 63" "st_get from_slice get key s = Some (Inr obj)" "object_version obj = Some r"
    and t: "changes wrote removed s t" "st_update to_vec put key new (Some r) t = Some (t', Inr res)"
  shows "contents t key = contents s key \<and> contents s key \<noteq> None"
proof -
  obtain bytes rv o' where g: "get key s = Inr (Some (bytes, rv))" "inject_resource_version o' rv = Some obj"
    using s(3) by (rule st_get_Inr)
  then have c: "contents s key = Some (bytes, rv)" using get_ok[OF s(1)] by metis
  then have rv: "rv < 2 ^ 63" using rev_pos[OF s(1)] s(2) by fastforce
  then have "rv < 2 ^ 64" by simp
  with object_version_inject[OF g(2)] s(4) have "r = rv" by simp
  obtain b n where "put key b (Some r) t = (t', Inr n)" using t(2) by (rule st_update_Inr)
  with put_ok changes_keep[OF t(1) s(1)] rv \<open>r = rv\<close> have "mod_rev (contents t) key = rv" by blast
  with unchanged_since[OF s(1) c t(1)] c show ?thesis by simp
qed

lemma create_existing_fails:
  assumes s: "inv s" "contents s key \<noteq> None" and c: "st_create to_vec put key obj s = Some (s', res)"
  shows "s' = s \<and> (\<exists>e. res = Inl e)"
proof -
  have m: "mod_rev (contents s) key \<noteq> 0" using s rev_pos[OF s(1)] by (fastforce simp: mod_rev_def)
  show ?thesis
  proof (cases "to_vec (stored_form key obj)")
    case (Inr bytes)
    obtain p r where p: "put key bytes (Some 0) s = (p, r)" by (cases "put key bytes (Some 0) s")
    show ?thesis
    proof (cases r)
      case (Inl e)
      with put_err[OF s(1) p[unfolded Inl]] m have "p = s" by force
      with c p Inl Inr show ?thesis by (auto simp: st_create_def Let_def split: error.splits)
    next
      case (Inr n)
      with put_ok[OF s(1) p[unfolded Inr]] m show ?thesis by force
    qed
  qed (use c in \<open>auto simp: st_create_def Let_def\<close>)
qed

lemma write_then_read:
  assumes "inv s" "serde_ok to_vec from_slice" "to_vec (stored_form key obj) = Inr bytes"
    "put key bytes prev s = (s', Inr rv)" "inject_resource_version (stored_form key obj) rv = Some r" "get key s' = Inr x"
  shows "st_get from_slice get key s' = Some (Inr r)"
proof -
  have w: "wrote s key bytes s'" "rv = rev s'" using put_ok[OF assms(1,4)] by auto
  with wrote_effect[OF assms(1)] have "inv s'" "contents s' key = Some (bytes, rv)" by auto
  with get_ok assms(6) have "get key s' = Inr (Some (bytes, rv))" by metis
  with assms(2,3,5) show ?thesis by (simp add: st_get_def decode_def serde_ok_def)
qed

lemma create_then_get:
  assumes "inv s" "serde_ok to_vec from_slice" "st_create to_vec put key obj s = Some (s', Inr r)" "get key s' = Inr x"
  shows "st_get from_slice get key s' = Some (Inr r)"
  using assms(3) by (rule st_create_Inr) (use write_then_read[OF assms(1,2)] assms(4) in blast)

lemma update_then_get:
  assumes "inv s" "serde_ok to_vec from_slice" "st_update to_vec put key obj prev s = Some (s', Inr r)" "get key s' = Inr x"
  shows "st_get from_slice get key s' = Some (Inr r)"
  using assms(3) by (rule st_update_Inr) (use write_then_read[OF assms(1,2)] assms(4) in blast)

end

section \<open>Paged lists over the store contract\<close>

lemma colon_not_digit: "\<not> is_digit CHR '':''"
  by (simp add: is_digit_def)

lemma colon_show_nat: "CHR '':'' \<notin> set (show_nat n)"
  using show_nat_digits[of n] colon_not_digit by (auto simp: list_all_iff)

lemma parse_continue_token: "r < 2 ^ 64 \<Longrightarrow> parse_continue (continue_token r k) = (Some r, k)"
  using split_once_append[OF colon_show_nat, of r k] by (simp add: parse_continue_def continue_token_def parse_show_nat)

lemma decode_items_append:
  "decode_items f xs = Some (Inr a) \<Longrightarrow> decode_items f ys = Some (Inr b) \<Longrightarrow> decode_items f (xs @ ys) = Some (Inr (a @ b))"
  by (induction f xs arbitrary: a rule: decode_items.induct) (auto split: option.splits sum.splits)

lemma decode_items_length: "decode_items f xs = Some (Inr a) \<Longrightarrow> length a = length xs"
  by (induction f xs arbitrary: a rule: decode_items.induct) (auto split: option.splits sum.splits)

text \<open>
  A client that follows the continue tokens of a list to the end: each page is asked of the
  store as it is by then, after whatever \<open>evolves\<close> allows in between. The counter is the
  number of requests.
\<close>

inductive paged :: "('s \<Rightarrow> 's \<Rightarrow> bool) \<Rightarrow> (string option \<Rightarrow> 's \<Rightarrow> (api_error + list_page_result) option) \<Rightarrow>
    string option \<Rightarrow> 's \<Rightarrow> json list \<Rightarrow> nat \<Rightarrow> bool" for evolves page where
  finish: "page token s = Some (Inr p) \<Longrightarrow> lp_continue p = None \<Longrightarrow> paged evolves page token s (lp_items p) 1"
| more: "page token s = Some (Inr p) \<Longrightarrow> lp_continue p = Some c \<Longrightarrow> evolves s t \<Longrightarrow>
    paged evolves page (Some c) t rest n \<Longrightarrow> paged evolves page token s (lp_items p @ rest) (Suc n)"

lemma list_pinned_Inr:
  assumes "list_pinned from_slice list_at prefix limit tok pinned s = Some (Inr p)"
  obtains page where "list_at prefix limit tok pinned s = Inr page"
    "decode_items from_slice (lr_items page) = Some (Inr (lp_items p))"
    "lp_revision p = (case pinned of Some r \<Rightarrow> r | None \<Rightarrow> lr_revision page)"
    "lp_continue p = map_option (continue_token (lp_revision p)) (lr_continue page)"
  using assms by (auto simp: list_pinned_def Let_def split: sum.splits option.splits error.splits if_splits)

context kv_mvcc
begin

lemma list_pinned_page:
  assumes "inv s" "prefix \<noteq> []" "last prefix = CHR ''/''" "limit < 2 ^ 63" "\<forall>t. tok = Some t \<longrightarrow> starts_with t prefix"
    and "pinned \<noteq> Some 0" "list_pinned from_slice list_at prefix limit tok pinned s = Some (Inr p)"
  shows "lp_revision p = (case pinned of Some r \<Rightarrow> r | None \<Rightarrow> rev s)" "lp_revision p \<le> rev s"
    "decode_items from_slice (cut limit (matching (hist s (lp_revision p)) prefix tok)) = Some (Inr (lp_items p))"
    "lp_continue p = map_option (continue_token (lp_revision p)) (next_token limit (matching (hist s (lp_revision p)) prefix tok))"
proof -
  obtain page where p: "list_at prefix limit tok pinned s = Inr page"
    "decode_items from_slice (lr_items page) = Some (Inr (lp_items p))"
    "lp_revision p = (case pinned of Some r \<Rightarrow> r | None \<Rightarrow> lr_revision page)"
    "lp_continue p = map_option (continue_token (lp_revision p)) (lr_continue page)"
    using assms(7) by (rule list_pinned_Inr)
  let ?r = "case pinned of Some r \<Rightarrow> r | None \<Rightarrow> rev s"
  have "?r \<le> rev s" "page = page_of (hist s ?r) prefix limit tok ?r"
    using list_at_ok[OF assms(1,2) _ assms(4,5,6) p(1)] assms(3) by (simp_all add: Let_def)
  moreover from this p(3) have "lp_revision p = ?r" by (simp split: option.splits)
  ultimately show "lp_revision p = ?r" "lp_revision p \<le> rev s"
    "decode_items from_slice (cut limit (matching (hist s (lp_revision p)) prefix tok)) = Some (Inr (lp_items p))"
    "lp_continue p = map_option (continue_token (lp_revision p)) (next_token limit (matching (hist s (lp_revision p)) prefix tok))"
    using p(2,4) by simp_all
qed

text \<open>The pages from a token on are what was left at the token's revision.\<close>

lemma paged_rest:
  assumes "paged evolves (list_page from_slice list_at prefix limit) token s items n"
    and "prefix \<noteq> []" "last prefix = CHR ''/''" "0 < limit" "limit < 2 ^ 63"
    and "inv s" "0 < r" "r \<le> rev s" "r < 2 ^ 64" "token = Some (continue_token r k)" "starts_with k prefix"
  shows "decode_items from_slice (matching (hist s r) prefix (Some k)) = Some (Inr items) \<and>
    n \<le> Suc (length items div limit)"
  using assms(1,6-)
proof (induction arbitrary: k rule: paged.induct)
  case (finish token s p)
  have l: "list_pinned from_slice list_at prefix limit (Some k) (Some r) s = Some (Inr p)"
    using finish by (simp add: list_page_def parse_continue_token)
  note pg = list_pinned_page[OF \<open>inv s\<close> assms(2,3,5) _ _ l]
  have "lp_revision p = r" using pg(1) finish by simp
  with pg(3,4) finish show ?case by (auto dest: next_token_None)
next
  case (more token s p c t rest n)
  have l: "list_pinned from_slice list_at prefix limit (Some k) (Some r) s = Some (Inr p)"
    using more by (simp add: list_page_def parse_continue_token)
  note pg = list_pinned_page[OF \<open>inv s\<close> assms(2,3,5) _ _ l]
  have r: "lp_revision p = r" using pg(1) more by simp
  let ?xs = "matching (hist s r) prefix (Some k)"
  have "map_option (continue_token r) (next_token limit ?xs) = Some c" using pg(4) r more.hyps more.prems by simp
  then obtain k' where k': "next_token limit ?xs = Some k'" "c = continue_token r k'" by auto
  note nx = matching_next[OF hist_wf[OF \<open>inv s\<close> \<open>r \<le> rev s\<close>] k'(1)]
  have t: "inv t" "r \<le> rev t" "hist t r = hist s r" using evolves_keeps[OF \<open>inv s\<close> \<open>evolves s t\<close>] more by auto
  have ih: "decode_items from_slice (drop limit ?xs) = Some (Inr rest)" "n \<le> Suc (length rest div limit)"
    using more.IH[OF t(1) _ t(2) _ _ nx(2)] more.prems k'(2) t(3) nx(1) by simp_all
  have cut: "cut limit ?xs = take limit ?xs" using assms(4) by (simp add: cut_def)
  have d: "decode_items from_slice (take limit ?xs) = Some (Inr (lp_items p))" using pg(3) more.prems r cut by simp
  with decode_items_append[OF this ih(1)] have "decode_items from_slice ?xs = Some (Inr (lp_items p @ rest))" by simp
  moreover have "length (lp_items p) = limit" using decode_items_length[OF d] nx(4) by simp
  ultimately show ?case using ih(2) assms(4) by simp
qed

lemma paged_list_is_snapshot:
  assumes "paged evolves (list_page from_slice list_at prefix limit) None s items n"
    and "prefix \<noteq> []" "last prefix = CHR ''/''" "0 < limit" "limit < 2 ^ 63" "inv s" "rev s < 2 ^ 64"
  shows "decode_items from_slice (matching (hist s (rev s)) prefix None) = Some (Inr items) \<and>
    n \<le> Suc (length items div limit)"
  using assms(1)
proof (cases rule: paged.cases)
  case (finish p)
  then have l: "list_pinned from_slice list_at prefix limit None None s = Some (Inr p)"
    by (simp add: list_page_def)
  note pg = list_pinned_page[OF assms(6,2,3,5) _ _ l]
  with finish show ?thesis by (auto dest: next_token_None)
next
  case (more p c t rest m)
  then have l: "list_pinned from_slice list_at prefix limit None None s = Some (Inr p)"
    by (simp add: list_page_def)
  note pg = list_pinned_page[OF assms(6,2,3,5) _ _ l]
  have r: "lp_revision p = rev s" using pg(1) by simp
  let ?xs = "matching (hist s (rev s)) prefix None"
  have "map_option (continue_token (rev s)) (next_token limit ?xs) = Some c" using pg(4) r more(4) by simp
  then obtain k' where k': "next_token limit ?xs = Some k'" "c = continue_token (rev s) k'" by auto
  note nx = matching_next[OF hist_wf[OF assms(6) le_refl] k'(1)]
  have t: "inv t" "rev s \<le> rev t" "hist t (rev s) = hist s (rev s)" using evolves_keeps[OF assms(6) \<open>evolves s t\<close>] by auto
  have ih: "decode_items from_slice (drop limit ?xs) = Some (Inr rest)" "m \<le> Suc (length rest div limit)"
    using paged_rest[OF \<open>paged _ _ _ t rest m\<close> assms(2-5) t(1) rev_positive[OF assms(6)] t(2) assms(7) _ nx(2)] k'(2) t(3) nx(1)
    by simp_all
  have d: "decode_items from_slice (take limit ?xs) = Some (Inr (lp_items p))"
    using pg(3) r assms(4) by (simp add: cut_def)
  with decode_items_append[OF this ih(1)] have "decode_items from_slice ?xs = Some (Inr (lp_items p @ rest))" by simp
  moreover have "length (lp_items p) = limit" using decode_items_length[OF d] nx(4) by simp
  ultimately show ?thesis using ih(2) assms(4) more by simp
qed

end


section \<open>An example store\<close>

text \<open>A server with one lease, then two, and bytes that are the JSON itself.\<close>

definition ex_key :: string where "ex_key = ''/registry/leases/n/a''"
definition ex_obj :: json where "ex_obj = JObj [(''metadata'', JObj [(''name'', JStr ''a'')])]"
definition ex_out :: "nat \<Rightarrow> json" where
  "ex_out r = JObj [(''metadata'', JObj [(''name'', JStr ''a''), (''resourceVersion'', JStr (show_nat r))])]"
definition ex_kv :: "json kv" where "ex_kv = \<lparr>kv_value = ex_obj, kv_create = 2, kv_mod = 2, kv_version = 1\<rparr>"
definition ex_empty :: "json server" where "ex_empty = [[], []]"
definition ex_full :: "json server" where "ex_full = [[], [], [(ex_key, ex_kv)]]"
definition ex_next :: "json server" where "ex_next = [[], [], [(ex_key, ex_kv)], [(ex_key, ex_kv\<lparr>kv_mod := 3, kv_version := 2\<rparr>)]]"

lemma ex_stored: "stored_form ex_key (ex_out r) = ex_obj" "stored_form ex_key ex_obj = ex_obj"
proof -
  have m: "metric_resource ex_key = ''leases''" by (simp add: metric_resource_def ex_key_def trim_start_matches_def)
  have q: "numbers_to_strings ''leases'' v = (v, False)" for v by (simp add: numbers_to_strings_def QUANTITY_RESOURCES_def)
  show "stored_form ex_key (ex_out r) = ex_obj" "stored_form ex_key ex_obj = ex_obj"
    by (simp_all add: stored_form_def m q ex_out_def ex_obj_def strip_resource_version_def bt_remove_def)
qed

lemma ex_inject: "inject_resource_version ex_obj r = Some (ex_out r)"
  by (simp add: inject_resource_version_def ex_obj_def ex_out_def less_char_def)

lemma ex_inv: "srv_inv ex_empty" "srv_inv ex_full"
  by (auto simp: srv_inv_def ex_empty_def ex_full_def ex_kv_def bt_wf_Cons less_Suc_eq nth_Cons split: nat.splits)

lemma ex_create: "st_create Inr (etcd_put srv_put srv_txn) ex_key ex_obj ex_empty = Some (ex_full, Inr (ex_out 2))"
  unfolding st_create_def ex_stored Let_def
  by (simp add: etcd_put_def srv_txn_def srv_put_def ex_empty_def ex_full_def srv_kv_def ex_kv_def header_rev_def ex_inject)

lemma ex_get: "st_get Inr (etcd_get srv_range) ex_key ex_full = Some (Inr (ex_out 2))"
  by (simp add: st_get_def etcd_get_def srv_range_def ex_full_def ex_kv_def decode_def ex_inject Let_def)

lemma ex_update: "st_update Inr (etcd_put srv_put srv_txn) ex_key (ex_out 2) (Some 2) ex_full = Some (ex_next, Inr (ex_out 3))"
  unfolding st_update_def ex_stored Let_def
  by (simp add: etcd_put_def srv_txn_def srv_put_def ex_next_def ex_full_def srv_kv_def ex_kv_def header_rev_def ex_inject)


definition ex_key2 :: string where "ex_key2 = ''/registry/leases/n/b''"
definition ex_two :: "json server" where "ex_two = ex_full @ [[(ex_key, ex_kv), (ex_key2, ex_kv\<lparr>kv_mod := 3\<rparr>)]]"
definition ex_later :: "json server" where "ex_later = ex_two @ [[(ex_key2, ex_kv\<lparr>kv_mod := 3\<rparr>)]]"

lemmas ex_simps = list_pinned_def etcd_list_at_def srv_range_def ex_full_def ex_two_def ex_later_def srv_rev_def srv_hist_def
  ex_kv_def decode_def ex_inject ex_key_def ex_key2_def prefix_range_end_def byte_succ_def cut_def next_token_def header_rev_def
  less_char_def Let_def

lemma ex_page1: "list_page Inr (etcd_list_at srv_range) ''/registry/leases/'' 1 None ex_two =
  Some (Inr \<lparr>lp_items = [ex_out 2], lp_continue = Some (continue_token 3 ex_key), lp_revision = 3, lp_remaining = Some 1\<rparr>)"
  by (simp add: list_page_def ex_simps)

lemma ex_page2: "list_page Inr (etcd_list_at srv_range) ''/registry/leases/'' 1 (Some (continue_token 3 ex_key)) ex_later =
  Some (Inr \<lparr>lp_items = [ex_out 3], lp_continue = None, lp_revision = 3, lp_remaining = Some 0\<rparr>)"
  by (simp add: list_page_def parse_continue_token ex_simps)

lemma ex_two_inv: "srv_inv ex_two" "srv_evolves ex_two ex_later"
  by (auto simp: srv_evolves_def srv_inv_def ex_two_def ex_later_def ex_full_def ex_kv_def ex_key_def ex_key2_def
      bt_wf_Cons less_Suc_eq nth_Cons less_char_def nth_append split: nat.splits)

lemma ex_paged: "paged srv_evolves (list_page Inr (etcd_list_at srv_range) ''/registry/leases/'' 1) None ex_two [ex_out 2, ex_out 3] 2"
proof -
  let ?page = "list_page Inr (etcd_list_at srv_range) ''/registry/leases/'' 1"
  have "paged srv_evolves ?page (Some (continue_token 3 ex_key)) ex_later [ex_out 3] 1"
    using paged.finish[where page = ?page and evolves = srv_evolves, OF ex_page2] by simp
  with paged.more[where page = ?page and evolves = srv_evolves, OF ex_page1 _ ex_two_inv(2)]
  show ?thesis by (simp add: numeral_2_eq_2)
qed

section \<open>Properties\<close>

context etcd
begin

lemmas adapter_update_replaces_read = update_replaces_read
lemmas adapter_create_existing_fails = create_existing_fails
lemmas adapter_create_then_get = create_then_get
lemmas adapter_paged_list = mvcc.paged_list_is_snapshot

end

lemma etcd_rev_small: "etcd e_inv e_rev e_hist e_evolves e_wrote e_removed range_fn put_fn delete_fn txn_fn \<Longrightarrow>
    e_inv s \<Longrightarrow> e_rev s < 2 ^ 63"
  using etcd.rev_range by fast

text \<open>
  C2. No update is lost. A client reads an object through the API server, other clients and
  API servers write and delete as they like, and the client's update, conditional on the
  resource version it read, is accepted: then the object is still the one it read. This holds
  on any etcd server that keeps its documented promises, even if the key was deleted and
  created again meanwhile.
\<close>

theorem no_lost_update:
  assumes "etcd e_inv e_rev e_hist e_evolves e_wrote e_removed range_fn put_fn delete_fn txn_fn"
    and "e_inv s" "st_get from_slice (etcd_get range_fn) key s = Some (Inr obj)" "object_version obj = Some r"
    and "changes e_wrote e_removed s t"
    and "st_update to_vec (etcd_put put_fn txn_fn) key new (Some r) t = Some (t', Inr res)"
  shows "map_of (hist_view (e_hist t (e_rev t))) key = map_of (hist_view (e_hist s (e_rev s))) key \<and>
    map_of (hist_view (e_hist s (e_rev s))) key \<noteq> None"
  by (rule etcd.adapter_update_replaces_read[OF assms(1,2) etcd_rev_small[OF assms(1,2)] assms(3-6)])

theorem no_lost_update_witness:
  "map_of (hist_view (srv_hist ex_full (srv_rev ex_full))) ex_key \<noteq> None \<and> object_version (ex_out 2) = Some 2"
  using no_lost_update[OF srv.etcd_axioms ex_inv(2) ex_get _ changes.none ex_update]
    object_version_inject[OF ex_inject, of 2] by simp

text \<open>
  Creation is exclusive: creating an object whose key exists is refused and writes
  nothing, whichever API server the first creation went through.
\<close>

theorem create_is_exclusive:
  assumes "etcd e_inv e_rev e_hist e_evolves e_wrote e_removed range_fn put_fn delete_fn txn_fn"
    and "e_inv s" "map_of (hist_view (e_hist s (e_rev s))) key \<noteq> None"
    and "st_create to_vec (etcd_put put_fn txn_fn) key obj s = Some (s', res)"
  shows "s' = s \<and> (\<exists>e. res = Inl e)"
  by (rule etcd.adapter_create_existing_fails[OF assms])

theorem create_is_exclusive_witness:
  "\<exists>s' e. st_create Inr (etcd_put srv_put srv_txn) ex_key ex_obj ex_full = Some (s', Inl e) \<and> s' = ex_full"
proof -
  have "map_of (hist_view (srv_hist ex_full (srv_rev ex_full))) ex_key \<noteq> None"
    by (simp add: ex_full_def srv_hist_def srv_rev_def hist_view_def)
  moreover have "st_create Inr (etcd_put srv_put srv_txn) ex_key ex_obj ex_full \<noteq> None"
    unfolding st_create_def ex_stored Let_def
    by (simp add: etcd_put_def srv_txn_def srv_put_def ex_full_def ex_kv_def)
  ultimately show ?thesis using create_is_exclusive[OF srv.etcd_axioms ex_inv(2)] by (metis not_None_eq surj_pair)
qed

text \<open>
  What a creation returns is what the next read returns, resource version included,
  given that \<^verbatim>\<open>serde_json\<close> reads back what it wrote.
\<close>

theorem create_get_roundtrip:
  assumes "etcd e_inv e_rev e_hist e_evolves e_wrote e_removed range_fn put_fn delete_fn txn_fn"
    and "e_inv s" "serde_ok to_vec from_slice"
    and "st_create to_vec (etcd_put put_fn txn_fn) key obj s = Some (s', Inr r)" "etcd_get range_fn key s' = Inr x"
  shows "st_get from_slice (etcd_get range_fn) key s' = Some (Inr r)"
  by (rule etcd.adapter_create_then_get[OF assms])

theorem create_get_roundtrip_witness:
  "st_get Inr (etcd_get srv_range) ex_key ex_full = Some (Inr (ex_out 2)) \<and> serde_ok (Inr :: json to_vec) Inr"
proof -
  have "etcd_get srv_range ex_key ex_full = Inr (Some (ex_obj, 2))"
    by (simp add: etcd_get_def srv_range_def ex_full_def ex_kv_def Let_def)
  moreover have "serde_ok (Inr :: json to_vec) Inr" by (simp add: serde_ok_def)
  ultimately show ?thesis using create_get_roundtrip[OF srv.etcd_axioms ex_inv(1) _ ex_create] by blast
qed

text \<open>
  C3. A paged LIST is one snapshot. Whatever is written between its pages, the pages a
  client collects by following the continue tokens are together exactly the objects under the
  prefix at the moment of the first page, in key order, each once with its own resource
  version; and it takes at most one request more than the full pages.
\<close>

theorem paged_list_is_one_snapshot:
  assumes "etcd e_inv e_rev e_hist e_evolves e_wrote e_removed range_fn put_fn delete_fn txn_fn"
    and "e_inv s" "prefix \<noteq> []" "last prefix = CHR ''/''" "0 < limit" "limit < 2 ^ 63"
    and "paged e_evolves (list_page from_slice (etcd_list_at range_fn) prefix limit) None s items n"
  shows "decode_items from_slice (matching (hist_view (e_hist s (e_rev s))) prefix None) = Some (Inr items) \<and>
    n \<le> Suc (length items div limit)"
proof -
  have "e_rev s < 2 ^ 64" using etcd_rev_small[OF assms(1,2)] by simp
  from etcd.adapter_paged_list[OF assms(1) assms(7,3-6,2) this] show ?thesis .
qed

theorem paged_list_is_one_snapshot_witness:
  "decode_items Inr (matching (hist_view (srv_hist ex_two (srv_rev ex_two))) ''/registry/leases/'' None) =
     Some (Inr [ex_out 2, ex_out 3]) \<and> 2 \<le> Suc (length [ex_out 2, ex_out 3] div 1)"
  by (rule paged_list_is_one_snapshot[OF srv.etcd_axioms ex_two_inv(1) _ _ _ _ ex_paged]) simp_all

text \<open>
  The segments a resource is stored under: a built-in's plural, which has no dot, or a
  custom resource's group, which has one, and plural.
\<close>

definition resource_ok :: "string \<Rightarrow> bool" where
  "resource_ok resource =
     (case split_on CHR ''/'' resource of
        [p] \<Rightarrow> CHR ''.'' \<notin> set p
      | [g, p] \<Rightarrow> CHR ''.'' \<in> set g
      | _ \<Rightarrow> False)"

lemma split_on_slash_append: "split_on c (p @ c # s) = split_on c p @ split_on c s"
proof (induction p)
  case (Cons x p)
  obtain a as where "split_on c p = a # as" by (cases "split_on c p") auto
  with Cons show ?case by auto
qed simp

lemma registry_segments: "split_on CHR ''/'' (REGISTRY_PREFIX @ ''/'' @ s) = [] # ''registry'' # split_on CHR ''/'' s"
  by (simp add: REGISTRY_PREFIX_def)



end
