(* ===== verification/WatchCache.thy ===== *)
theory WatchCache
  imports Storage
begin

text \<open>
  \<^verbatim>\<open>pkg/apiserver/src/watch_cache.rs\<close>, and the reads of \<^verbatim>\<open>storage.rs\<close> that go through it: one
  watch of the datastore for each prefix, kept as a snapshot of the objects, a ring of recent
  events and a broadcast to every client that watches.

  The pump, the freshness task and a client's watch run side by side, so each is a sequence of
  atomic steps (\<open>wc_step\<close>), cut where the code takes a lock, reads or writes an atomic or
  awaits; the functions they apply are the code between two such points. A broadcast channel is
  the list of everything sent on it; a receiver is a position in that list and lags when it is
  more than the capacity behind. What the datastore delivers is the adapter's translation
  (\<open>etcd_watch\<close>) of the server's responses.
\<close>

section \<open>Names\<close>

definition resource_wide :: "string \<Rightarrow> bool" where
  "resource_wide prefix =
     (case strip_prefix prefix ''/registry/'' of
        None \<Rightarrow> False
      | Some rest \<Rightarrow>
          (case split_on CHR ''/'' (trim_end_matches CHR ''/'' rest) of
             [r] \<Rightarrow> r \<noteq> [] \<and> CHR ''.'' \<notin> set r
           | [grp, plural] \<Rightarrow> CHR ''.'' \<in> set grp \<and> plural \<noteq> []
           | _ \<Rightarrow> False))"

fun event_kind :: "'v watch_event \<Rightarrow> string" where
  "event_kind (Added k v r) = ''ADDED''"
| "event_kind (Modified k v r p) = ''MODIFIED''"
| "event_kind (Deleted k r p) = ''DELETED''"
| "event_kind (Bookmark r) = ''BOOKMARK''"
| "event_kind (WatchError c m r) = ''ERROR''"

fun is_error :: "'v watch_event \<Rightarrow> bool" where
  "is_error (WatchError c m r) = True"
| "is_error _ = False"

definition SEED_PAGE :: nat where "SEED_PAGE = 1000"
definition STALL_MILLIS :: nat where "STALL_MILLIS = 30 * 1000"
definition RING_CAPACITY :: nat where "RING_CAPACITY = 1024"
definition BROADCAST_CAPACITY :: nat where "BROADCAST_CAPACITY = 1024"

section \<open>The seed\<close>

type_synonym 'v snapshot = "(string, 'v \<times> nat) btree"

text \<open>
  The loop over the pages. The list is the datastore as it is at each request; running out of
  it (\<open>None\<close>) is a seed still waiting for its next page.
\<close>

fun seed_loop ::
    "('s, 'v) list_at_op \<Rightarrow> string \<Rightarrow> 'v snapshot \<Rightarrow> string option \<Rightarrow> nat \<Rightarrow> 's list \<Rightarrow>
     (error + 'v snapshot \<times> nat) option" where
  "seed_loop list_at prefix snapshot tok rv [] = None"
| "seed_loop list_at prefix snapshot tok rv (s # ss) =
     (case list_at prefix SEED_PAGE tok (if rv = 0 then None else Some rv) s of
        Inl e \<Rightarrow> Some (Inl e)
      | Inr page \<Rightarrow>
          (let snapshot' = foldl (\<lambda>m (key, x). bt_insert key x m) snapshot (lr_items page)
           in case lr_continue page of
                Some t \<Rightarrow> seed_loop list_at prefix snapshot' (Some t) (lr_revision page) ss
              | None \<Rightarrow> Some (Inr (snapshot', lr_revision page))))"

definition seed_snapshot :: "('s, 'v) list_at_op \<Rightarrow> string \<Rightarrow> 's list \<Rightarrow> (error + 'v snapshot \<times> nat) option" where
  "seed_snapshot list_at prefix ss = seed_loop list_at prefix [] None 0 ss"

section \<open>The cache of one prefix\<close>

record 'v prefix_cache =
  pc_generation :: nat
  pc_sent :: "(nat \<times> 'v watch_event) list"
  pc_ring :: "(nat \<times> 'v watch_event) list"
  pc_next_seq :: nat
  pc_start_rev :: nat
  pc_snapshot :: "'v snapshot"
  pc_rev :: nat
  pc_terminated :: bool
  pc_progress :: nat

record 'v watch_cache =
  wc_caches :: "string \<Rightarrow> 'v prefix_cache option"
  wc_generation :: nat

definition open_cache :: "nat \<Rightarrow> 'v snapshot \<Rightarrow> nat \<Rightarrow> nat \<Rightarrow> 'v prefix_cache" where
  "open_cache generation snapshot start_rev now =
     \<lparr>pc_generation = generation, pc_sent = [], pc_ring = [], pc_next_seq = 1, pc_start_rev = start_rev,
      pc_snapshot = snapshot, pc_rev = start_rev, pc_terminated = False, pc_progress = now\<rparr>"

text \<open>
  \<^verbatim>\<open>ensure\<close>, under its lock: the live cache of the prefix, or a new one with its own
  generation once the seed and the watch of the datastore are there.
\<close>

definition create_cache ::
    "('s, 'v) list_at_op \<Rightarrow> (string \<Rightarrow> nat \<Rightarrow> error + unit) \<Rightarrow> string \<Rightarrow> nat \<Rightarrow> 's list \<Rightarrow> 'v watch_cache \<Rightarrow>
     ('v watch_cache \<times> (error + 'v prefix_cache)) option" where
  "create_cache list_at watch prefix now ss wc =
     (case seed_snapshot list_at prefix ss of
        None \<Rightarrow> None
      | Some (Inl e) \<Rightarrow> Some (wc, Inl e)
      | Some (Inr (snapshot, start_rev)) \<Rightarrow>
          (let c = open_cache (wc_generation wc) snapshot start_rev now;
               wc' = wc\<lparr>wc_generation := wc_generation wc + 1\<rparr>
           in case watch prefix (start_rev + 1) of
                Inl e \<Rightarrow> Some (wc', Inl e)
              | Inr _ \<Rightarrow> Some (wc'\<lparr>wc_caches := (wc_caches wc)(prefix \<mapsto> c)\<rparr>, Inr c)))"

definition ensure ::
    "('s, 'v) list_at_op \<Rightarrow> (string \<Rightarrow> nat \<Rightarrow> error + unit) \<Rightarrow> string \<Rightarrow> nat \<Rightarrow> 's list \<Rightarrow> 'v watch_cache \<Rightarrow>
     ('v watch_cache \<times> (error + 'v prefix_cache)) option" where
  "ensure list_at watch prefix now ss wc =
     (case wc_caches wc prefix of
        Some c \<Rightarrow> if \<not> pc_terminated c then Some (wc, Inr c) else create_cache list_at watch prefix now ss wc
      | None \<Rightarrow> create_cache list_at watch prefix now ss wc)"

section \<open>The pump\<close>

text \<open>The state an event replaces goes with it.\<close>

fun pump_event :: "'v snapshot \<Rightarrow> 'v watch_event \<Rightarrow> 'v snapshot \<times> 'v watch_event" where
  "pump_event snap (Added k v r) = (bt_insert k (v, r) snap, Added k v r)"
| "pump_event snap (Modified k v r prev) =
     (bt_insert k (v, r) snap,
      Modified k v r (if prev = None then map_option fst (map_of snap k) else prev))"
| "pump_event snap (Deleted k r prev) =
     (bt_remove k snap, Deleted k r (if prev = None then map_option fst (map_of snap k) else prev))"
| "pump_event snap (Bookmark r) = (snap, Bookmark r)"
| "pump_event snap (WatchError c m r) = (snap, WatchError c m r)"

definition take_seq :: "'v prefix_cache \<Rightarrow> 'v prefix_cache" where
  "take_seq c = c\<lparr>pc_next_seq := pc_next_seq c + 1\<rparr>"

definition pump_apply :: "'v watch_event \<Rightarrow> 'v prefix_cache \<Rightarrow> 'v prefix_cache" where
  "pump_apply ev c = c\<lparr>pc_snapshot := fst (pump_event (pc_snapshot c) ev)\<rparr>"

definition pump_store :: "'v watch_event \<Rightarrow> nat \<Rightarrow> 'v prefix_cache \<Rightarrow> 'v prefix_cache" where
  "pump_store ev now c = c\<lparr>pc_rev := ev_revision ev, pc_progress := now\<rparr>"

definition pump_ring :: "nat \<Rightarrow> 'v watch_event \<Rightarrow> 'v prefix_cache \<Rightarrow> 'v prefix_cache" where
  "pump_ring seq ev c =
     c\<lparr>pc_ring := (if length (pc_ring c) = RING_CAPACITY then tl (pc_ring c) else pc_ring c) @ [(seq, ev)]\<rparr>"

definition send :: "nat \<Rightarrow> 'v watch_event \<Rightarrow> 'v prefix_cache \<Rightarrow> 'v prefix_cache" where
  "send seq ev c = c\<lparr>pc_sent := pc_sent c @ [(seq, ev)]\<rparr>"

definition terminate :: "'v prefix_cache \<Rightarrow> 'v prefix_cache" where
  "terminate c = c\<lparr>pc_terminated := True\<rparr>"

definition disconnected :: "'v prefix_cache \<Rightarrow> 'v watch_event" where
  "disconnected c = WatchError 503 ''datastore watch disconnected'' (pc_rev c)"

section \<open>The freshness task\<close>

definition fresh_due :: "nat \<Rightarrow> 'v prefix_cache \<Rightarrow> bool" where
  "fresh_due now c \<longleftrightarrow> STALL_MILLIS \<le> now - pc_progress c"

definition fresh_replace :: "'v snapshot \<Rightarrow> 'v prefix_cache \<Rightarrow> 'v prefix_cache \<times> bool" where
  "fresh_replace snap c = (c\<lparr>pc_snapshot := snap\<rparr>, pc_snapshot c \<noteq> snap)"

definition fresh_store :: "nat \<Rightarrow> nat \<Rightarrow> 'v prefix_cache \<Rightarrow> 'v prefix_cache" where
  "fresh_store rv now c = c\<lparr>pc_rev := rv, pc_progress := now\<rparr>"

definition resynchronized :: "nat \<Rightarrow> 'v watch_event" where
  "resynchronized rv = WatchError 410 ''watch cache resynchronized after missed events'' rv"

section \<open>Reads\<close>

type_synonym version = "nat \<times> nat"

definition version_of :: "'v prefix_cache \<Rightarrow> version" where
  "version_of c = (pc_generation c, pc_rev c)"

definition snapshot_of :: "'v prefix_cache \<Rightarrow> version \<times> (string \<times> 'v) list" where
  "snapshot_of c = (version_of c, map (\<lambda>(k, v, r). (k, v)) (pc_snapshot c))"

definition cache_get :: "string \<Rightarrow> 'v prefix_cache \<Rightarrow> 'v option" where
  "cache_get key c = map_option fst (map_of (pc_snapshot c) key)"

text \<open>
  \<^verbatim>\<open>wait_for_revision\<close>: the cache as it is at each wake-up, and at the deadline.
\<close>

fun wait_for_revision :: "nat \<Rightarrow> 'v prefix_cache list \<Rightarrow> 'v prefix_cache \<Rightarrow> bool" where
  "wait_for_revision min_rev [] deadline = (min_rev \<le> pc_rev deadline)"
| "wait_for_revision min_rev (c # wakes) deadline =
     (if pc_terminated c then False
      else if min_rev \<le> pc_rev c then True
      else wait_for_revision min_rev wakes deadline)"

record 'v cache_page =
  cp_items :: "('v \<times> nat) list"
  cp_continue :: "string option"
  cp_revision :: nat
  cp_remaining :: "nat option"

text \<open>The page at the head of a range of the snapshot.\<close>

definition page_at :: "nat \<Rightarrow> nat \<Rightarrow> (string \<times> 'v \<times> nat) list \<Rightarrow> 'v cache_page" where
  "page_at limit rv xs =
     (let items = cut limit xs;
          left = length xs - length items
      in \<lparr>cp_items = map snd items,
          cp_continue = (if 0 < left then (if items = [] then None else Some (fst (last items))) else None),
          cp_revision = rv, cp_remaining = (if 0 < left then Some left else None)\<rparr>)"

text \<open>\<^verbatim>\<open>WatchCache::list\<close>, from the snapshot or, when it lags, from the store.\<close>

definition cache_list ::
    "(string \<Rightarrow> nat \<Rightarrow> string option \<Rightarrow> error + 'v list_result) \<Rightarrow> string \<Rightarrow> nat \<Rightarrow> string option \<Rightarrow> bool \<Rightarrow>
     'v prefix_cache \<Rightarrow> error + 'v cache_page" where
  "cache_list lst prefix limit tok reached c =
     (if \<not> reached then
        (case lst prefix limit tok of
           Inl e \<Rightarrow> Inl e
         | Inr page \<Rightarrow> Inr \<lparr>cp_items = map snd (lr_items page), cp_continue = lr_continue page,
                            cp_revision = lr_revision page, cp_remaining = None\<rparr>)
      else Inr (page_at limit (pc_rev c) (filter (\<lambda>e. after tok (fst e)) (pc_snapshot c))))"

definition read_page :: "string \<Rightarrow> nat \<Rightarrow> string option \<Rightarrow> bool \<Rightarrow> 'v prefix_cache \<Rightarrow> 'v cache_page option" where
  "read_page sub_prefix limit after_key reached c =
     (if \<not> reached then None
      else
        (let lower = (case after_key of Some k \<Rightarrow> (\<lambda>x. k < x) | None \<Rightarrow> (\<lambda>x. sub_prefix \<le> x))
         in Some (page_at limit (pc_rev c)
              (takeWhile (\<lambda>e. starts_with (fst e) sub_prefix) (filter (\<lambda>e. lower (fst e)) (pc_snapshot c))))))"

definition read_one :: "string \<Rightarrow> bool \<Rightarrow> 'v prefix_cache \<Rightarrow> (('v \<times> nat) option \<times> nat) option" where
  "read_one key reached c = (if \<not> reached then None else Some (map_of (pc_snapshot c) key, pc_rev c))"

text \<open>
  \<^verbatim>\<open>get_read\<close> and \<^verbatim>\<open>list_page_read\<close> of the storage layer. The cache's answer is \<open>None\<close> when
  there is no cache.
\<close>

definition get_read ::
    "'b from_slice \<Rightarrow> (string \<Rightarrow> 's \<Rightarrow> error + ('b \<times> nat) option) \<Rightarrow>
     (nat \<Rightarrow> (('b \<times> nat) option \<times> nat) option option) \<Rightarrow> string \<Rightarrow> read \<Rightarrow> 's \<Rightarrow> (api_error + json) option" where
  "get_read from_slice get cached key rd s =
     (case rd of
        NotOlderThan min_rev \<Rightarrow>
          (case cached min_rev of
             Some (Some (Some (bytes, rv), _)) \<Rightarrow> decode from_slice bytes rv
           | Some (Some (None, _)) \<Rightarrow> Some (Inl (not_found_at key))
           | _ \<Rightarrow> st_get from_slice get key s)
      | _ \<Rightarrow> st_get from_slice get key s)"

definition list_page_read ::
    "'b from_slice \<Rightarrow> ('s, 'b) list_at_op \<Rightarrow> (nat \<Rightarrow> 'b cache_page option option) \<Rightarrow> string \<Rightarrow> nat \<Rightarrow>
     string option \<Rightarrow> read \<Rightarrow> 's \<Rightarrow> (api_error + list_page_result) option" where
  "list_page_read from_slice list_at cached prefix limit token rd s =
     (case (token, rd) of
        (Some _, _) \<Rightarrow> list_page from_slice list_at prefix limit token s
      | (None, Consistent) \<Rightarrow> list_page from_slice list_at prefix limit token s
      | (None, Exact rv) \<Rightarrow> list_page_at from_slice list_at prefix limit rv s
      | (None, NotOlderThan min_rev) \<Rightarrow>
          (case cached min_rev of
             Some (Some page) \<Rightarrow>
               (case decode_items from_slice (map (\<lambda>x. ([], x)) (cp_items page)) of
                  None \<Rightarrow> None
                | Some (Inl e) \<Rightarrow> Some (Inl e)
                | Some (Inr items) \<Rightarrow>
                    Some (Inr \<lparr>lp_items = items,
                               lp_continue = map_option (continue_token (cp_revision page)) (cp_continue page),
                               lp_revision = cp_revision page, lp_remaining = cp_remaining page\<rparr>))
           | _ \<Rightarrow> list_page from_slice list_at prefix limit None s))"

section \<open>A client's watch\<close>

definition watch_start :: "nat \<Rightarrow> 'v prefix_cache \<Rightarrow> nat" where
  "watch_start start_rev c = (if start_rev = 0 then pc_rev c else start_rev)"

definition ring_gap :: "nat \<Rightarrow> (nat \<times> 'v watch_event) list \<Rightarrow> bool" where
  "ring_gap start ring = (case ring of [] \<Rightarrow> False | (seq, ev) # _ \<Rightarrow> 1 < seq \<and> start < ev_revision ev)"

definition backlog_of :: "nat \<Rightarrow> (nat \<times> 'v watch_event) list \<Rightarrow> (nat \<times> 'v watch_event) list" where
  "backlog_of start ring = filter (\<lambda>(seq, ev). start < ev_revision ev) ring"

definition watch_dedicated :: "nat \<Rightarrow> bool \<Rightarrow> 'v prefix_cache \<Rightarrow> bool" where
  "watch_dedicated start gap c \<longleftrightarrow> pc_terminated c \<or> start < pc_start_rev c \<or> gap"

text \<open>One receive on the live channel: nothing there yet, an event to skip, one to pass on, or the last one.\<close>

datatype 'v received = Waiting | Skipped | Delivered "'v watch_event" | Final "'v watch_event"

definition watch_recv :: "nat \<Rightarrow> nat \<Rightarrow> nat \<Rightarrow> 'v prefix_cache \<Rightarrow> 'v received" where
  "watch_recv start last_seq pos c =
     (if BROADCAST_CAPACITY < length (pc_sent c) - pos
      then Final (WatchError 410 ''watch consumer fell behind retained history'' start)
      else if length (pc_sent c) \<le> pos then Waiting
      else
        (case pc_sent c ! pos of
           (seq, ev) \<Rightarrow>
             if is_error ev then Final ev
             else if last_seq < seq \<and> start < ev_revision ev then Delivered ev
             else Skipped))"

section \<open>The tasks, side by side\<close>

datatype 'v pump =
    PIdle
  | PGot nat "'v watch_event"
  | PApplied nat "'v watch_event"
  | PStored nat "'v watch_event"
  | PRinged nat "'v watch_event"
  | PFailed nat "'v watch_event"
  | PEnding
  | PClosing
  | PDone

datatype 'v freshness =
    FIdle
  | FBehind
  | FSeeded "'v snapshot" nat
  | FReplaced bool nat
  | FChanged nat
  | FTerminated nat
  | FDone

text \<open>A client: the revision it starts after, its place in the channel, and what is left of its backlog.\<close>

datatype 'v phase =
    Closed
  | Asked nat
  | Subscribed nat nat
  | Boundary nat nat bool "(nat \<times> 'v watch_event) list"
  | Serving nat nat nat "(nat \<times> 'v watch_event) list"
  | Dedicated nat
  | Ended nat

text \<open>
  The system also remembers, for the proofs only, the events put in the ring so far
  (\<open>sy_log\<close>), the revision of the last event applied to the snapshot (\<open>sy_applied\<close>), and
  whether the freshness task has ever replaced the snapshot (\<open>sy_reseeded\<close>).
\<close>

record 'v system =
  sy_cache :: "'v prefix_cache"
  sy_pump :: "'v pump"
  sy_fresh :: "'v freshness"
  sy_phase :: "'v phase"
  sy_out :: "'v watch_event list"
  sy_taken :: nat
  sy_log :: "(nat \<times> 'v watch_event) list"
  sy_applied :: nat
  sy_reseeded :: bool

definition system_start :: "(nat \<Rightarrow> 'v snapshot) \<Rightarrow> nat \<Rightarrow> nat \<Rightarrow> nat \<Rightarrow> 'v system" where
  "system_start h start_rev generation now =
     \<lparr>sy_cache = open_cache generation (h start_rev) start_rev now, sy_pump = PIdle, sy_fresh = FIdle,
      sy_phase = Closed, sy_out = [], sy_taken = 0, sy_log = [], sy_applied = start_rev, sy_reseeded = False\<rparr>"

definition client_receive :: "nat \<Rightarrow> nat \<Rightarrow> nat \<Rightarrow> 'v system \<Rightarrow> 'v system" where
  "client_receive start pos last_seq s =
     (case watch_recv start last_seq pos (sy_cache s) of
        Waiting \<Rightarrow> s
      | Skipped \<Rightarrow> s\<lparr>sy_phase := Serving start (pos + 1) last_seq []\<rparr>
      | Delivered ev \<Rightarrow> s\<lparr>sy_phase := Serving start (pos + 1) last_seq [], sy_out := sy_out s @ [ev]\<rparr>
      | Final ev \<Rightarrow> s\<lparr>sy_phase := Ended start, sy_out := sy_out s @ [ev]\<rparr>)"

text \<open>
  The steps. \<open>h r\<close> is what the datastore holds under the prefix at revision \<open>r\<close>, and
  \<open>up\<close> the events its watch delivers from the seed's revision on; the watch may stall or end
  at any point. The clock is arbitrary.
\<close>

inductive wc_step :: "(nat \<Rightarrow> 'v snapshot) \<Rightarrow> 'v watch_event list \<Rightarrow> 'v system \<Rightarrow> 'v system \<Rightarrow> bool"
  for h up where
  recv: "sy_pump s = PIdle \<Longrightarrow> sy_taken s < length up \<Longrightarrow> up ! sy_taken s = ev \<Longrightarrow> \<not> is_error ev \<Longrightarrow>
    wc_step h up s (s\<lparr>sy_taken := sy_taken s + 1, sy_cache := take_seq (sy_cache s),
      sy_pump := PGot (pc_next_seq (sy_cache s)) ev\<rparr>)"
| recv_error: "sy_pump s = PIdle \<Longrightarrow> sy_taken s < length up \<Longrightarrow> up ! sy_taken s = ev \<Longrightarrow> is_error ev \<Longrightarrow>
    wc_step h up s (s\<lparr>sy_taken := sy_taken s + 1, sy_cache := take_seq (sy_cache s),
      sy_pump := PFailed (pc_next_seq (sy_cache s)) ev\<rparr>)"
| failed: "sy_pump s = PFailed seq ev \<Longrightarrow> wc_step h up s (s\<lparr>sy_cache := send seq ev (sy_cache s), sy_pump := PEnding\<rparr>)"
| eof: "sy_pump s = PIdle \<Longrightarrow> wc_step h up s (s\<lparr>sy_pump := PEnding\<rparr>)"
| applied: "sy_pump s = PGot seq ev \<Longrightarrow>
    wc_step h up s (s\<lparr>sy_cache := pump_apply ev (sy_cache s), sy_applied := ev_revision ev,
      sy_pump := PApplied seq (snd (pump_event (pc_snapshot (sy_cache s)) ev))\<rparr>)"
| stored: "sy_pump s = PApplied seq ev \<Longrightarrow>
    wc_step h up s (s\<lparr>sy_cache := pump_store ev now (sy_cache s), sy_pump := PStored seq ev\<rparr>)"
| ringed: "sy_pump s = PStored seq ev \<Longrightarrow>
    wc_step h up s (s\<lparr>sy_cache := pump_ring seq ev (sy_cache s), sy_log := sy_log s @ [(seq, ev)], sy_pump := PRinged seq ev\<rparr>)"
| broadcast: "sy_pump s = PRinged seq ev \<Longrightarrow>
    wc_step h up s (s\<lparr>sy_cache := send seq ev (sy_cache s), sy_pump := PIdle\<rparr>)"
| ending: "sy_pump s = PEnding \<Longrightarrow> wc_step h up s (s\<lparr>sy_cache := terminate (sy_cache s), sy_pump := PClosing\<rparr>)"
| closing: "sy_pump s = PClosing \<Longrightarrow>
    wc_step h up s (s\<lparr>sy_cache := send (pc_next_seq (sy_cache s)) (disconnected (sy_cache s)) (take_seq (sy_cache s)),
      sy_pump := PDone\<rparr>)"
| behind: "sy_fresh s = FIdle \<Longrightarrow> fresh_due now (sy_cache s) \<Longrightarrow> pc_rev (sy_cache s) < cur_rev \<Longrightarrow>
    wc_step h up s (s\<lparr>sy_fresh := FBehind\<rparr>)"
| seed_failed: "sy_fresh s = FBehind \<Longrightarrow> wc_step h up s (s\<lparr>sy_fresh := FIdle\<rparr>)"
| seeded: "sy_fresh s = FBehind \<Longrightarrow> wc_step h up s (s\<lparr>sy_fresh := FSeeded (h rv) rv\<rparr>)"
| replaced: "sy_fresh s = FSeeded snap rv \<Longrightarrow> fresh_replace snap (sy_cache s) = (c, changed) \<Longrightarrow>
    wc_step h up s (s\<lparr>sy_cache := c, sy_fresh := FReplaced changed rv, sy_reseeded := True\<rparr>)"
| reseeded: "sy_fresh s = FReplaced changed rv \<Longrightarrow>
    wc_step h up s (s\<lparr>sy_cache := fresh_store rv now (sy_cache s), sy_fresh := (if changed then FChanged rv else FIdle)\<rparr>)"
| resync: "sy_fresh s = FChanged rv \<Longrightarrow>
    wc_step h up s (s\<lparr>sy_cache := terminate (sy_cache s), sy_fresh := FTerminated rv\<rparr>)"
| resync_sent: "sy_fresh s = FTerminated rv \<Longrightarrow>
    wc_step h up s (s\<lparr>sy_cache := send (pc_next_seq (sy_cache s)) (resynchronized rv) (take_seq (sy_cache s)),
      sy_fresh := FDone\<rparr>)"
| aborted: "sy_fresh s = FDone \<Longrightarrow> sy_pump s = PIdle \<Longrightarrow> wc_step h up s (s\<lparr>sy_pump := PDone\<rparr>)"
| ask: "sy_phase s = Closed \<Longrightarrow> wc_step h up s (s\<lparr>sy_phase := Asked (watch_start start_rev (sy_cache s))\<rparr>)"
| subscribe: "sy_phase s = Asked start \<Longrightarrow>
    wc_step h up s (s\<lparr>sy_phase := Subscribed start (length (pc_sent (sy_cache s)))\<rparr>)"
| boundary: "sy_phase s = Subscribed start pos \<Longrightarrow>
    wc_step h up s (s\<lparr>sy_phase := Boundary start pos (ring_gap start (pc_ring (sy_cache s)))
      (backlog_of start (pc_ring (sy_cache s)))\<rparr>)"
| dedicated: "sy_phase s = Boundary start pos gap backlog \<Longrightarrow> watch_dedicated start gap (sy_cache s) \<Longrightarrow>
    wc_step h up s (s\<lparr>sy_phase := Dedicated start\<rparr>)"
| serve: "sy_phase s = Boundary start pos gap backlog \<Longrightarrow> \<not> watch_dedicated start gap (sy_cache s) \<Longrightarrow>
    wc_step h up s (s\<lparr>sy_phase := Serving start pos 0 backlog\<rparr>)"
| replay: "sy_phase s = Serving start pos last_seq ((seq, ev) # backlog) \<Longrightarrow>
    wc_step h up s (s\<lparr>sy_phase := Serving start pos seq backlog, sy_out := sy_out s @ [ev]\<rparr>)"
| receive: "sy_phase s = Serving start pos last_seq [] \<Longrightarrow> wc_step h up s (client_receive start pos last_seq s)"
| leave: "sy_phase s = Serving start pos last_seq backlog \<Longrightarrow> wc_step h up s (s\<lparr>sy_phase := Ended start\<rparr>)"

inductive wc_reachable :: "(nat \<Rightarrow> 'v snapshot) \<Rightarrow> 'v watch_event list \<Rightarrow> nat \<Rightarrow> 'v system \<Rightarrow> bool" for h up start_rev where
  opened: "wc_reachable h up start_rev (system_start h start_rev generation now)"
| step: "wc_reachable h up start_rev s \<Longrightarrow> wc_step h up s t \<Longrightarrow> wc_reachable h up start_rev t"

end
