(* ===== verification/WatchRun.thy ===== *)
theory WatchRun
  imports WatchCache
begin

text \<open>
  What the watch cache guarantees in every interleaving of its pump, its freshness task and a
  client: the invariants of \<open>wc_step\<close>, that a client's events are the datastore's history
  without gap or repetition, that the snapshot is a state of the datastore, and that the seed
  ends with the exact contents of the prefix.
\<close>

section \<open>What the datastore's watch delivers\<close>

text \<open>Events up to the previous state they carry, and their effect on the objects.\<close>

fun bare :: "'v watch_event \<Rightarrow> 'v watch_event" where
  "bare (Modified k v r p) = Modified k v r None"
| "bare (Deleted k r p) = Deleted k r None"
| "bare ev = ev"

definition apply_event :: "'v snapshot \<Rightarrow> 'v watch_event \<Rightarrow> 'v snapshot" where
  "apply_event m ev = fst (pump_event m ev)"

text \<open>
  Every change of the prefix after revision \<open>r\<close>, one for each revision that changes it, in
  order, until an error ends the stream.
\<close>

fun stream_ok :: "(nat \<Rightarrow> 'v snapshot) \<Rightarrow> nat \<Rightarrow> 'v watch_event list \<Rightarrow> bool" where
  "stream_ok h r [] = True"
| "stream_ok h r (ev # evs) =
     (is_error ev \<or>
      r < ev_revision ev \<and> (\<forall>q. r \<le> q \<longrightarrow> q < ev_revision ev \<longrightarrow> h q = h r) \<and>
      h (ev_revision ev) = apply_event (h r) ev \<and> stream_ok h (ev_revision ev) evs)"

lemmas stream_ok_Cons = stream_ok.simps(2)
declare stream_ok.simps(2) [simp del]

lemma stream_head:
  assumes "stream_ok h r (ev # evs)" "\<not> is_error ev"
  shows "r < ev_revision ev" "\<forall>q. r \<le> q \<longrightarrow> q < ev_revision ev \<longrightarrow> h q = h r"
    "h (ev_revision ev) = apply_event (h r) ev" "stream_ok h (ev_revision ev) evs"
  using assms unfolding stream_ok_Cons by blast+

lemma bare_simps [simp]: "ev_revision (bare ev) = ev_revision ev" "is_error (bare ev) = is_error ev"
    "apply_event m (bare ev) = apply_event m ev"
  by (cases ev; simp add: apply_event_def)+

lemma pump_event_bare [simp]: "bare (snd (pump_event m ev)) = bare ev"
    "is_error (snd (pump_event m ev)) = is_error ev" "ev_revision (snd (pump_event m ev)) = ev_revision ev"
  by (cases ev; simp)+

lemma bare_eqD: "bare a = bare b \<Longrightarrow> ev_revision a = ev_revision b \<and> is_error a = is_error b \<and> apply_event m a = apply_event m b"
  by (metis bare_simps)

text \<open>The revision after the first \<open>n\<close> events.\<close>

definition rev_at :: "nat \<Rightarrow> 'v watch_event list \<Rightarrow> nat \<Rightarrow> nat" where
  "rev_at r up n = (if n = 0 then r else ev_revision (up ! (n - 1)))"

lemma rev_at_Cons: "rev_at r (ev # up) (Suc n) = rev_at (ev_revision ev) up n"
  by (cases n) (simp_all add: rev_at_def)

lemma stream_next:
  "stream_ok h r up \<Longrightarrow> n < length up \<Longrightarrow> \<forall>ev \<in> set (take (Suc n) up). \<not> is_error ev \<Longrightarrow>
     rev_at r up n < ev_revision (up ! n) \<and> h (ev_revision (up ! n)) = apply_event (h (rev_at r up n)) (up ! n)"
proof (induction up arbitrary: r n)
  case (Cons ev up)
  have "\<not> is_error ev" using Cons.prems(3) by simp
  note ev = stream_head[OF Cons.prems(1) this]
  show ?case
  proof (cases n)
    case 0
    then show ?thesis using ev(1,3) by (simp add: rev_at_def)
  next
    case (Suc m)
    then show ?thesis using Cons.IH[OF ev(4), of m] Cons.prems(2,3) by (simp add: rev_at_Cons)
  qed
qed simp

lemma stream_sorted:
  "stream_ok h r up \<Longrightarrow> \<forall>ev \<in> set up. \<not> is_error ev \<Longrightarrow>
     sorted_wrt (\<lambda>a b. ev_revision a < ev_revision b) up \<and> (\<forall>ev \<in> set up. r < ev_revision ev)"
proof (induction up arbitrary: r)
  case (Cons ev up)
  then have "\<not> is_error ev" by simp
  note ev = stream_head[OF Cons.prems(1) this]
  from Cons.IH[OF ev(4)] Cons.prems(2) ev(1) show ?case by auto
qed simp

lemma stream_take: "stream_ok h r up \<Longrightarrow> stream_ok h r (take n up)"
proof (induction up arbitrary: r n)
  case (Cons ev up)
  then show ?case by (cases n) (use Cons in \<open>auto simp only: stream_ok_Cons take_Suc_Cons take_0 stream_ok.simps(1)\<close>)
qed simp

text \<open>The events after a revision lead from the objects at that revision to those at the last event.\<close>

lemma stream_fold:
  assumes "stream_ok h r up" "\<forall>ev \<in> set up. \<not> is_error ev" "r \<le> start"
  shows "foldl apply_event (h start) (filter (\<lambda>ev. start < ev_revision ev) up) =
    h (max start (rev_at r up (length up)))"
  using assms
proof (induction up arbitrary: r start)
  case Nil
  then show ?case by (simp add: rev_at_def max_def)
next
  case (Cons ev up)
  let ?q = "ev_revision ev"
  have "\<not> is_error ev" using Cons.prems(2) by simp
  note ev = stream_head[OF Cons.prems(1) this]
  have last: "rev_at r (ev # up) (length (ev # up)) = rev_at ?q up (length up)"
    by (simp add: rev_at_Cons)
  show ?case
  proof (cases "start < ?q")
    case True
    have gt: "\<forall>e \<in> set up. ?q < ev_revision e" using stream_sorted[OF ev(4)] Cons.prems(2) by auto
    then have f: "filter (\<lambda>e. start < ev_revision e) up = filter (\<lambda>e. ?q < ev_revision e) up"
      using True by (intro filter_cong) (auto intro: less_trans)
    have "?q \<le> rev_at ?q up (length up)"
      using gt by (cases "up = []") (auto simp: rev_at_def intro: less_imp_le)
    then have top: "max ?q (rev_at ?q up (length up)) = max start (rev_at r (ev # up) (length (ev # up)))"
      unfolding last using True by (simp add: max_def)
    have "h start = h r" using ev(2) True Cons.prems(3) by blast
    then have "foldl apply_event (h start) (filter (\<lambda>e. start < ev_revision e) (ev # up)) =
        foldl apply_event (h ?q) (filter (\<lambda>e. ?q < ev_revision e) up)" using True f ev(3) by simp
    also have "\<dots> = h (max ?q (rev_at ?q up (length up)))"
      using Cons.IH[OF ev(4), of ?q] Cons.prems(2) by simp
    finally show ?thesis unfolding top .
  next
    case False
    then show ?thesis using Cons.IH[OF ev(4)] Cons.prems(2) last by simp
  qed
qed

section \<open>The pump's invariant\<close>

definition nonerr :: "(nat \<times> 'v watch_event) list \<Rightarrow> (nat \<times> 'v watch_event) list" where
  "nonerr xs = filter (\<lambda>x. \<not> is_error (snd x)) xs"

fun in_flight :: "'v pump \<Rightarrow> (nat \<times> 'v watch_event) option" where
  "in_flight (PGot seq ev) = Some (seq, ev)"
| "in_flight (PApplied seq ev) = Some (seq, ev)"
| "in_flight (PStored seq ev) = Some (seq, ev)"
| "in_flight _ = None"

text \<open>The log is what came from upstream, numbered in order; the ring is its end.\<close>

definition log_ok :: "'v watch_event list \<Rightarrow> 'v system \<Rightarrow> bool" where
  "log_ok up s \<longleftrightarrow>
     map (bare \<circ> snd) (sy_log s) = map bare (take (length (sy_log s)) up) \<and>
     length (sy_log s) \<le> length up \<and>
     (\<forall>x \<in> set (sy_log s). \<not> is_error (snd x)) \<and>
     sorted_wrt (<) (map fst (sy_log s)) \<and>
     0 < pc_next_seq (sy_cache s) \<and>
     (\<forall>x \<in> set (sy_log s). 0 < fst x \<and> fst x < pc_next_seq (sy_cache s)) \<and>
     pc_ring (sy_cache s) = drop (length (sy_log s) - RING_CAPACITY) (sy_log s)"

definition flight_ok :: "'v watch_event list \<Rightarrow> 'v system \<Rightarrow> bool" where
  "flight_ok up s \<longleftrightarrow>
     (\<forall>seq ev. in_flight (sy_pump s) = Some (seq, ev) \<longrightarrow>
        length (sy_log s) < length up \<and> bare ev = bare (up ! length (sy_log s)) \<and> \<not> is_error ev \<and>
        0 < seq \<and> seq < pc_next_seq (sy_cache s) \<and> (\<forall>x \<in> set (sy_log s). fst x < seq)) \<and>
     (sy_pump s = PIdle \<longrightarrow> sy_taken s = length (sy_log s)) \<and>
     (in_flight (sy_pump s) \<noteq> None \<longrightarrow> sy_taken s = length (sy_log s) + 1) \<and>
     (\<forall>seq ev. sy_pump s = PFailed seq ev \<longrightarrow> is_error ev) \<and>
     (\<forall>seq ev. sy_pump s = PRinged seq ev \<longrightarrow>
        sy_taken s = length (sy_log s) \<and> (\<exists>xs. sy_log s = xs @ [(seq, ev)] \<and> nonerr (pc_sent (sy_cache s)) = xs)) \<and>
     ((\<nexists>seq ev. sy_pump s = PRinged seq ev) \<longrightarrow> nonerr (pc_sent (sy_cache s)) = sy_log s)"

lemmas cache_ops = take_seq_def pump_apply_def pump_store_def pump_ring_def send_def terminate_def
  fresh_store_def fresh_replace_def disconnected_def resynchronized_def

lemma client_receive_fields [simp]:
  "sy_cache (client_receive start pos last_seq s) = sy_cache s"
  "sy_pump (client_receive start pos last_seq s) = sy_pump s"
  "sy_fresh (client_receive start pos last_seq s) = sy_fresh s"
  "sy_taken (client_receive start pos last_seq s) = sy_taken s"
  "sy_log (client_receive start pos last_seq s) = sy_log s"
  "sy_applied (client_receive start pos last_seq s) = sy_applied s"
  "sy_reseeded (client_receive start pos last_seq s) = sy_reseeded s"
  by (simp_all add: client_receive_def split: received.splits)

lemma ring_push:
  assumes "ring = drop (length l - RING_CAPACITY) l"
  shows "(if length ring = RING_CAPACITY then tl ring else ring) @ [x] = drop (length (l @ [x]) - RING_CAPACITY) (l @ [x])"
proof (cases "length l < RING_CAPACITY")
  case True
  then show ?thesis using assms by simp
next
  case False
  then have "length ring = RING_CAPACITY" "Suc (length l) - RING_CAPACITY = Suc (length l - RING_CAPACITY)"
    using assms by (simp_all add: Suc_diff_le)
  then show ?thesis using assms by (simp add: tl_drop drop_Suc RING_CAPACITY_def)
qed

lemma sorted_snoc: "sorted_wrt (<) (map fst l) \<Longrightarrow> \<forall>x \<in> set l. fst x < seq \<Longrightarrow> sorted_wrt (<) (map fst (l @ [(seq, ev)]))"
  for seq :: nat
  by (auto simp: sorted_wrt_append)

lemma log_ok_step: "wc_step h up s t \<Longrightarrow> log_ok up s \<Longrightarrow> flight_ok up s \<Longrightarrow> log_ok up t"
proof (induction rule: wc_step.induct)
  case (ringed s seq ev)
  then have fl: "length (sy_log s) < length up" "bare ev = bare (up ! length (sy_log s))" "\<not> is_error ev"
    "0 < seq" "seq < pc_next_seq (sy_cache s)" "\<forall>x \<in> set (sy_log s). fst x < seq"
    by (simp_all add: flight_ok_def)
  have lo: "map (bare \<circ> snd) (sy_log s) = map bare (take (length (sy_log s)) up)"
    "\<forall>x \<in> set (sy_log s). \<not> is_error (snd x)" "sorted_wrt (<) (map fst (sy_log s))"
    "\<forall>x \<in> set (sy_log s). 0 < fst x \<and> fst x < pc_next_seq (sy_cache s)"
    "pc_ring (sy_cache s) = drop (length (sy_log s) - RING_CAPACITY) (sy_log s)"
    using ringed.prems(1) by (simp_all add: log_ok_def)
  show ?case
    using fl lo(1,2,4) sorted_snoc[OF lo(3) fl(6)] ring_push[OF lo(5)]
    by (simp add: log_ok_def cache_ops take_Suc_conv_app_nth)
next
  case (receive s start pos last_seq)
  then show ?case by (simp add: log_ok_def)
qed (auto simp: log_ok_def cache_ops)

lemma flight_ok_step: "wc_step h up s t \<Longrightarrow> log_ok up s \<Longrightarrow> flight_ok up s \<Longrightarrow> flight_ok up t"
proof (induction rule: wc_step.induct)
  case (recv s ev)
  then show ?case by (simp add: flight_ok_def log_ok_def cache_ops)
next
  case (recv_error s ev)
  then show ?case by (simp add: flight_ok_def log_ok_def cache_ops)
next
  case (failed s seq ev)
  then show ?case by (simp add: flight_ok_def log_ok_def cache_ops nonerr_def)
next
  case (applied s seq ev)
  then show ?case by (simp add: flight_ok_def log_ok_def cache_ops)
next
  case (stored s seq ev)
  then show ?case by (simp add: flight_ok_def log_ok_def cache_ops)
next
  case (ringed s seq ev)
  then show ?case by (simp add: flight_ok_def log_ok_def cache_ops)
next
  case (broadcast s seq ev)
  then show ?case by (auto simp: flight_ok_def log_ok_def cache_ops nonerr_def)
next
  case (receive s start pos last_seq)
  then show ?case by (simp only: flight_ok_def client_receive_fields)
next
  case (replaced s snap rv c changed)
  then have "c = sy_cache s\<lparr>pc_snapshot := snap\<rparr>" by (simp add: cache_ops)
  with replaced show ?case by (simp add: flight_ok_def)
next
  case (resync_sent s rv)
  then show ?case by (simp add: flight_ok_def cache_ops nonerr_def) (blast intro: less_SucI)
next
  case (closing s)
  then show ?case by (simp add: flight_ok_def cache_ops nonerr_def)
qed (simp_all add: flight_ok_def cache_ops nonerr_def)

section \<open>The client's invariant\<close>

text \<open>The events of a log a client that starts after \<open>start\<close> wants.\<close>

definition sel :: "nat \<Rightarrow> (nat \<times> 'v watch_event) list \<Rightarrow> 'v watch_event list" where
  "sel start l = map snd (backlog_of start l)"

text \<open>How many events of the log lie before a position of the channel.\<close>

definition seen :: "nat \<Rightarrow> (nat \<times> 'v watch_event) list \<Rightarrow> nat" where
  "seen pos sent = length (nonerr (take pos sent))"

fun client_ok ::
    "nat \<Rightarrow> (nat \<times> 'v watch_event) list \<Rightarrow> (nat \<times> 'v watch_event) list \<Rightarrow> 'v phase \<Rightarrow> 'v watch_event list \<Rightarrow> bool" where
  "client_ok r0 l sent Closed out = (out = [])"
| "client_ok r0 l sent (Asked start) out = (out = [])"
| "client_ok r0 l sent (Subscribed start pos) out = (out = [] \<and> pos \<le> length sent)"
| "client_ok r0 l sent (Boundary start pos gap backlog) out =
     (out = [] \<and> pos \<le> length sent \<and>
      (\<not> gap \<longrightarrow> (\<exists>n \<le> length l. backlog = backlog_of start (take n l) \<and> seen pos sent \<le> n)))"
| "client_ok r0 l sent (Serving start pos last_seq backlog) out =
     (r0 \<le> start \<and> pos \<le> length sent \<and> seen pos sent \<le> length l \<and>
      (\<exists>n \<le> length l. \<exists>passed. backlog_of start (take n l) = passed @ backlog \<and>
         last_seq = (if passed = [] then 0 else fst (last passed)) \<and>
         (backlog \<noteq> [] \<longrightarrow> seen pos sent \<le> n \<and> out = map snd passed) \<and>
         (backlog = [] \<longrightarrow> out = sel start (take (max n (seen pos sent)) l))))"
| "client_ok r0 l sent (Dedicated start) out = (out = [])"
| "client_ok r0 l sent (Ended start) out =
     (r0 \<le> start \<and> (\<exists>n \<le> length l. \<exists>errs. out = sel start (take n l) @ errs \<and> length errs \<le> 1 \<and> (\<forall>e \<in> set errs. is_error e)))"

lemma seen_append: "pos \<le> length sent \<Longrightarrow> seen pos (sent @ ys) = seen pos sent"
  by (simp add: seen_def)

lemma client_ok_grows:
  assumes "client_ok r0 l sent phase out"
  shows "client_ok r0 (l @ xs) (sent @ ys) phase out"
proof (cases phase)
  case (Boundary start pos gap backlog)
  then have b: "out = []" "pos \<le> length sent" "\<not> gap \<longrightarrow> (\<exists>n \<le> length l. backlog = backlog_of start (take n l) \<and> seen pos sent \<le> n)"
    using assms by auto
  have "\<exists>n \<le> length (l @ xs). backlog = backlog_of start (take n (l @ xs)) \<and> seen pos (sent @ ys) \<le> n" if g: "\<not> gap"
  proof -
    obtain n where "n \<le> length l" "backlog = backlog_of start (take n l)" "seen pos sent \<le> n" using b(3) g by blast
    then show ?thesis by (intro exI[of _ n]) (simp add: seen_append[OF b(2)])
  qed
  with b show ?thesis unfolding Boundary by simp
next
  case (Serving start pos last_seq backlog)
  then obtain n passed where c: "r0 \<le> start" "pos \<le> length sent" "seen pos sent \<le> length l" "n \<le> length l"
    "backlog_of start (take n l) = passed @ backlog" "last_seq = (if passed = [] then 0 else fst (last passed))"
    "backlog \<noteq> [] \<longrightarrow> seen pos sent \<le> n \<and> out = map snd passed"
    "backlog = [] \<longrightarrow> out = sel start (take (max n (seen pos sent)) l)"
    using assms by auto
  have "take n (l @ xs) = take n l" "take (max n (seen pos sent)) (l @ xs) = take (max n (seen pos sent)) l"
    using c(3,4) by simp_all
  then show ?thesis using c unfolding Serving client_ok.simps seen_append[OF c(2)]
    by (intro conjI exI[of _ n] exI[of _ passed]) simp_all
next
  case (Ended start)
  then obtain n errs where c: "r0 \<le> start" "n \<le> length l" "out = sel start (take n l) @ errs" "length errs \<le> 1" "\<forall>e \<in> set errs. is_error e"
    using assms by auto
  then show ?thesis unfolding Ended client_ok.simps by (intro conjI exI[of _ n] exI[of _ errs]) simp_all
qed (use assms in auto)

text \<open>A prefix of the wanted events is the wanted events of a prefix.\<close>

lemma backlog_of_Cons: "backlog_of start (x # l) = (if start < ev_revision (snd x) then x # backlog_of start l else backlog_of start l)"
  by (cases x) (simp add: backlog_of_def)

lemma sel_Cons: "sel start (x # l) = (if start < ev_revision (snd x) then snd x # sel start l else sel start l)"
  by (simp add: sel_def backlog_of_Cons)

lemma sel_snoc: "sel start (l @ [x]) = sel start l @ (if start < ev_revision (snd x) then [snd x] else [])"
  by (cases x) (simp add: sel_def backlog_of_def)

lemma sel_prefix: "backlog_of start l = passed @ rest \<Longrightarrow> \<exists>n \<le> length l. map snd passed = sel start (take n l)"
proof (induction l arbitrary: passed)
  case Nil
  then show ?case by (simp add: backlog_of_def sel_def)
next
  case step: (Cons x l)
  show ?case
  proof (cases passed)
    case Nil
    then show ?thesis by (intro exI[of _ 0]) (simp add: sel_def backlog_of_def)
  next
    case c: (Cons y ys)
    show ?thesis
    proof (cases "start < ev_revision (snd x)")
      case True
      then have "y = x" "backlog_of start l = ys @ rest" using step.prems c by (simp_all add: backlog_of_Cons)
      with step.IH obtain n where "n \<le> length l" "map snd ys = sel start (take n l)" by blast
      then show ?thesis using True c \<open>y = x\<close> by (intro exI[of _ "Suc n"]) (simp add: sel_Cons)
    next
      case False
      then have "backlog_of start l = passed @ rest" using step.prems by (simp add: backlog_of_Cons)
      with step.IH obtain n where "n \<le> length l" "map snd passed = sel start (take n l)" by blast
      then show ?thesis using False by (intro exI[of _ "Suc n"]) (simp add: sel_Cons)
    qed
  qed
qed

lemma log_upstream:
  assumes "log_ok up s"
  shows "map (ev_revision \<circ> snd) (sy_log s) = map ev_revision (take (length (sy_log s)) up)"
    and "\<forall>ev \<in> set (take (length (sy_log s)) up). \<not> is_error ev"
proof -
  have m: "map (bare \<circ> snd) (sy_log s) = map bare (take (length (sy_log s)) up)" and e: "\<forall>x \<in> set (sy_log s). \<not> is_error (snd x)"
    using assms by (simp_all add: log_ok_def)
  have "map ev_revision (map (bare \<circ> snd) (sy_log s)) = map ev_revision (map bare (take (length (sy_log s)) up))" using m by simp
  then show "map (ev_revision \<circ> snd) (sy_log s) = map ev_revision (take (length (sy_log s)) up)" by (simp add: comp_def)
  have "map is_error (map (bare \<circ> snd) (sy_log s)) = map is_error (map bare (take (length (sy_log s)) up))" using m by simp
  then have i: "map (\<lambda>x. is_error (snd x)) (sy_log s) = map is_error (take (length (sy_log s)) up)" by (simp add: comp_def)
  show "\<forall>ev \<in> set (take (length (sy_log s)) up). \<not> is_error ev"
  proof
    fix ev assume "ev \<in> set (take (length (sy_log s)) up)"
    then have "is_error ev \<in> set (map (\<lambda>x. is_error (snd x)) (sy_log s))" unfolding i by simp
    then show "\<not> is_error ev" using e by auto
  qed
qed

lemma log_revisions:
  assumes "log_ok up s" "stream_ok h r0 up"
  shows "sorted_wrt (\<lambda>a b. ev_revision (snd a) < ev_revision (snd b)) (sy_log s)"
proof -
  let ?u = "take (length (sy_log s)) up"
  have "sorted_wrt (\<lambda>a b. ev_revision a < ev_revision b) ?u"
    using stream_sorted[OF stream_take[OF assms(2)] log_upstream(2)[OF assms(1)]] by simp
  then have "sorted_wrt (<) (map ev_revision ?u)" by (simp add: sorted_wrt_map)
  then have "sorted_wrt (<) (map (ev_revision \<circ> snd) (sy_log s))" by (simp only: log_upstream(1)[OF assms(1)])
  then show ?thesis by (simp add: sorted_wrt_map)
qed

text \<open>Without a gap, the ring has every event the client wants.\<close>

lemma ring_complete:
  assumes "log_ok up s" "stream_ok h r0 up" "\<not> ring_gap start (pc_ring (sy_cache s))"
  shows "backlog_of start (pc_ring (sy_cache s)) = backlog_of start (sy_log s)"
proof -
  let ?l = "sy_log s" and ?d = "length (sy_log s) - RING_CAPACITY"
  have ring: "pc_ring (sy_cache s) = drop ?d ?l" using assms(1) by (simp add: log_ok_def)
  have "\<forall>x \<in> set (take ?d ?l). \<not> start < ev_revision (snd x)"
  proof (cases "?d = 0")
    case False
    then have d: "?d < length ?l" "0 < ?d" "0 < length ?l" by (auto simp: RING_CAPACITY_def)
    let ?f = "?l ! ?d"
    have hd: "drop ?d ?l = ?f # drop (Suc ?d) ?l" using d(1) by (rule Cons_nth_drop_Suc[symmetric])
    have "fst (?l ! 0) < fst ?f" using assms(1) d sorted_wrt_nth_less[of "(<)" "map fst ?l" 0 ?d] by (simp add: log_ok_def)
    moreover have "0 < fst (?l ! 0)" using assms(1) nth_mem[OF d(3)] by (simp add: log_ok_def)
    ultimately have "1 < fst ?f" by simp
    then have f: "ev_revision (snd ?f) \<le> start" using assms(3) unfolding ring hd ring_gap_def by (auto split: prod.splits)
    show ?thesis
    proof
      fix x assume "x \<in> set (take ?d ?l)"
      then obtain i where "i < ?d" "x = ?l ! i" using d(1) by (auto simp: in_set_conv_nth)
      then have "ev_revision (snd x) < ev_revision (snd ?f)"
        using sorted_wrt_nth_less[OF log_revisions[OF assms(1,2)], of i ?d] d(1) by simp
      then show "\<not> start < ev_revision (snd x)" using f by simp
    qed
  qed simp
  then have "backlog_of start (take ?d ?l) = []" by (auto simp: backlog_of_def filter_empty_conv)
  moreover have "backlog_of start (take ?d ?l @ drop ?d ?l) = backlog_of start (take ?d ?l) @ backlog_of start (drop ?d ?l)"
    by (simp add: backlog_of_def del: append_take_drop_id)
  ultimately show ?thesis unfolding ring by simp
qed

lemma log_sent: "flight_ok up s \<Longrightarrow> \<exists>rest. sy_log s = nonerr (pc_sent (sy_cache s)) @ rest"
  unfolding flight_ok_def by (metis append_Nil2)

lemma seen_le: "flight_ok up s \<Longrightarrow> seen pos (pc_sent (sy_cache s)) \<le> length (sy_log s)"
proof -
  assume "flight_ok up s"
  then obtain rest where l: "sy_log s = nonerr (pc_sent (sy_cache s)) @ rest" using log_sent by blast
  have "nonerr (pc_sent (sy_cache s)) = nonerr (take pos (pc_sent (sy_cache s))) @ nonerr (drop pos (pc_sent (sy_cache s)))"
    unfolding nonerr_def filter_append[symmetric] by simp
  then show ?thesis using l by (simp add: seen_def)
qed

text \<open>What is in the channel is the log, in order.\<close>

lemma sent_event:
  assumes "flight_ok up s" "pos < length (pc_sent (sy_cache s))" "pc_sent (sy_cache s) ! pos = x" "\<not> is_error (snd x)"
  shows "seen pos (pc_sent (sy_cache s)) < length (sy_log s)" "sy_log s ! seen pos (pc_sent (sy_cache s)) = x"
    "seen (Suc pos) (pc_sent (sy_cache s)) = Suc (seen pos (pc_sent (sy_cache s)))"
proof -
  let ?sent = "pc_sent (sy_cache s)"
  obtain rest where l: "sy_log s = nonerr ?sent @ rest" using log_sent[OF assms(1)] by blast
  have "?sent = take pos ?sent @ x # drop (Suc pos) ?sent" using id_take_nth_drop[OF assms(2)] assms(3) by simp
  then have "nonerr ?sent = nonerr (take pos ?sent) @ x # nonerr (drop (Suc pos) ?sent)"
    using assms(4) unfolding nonerr_def by (metis (mono_tags, lifting) filter.simps(2) filter_append)
  with l show "seen pos ?sent < length (sy_log s)" "sy_log s ! seen pos ?sent = x" by (simp_all add: seen_def)
  show "seen (Suc pos) ?sent = Suc (seen pos ?sent)"
    using assms(2-4) by (simp add: seen_def nonerr_def take_Suc_conv_app_nth)
qed

lemma seen_error:
  "pos < length sent \<Longrightarrow> is_error (snd (sent ! pos)) \<Longrightarrow> seen (Suc pos) sent = seen pos sent"
  by (simp add: seen_def nonerr_def take_Suc_conv_app_nth)

lemma sorted_last: "sorted_wrt (\<lambda>a b. fst a < fst b) xs \<Longrightarrow> x \<in> set xs \<Longrightarrow> fst x \<le> fst (last xs)"
  for xs :: "(nat \<times> 'b) list"
  by (induction xs) (auto intro: less_imp_le)

text \<open>An event from the channel is passed on exactly if it is wanted and was not replayed.\<close>

lemma received_event:
  assumes lo: "log_ok up s" and n: "n \<le> length (sy_log s)" and p: "p < length (sy_log s)" "sy_log s ! p = (seq, ev)"
    and ls: "last_seq = (if backlog_of start (take n (sy_log s)) = [] then 0 else fst (last (backlog_of start (take n (sy_log s)))))"
  shows "sel start (take (max n (Suc p)) (sy_log s)) =
    sel start (take (max n p) (sy_log s)) @ (if last_seq < seq \<and> start < ev_revision ev then [ev] else [])"
proof -
  let ?l = "sy_log s"
  have sorted: "sorted_wrt (\<lambda>a b. fst a < fst b) ?l" and pos: "\<forall>x \<in> set ?l. 0 < fst x"
    using lo by (simp_all add: log_ok_def sorted_wrt_map)
  show ?thesis
  proof (cases "p < n")
    case True
    have x: "(seq, ev) \<in> set (take n ?l)" using True n p by (metis (no_types, lifting) in_set_conv_nth length_take min.absorb2 nth_take)
    have "\<not> last_seq < seq" if "start < ev_revision ev"
    proof -
      have b: "(seq, ev) \<in> set (backlog_of start (take n ?l))" using x that by (simp add: backlog_of_def)
      have sb: "sorted_wrt (\<lambda>a b. fst a < fst b) (backlog_of start (take n ?l))"
        unfolding backlog_of_def by (intro sorted_wrt_filter sorted_wrt_take sorted)
      from sorted_last[OF sb b] show ?thesis using b ls by auto
    qed
    moreover have "max n (Suc p) = max n p" using True by simp
    ultimately show ?thesis by auto
  next
    case False
    have gt: "fst x < seq" if x: "x \<in> set (take n ?l)" for x
    proof -
      obtain i where i: "i < n" "i < length ?l" "x = ?l ! i" using x n by (auto simp: in_set_conv_nth)
      then show ?thesis using sorted_wrt_nth_less[OF sorted, of i p] False p by simp
    qed
    have "last_seq < seq"
    proof (cases "backlog_of start (take n ?l) = []")
      case True
      then show ?thesis using ls pos p by (metis fst_conv nth_mem)
    next
      case False
      then have "last (backlog_of start (take n ?l)) \<in> set (take n ?l)"
        using last_in_set[OF False] by (auto simp: backlog_of_def)
      then show ?thesis using ls False gt by simp
    qed
    moreover have "take (Suc p) ?l = take p ?l @ [(seq, ev)]" using p by (simp add: take_Suc_conv_app_nth)
    ultimately show ?thesis using False by (simp add: sel_snoc max_def)
  qed
qed

lemma client_ok_receive:
  assumes "log_ok up s" "flight_ok up s" "sy_phase s = Serving start pos last_seq []"
    and "client_ok r0 (sy_log s) (pc_sent (sy_cache s)) (sy_phase s) (sy_out s)"
  shows "client_ok r0 (sy_log s) (pc_sent (sy_cache s)) (sy_phase (client_receive start pos last_seq s))
    (sy_out (client_receive start pos last_seq s))"
proof -
  let ?l = "sy_log s" and ?sent = "pc_sent (sy_cache s)"
  obtain n where c: "r0 \<le> start" "pos \<le> length ?sent" "n \<le> length ?l"
    "last_seq = (if backlog_of start (take n ?l) = [] then 0 else fst (last (backlog_of start (take n ?l))))"
    "sy_out s = sel start (take (max n (seen pos ?sent)) ?l)"
    using assms(3,4) by auto
  have m: "max n (seen pos ?sent) \<le> length ?l" using c(3) seen_le[OF assms(2)] by simp
  have ended: "client_ok r0 ?l ?sent (Ended start) (sy_out s @ [ev])" if "is_error ev" for ev
    unfolding client_ok.simps using c(1,5) m that
    by (intro conjI exI[of _ "max n (seen pos ?sent)"] exI[of _ "[ev]"]) simp_all
  show ?thesis
  proof (cases "watch_recv start last_seq pos (sy_cache s)")
    case Waiting
    then show ?thesis using assms(4) by (simp add: client_receive_def)
  next
    case (Final ev)
    then have "is_error ev" by (auto simp: watch_recv_def split: if_splits prod.splits)
    with Final ended show ?thesis by (simp add: client_receive_def)
  next
    case r: Skipped
    obtain seq ev where x: "?sent ! pos = (seq, ev)" by fastforce
    have e: "pos < length ?sent" "\<not> is_error (snd (seq, ev))" "\<not> (last_seq < seq \<and> start < ev_revision ev)"
      using r x by (auto simp: watch_recv_def split: if_splits)
    note sv = sent_event[OF assms(2) e(1) x e(2)]
    show ?thesis using r c(1-4) e(1) sv(1) received_event[OF assms(1) c(3) sv(1,2) c(4)] e(3) c(5) sv(3)
      by (auto simp: client_receive_def intro!: exI[of _ n] simp del: max_Suc_Suc)
  next
    case r: (Delivered ev)
    obtain seq ev' where x: "?sent ! pos = (seq, ev')" by fastforce
    have e: "pos < length ?sent" "\<not> is_error (snd (seq, ev'))" "last_seq < seq \<and> start < ev_revision ev'" "ev' = ev"
      using r x by (auto simp: watch_recv_def split: if_splits)
    note sv = sent_event[OF assms(2) e(1) x e(2)]
    show ?thesis using r c(1-4) e(1) sv(1) received_event[OF assms(1) c(3) sv(1,2) c(4)] e(3,4) c(5) sv(3)
      by (auto simp: client_receive_def intro!: exI[of _ n])
  qed
qed

lemmas client_ok_sent = client_ok_grows[where xs = "[]", simplified]
lemmas client_ok_logged = client_ok_grows[where ys = "[]", simplified]

lemma client_ok_step:
  assumes "wc_step h up s t" "log_ok up s" "flight_ok up s" "stream_ok h r0 up" "pc_start_rev (sy_cache s) = r0"
    and "client_ok r0 (sy_log s) (pc_sent (sy_cache s)) (sy_phase s) (sy_out s)"
  shows "client_ok r0 (sy_log t) (pc_sent (sy_cache t)) (sy_phase t) (sy_out t)"
  using assms
proof (induction rule: wc_step.induct)
  case (boundary s start pos)
  let ?ring = "pc_ring (sy_cache s)"
  have "backlog_of start ?ring = backlog_of start (sy_log s)" if "\<not> ring_gap start ?ring"
    using ring_complete[OF boundary.prems(1,3) that] .
  then show ?case using boundary.hyps boundary.prems(5) seen_le[OF boundary.prems(2)]
    by (auto intro!: exI[of _ "length (sy_log s)"])
next
  case (serve s start pos gap backlog)
  then obtain n where n: "n \<le> length (sy_log s)" "backlog = backlog_of start (take n (sy_log s))"
    "seen pos (pc_sent (sy_cache s)) \<le> n" "sy_out s = []" "pos \<le> length (pc_sent (sy_cache s))" "r0 \<le> start"
    by (auto simp: watch_dedicated_def)
  then show ?case using seen_le[OF serve.prems(2)]
    by (auto simp: sel_def max_absorb1 intro!: exI[of _ n] exI[of _ "[]"])
next
  case (replay s start pos last_seq seq ev backlog)
  then obtain n passed where n: "r0 \<le> start" "pos \<le> length (pc_sent (sy_cache s))" "n \<le> length (sy_log s)"
    "backlog_of start (take n (sy_log s)) = passed @ (seq, ev) # backlog"
    "seen pos (pc_sent (sy_cache s)) \<le> n" "sy_out s = map snd passed"
    by auto
  then show ?case using seen_le[OF replay.prems(2)]
    by (auto simp: sel_def max_absorb1 intro!: exI[of _ n] exI[of _ "passed @ [(seq, ev)]"])
next
  case (receive s start pos last_seq)
  then show ?case using client_ok_receive[OF receive.prems(1,2) receive.hyps receive.prems(5)] by simp
next
  case (leave s start pos last_seq backlog)
  then obtain n passed where n: "r0 \<le> start" "n \<le> length (sy_log s)"
    "backlog_of start (take n (sy_log s)) = passed @ backlog" "backlog \<noteq> [] \<longrightarrow> sy_out s = map snd passed"
    "backlog = [] \<longrightarrow> sy_out s = sel start (take (max n (seen pos (pc_sent (sy_cache s)))) (sy_log s))"
    by auto
  have "\<exists>m \<le> length (sy_log s). sy_out s = sel start (take m (sy_log s))"
  proof (cases "backlog = []")
    case True
    then show ?thesis using n(2,5) seen_le[OF leave.prems(2), of pos] by (metis max.bounded_iff)
  next
    case False
    obtain m where m: "m \<le> length (take n (sy_log s))" "map snd passed = sel start (take m (take n (sy_log s)))"
      using sel_prefix[OF n(3)] by blast
    then have "sy_out s = sel start (take (min m n) (sy_log s))" using False n(4) by simp
    then show ?thesis using n(2) by (intro exI[of _ "min m n"]) auto
  qed
  then show ?case using n(1) by (auto intro!: exI[of _ "[]"])
next
  case (replaced s snap rv c changed)
  then have "c = sy_cache s\<lparr>pc_snapshot := snap\<rparr>" by (simp add: cache_ops)
  with replaced show ?case by simp
qed (auto simp: cache_ops client_ok_sent client_ok_logged)

section \<open>The snapshot's invariant\<close>

text \<open>
  Until the freshness task replaces it, the snapshot is the datastore at the last revision
  applied, and the revision it is labelled with is that one, or an earlier one in the moment
  between the two writes of the pump.
\<close>

fun applied_rev :: "nat \<Rightarrow> 'v watch_event list \<Rightarrow> nat \<Rightarrow> 'v pump \<Rightarrow> nat" where
  "applied_rev r0 up n (PApplied seq ev) = ev_revision ev"
| "applied_rev r0 up n (PStored seq ev) = ev_revision ev"
| "applied_rev r0 up n _ = rev_at r0 up n"

fun mid_write :: "'v pump \<Rightarrow> bool" where
  "mid_write (PApplied seq ev) = True"
| "mid_write _ = False"

definition snap_ok :: "(nat \<Rightarrow> 'v snapshot) \<Rightarrow> 'v watch_event list \<Rightarrow> nat \<Rightarrow> 'v system \<Rightarrow> bool" where
  "snap_ok h up r0 s \<longleftrightarrow>
     pc_start_rev (sy_cache s) = r0 \<and>
     (\<not> sy_reseeded s \<longrightarrow>
        (sy_fresh s = FIdle \<or> sy_fresh s = FBehind \<or> (\<exists>snap rv. sy_fresh s = FSeeded snap rv)) \<and>
        pc_snapshot (sy_cache s) = h (sy_applied s) \<and>
        sy_applied s = applied_rev r0 up (length (sy_log s)) (sy_pump s) \<and>
        pc_rev (sy_cache s) \<le> sy_applied s \<and>
        (\<not> mid_write (sy_pump s) \<longrightarrow> pc_rev (sy_cache s) = sy_applied s))"

lemma flight_next:
  assumes "log_ok up s" "flight_ok up s" "stream_ok h r0 up" "in_flight (sy_pump s) = Some (seq, ev)"
  shows "rev_at r0 up (length (sy_log s)) < ev_revision ev"
    "h (ev_revision ev) = apply_event (h (rev_at r0 up (length (sy_log s)))) ev"
    "rev_at r0 up (Suc (length (sy_log s))) = ev_revision ev"
proof -
  let ?n = "length (sy_log s)"
  have f: "?n < length up" "bare ev = bare (up ! ?n)" "\<not> is_error ev" using assms(2,4) by (auto simp: flight_ok_def)
  have e: "ev_revision ev = ev_revision (up ! ?n)" "is_error ev = is_error (up ! ?n)"
    "apply_event m ev = apply_event m (up ! ?n)" for m using bare_eqD[OF f(2)] by auto
  have "\<forall>x \<in> set (take (Suc ?n) up). \<not> is_error x"
    using log_upstream(2)[OF assms(1)] f(1,3) e(2) by (simp add: take_Suc_conv_app_nth)
  note nx = stream_next[OF assms(3) f(1) this]
  show "rev_at r0 up ?n < ev_revision ev" "h (ev_revision ev) = apply_event (h (rev_at r0 up ?n)) ev"
    using nx e(1,3) by simp_all
  show "rev_at r0 up (Suc ?n) = ev_revision ev" using e(1) by (simp add: rev_at_def)
qed

lemma snap_ok_step:
  assumes "wc_step h up s t" "log_ok up s" "flight_ok up s" "stream_ok h r0 up" "snap_ok h up r0 s"
  shows "snap_ok h up r0 t"
  using assms
proof (induction rule: wc_step.induct)
  case (applied s seq ev)
  note nx = flight_next[OF applied.prems(1-3), of seq ev]
  show ?case using applied.prems(4) applied.hyps nx
    by (auto simp: snap_ok_def cache_ops apply_event_def)
next
  case (ringed s seq ev)
  note nx = flight_next[OF ringed.prems(1-3), of seq ev]
  show ?case using ringed.prems(4) ringed.hyps nx(3) by (auto simp: snap_ok_def cache_ops)
next
  case (replaced s snap rv c changed)
  then have "c = sy_cache s\<lparr>pc_snapshot := snap\<rparr>" by (simp add: cache_ops)
  with replaced show ?case by (simp add: snap_ok_def)
next
  case (receive s start pos last_seq)
  show ?case using receive.prems(4) unfolding snap_ok_def client_receive_fields .
qed (auto simp: snap_ok_def cache_ops)

lemma wc_reachable_inv:
  assumes "wc_reachable h up r0 s" "stream_ok h r0 up"
  shows "log_ok up s \<and> flight_ok up s \<and> snap_ok h up r0 s \<and>
    client_ok r0 (sy_log s) (pc_sent (sy_cache s)) (sy_phase s) (sy_out s)"
  using assms(1)
proof (induction rule: wc_reachable.induct)
  case (opened generation now)
  show ?case
    by (simp add: log_ok_def flight_ok_def snap_ok_def system_start_def open_cache_def nonerr_def rev_at_def)
next
  case (step s t)
  then have "pc_start_rev (sy_cache s) = r0" by (simp add: snap_ok_def)
  with step assms(2) show ?case
    using log_ok_step flight_ok_step snap_ok_step client_ok_step by blast
qed

section \<open>The seed\<close>

lemma bt_insert_snoc: "bt_wf (xs @ [e]) \<Longrightarrow> bt_insert (fst e) (snd e) xs = xs @ [e]"
  by (induction xs) (auto simp: bt_wf_Cons)

lemma insert_sorted: "bt_wf (xs @ ys) \<Longrightarrow> foldl (\<lambda>m (key, x). bt_insert key x m) xs ys = xs @ ys"
proof (induction ys arbitrary: xs)
  case (Cons y ys)
  have "bt_wf (xs @ [y])" using Cons.prems by (simp add: bt_wf_def sorted_wrt_append)
  then have "bt_insert (fst y) (snd y) xs = xs @ [y]" by (rule bt_insert_snoc)
  then show ?case using Cons.IH[of "xs @ [y]"] Cons.prems by (simp add: case_prod_beta)
qed simp

text \<open>The datastore at successive requests.\<close>

fun evolving :: "('s \<Rightarrow> 's \<Rightarrow> bool) \<Rightarrow> 's list \<Rightarrow> bool" where
  "evolving evolves (s # t # ss) = (evolves s t \<and> evolving evolves (t # ss))"
| "evolving evolves _ = True"

lemma SEED_PAGE_pos: "0 < SEED_PAGE" "SEED_PAGE < 2 ^ 63"
  by (simp_all add: SEED_PAGE_def)

text \<open>What a request that went wrong returns.\<close>

definition seed_error :: "('s, 'v) list_at_op \<Rightarrow> string \<Rightarrow> 's list \<Rightarrow> error \<Rightarrow> bool" where
  "seed_error list_at prefix ss e \<longleftrightarrow> (\<exists>s \<in> set ss. \<exists>tok pinned. list_at prefix SEED_PAGE tok pinned s = Inl e)"

context kv_mvcc
begin

lemma seed_page:
  assumes "inv s" "prefix \<noteq> []" "last prefix = CHR ''/''" "tok = None \<or> (\<exists>k. tok = Some k \<and> starts_with k prefix)"
    and "list_at prefix SEED_PAGE tok (if rv = 0 then None else Some rv) s = Inr page"
    and "r = (if rv = 0 then rev s else rv)" "xs = matching (hist s r) prefix tok"
  shows "r \<le> rev s" "lr_items page = take SEED_PAGE xs" "lr_continue page = next_token SEED_PAGE xs" "lr_revision page = r"
proof -
  have "let r = (case (if rv = 0 then None else Some rv) of Some r \<Rightarrow> r | None \<Rightarrow> rev s)
       in r \<le> rev s \<and> page = page_of (hist s r) prefix SEED_PAGE tok r"
    by (rule list_at_ok[OF assms(1,2) _ SEED_PAGE_pos(2) _ _ assms(5)]) (use assms(3,4) in auto)
  then have "r \<le> rev s \<and> page = page_of (hist s r) prefix SEED_PAGE tok r" using assms(6) by (auto simp: Let_def split: if_splits)
  then show "r \<le> rev s" "lr_items page = take SEED_PAGE xs" "lr_continue page = next_token SEED_PAGE xs" "lr_revision page = r"
    using SEED_PAGE_pos(1) by (simp_all add: assms(7) cut_def)
qed

lemma seed_rest:
  assumes "inv s" "evolving evolves (s # ss)" "prefix \<noteq> []" "last prefix = CHR ''/''" "0 < r" "r \<le> rev s"
    and "starts_with k prefix" "M = matching (hist s r) prefix None" "matching (hist s r) prefix (Some k) = drop j M"
    and "length (drop j M) \<le> SEED_PAGE * Suc (length ss)"
  shows "\<exists>res. seed_loop list_at prefix (take j M) (Some k) r (s # ss) = Some res \<and>
    (case res of Inr (m, q) \<Rightarrow> m = M \<and> q = r | Inl e \<Rightarrow> seed_error list_at prefix (s # ss) e)"
  using assms
proof (induction ss arbitrary: s k j)
  case Nil
  show ?case
  proof (cases "list_at prefix SEED_PAGE (Some k) (Some r) s")
    case (Inl e)
    then show ?thesis using \<open>0 < r\<close> by (auto simp: seed_error_def)
  next
    case (Inr page)
    note pg = seed_page[OF \<open>inv s\<close> \<open>prefix \<noteq> []\<close> \<open>last prefix = _\<close>, of "Some k" r page r "drop j M"]
    have p: "lr_items page = take SEED_PAGE (drop j M)" "lr_continue page = next_token SEED_PAGE (drop j M)" "lr_revision page = r"
      using pg Inr Nil.prems by simp_all
    have "bt_wf M" using hist_wf[OF Nil.prems(1,6)] Nil.prems(8) by auto
    then have "foldl (\<lambda>m (key, x). bt_insert key x m) (take j M) (drop j M) = M" using insert_sorted[of "take j M" "drop j M"] by simp
    moreover have "length (drop j M) \<le> SEED_PAGE" using Nil.prems(10) by simp
    ultimately show ?thesis using Inr p \<open>0 < r\<close> by (simp add: Let_def next_token_def)
  qed
next
  case (Cons t ss)
  show ?case
  proof (cases "list_at prefix SEED_PAGE (Some k) (Some r) s")
    case (Inl e)
    then show ?thesis using \<open>0 < r\<close> by (auto simp: seed_error_def)
  next
    case (Inr page)
    let ?xs = "drop j M" and ?j = "j + SEED_PAGE"
    have p: "lr_items page = take SEED_PAGE ?xs" "lr_continue page = next_token SEED_PAGE ?xs" "lr_revision page = r"
      using seed_page[OF \<open>inv s\<close> \<open>prefix \<noteq> []\<close> \<open>last prefix = _\<close>, of "Some k" r page r ?xs] Inr Cons.prems by simp_all
    have wf: "bt_wf (hist s r)" by (rule hist_wf[OF Cons.prems(1,6)])
    then have "bt_wf M" using Cons.prems(8) by auto
    then have "bt_wf (take j M @ take SEED_PAGE ?xs)"
      by (metis append_take_drop_id bt_wf_def map_append sorted_wrt_append take_add)
    then have ins: "foldl (\<lambda>m (key, x). bt_insert key x m) (take j M) (take SEED_PAGE ?xs) = take ?j M"
      by (simp add: insert_sorted take_add)
    show ?thesis
    proof (cases "next_token SEED_PAGE ?xs")
      case None
      then have "take SEED_PAGE ?xs = ?xs" using next_token_None[OF None] SEED_PAGE_pos(1) by (simp add: cut_def)
      then have "take ?j M = M" by (metis append_take_drop_id take_add)
      then show ?thesis using None Inr p ins \<open>0 < r\<close> by (simp add: Let_def)
    next
      case (Some k')
      have nx: "matching (hist s r) prefix (Some k') = drop SEED_PAGE ?xs" "starts_with k' prefix"
        using matching_next[OF wf, of SEED_PAGE prefix "Some k" k'] Some Cons.prems(9) by simp_all
      have t: "inv t" "r \<le> rev t" "hist t r = hist s r" "evolving evolves (t # ss)"
        using evolves_keeps[OF \<open>inv s\<close>, of t] Cons.prems(2,6) by auto
      have "\<exists>res. seed_loop list_at prefix (take ?j M) (Some k') r (t # ss) = Some res \<and>
          (case res of Inr (m, q) \<Rightarrow> m = M \<and> q = r | Inl e \<Rightarrow> seed_error list_at prefix (t # ss) e)"
        by (rule Cons.IH[OF t(1,4) Cons.prems(3-5) t(2) nx(2)])
          (use Cons.prems(8,10) t(3) nx(1) in \<open>simp_all add: add.commute\<close>)
      moreover have "seed_loop list_at prefix (take j M) (Some k) r (s # t # ss) =
          seed_loop list_at prefix (take ?j M) (Some k') r (t # ss)"
        using Some Inr p ins \<open>0 < r\<close> by (simp add: Let_def)
      ultimately show ?thesis by (fastforce simp: seed_error_def split: sum.splits)
    qed
  qed
qed

lemma seed_snapshot_returns:
  assumes "inv s" "evolving evolves (s # ss)" "prefix \<noteq> []" "last prefix = CHR ''/''"
    and "length (matching (hist s (rev s)) prefix None) \<le> SEED_PAGE * Suc (length ss)"
  shows "\<exists>res. seed_snapshot list_at prefix (s # ss) = Some res \<and>
    (case res of Inr (m, q) \<Rightarrow> m = matching (hist s (rev s)) prefix None \<and> q = rev s
     | Inl e \<Rightarrow> seed_error list_at prefix (s # ss) e)"
proof (cases "list_at prefix SEED_PAGE None None s")
  case (Inl e)
  then show ?thesis by (auto simp: seed_snapshot_def seed_error_def)
next
  case (Inr page)
  let ?r = "rev s" and ?M = "matching (hist s (rev s)) prefix None"
  have p: "lr_items page = take SEED_PAGE ?M" "lr_continue page = next_token SEED_PAGE ?M" "lr_revision page = ?r"
    using seed_page[OF assms(1,3,4), of None 0 page ?r ?M] Inr by simp_all
  have wf: "bt_wf (hist s ?r)" by (rule hist_wf[OF assms(1) le_refl])
  then have "bt_wf (take SEED_PAGE ?M)" by (metis append_take_drop_id bt_wf_def bt_wf_matching map_append sorted_wrt_append)
  then have ins: "foldl (\<lambda>m (key, x). bt_insert key x m) [] (take SEED_PAGE ?M) = take SEED_PAGE ?M"
    using insert_sorted[of "[]"] by simp
  have r: "0 < ?r" by (rule rev_positive[OF assms(1)])
  show ?thesis
  proof (cases "next_token SEED_PAGE ?M")
    case None
    then have "take SEED_PAGE ?M = ?M" using next_token_None[OF None] SEED_PAGE_pos(1) by (simp add: cut_def)
    then show ?thesis using None Inr p ins by (simp add: seed_snapshot_def Let_def)
  next
    case (Some k)
    note nx = matching_next[OF wf Some]
    show ?thesis
    proof (cases ss)
      case Nil
      then show ?thesis using assms(5) nx(4) by simp
    next
      case (Cons t ts)
      have t: "inv t" "?r \<le> rev t" "hist t ?r = hist s ?r" "evolving evolves (t # ts)"
        using evolves_keeps[OF assms(1), of t] assms(2) Cons by auto
      have "\<exists>res. seed_loop list_at prefix (take SEED_PAGE ?M) (Some k) ?r (t # ts) = Some res \<and>
          (case res of Inr (m, q) \<Rightarrow> m = ?M \<and> q = ?r | Inl e \<Rightarrow> seed_error list_at prefix (t # ts) e)"
        by (rule seed_rest[OF t(1,4) assms(3,4) r t(2) nx(2)]) (use t(3) nx(1) assms(5) Cons in simp_all)
      moreover have "seed_snapshot list_at prefix (s # ss) = seed_loop list_at prefix (take SEED_PAGE ?M) (Some k) ?r (t # ts)"
        using Some Inr p ins Cons by (simp add: seed_snapshot_def Let_def)
      ultimately show ?thesis using Cons by (fastforce simp: seed_error_def split: sum.splits)
    qed
  qed
qed

end

section \<open>The server's watch\<close>

text \<open>The objects under a prefix at a revision of the server.\<close>

definition objects :: "(nat \<Rightarrow> (string, 'v kv) btree) \<Rightarrow> string \<Rightarrow> nat \<Rightarrow> 'v snapshot" where
  "objects h prefix q = matching (hist_view (h q)) prefix None"

text \<open>
  What etcd documents of a watch on a prefix from revision \<open>r + 1\<close>: it delivers every change
  under the prefix, in order of revision, each once; between two events nothing under the
  prefix changes. Every revision here changes one key, which is all the adapter ever writes in
  a transaction.
\<close>

definition under :: "string \<Rightarrow> (string, 'v kv) btree \<Rightarrow> (string, 'v kv) btree" where
  "under prefix m = matching m prefix None"

definition quiet :: "(nat \<Rightarrow> (string, 'v kv) btree) \<Rightarrow> string \<Rightarrow> nat \<Rightarrow> int \<Rightarrow> bool" where
  "quiet h prefix r i \<longleftrightarrow> int r < i \<and> i < 2 ^ 63 \<and>
     (\<forall>q. r \<le> q \<longrightarrow> q < nat i \<longrightarrow> under prefix (h q) = under prefix (h r))"

fun server_ok :: "(nat \<Rightarrow> (string, 'v kv) btree) \<Rightarrow> string \<Rightarrow> nat \<Rightarrow> 'v server_event list \<Rightarrow> bool" where
  "server_ok h prefix r [] = True"
| "server_ok h prefix r (ServerPut key x # es) =
     (quiet h prefix r (kv_mod x) \<and>
      under prefix (h (nat (kv_mod x))) = bt_insert key x (under prefix (h r)) \<and>
      server_ok h prefix (nat (kv_mod x)) es)"
| "server_ok h prefix r (ServerDelete key i # es) =
     (quiet h prefix r i \<and> under prefix (h (nat i)) = bt_remove key (under prefix (h r)) \<and>
      server_ok h prefix (nat i) es)"
| "server_ok h prefix r (ServerNoKv # es) = server_ok h prefix r es"

text \<open>The events of a stream of responses, up to the one that ends it.\<close>

fun server_events :: "'v watch_response list \<Rightarrow> 'v server_event list" where
  "server_events (Events es # rs) = es @ server_events rs"
| "server_events _ = []"

lemma objects_under: "objects h prefix q = hist_view (under prefix (h q))"
  by (simp add: objects_def under_def matching_def after_def filter_hist_view[where P = "\<lambda>k. starts_with k prefix"])

lemma hist_view_insert: "hist_view (bt_insert k x m) = bt_insert k (kv_view x) (hist_view m)"
  by (induction m) (auto simp: hist_view_def)

lemma hist_view_remove: "hist_view (bt_remove k m) = bt_remove k (hist_view m)"
  by (induction m) (auto simp: hist_view_def bt_remove_def)

lemma stream_event:
  assumes "quiet h prefix r i" "ev_revision ev = to_u64 i" "\<not> is_error ev"
    and "objects h prefix (nat i) = apply_event (objects h prefix r) ev" "stream_ok (objects h prefix) (nat i) evs"
  shows "stream_ok (objects h prefix) r (ev # evs)"
proof -
  have i: "int r < i" "i < 2 ^ 63" and q: "\<forall>q. r \<le> q \<longrightarrow> q < nat i \<longrightarrow> objects h prefix q = objects h prefix r"
    using assms(1) unfolding quiet_def objects_under by metis+
  have "to_u64 i = nat i" "r < nat i" using i by (simp_all add: zless_nat_eq_int_zless)
  then show ?thesis unfolding stream_ok_Cons assms(2) using q assms(4,5) by metis
qed

lemma adapter_events:
  assumes "server_ok h prefix r (es @ rest)"
    and "\<And>q. server_ok h prefix q rest \<Longrightarrow> stream_ok (objects h prefix) q evs"
  shows "stream_ok (objects h prefix) r (List.map_filter etcd_event es @ evs)"
  using assms(1)
proof (induction es arbitrary: r)
  case Nil
  then show ?case using assms(2) by (simp add: map_filter_simps)
next
  case (Cons e es)
  show ?case
  proof (cases e)
    case (ServerPut key x)
    let ?ev = "if kv_create x = kv_mod x then Added key (kv_value x) (to_u64 (kv_mod x))
        else Modified key (kv_value x) (to_u64 (kv_mod x)) None"
    have sv: "quiet h prefix r (kv_mod x)" "under prefix (h (nat (kv_mod x))) = bt_insert key x (under prefix (h r))"
      "server_ok h prefix (nat (kv_mod x)) (es @ rest)" using Cons.prems ServerPut by simp_all
    have "objects h prefix (nat (kv_mod x)) = apply_event (objects h prefix r) ?ev"
      by (simp add: objects_under sv(2) hist_view_insert apply_event_def kv_view_def)
    then have "stream_ok (objects h prefix) r (?ev # List.map_filter etcd_event es @ evs)"
      by (intro stream_event[OF sv(1) _ _ _ Cons.IH[OF sv(3)]]) simp_all
    then show ?thesis using ServerPut by (simp add: map_filter_simps)
  next
    case (ServerDelete key i)
    have sv: "quiet h prefix r i" "under prefix (h (nat i)) = bt_remove key (under prefix (h r))"
      "server_ok h prefix (nat i) (es @ rest)" using Cons.prems ServerDelete by simp_all
    have "objects h prefix (nat i) = apply_event (objects h prefix r) (Deleted key (to_u64 i) None)"
      by (simp add: objects_under sv(2) hist_view_remove apply_event_def)
    then have "stream_ok (objects h prefix) r (Deleted key (to_u64 i) None # List.map_filter etcd_event es @ evs)"
      by (intro stream_event[OF sv(1) _ _ _ Cons.IH[OF sv(3)]]) simp_all
    then show ?thesis using ServerDelete by (simp add: map_filter_simps)
  next
    case ServerNoKv
    then show ?thesis using Cons by (simp add: map_filter_simps)
  qed
qed

lemma adapter_stream:
  "server_ok h prefix r (server_events rs) \<Longrightarrow> stream_ok (objects h prefix) r (etcd_watch rs)"
proof (induction rs arbitrary: r rule: etcd_watch.induct)
  case (3 es rs)
  then show ?case using adapter_events[of h prefix r es "server_events rs" "etcd_watch rs"] by simp
qed (simp_all add: stream_ok_Cons)

section \<open>What a client sees\<close>

lemma last_wanted:
  assumes "sorted_wrt (\<lambda>a b. ev_revision a < ev_revision b) xs" "filter (\<lambda>ev. start < ev_revision ev) xs \<noteq> []"
  shows "last (filter (\<lambda>ev. start < ev_revision ev) xs) = last xs" "start < ev_revision (last xs)"
proof -
  obtain ys y where xs: "xs = ys @ [y]" using assms(2) by (cases xs rule: rev_cases) auto
  obtain x where "x \<in> set xs" "start < ev_revision x" using assms(2) by (auto simp: filter_empty_conv)
  then have "start < ev_revision y" using assms(1) xs by (auto simp: sorted_wrt_append intro: less_trans)
  then show "last (filter (\<lambda>ev. start < ev_revision ev) xs) = last xs" "start < ev_revision (last xs)" using xs by simp_all
qed

lemma sel_bare:
  assumes "map (bare \<circ> snd) l = map bare us"
  shows "map bare (sel start l) = map bare (filter (\<lambda>ev. start < ev_revision ev) us)"
    and "foldl apply_event m (sel start l) = foldl apply_event m (filter (\<lambda>ev. start < ev_revision ev) us)"
proof -
  have "length l = length us" using assms by (metis length_map)
  then have "map bare (sel start l) = map bare (filter (\<lambda>ev. start < ev_revision ev) us) \<and>
    foldl apply_event m (sel start l) = foldl apply_event m (filter (\<lambda>ev. start < ev_revision ev) us)"
    using assms
  proof (induction l us arbitrary: m rule: list_induct2)
    case (Cons x l u us)
    then show ?case using bare_eqD[of "snd x" u] by (simp add: sel_Cons)
  qed (simp add: sel_def backlog_of_def)
  then show "map bare (sel start l) = map bare (filter (\<lambda>ev. start < ev_revision ev) us)"
    "foldl apply_event m (sel start l) = foldl apply_event m (filter (\<lambda>ev. start < ev_revision ev) us)" by auto
qed

lemma client_history:
  assumes "log_ok up s" "stream_ok h r0 up" "r0 \<le> start" "evs = sel start (take n (sy_log s))" "n \<le> length (sy_log s)"
  shows "map bare evs = map bare (filter (\<lambda>ev. start < ev_revision ev) (take n up))"
    and "foldl apply_event (h start) evs = h (if evs = [] then start else ev_revision (last evs))"
proof -
  let ?us = "take n up" and ?f = "filter (\<lambda>ev. start < ev_revision ev) (take n up)"
  have "map (bare \<circ> snd) (sy_log s) = map bare (take (length (sy_log s)) up)" using assms(1) by (simp add: log_ok_def)
  then have m: "map (bare \<circ> snd) (take n (sy_log s)) = map bare ?us"
    using assms(5) by (metis min.absorb1 take_map take_take)
  from sel_bare(1)[OF m] show e: "map bare evs = map bare ?f" by (simp add: assms(4))
  have ne: "\<forall>ev \<in> set ?us. \<not> is_error ev"
    using log_upstream(2)[OF assms(1)] assms(5) by (meson in_mono set_take_subset_set_take)
  have so: "sorted_wrt (\<lambda>a b. ev_revision a < ev_revision b) ?us" "\<forall>ev \<in> set ?us. r0 < ev_revision ev"
    using stream_sorted[OF stream_take[OF assms(2)] ne] by auto
  have fold: "foldl apply_event (h start) evs = h (max start (rev_at r0 ?us (length ?us)))"
    using sel_bare(2)[OF m] stream_fold[OF stream_take[OF assms(2)] ne assms(3)] by (simp add: assms(4))
  show "foldl apply_event (h start) evs = h (if evs = [] then start else ev_revision (last evs))"
  proof (cases "?f = []")
    case True
    then have "evs = []" using e by simp
    then show ?thesis using fold by simp
  next
    case False
    then have "evs \<noteq> []" using e by auto
    moreover have "bare (last evs) = bare (last ?f)" using e False \<open>evs \<noteq> []\<close> by (metis last_map)
    ultimately have "ev_revision (last evs) = ev_revision (last ?us)" using last_wanted(1)[OF so(1) False] bare_eqD by metis
    moreover have "?us \<noteq> []" using False by (metis filter.simps(1))
    then have "rev_at r0 ?us (length ?us) = ev_revision (last ?us)"
      unfolding rev_at_def last_conv_nth[OF \<open>?us \<noteq> []\<close>] by (simp only: length_0_conv if_False)
    moreover have "start < ev_revision (last ?us)" by (rule last_wanted(2)[OF so(1) False])
    ultimately show ?thesis using fold \<open>evs \<noteq> []\<close> by (simp add: max_def)
  qed
qed

lemma client_events:
  assumes "client_ok r0 l sent phase out" "phase = Serving start pos last_seq backlog \<or> phase = Ended start"
  shows "r0 \<le> start \<and> (\<exists>n \<le> length l. \<exists>errs. out = sel start (take n l) @ errs \<and> length errs \<le> 1 \<and> (\<forall>e \<in> set errs. is_error e))"
proof (cases "phase = Ended start")
  case True
  then show ?thesis using assms(1) by simp
next
  case False
  then have p: "phase = Serving start pos last_seq backlog" using assms(2) by simp
  then obtain n passed where n: "r0 \<le> start" "seen pos sent \<le> length l" "n \<le> length l"
    "backlog_of start (take n l) = passed @ backlog" "backlog \<noteq> [] \<longrightarrow> out = map snd passed"
    "backlog = [] \<longrightarrow> out = sel start (take (max n (seen pos sent)) l)"
    using assms(1) by auto
  show ?thesis
  proof (cases "backlog = []")
    case True
    then show ?thesis using n by (intro conjI exI[of _ "max n (seen pos sent)"] exI[of _ "[]"]) auto
  next
    case False
    obtain m where m: "m \<le> length (take n l)" "map snd passed = sel start (take m (take n l))"
      using sel_prefix[OF n(4)] by blast
    then show ?thesis using n False by (intro conjI exI[of _ "min m n"] exI[of _ "[]"]) auto
  qed
qed

section \<open>What a read sees\<close>

lemma wc_step_rev:
  assumes "wc_step h up s t" "snap_ok h up r0 s" "\<not> sy_reseeded t"
  shows "\<not> sy_reseeded s \<and> pc_rev (sy_cache s) \<le> pc_rev (sy_cache t)"
  using assms
proof (induction rule: wc_step.induct)
  case (receive s start pos last_seq)
  then show ?case by simp
qed (auto simp: snap_ok_def cache_ops)

lemma wc_steps_rev:
  assumes "(wc_step h up)\<^sup>*\<^sup>* s t" "wc_reachable h up r0 s" "stream_ok h r0 up" "\<not> sy_reseeded t"
  shows "wc_reachable h up r0 t \<and> \<not> sy_reseeded s \<and> pc_rev (sy_cache s) \<le> pc_rev (sy_cache t)"
  using assms(1,4)
proof (induction rule: rtranclp_induct)
  case (step t u)
  have t: "wc_reachable h up r0 t"
    using step.hyps(1) assms(2) by (induction rule: rtranclp_induct) (auto intro: wc_reachable.step)
  then have "\<not> sy_reseeded t \<and> pc_rev (sy_cache t) \<le> pc_rev (sy_cache u)"
    using wc_step_rev[OF step.hyps(2) _ step.prems] wc_reachable_inv[OF t assms(3)] by blast
  with step t show ?case by (auto intro: wc_reachable.step)
qed (use assms(2) in simp)

lemma waited:
  "wait_for_revision min_rev wakes deadline \<Longrightarrow> \<exists>c \<in> set (deadline # wakes). min_rev \<le> pc_rev c"
  by (induction wakes) (auto split: if_splits)

lemma read_range:
  assumes "bt_wf m"
  shows "takeWhile (\<lambda>e. starts_with (fst e) p) (filter (\<lambda>e. p \<le> fst e) m) = matching m p None"
proof -
  have "bt_wf (filter (\<lambda>e. p \<le> fst e) m)" using assms unfolding bt_wf_def by (induction m) auto
  then have "takeWhile (\<lambda>e. starts_with (fst e) p) (filter (\<lambda>e. p \<le> fst e) m) =
      filter (\<lambda>e. starts_with (fst e) p) (filter (\<lambda>e. p \<le> fst e) m)"
    by (intro takeWhile_starts) auto
  also have "\<dots> = matching m p None"
    unfolding matching_def after_def by (auto intro!: filter_cong dest: starts_with_ge)
  finally show ?thesis .
qed

lemma starts_with_trans: "starts_with s p \<Longrightarrow> starts_with p q \<Longrightarrow> starts_with s q"
  by (auto simp: starts_with_iff)

lemma objects_sub: "starts_with sub prefix \<Longrightarrow> matching (objects h prefix q) sub None = objects h sub q"
  unfolding objects_def matching_def after_def filter_filter
  by (auto intro!: filter_cong dest: starts_with_trans)

lemma objects_wf: "bt_wf (h q) \<Longrightarrow> bt_wf (objects h prefix q)"
  by (auto simp: objects_def)

lemma page_at_fields:
  "cp_items (page_at limit rv xs) = map snd (cut limit xs)" "cp_continue (page_at limit rv xs) = next_token limit xs"
  "cp_revision (page_at limit rv xs) = rv"
  by (auto simp: page_at_def Let_def cut_def next_token_def)

lemma read_page_objects:
  assumes "snap_ok (objects h prefix) up r0 s" "\<not> sy_reseeded s" "\<forall>q. bt_wf (h q)" "starts_with sub prefix"
  shows "read_page sub limit None True (sy_cache s) = Some (page_at limit (pc_rev (sy_cache s)) (objects h sub (sy_applied s)))"
proof -
  have "pc_snapshot (sy_cache s) = objects h prefix (sy_applied s)" using assms(1,2) by (simp add: snap_ok_def)
  moreover have "bt_wf (objects h prefix (sy_applied s))" using assms(3) by (simp add: objects_wf)
  ultimately show ?thesis
    by (simp add: read_page_def Let_def read_range objects_sub[OF assms(4)])
qed

lemma decode_items_keys: "decode_items f (map (\<lambda>x. ([], x)) (map snd xs)) = decode_items f xs"
proof (induction xs)
  case (Cons x xs)
  then show ?case by (cases x) (simp split: option.splits sum.splits)
qed simp

lemma list_page_read_cached:
  assumes "list_page_read from_slice list_at (\<lambda>_. Some (Some page)) sub limit None (NotOlderThan min_rev) t = Some (Inr p)"
  shows "decode_items from_slice (map (\<lambda>x. ([], x)) (cp_items page)) = Some (Inr (lp_items p))"
    "lp_continue p = map_option (continue_token (cp_revision page)) (cp_continue page)" "lp_revision p = cp_revision page"
  using assms by (auto simp: list_page_read_def split: option.splits sum.splits)

section \<open>An example run\<close>

text \<open>One lease, created after the seed.\<close>

definition ex_put :: "nat kv" where "ex_put = \<lparr>kv_value = 7, kv_create = 3, kv_mod = 3, kv_version = 1\<rparr>"
definition ex_hist :: "nat \<Rightarrow> (string, nat kv) btree" where "ex_hist q = (if q < 3 then [] else [(''/r/a'', ex_put)])"
definition ex_responses :: "nat watch_response list" where "ex_responses = [Events [ServerPut ''/r/a'' ex_put]]"

abbreviation ex_added :: "nat watch_event" where "ex_added \<equiv> Added ''/r/a'' 7 3"

definition ex_cache :: "(nat \<times> nat watch_event) list \<Rightarrow> (nat \<times> nat watch_event) list \<Rightarrow> nat \<Rightarrow> nat snapshot \<Rightarrow> nat \<Rightarrow> nat prefix_cache" where
  "ex_cache sent ring seq snap rv =
     \<lparr>pc_generation = 1, pc_sent = sent, pc_ring = ring, pc_next_seq = seq, pc_start_rev = 2,
      pc_snapshot = snap, pc_rev = rv, pc_terminated = False, pc_progress = 0\<rparr>"

definition ex_sys :: "nat prefix_cache \<Rightarrow> nat pump \<Rightarrow> nat phase \<Rightarrow> nat watch_event list \<Rightarrow> nat \<Rightarrow> (nat \<times> nat watch_event) list \<Rightarrow> nat \<Rightarrow> nat system" where
  "ex_sys c p ph out taken l r =
     \<lparr>sy_cache = c, sy_pump = p, sy_fresh = FIdle, sy_phase = ph, sy_out = out, sy_taken = taken, sy_log = l,
      sy_applied = r, sy_reseeded = False\<rparr>"

lemmas ex_defs = ex_sys_def ex_cache_def cache_ops

lemma ex_objects: "objects ex_hist ''/r/'' q = (if q < 3 then [] else [(''/r/a'', 7, 3)])"
  by (simp add: objects_def matching_def ex_hist_def hist_view_def kv_view_def ex_put_def after_def)

lemma ex_up: "etcd_watch ex_responses = [ex_added]"
  by (simp add: ex_responses_def ex_put_def map_filter_simps)

lemma ex_server: "server_ok ex_hist ''/r/'' 2 (server_events ex_responses)"
  by (simp add: ex_responses_def quiet_def under_def ex_hist_def ex_put_def matching_def after_def)

abbreviation ex_reach :: "nat system \<Rightarrow> bool" where
  "ex_reach \<equiv> wc_reachable (objects ex_hist ''/r/'') (etcd_watch ex_responses) 2"

lemma ex_applied: "ex_reach (ex_sys (ex_cache [] [] 2 [(''/r/a'', 7, 3)] 2) (PApplied 1 ex_added) Closed [] 1 [] 3)"
proof -
  have 0: "ex_reach (ex_sys (ex_cache [] [] 1 [] 2) PIdle Closed [] 0 [] 2)"
    using wc_reachable.opened[of "objects ex_hist ''/r/''" "etcd_watch ex_responses" 2 1 0]
    by (simp add: system_start_def open_cache_def ex_objects ex_defs)
  have 1: "ex_reach (ex_sys (ex_cache [] [] 2 [] 2) (PGot 1 ex_added) Closed [] 1 [] 2)"
    using wc_reachable.step[OF 0 wc_step.recv] by (simp add: ex_up ex_defs numeral_2_eq_2)
  show ?thesis using wc_reachable.step[OF 1 wc_step.applied] by (simp add: ex_defs)
qed

lemma ex_served: "ex_reach (ex_sys (ex_cache [(1, ex_added)] [(1, ex_added)] 2 [(''/r/a'', 7, 3)] 3) PIdle
    (Serving 2 1 1 []) [ex_added] 1 [(1, ex_added)] 3)"
proof -
  let ?c = "ex_cache [(1, ex_added)] [(1, ex_added)] 2 [(''/r/a'', 7, 3)] 3" and ?l = "[(1, ex_added)]"
  have 1: "ex_reach (ex_sys (ex_cache [] [] 2 [(''/r/a'', 7, 3)] 3) (PStored 1 ex_added) Closed [] 1 [] 3)"
    using wc_reachable.step[OF ex_applied wc_step.stored[where now = 0]] by (simp add: ex_defs)
  have 2: "ex_reach (ex_sys (ex_cache [] ?l 2 [(''/r/a'', 7, 3)] 3) (PRinged 1 ex_added) Closed [] 1 ?l 3)"
    using wc_reachable.step[OF 1 wc_step.ringed] by (simp add: ex_defs RING_CAPACITY_def)
  have 3: "ex_reach (ex_sys ?c PIdle Closed [] 1 ?l 3)"
    using wc_reachable.step[OF 2 wc_step.broadcast] by (simp add: ex_defs)
  have 4: "ex_reach (ex_sys ?c PIdle (Asked 2) [] 1 ?l 3)"
    using wc_reachable.step[OF 3 wc_step.ask[where start_rev = 2]] by (simp add: ex_defs watch_start_def)
  have 5: "ex_reach (ex_sys ?c PIdle (Subscribed 2 1) [] 1 ?l 3)"
    using wc_reachable.step[OF 4 wc_step.subscribe] by (simp add: ex_defs)
  have 6: "ex_reach (ex_sys ?c PIdle (Boundary 2 1 False ?l) [] 1 ?l 3)"
    using wc_reachable.step[OF 5 wc_step.boundary] by (simp add: ex_defs ring_gap_def backlog_of_def)
  have 7: "ex_reach (ex_sys ?c PIdle (Serving 2 1 0 ?l) [] 1 ?l 3)"
    using wc_reachable.step[OF 6 wc_step.serve[where gap = False]] by (simp add: ex_defs watch_dedicated_def)
  show ?thesis using wc_reachable.step[OF 7 wc_step.replay] by (simp add: ex_defs)
qed

context etcd
begin

lemmas adapter_list_pinned = mvcc.list_pinned_page
lemmas adapter_seed = mvcc.seed_snapshot_returns

end

section \<open>Properties\<close>

text \<open>
  C4. A watch is the history, with no gap and no repetition. Whatever the pump, the
  freshness task and the client do in whatever order, and however slow the client, what it has
  received is the datastore's changes after its starting revision, in order, each once, up to
  some point, and then at most an error that ends the watch. Applying them to the objects
  listed at the starting revision gives exactly the objects of the datastore at the revision
  of the last one. This is on any server whose watch keeps etcd's documented order.
\<close>

theorem watch_replays_history:
  assumes "server_ok h prefix r0 (server_events rs)"
    and "wc_reachable (objects h prefix) (etcd_watch rs) r0 s"
    and "sy_phase s = Serving start pos last_seq backlog \<or> sy_phase s = Ended start"
  shows "\<exists>evs errs n. sy_out s = evs @ errs \<and> length errs \<le> 1 \<and> (\<forall>e \<in> set errs. is_error e) \<and>
    map bare evs = map bare (filter (\<lambda>ev. start < ev_revision ev) (take n (etcd_watch rs))) \<and>
    foldl apply_event (objects h prefix start) evs =
      objects h prefix (if evs = [] then start else ev_revision (last evs))"
proof -
  note st = adapter_stream[OF assms(1)]
  note iv = wc_reachable_inv[OF assms(2) st]
  obtain n errs where c: "r0 \<le> start" "n \<le> length (sy_log s)" "sy_out s = sel start (take n (sy_log s)) @ errs"
    "length errs \<le> 1" "\<forall>e \<in> set errs. is_error e"
    using client_events[OF _ assms(3)] iv by blast
  from client_history[OF _ st c(1) refl c(2)] iv c show ?thesis by blast
qed

theorem watch_replays_history_witness:
  "\<exists>evs errs n. [ex_added] = evs @ errs \<and> length errs \<le> 1 \<and> (\<forall>e \<in> set errs. is_error e) \<and>
    map bare evs = map bare (filter (\<lambda>ev. 2 < ev_revision ev) (take n (etcd_watch ex_responses))) \<and>
    foldl apply_event (objects ex_hist ''/r/'' 2) evs = objects ex_hist ''/r/'' (if evs = [] then 2 else ev_revision (last evs))"
proof -
  let ?s = "ex_sys (ex_cache [(1, ex_added)] [(1, ex_added)] 2 [(''/r/a'', 7, 3)] 3) PIdle
    (Serving 2 1 1 []) [ex_added] 1 [(1, ex_added)] 3"
  have ph: "sy_phase ?s = Serving 2 1 1 [] \<or> sy_phase ?s = Ended 2" and out: "sy_out ?s = [ex_added]" by (simp_all add: ex_sys_def)
  note w = watch_replays_history[OF ex_server ex_served ph]
  from w[unfolded out] show ?thesis by assumption
qed





text \<open>
  C31. The label can lag the page. There is a moment, between the pump's two writes, at which
  a page read from the cache is labelled with a revision at which the datastore did not hold
  those objects.
\<close>

theorem cached_page_label_lags:
  "\<exists>s page. wc_reachable (objects ex_hist ''/r/'') (etcd_watch ex_responses) 2 s \<and> \<not> pc_terminated (sy_cache s) \<and>
     read_page ''/r/'' 0 None True (sy_cache s) = Some page \<and>
     cp_items page \<noteq> map snd (objects ex_hist ''/r/'' (cp_revision page))"
  using ex_applied
  by (intro exI[of _ "ex_sys (ex_cache [] [] 2 [(''/r/a'', 7, 3)] 2) (PApplied 1 ex_added) Closed [] 1 [] 3"]
      exI[of _ "page_at 0 2 [(''/r/a'', 7, 3)]"])
     (simp add: ex_sys_def ex_cache_def read_page_def Let_def page_at_fields ex_objects cut_def)

text \<open>
  C32. The seed ends, with the exact contents. However the datastore changes while it is
  read, the loop over the pages stops after at most one request for every thousand objects of
  the first page's revision and one more, and returns exactly the objects at that revision, or
  the error of a request that failed.
\<close>

theorem seed_ends_with_snapshot:
  assumes "etcd e_inv e_rev e_hist e_evolves e_wrote e_removed range_fn put_fn delete_fn txn_fn"
    and "e_inv s" "evolving e_evolves (s # ss)" "prefix \<noteq> []" "last prefix = CHR ''/''"
    and "length (matching (hist_view (e_hist s (e_rev s))) prefix None) \<le> SEED_PAGE * Suc (length ss)"
  shows "\<exists>res. seed_snapshot (etcd_list_at range_fn) prefix (s # ss) = Some res \<and>
    (case res of Inr (m, q) \<Rightarrow> m = matching (hist_view (e_hist s (e_rev s))) prefix None \<and> q = e_rev s
     | Inl e \<Rightarrow> seed_error (etcd_list_at range_fn) prefix (s # ss) e)"
  by (rule etcd.adapter_seed[OF assms])

theorem seed_ends_with_snapshot_witness:
  "\<exists>res. seed_snapshot (etcd_list_at srv_range) ''/registry/leases/'' [ex_two] = Some res \<and>
    (case res of Inr (m, q) \<Rightarrow> m = matching (hist_view (srv_hist ex_two (srv_rev ex_two))) ''/registry/leases/'' None \<and> q = srv_rev ex_two
     | Inl e \<Rightarrow> seed_error (etcd_list_at srv_range) ''/registry/leases/'' [ex_two] e)"
proof -
  have n: "length (matching (hist_view (srv_hist ex_two (srv_rev ex_two))) ''/registry/leases/'' None) \<le> SEED_PAGE * Suc (length ([] :: json server list))"
    by (simp add: SEED_PAGE_def ex_simps hist_view_def matching_def)
  show ?thesis by (rule seed_ends_with_snapshot[OF srv.etcd_axioms ex_two_inv(1) _ _ _ n]) simp_all
qed

end
