(* ===== verification/Rbac.thy ===== *)
theory Rbac
  imports WatchCache
begin

text \<open>
  \<^verbatim>\<open>pkg/apiserver/src/rbac_engine.rs\<close>: who may do what. A request's path and method become an
  authorization request, the bindings that name the user lead to roles, and a role's rules are
  matched against the request. A decision is taken first from the objects in the watch cache,
  where only an allow counts, and then from the datastore.

  The reads of one decision are the arguments of a record: \<open>rd_list\<close> and \<open>rd_get\<close> are the
  storage layer's, \<open>rd_view\<close> is the parsed objects of a prefix of the watch cache (\<open>None\<close>
  when the cache cannot be had). A decision reads no key twice from the same place except a
  role that several bindings name.
\<close>

section \<open>Requests and answers\<close>

record user_info =
  ui_username :: string
  ui_groups :: "string list"

record auth_request =
  aq_verb :: string
  aq_resource :: string
  aq_subresource :: "string option"
  aq_api_group :: string
  aq_namespace :: "string option"
  aq_name :: "string option"

record decision =
  de_allowed :: bool
  de_reason :: string
  de_unavailable :: "string option"

definition decision_allow :: "string \<Rightarrow> decision" where
  "decision_allow reason = \<lparr>de_allowed = True, de_reason = reason, de_unavailable = None\<rparr>"

definition decision_deny :: decision where
  "decision_deny = \<lparr>de_allowed = False, de_reason = [], de_unavailable = None\<rparr>"

definition decision_unavailable :: "string \<Rightarrow> decision" where
  "decision_unavailable cause = \<lparr>de_allowed = False, de_reason = [], de_unavailable = Some cause\<rparr>"

record reads =
  rd_list :: "string \<Rightarrow> nat \<Rightarrow> api_error + json list"
  rd_get :: "string \<Rightarrow> api_error + json"
  rd_view :: "string \<Rightarrow> (string, json) btree option"

section \<open>Rules\<close>

text \<open>\<open>r.ends_with("/*") && s.starts_with(&r[..r.len() - 1])\<close>.\<close>

definition star_prefix :: "string \<Rightarrow> string \<Rightarrow> bool" where
  "star_prefix r s \<longleftrightarrow> ends_with r ''/*'' \<and> starts_with s (butlast r)"

definition non_resource_rule_matches :: "json \<Rightarrow> string \<Rightarrow> string \<Rightarrow> bool" where
  "non_resource_rule_matches rule path verb =
     (let urls = arr (jidx rule ''nonResourceURLs'');
          verbs = arr (jidx rule ''verbs'')
      in if urls = [] \<or> verbs = [] then False
         else if \<not> list_ex (\<lambda>v. as_str v = Some ''*'' \<or> as_str v = Some verb) verbs then False
         else list_ex (\<lambda>u. let u = str_or [] u in u = ''*'' \<or> u = path \<or> star_prefix u path) urls)"

definition request_target :: "auth_request \<Rightarrow> string" where
  "request_target req =
     (case aq_subresource req of Some sub \<Rightarrow> aq_resource req @ ''/'' @ sub | None \<Rightarrow> aq_resource req)"

definition rule_matches :: "json \<Rightarrow> auth_request \<Rightarrow> bool" where
  "rule_matches rule req =
     (let api_groups = arr (jidx rule ''apiGroups'');
          resources = arr (jidx rule ''resources'')
      in if api_groups = [] \<or> resources = [] then False
         else if \<not> list_ex (\<lambda>g. let g = str_or [] g in g = ''*'' \<or> g = aq_api_group req) api_groups then False
         else
           let target = request_target req
           in if \<not> list_ex (\<lambda>r. let r = str_or [] r in r = ''*'' \<or> r = target \<or> star_prefix r target) resources then False
              else if (case as_array (jidx rule ''verbs'') of
                         Some vs \<Rightarrow> \<not> list_ex (\<lambda>v. let v = str_or [] v in v = ''*'' \<or> v = aq_verb req) vs
                       | None \<Rightarrow> False) then False
              else if (case as_array (jidx rule ''resourceNames'') of
                         Some names \<Rightarrow>
                           names \<noteq> [] \<and>
                           (case aq_name req of
                              Some n \<Rightarrow> \<not> list_ex (\<lambda>x. as_str x = Some n) names
                            | None \<Rightarrow> False)
                       | None \<Rightarrow> False) then False
              else True)"

definition rules_permit :: "json \<Rightarrow> auth_request \<Rightarrow> bool" where
  "rules_permit role req =
     (case as_array (jidx role ''rules'') of
        Some rules \<Rightarrow> list_ex (\<lambda>rule. rule_matches rule req) rules
      | None \<Rightarrow> False)"

section \<open>Subjects\<close>

definition nonempty :: "string option \<Rightarrow> string option" where
  "nonempty s = (case s of Some n \<Rightarrow> if n = [] then None else Some n | None \<Rightarrow> None)"

definition service_account_name :: "string \<Rightarrow> string \<Rightarrow> string" where
  "service_account_name ns name = ''system:serviceaccount:'' @ ns @ '':'' @ name"

definition subject_matches :: "json \<Rightarrow> user_info \<Rightarrow> json \<Rightarrow> bool" where
  "subject_matches binding user subject =
     (let kind = str_or [] (jidx subject ''kind'');
          name = str_or [] (jidx subject ''name'')
      in if kind = ''User'' \<and> name = ui_username user then True
         else if kind = ''Group'' \<and> name \<in> set (ui_groups user) then True
         else if kind = ''ServiceAccount'' then
           (case (case nonempty (as_str (jidx subject ''namespace'')) of
                    Some ns \<Rightarrow> Some ns
                  | None \<Rightarrow> nonempty (as_str (jat binding [''metadata'', ''namespace'']))) of
              Some ns \<Rightarrow> service_account_name ns name = ui_username user
            | None \<Rightarrow> False)
         else False)"

definition subjects_match :: "json \<Rightarrow> user_info \<Rightarrow> bool" where
  "subjects_match binding user =
     (case as_array (jidx binding ''subjects'') of
        None \<Rightarrow> False
      | Some subjects \<Rightarrow> list_ex (subject_matches binding user) subjects)"

section \<open>Bindings\<close>

definition role_ref_name :: "json \<Rightarrow> string" where
  "role_ref_name binding = str_or [] (jat binding [''roleRef'', ''name''])"

definition role_ref_kind :: "json \<Rightarrow> string" where
  "role_ref_kind binding = str_or [] (jat binding [''roleRef'', ''kind''])"

definition binding_name :: "json \<Rightarrow> string" where
  "binding_name binding = str_or [] (jat binding [''metadata'', ''name''])"

definition cluster_reason :: "json \<Rightarrow> string" where
  "cluster_reason binding =
     ''RBAC: allowed by ClusterRoleBinding '' @ quoted (binding_name binding) @ '' of ClusterRole '' @ quoted (role_ref_name binding)"

definition namespace_reason :: "string \<Rightarrow> json \<Rightarrow> string" where
  "namespace_reason ns binding =
     ''RBAC: allowed by RoleBinding '' @ quoted (ns @ ''/'' @ binding_name binding) @ '' of '' @ role_ref_kind binding @ '' '' @
     quoted (role_ref_name binding)"

text \<open>
  \<^verbatim>\<open>readable\<close>: the value read, and the first failure that was not a missing object.
\<close>

definition readable :: "api_error + 'a \<Rightarrow> string option \<Rightarrow> 'a option \<times> string option" where
  "readable res unreadable =
     (case res of
        Inr v \<Rightarrow> (Some v, unreadable)
      | Inl e \<Rightarrow>
          (None,
           if ae_reason e \<noteq> ''NotFound''
           then (case unreadable of Some c \<Rightarrow> Some c | None \<Rightarrow> Some (ae_message e))
           else unreadable))"

definition superuser :: "bool \<Rightarrow> user_info \<Rightarrow> bool" where
  "superuser dev_anonymous_admin user \<longleftrightarrow>
     ''system:masters'' \<in> set (ui_groups user) \<or> (dev_anonymous_admin \<and> ui_username user = ''system:anonymous'')"

subsection \<open>From the datastore\<close>

fun cluster_loop ::
    "reads \<Rightarrow> user_info \<Rightarrow> auth_request \<Rightarrow> json list \<Rightarrow> string option \<Rightarrow> string option \<times> string option" where
  "cluster_loop rd user req [] unreadable = (None, unreadable)"
| "cluster_loop rd user req (binding # bindings) unreadable =
     (if \<not> subjects_match binding user \<or> role_ref_kind binding \<noteq> ''ClusterRole''
      then cluster_loop rd user req bindings unreadable
      else
        (case readable (rd_get rd (cluster_key ''clusterroles'' (role_ref_name binding))) unreadable of
           (Some role, u) \<Rightarrow>
             if rules_permit role req then (Some (cluster_reason binding), u)
             else cluster_loop rd user req bindings u
         | (None, u) \<Rightarrow> cluster_loop rd user req bindings u))"

definition check_cluster_role_bindings ::
    "reads \<Rightarrow> user_info \<Rightarrow> auth_request \<Rightarrow> string option \<Rightarrow> string option \<times> string option" where
  "check_cluster_role_bindings rd user req unreadable =
     (case readable (rd_list rd (cluster_prefix ''clusterrolebindings'') 1000) unreadable of
        (None, u) \<Rightarrow> (None, u)
      | (Some bindings, u) \<Rightarrow> cluster_loop rd user req bindings u)"

definition bound_role :: "reads \<Rightarrow> string \<Rightarrow> json \<Rightarrow> string option \<Rightarrow> json option \<times> string option" where
  "bound_role rd ns binding unreadable =
     (if role_ref_kind binding = ''ClusterRole''
      then readable (rd_get rd (cluster_key ''clusterroles'' (role_ref_name binding))) unreadable
      else if role_ref_kind binding = ''Role''
      then readable (rd_get rd (namespaced_key ''roles'' ns (role_ref_name binding))) unreadable
      else (None, unreadable))"

fun namespace_loop ::
    "reads \<Rightarrow> user_info \<Rightarrow> auth_request \<Rightarrow> string \<Rightarrow> json list \<Rightarrow> string option \<Rightarrow> string option \<times> string option" where
  "namespace_loop rd user req ns [] unreadable = (None, unreadable)"
| "namespace_loop rd user req ns (binding # bindings) unreadable =
     (if \<not> subjects_match binding user then namespace_loop rd user req ns bindings unreadable
      else
        (case bound_role rd ns binding unreadable of
           (Some role, u) \<Rightarrow>
             if rules_permit role req then (Some (namespace_reason ns binding), u)
             else namespace_loop rd user req ns bindings u
         | (None, u) \<Rightarrow> namespace_loop rd user req ns bindings u))"

definition check_role_bindings ::
    "reads \<Rightarrow> user_info \<Rightarrow> auth_request \<Rightarrow> string \<Rightarrow> string option \<Rightarrow> string option \<times> string option" where
  "check_role_bindings rd user req ns unreadable =
     (case readable (rd_list rd (namespace_prefix ''rolebindings'' ns) 1000) unreadable of
        (None, u) \<Rightarrow> (None, u)
      | (Some bindings, u) \<Rightarrow> namespace_loop rd user req ns bindings u)"

subsection \<open>From the watch cache\<close>

definition CLUSTER_ROLE_BINDINGS :: string where "CLUSTER_ROLE_BINDINGS = ''/registry/clusterrolebindings/''"
definition CLUSTER_ROLES :: string where "CLUSTER_ROLES = ''/registry/clusterroles/''"
definition ROLE_BINDINGS :: string where "ROLE_BINDINGS = ''/registry/rolebindings/''"
definition ROLES :: string where "ROLES = ''/registry/roles/''"

text \<open>The parsed objects of a prefix, kept with the version of the cache they were parsed from.\<close>

type_synonym views = "string \<Rightarrow> (version \<times> (string, json) btree) option"

definition parse_objects :: "'b from_slice \<Rightarrow> (string \<times> 'b) list \<Rightarrow> (string, json) btree" where
  "parse_objects from_slice items =
     foldl (\<lambda>m (k, v). bt_insert k v m) []
       (List.map_filter (\<lambda>(k, bytes). case from_slice bytes of Inr v \<Rightarrow> Some (k, v) | Inl _ \<Rightarrow> None) items)"

definition view ::
    "'b from_slice \<Rightarrow> (string \<Rightarrow> version option) \<Rightarrow> (string \<Rightarrow> (version \<times> (string \<times> 'b) list) option) \<Rightarrow> string \<Rightarrow> views \<Rightarrow>
     views \<times> (string, json) btree option" where
  "view from_slice version_fn snapshot_fn prefix views =
     (case version_fn prefix of
        None \<Rightarrow> (views, None)
      | Some v \<Rightarrow>
          if (case views prefix of Some (held, _) \<Rightarrow> held = v | None \<Rightarrow> False)
          then (views, map_option snd (views prefix))
          else
            (case snapshot_fn prefix of
               None \<Rightarrow> (views, None)
             | Some (v', items) \<Rightarrow>
                 (let objs = parse_objects from_slice items in (views(prefix \<mapsto> (v', objs)), Some objs))))"

definition cached_cluster_grant :: "(string, json) btree \<Rightarrow> user_info \<Rightarrow> auth_request \<Rightarrow> json \<Rightarrow> bool" where
  "cached_cluster_grant cluster_roles user req binding \<longleftrightarrow>
     subjects_match binding user \<and> role_ref_kind binding = ''ClusterRole'' \<and>
     (case map_of cluster_roles (cluster_key ''clusterroles'' (role_ref_name binding)) of
        Some role \<Rightarrow> rules_permit role req
      | None \<Rightarrow> False)"

text \<open>
  The loop over a namespace's bindings. The roles of the namespace are asked for when the
  first binding needs them, and the loop gives up (\<open>None\<close>) if they cannot be had.
\<close>

fun cached_namespace_loop ::
    "reads \<Rightarrow> (string, json) btree \<Rightarrow> auth_request \<Rightarrow> string \<Rightarrow> json list \<Rightarrow> string option" where
  "cached_namespace_loop rd cluster_roles req ns [] = None"
| "cached_namespace_loop rd cluster_roles req ns (binding # bindings) =
     (if role_ref_kind binding = ''Role'' \<and> rd_view rd ROLES = None then None
      else if (if role_ref_kind binding = ''ClusterRole'' then
                 (case map_of cluster_roles (cluster_key ''clusterroles'' (role_ref_name binding)) of
                    Some role \<Rightarrow> rules_permit role req | None \<Rightarrow> False)
               else if role_ref_kind binding = ''Role'' then
                 (case rd_view rd ROLES of
                    Some roles \<Rightarrow>
                      (case map_of roles (namespaced_key ''roles'' ns (role_ref_name binding)) of
                         Some role \<Rightarrow> rules_permit role req | None \<Rightarrow> False)
                  | None \<Rightarrow> False)
               else False)
      then Some (namespace_reason ns binding)
      else cached_namespace_loop rd cluster_roles req ns bindings)"

definition cached_allow :: "reads \<Rightarrow> user_info \<Rightarrow> auth_request \<Rightarrow> string option" where
  "cached_allow rd user req =
     (case (rd_view rd CLUSTER_ROLE_BINDINGS, rd_view rd CLUSTER_ROLES) of
        (Some bindings, Some cluster_roles) \<Rightarrow>
          (case find (cached_cluster_grant cluster_roles user req) (map snd bindings) of
             Some binding \<Rightarrow> Some (cluster_reason binding)
           | None \<Rightarrow>
               (case aq_namespace req of
                  None \<Rightarrow> None
                | Some ns \<Rightarrow>
                    (case rd_view rd ROLE_BINDINGS of
                       None \<Rightarrow> None
                     | Some role_bindings \<Rightarrow>
                         (let prefix = namespace_prefix ''rolebindings'' ns
                          in cached_namespace_loop rd cluster_roles req ns
                               (filter (\<lambda>b. subjects_match b user)
                                 (map snd (takeWhile (\<lambda>e. starts_with (fst e) prefix)
                                   (filter (\<lambda>e. prefix \<le> fst e) role_bindings))))))))
      | _ \<Rightarrow> None)"

section \<open>Decisions\<close>

definition authorize_with_reason :: "bool \<Rightarrow> reads \<Rightarrow> user_info \<Rightarrow> auth_request \<Rightarrow> decision" where
  "authorize_with_reason dev_anonymous_admin rd user req =
     (if ''system:masters'' \<in> set (ui_groups user)
      then decision_allow (''RBAC: allowed by group '' @ quoted ''system:masters'')
      else if dev_anonymous_admin \<and> ui_username user = ''system:anonymous''
      then decision_allow ''RBAC: allowed by --dev-anonymous-admin''
      else
        (case cached_allow rd user req of
           Some why \<Rightarrow> decision_allow why
         | None \<Rightarrow>
             (case check_cluster_role_bindings rd user req None of
                (Some why, _) \<Rightarrow> decision_allow why
              | (None, u) \<Rightarrow>
                  (case (case aq_namespace req of
                           Some ns \<Rightarrow> check_role_bindings rd user req ns u
                         | None \<Rightarrow> (None, u)) of
                     (Some why, _) \<Rightarrow> decision_allow why
                   | (None, Some cause) \<Rightarrow> decision_unavailable cause
                   | (None, None) \<Rightarrow> decision_deny))))"

definition authorize :: "bool \<Rightarrow> reads \<Rightarrow> user_info \<Rightarrow> auth_request \<Rightarrow> bool" where
  "authorize dev_anonymous_admin rd user req = de_allowed (authorize_with_reason dev_anonymous_admin rd user req)"

fun non_resource_loop :: "reads \<Rightarrow> string \<Rightarrow> string \<Rightarrow> json list \<Rightarrow> decision" where
  "non_resource_loop rd path verb [] = decision_deny"
| "non_resource_loop rd path verb (binding # bindings) =
     (if role_ref_kind binding \<noteq> ''ClusterRole'' then non_resource_loop rd path verb bindings
      else
        (case rd_get rd (cluster_key ''clusterroles'' (role_ref_name binding)) of
           Inl _ \<Rightarrow> non_resource_loop rd path verb bindings
         | Inr role \<Rightarrow>
             if (case as_array (jidx role ''rules'') of
                   Some rs \<Rightarrow> list_ex (\<lambda>r. non_resource_rule_matches r path verb) rs | None \<Rightarrow> False)
             then decision_allow (cluster_reason binding)
             else non_resource_loop rd path verb bindings))"

definition authorize_non_resource :: "bool \<Rightarrow> reads \<Rightarrow> user_info \<Rightarrow> string \<Rightarrow> string \<Rightarrow> decision" where
  "authorize_non_resource dev_anonymous_admin rd user path verb =
     (if ''system:masters'' \<in> set (ui_groups user)
      then decision_allow (''RBAC: allowed by group '' @ quoted ''system:masters'')
      else if dev_anonymous_admin \<and> ui_username user = ''system:anonymous''
      then decision_allow ''RBAC: allowed by --dev-anonymous-admin''
      else
        (case rd_list rd (cluster_prefix ''clusterrolebindings'') 1000 of
           Inl _ \<Rightarrow> decision_deny
         | Inr bindings \<Rightarrow> non_resource_loop rd path verb (filter (\<lambda>b. subjects_match b user) bindings)))"

section \<open>Reviews\<close>

record rule_set =
  rs_resource_rules :: "json list"
  rs_non_resource_rules :: "json list"
  rs_incomplete :: bool

definition rule_set_default :: rule_set where
  "rule_set_default = \<lparr>rs_resource_rules = [], rs_non_resource_rules = [], rs_incomplete = False\<rparr>"

definition has_items :: "json \<Rightarrow> string \<Rightarrow> bool" where
  "has_items rule f = (case as_array (jidx rule f) of Some a \<Rightarrow> a \<noteq> [] | None \<Rightarrow> False)"

definition absorb_rule :: "rule_set \<Rightarrow> json \<Rightarrow> rule_set" where
  "absorb_rule rs rule =
     (let rs1 =
            (if has_items rule ''resources''
             then rs\<lparr>rs_resource_rules := rs_resource_rules rs @
                [JObj ([(''apiGroups'', jidx rule ''apiGroups'')] @
                       (if has_items rule ''resourceNames'' then [(''resourceNames'', jidx rule ''resourceNames'')] else []) @
                       [(''resources'', jidx rule ''resources''), (''verbs'', jidx rule ''verbs'')])]\<rparr>
             else rs)
      in if has_items rule ''nonResourceURLs''
         then rs1\<lparr>rs_non_resource_rules := rs_non_resource_rules rs1 @
                [JObj [(''nonResourceURLs'', jidx rule ''nonResourceURLs''), (''verbs'', jidx rule ''verbs'')]]\<rparr>
         else rs1)"

definition absorb :: "json \<Rightarrow> rule_set \<Rightarrow> rule_set" where
  "absorb role rs = (case as_array (jidx role ''rules'') of None \<Rightarrow> rs | Some rules \<Rightarrow> foldl absorb_rule rs rules)"

definition absorb_read :: "api_error + json \<Rightarrow> rule_set \<Rightarrow> rule_set" where
  "absorb_read res rs = (case res of Inr role \<Rightarrow> absorb role rs | Inl _ \<Rightarrow> rs\<lparr>rs_incomplete := True\<rparr>)"

definition rules_for :: "bool \<Rightarrow> reads \<Rightarrow> user_info \<Rightarrow> string option \<Rightarrow> rule_set" where
  "rules_for dev_anonymous_admin rd user namespace =
     (if superuser dev_anonymous_admin user
      then \<lparr>rs_resource_rules = [JObj [(''apiGroups'', JArr [JStr ''*'']), (''resources'', JArr [JStr ''*'']), (''verbs'', JArr [JStr ''*''])]],
            rs_non_resource_rules = [JObj [(''nonResourceURLs'', JArr [JStr ''*'']), (''verbs'', JArr [JStr ''*''])]],
            rs_incomplete = False\<rparr>
      else
        (let rs =
               (case rd_list rd (cluster_prefix ''clusterrolebindings'') 1000 of
                  Inr bindings \<Rightarrow>
                    foldl (\<lambda>rs b. if role_ref_kind b \<noteq> ''ClusterRole'' then rs
                                   else absorb_read (rd_get rd (cluster_key ''clusterroles'' (role_ref_name b))) rs)
                      rule_set_default (filter (\<lambda>b. subjects_match b user) bindings)
                | Inl _ \<Rightarrow> rule_set_default\<lparr>rs_incomplete := True\<rparr>)
         in case namespace of
              None \<Rightarrow> rs
            | Some ns \<Rightarrow>
                (case rd_list rd (namespace_prefix ''rolebindings'' ns) 1000 of
                   Inr bindings \<Rightarrow>
                     foldl (\<lambda>rs b. if role_ref_kind b = ''ClusterRole''
                                    then absorb_read (rd_get rd (cluster_key ''clusterroles'' (role_ref_name b))) rs
                                    else if role_ref_kind b = ''Role''
                                    then absorb_read (rd_get rd (namespaced_key ''roles'' ns (role_ref_name b))) rs
                                    else rs)
                       rs (filter (\<lambda>b. subjects_match b user) bindings)
                 | Inl _ \<Rightarrow> rs\<lparr>rs_incomplete := True\<rparr>)))"

text \<open>Who may do a thing.\<close>

record who_can_result =
  wc_users :: "string set"
  wc_groups :: "string set"
  wc_errors :: "string list"

definition take_subject :: "json \<Rightarrow> who_can_result \<Rightarrow> json \<Rightarrow> who_can_result" where
  "take_subject binding out s =
     (let name = str_or [] (jidx s ''name'');
          kind = as_str (jidx s ''kind'')
      in if kind = Some ''User'' then out\<lparr>wc_users := insert name (wc_users out)\<rparr>
         else if kind = Some ''Group'' then out\<lparr>wc_groups := insert name (wc_groups out)\<rparr>
         else if kind = Some ''ServiceAccount'' then
           (let ns = (case nonempty (as_str (jidx s ''namespace'')) of
                        Some n \<Rightarrow> n
                      | None \<Rightarrow> str_or [] (jat binding [''metadata'', ''namespace'']))
            in out\<lparr>wc_users := insert (service_account_name ns name) (wc_users out)\<rparr>)
         else out)"

definition take_subjects :: "json \<Rightarrow> who_can_result \<Rightarrow> who_can_result" where
  "take_subjects binding out = foldl (take_subject binding) out (arr (jidx binding ''subjects''))"

definition who_can_cluster :: "reads \<Rightarrow> auth_request \<Rightarrow> who_can_result \<Rightarrow> json \<Rightarrow> who_can_result" where
  "who_can_cluster rd req out b =
     (if role_ref_kind b \<noteq> ''ClusterRole'' then out
      else
        (case rd_get rd (cluster_key ''clusterroles'' (role_ref_name b)) of
           Inr r \<Rightarrow> if rules_permit r req then take_subjects b out else out
         | Inl _ \<Rightarrow> out\<lparr>wc_errors := wc_errors out @
             [''clusterrole.rbac.authorization.k8s.io '' @ quoted (role_ref_name b) @ '' not found'']\<rparr>))"

definition who_can_namespace :: "reads \<Rightarrow> auth_request \<Rightarrow> string \<Rightarrow> who_can_result \<Rightarrow> json \<Rightarrow> who_can_result" where
  "who_can_namespace rd req ns out b =
     (if role_ref_kind b \<noteq> ''ClusterRole'' \<and> role_ref_kind b \<noteq> ''Role'' then out
      else
        (case (if role_ref_kind b = ''ClusterRole''
               then rd_get rd (cluster_key ''clusterroles'' (role_ref_name b))
               else rd_get rd (namespaced_key ''roles'' ns (role_ref_name b))) of
           Inr r \<Rightarrow> if rules_permit r req then take_subjects b out else out
         | Inl _ \<Rightarrow> out\<lparr>wc_errors := wc_errors out @
             [''role '' @ quoted (role_ref_name b) @ '' of rolebinding '' @ ns @ ''/'' @ binding_name b @ '' not found'']\<rparr>))"

definition who_can :: "bool \<Rightarrow> reads \<Rightarrow> auth_request \<Rightarrow> who_can_result" where
  "who_can dev_anonymous_admin rd req =
     (let out0 = \<lparr>wc_users = (if dev_anonymous_admin then {''system:anonymous''} else {}),
                  wc_groups = {''system:masters''}, wc_errors = []\<rparr>;
          out1 =
            (case rd_list rd (cluster_prefix ''clusterrolebindings'') 1000 of
               Inr bindings \<Rightarrow> foldl (who_can_cluster rd req) out0 bindings
             | Inl e \<Rightarrow> out0\<lparr>wc_errors := wc_errors out0 @ [ae_message e]\<rparr>)
      in case nonempty (aq_namespace req) of
           None \<Rightarrow> out1
         | Some ns \<Rightarrow>
             (case rd_list rd (namespace_prefix ''rolebindings'' ns) 1000 of
                Inr bindings \<Rightarrow> foldl (who_can_namespace rd req ns) out1 bindings
              | Inl e \<Rightarrow> out1\<lparr>wc_errors := wc_errors out1 @ [ae_message e]\<rparr>))"

section \<open>Impersonation\<close>

text \<open>A request's headers, a value that is not text being \<open>None\<close>.\<close>

type_synonym headers = "(string \<times> string option) list"

definition header_first :: "headers \<Rightarrow> string \<Rightarrow> string option" where
  "header_first hs name = (case filter (\<lambda>(k, v). k = name) hs of [] \<Rightarrow> None | (_, v) # _ \<Rightarrow> v)"

definition header_values :: "headers \<Rightarrow> string \<Rightarrow> string list" where
  "header_values hs name = List.map_filter (\<lambda>(k, v). if k = name then v else None) hs"

definition impersonate_check :: "string \<Rightarrow> string \<Rightarrow> string option \<Rightarrow> string \<Rightarrow> auth_request" where
  "impersonate_check api_group resource ns name =
     \<lparr>aq_verb = ''impersonate'', aq_resource = resource, aq_subresource = None, aq_api_group = api_group,
      aq_namespace = ns, aq_name = Some name\<rparr>"

definition service_account_of :: "string \<Rightarrow> (string \<times> string) option" where
  "service_account_of username =
     (case strip_prefix username ''system:serviceaccount:'' of
        Some rest \<Rightarrow> split_once CHR '':'' rest
      | None \<Rightarrow> None)"

definition impersonation_checks :: "string \<Rightarrow> string list \<Rightarrow> string option \<Rightarrow> auth_request list" where
  "impersonation_checks username groups uid =
     [case service_account_of username of
        Some (ns, name) \<Rightarrow> impersonate_check [] ''serviceaccounts'' (Some ns) name
      | None \<Rightarrow> impersonate_check [] ''users'' None username] @
     map (impersonate_check [] ''groups'' None) groups @
     (case uid of Some u \<Rightarrow> [impersonate_check ''authentication.k8s.io'' ''uids'' None u] | None \<Rightarrow> [])"

definition impersonated_groups :: "string \<Rightarrow> string list \<Rightarrow> string list" where
  "impersonated_groups username groups =
     (let out =
            (if groups = [] then
               (case service_account_of username of
                  Some (ns, _) \<Rightarrow> [''system:serviceaccounts'', ''system:serviceaccounts:'' @ ns]
                | None \<Rightarrow> groups)
             else groups)
      in if username \<noteq> ''system:anonymous'' \<and> ''system:authenticated'' \<notin> set out
         then out @ [''system:authenticated''] else out)"

definition impersonated :: "bool \<Rightarrow> reads \<Rightarrow> user_info \<Rightarrow> headers \<Rightarrow> api_error + user_info option" where
  "impersonated dev_anonymous_admin rd user hs =
     (let groups = header_values hs ''impersonate-group'';
          uid = header_first hs ''impersonate-uid''
      in case header_first hs ''impersonate-user'' of
           None \<Rightarrow>
             if groups = [] \<and> uid = None then Inr None
             else Inl (mk_error 400 ''BadRequest'' ''requested impersonation of groups or a uid without impersonating a user'')
         | Some username \<Rightarrow>
             (case find (\<lambda>c. \<not> authorize dev_anonymous_admin rd user c) (impersonation_checks username groups uid) of
                Some c \<Rightarrow>
                  Inl (mk_error 403 ''Forbidden''
                    (ui_username user @ '' is not allowed to impersonate '' @ aq_resource c @ '' '' @
                     quoted (case aq_name c of Some n \<Rightarrow> n | None \<Rightarrow> [])))
              | None \<Rightarrow> Inr (Some \<lparr>ui_username = username, ui_groups = impersonated_groups username groups\<rparr>)))"

section \<open>Paths\<close>

definition is_discovery_path :: "string \<Rightarrow> bool" where
  "is_discovery_path path =
     (if path = ''/api/v1'' then True
      else
        (case strip_prefix path ''/apis/'' of
           None \<Rightarrow> False
         | Some rest0 \<Rightarrow>
             (let rest = (case strip_suffix rest0 ''/'' of Some r \<Rightarrow> r | None \<Rightarrow> rest0)
              in rest \<noteq> [] \<and> length (split_on CHR ''/'' rest) \<le> 2 \<and> \<not> ends_with rest ''/'')))"

text \<open>Group, resource, namespace, name, subresource.\<close>

type_synonym path_parts = "string \<times> string \<times> string option \<times> string option \<times> string option"

text \<open>What follows \<^verbatim>\<open>/api/v1/\<close>, and what follows \<^verbatim>\<open>/apis/{group}/{version}/\<close>, the arms in their order.\<close>

definition core_path :: "string list \<Rightarrow> path_parts option" where
  "core_path segs =
     (if (case segs of r # name # sub # _ \<Rightarrow> r = ''nodes'' \<and> sub = ''proxy'' | _ \<Rightarrow> False)
      then Some ([], ''nodes'', None, Some (segs ! 1), Some ''proxy'')
      else
        (case segs of
           [resource] \<Rightarrow> Some ([], resource, None, None, None)
         | [resource, name] \<Rightarrow>
             if resource = ''namespaces'' then Some ([], ''namespaces'', Some name, Some name, None)
             else Some ([], resource, None, Some name, None)
         | [resource, name, sub] \<Rightarrow>
             if resource = ''namespaces'' \<and> (sub = ''status'' \<or> sub = ''finalize'')
             then Some ([], ''namespaces'', None, Some name, Some sub)
             else if resource = ''namespaces'' then Some ([], sub, Some name, None, None)
             else Some ([], resource, None, Some name, Some sub)
         | [namespaces, ns, resource, name] \<Rightarrow>
             if namespaces = ''namespaces'' then Some ([], resource, Some ns, Some name, None) else None
         | [namespaces, ns, resource, name, sub] \<Rightarrow>
             if namespaces = ''namespaces'' then Some ([], resource, Some ns, Some name, Some sub) else None
         | _ \<Rightarrow> None))"

definition group_path :: "string \<Rightarrow> string list \<Rightarrow> path_parts option" where
  "group_path grp segs =
     (case segs of
        [resource] \<Rightarrow> Some (grp, resource, None, None, None)
      | [resource, name] \<Rightarrow>
          if grp = ''project.openshift.io'' \<and> resource = ''projects'' then Some (grp, ''projects'', Some name, Some name, None)
          else Some (grp, resource, None, Some name, None)
      | [resource, name, sub] \<Rightarrow>
          if resource = ''namespaces'' then Some (grp, sub, Some name, None, None)
          else Some (grp, resource, None, Some name, Some sub)
      | [namespaces, ns, resource, name] \<Rightarrow>
          if namespaces = ''namespaces'' then Some (grp, resource, Some ns, Some name, None) else None
      | [namespaces, ns, resource, name, sub] \<Rightarrow>
          if namespaces = ''namespaces'' then Some (grp, resource, Some ns, Some name, Some sub) else None
      | _ \<Rightarrow> None)"

definition parse_path_segments :: "string list \<Rightarrow> path_parts option" where
  "parse_path_segments segments =
     (case segments of
        a # b # rest \<Rightarrow>
          if a = ''api'' \<and> b = ''v1'' then core_path rest
          else if a = ''apis'' then (case rest of version # rest' \<Rightarrow> group_path b rest' | [] \<Rightarrow> None)
          else None
      | _ \<Rightarrow> None)"

definition request_verb :: "string \<Rightarrow> string option \<Rightarrow> string option" where
  "request_verb http_method name =
     (if http_method = ''GET'' then Some (if name \<noteq> None then ''get'' else ''list'')
      else if http_method = ''POST'' then Some ''create''
      else if http_method = ''PUT'' then Some ''update''
      else if http_method = ''PATCH'' then Some ''patch''
      else if http_method = ''DELETE'' then Some ''delete''
      else None)"

definition parse_authorization_request :: "string \<Rightarrow> string \<Rightarrow> auth_request option" where
  "parse_authorization_request path http_method =
     (case parse_path_segments (split_on CHR ''/'' (trim_start_matches CHR ''/'' path)) of
        None \<Rightarrow> None
      | Some (api_group, resource, namespace, name, subresource) \<Rightarrow>
          (case request_verb http_method name of
             None \<Rightarrow> None
           | Some verb0 \<Rightarrow>
               (let verb = (if api_group = [] \<and> resource = ''pods'' \<and>
                               subresource \<in> {Some ''exec'', Some ''attach'', Some ''portforward''}
                            then ''create'' else verb0);
                    namespace' = (if api_group = [] \<and> resource = ''namespaces'' \<and> verb \<noteq> ''get'' then None else namespace)
                in Some \<lparr>aq_verb = verb, aq_resource = resource, aq_subresource = subresource, aq_api_group = api_group,
                         aq_namespace = namespace', aq_name = name\<rparr>)))"

section \<open>A bootstrapper's reads\<close>

text \<open>
  \<^verbatim>\<open>csr_admission.rs\<close>, the guard on reads: an enrolling machine sees its own certificate
  request only. A query is the decoded pairs of the query string, in order.
\<close>

definition CSR_GROUP :: string where "CSR_GROUP = ''certificates.k8s.io''"
definition CSR_RESOURCE :: string where "CSR_RESOURCE = ''certificatesigningrequests''"
definition BOOTSTRAPPERS :: string where "BOOTSTRAPPERS = ''system:bootstrappers''"

definition is_bootstrapper :: "user_info \<Rightarrow> bool" where
  "is_bootstrapper user \<longleftrightarrow> BOOTSTRAPPERS \<in> set (ui_groups user) \<and> ''system:masters'' \<notin> set (ui_groups user)"

definition selected_name :: "string \<Rightarrow> string option" where
  "selected_name v =
     (case strip_prefix (trim v) ''metadata.name=='' of
        Some n \<Rightarrow> Some n
      | None \<Rightarrow> strip_prefix (trim v) ''metadata.name='')"

fun watched_loop :: "(string \<times> string) list \<Rightarrow> bool \<Rightarrow> string option \<Rightarrow> string option" where
  "watched_loop [] watch name = (if watch then name else None)"
| "watched_loop ((k, v) # rest) watch name =
     (if k = ''watch'' then watched_loop rest (v = ''true'' \<or> v = ''1'') name
      else if k = ''fieldSelector'' then
        (case selected_name v of
           None \<Rightarrow> None
         | Some n \<Rightarrow> if n = [] \<or> CHR '','' \<in> set n then None else watched_loop rest watch (Some n))
      else if k = ''labelSelector'' \<and> v \<noteq> [] then None
      else watched_loop rest watch name)"

definition watched_name :: "(string \<times> string) list option \<Rightarrow> string option" where
  "watched_name query = (case query of None \<Rightarrow> None | Some pairs \<Rightarrow> watched_loop pairs False None)"

definition guard_read :: "reads \<Rightarrow> user_info \<Rightarrow> auth_request \<Rightarrow> (string \<times> string) list option \<Rightarrow> api_error + unit" where
  "guard_read rd user req query =
     (if aq_api_group req \<noteq> CSR_GROUP \<or> aq_resource req \<noteq> CSR_RESOURCE \<or> \<not> is_bootstrapper user then Inr ()
      else if aq_verb req \<notin> {''get'', ''list'', ''watch''} then Inr ()
      else
        (let refuse =
               forbidden (''certificatesigningrequests is forbidden: User '' @ quoted (ui_username user) @
                 '' may read only its own requests, by name'')
         in case (case aq_name req of Some n \<Rightarrow> Some n | None \<Rightarrow> watched_name query) of
              None \<Rightarrow> Inl refuse
            | Some name \<Rightarrow>
                (case rd_get rd (cluster_key CSR_RESOURCE name) of
                   Inr csr \<Rightarrow> if as_str (jat csr [''spec'', ''username'']) = Some (ui_username user) then Inr () else Inl refuse
                 | Inl e \<Rightarrow> Inl refuse)))"

section \<open>The middleware\<close>

text \<open>
  The middleware up to the handler: the request goes on as some user, or is answered with an
  error. The engine may be absent.
\<close>

datatype gate = Pass | PassAs user_info "auth_request option" | Refuse api_error

definition ANONYMOUS :: user_info where
  "ANONYMOUS = \<lparr>ui_username = ''system:anonymous'', ui_groups = [''system:unauthenticated'']\<rparr>"

definition EXEMPT_PATHS :: "string list" where
  "EXEMPT_PATHS = [''/healthz'', ''/livez'', ''/readyz'', ''/version'', ''/api'', ''/apis'', ''/api/'', ''/apis/'']"

definition forbidden_message :: "user_info \<Rightarrow> auth_request \<Rightarrow> string" where
  "forbidden_message user req =
     ui_username user @ '' is not allowed to '' @ aq_verb req @ '' '' @ request_target req @ '' in the namespace '' @
     quoted (case aq_namespace req of Some ns \<Rightarrow> ns | None \<Rightarrow> [])"

text \<open>The \<^verbatim>\<open>Retry-After\<close> the code sets on this answer is the one every 503 has (\<open>into_response\<close>).\<close>

definition authorizer_unavailable :: "user_info \<Rightarrow> api_error" where
  "authorizer_unavailable user =
     unavailable (''authorization of '' @ ui_username user @ '' could not be decided: the datastore is unavailable'')"

definition authorize_request ::
    "(bool \<times> reads) option \<Rightarrow> user_info \<Rightarrow> string \<Rightarrow> string \<Rightarrow> (string \<times> string) list option \<Rightarrow> gate" where
  "authorize_request engine user path http_method query =
     (let auth_req = parse_authorization_request path http_method
      in if auth_req = None \<and> (starts_with path ''/api/'' \<or> starts_with path ''/apis/'')
         then Refuse (mk_error 403 ''Forbidden''
                (ui_username user @ '' cannot be authorized for '' @ path @ '': unrecognized API path''))
         else if (path = ''/metrics'' \<or> starts_with path ''/metrics/'') \<and>
                 \<not> (case engine of
                      Some (dev, rd) \<Rightarrow> de_allowed (authorize_non_resource dev rd user path ''get'')
                    | None \<Rightarrow> False)
         then Refuse (mk_error 403 ''Forbidden''
                (''forbidden: User '' @ quoted (ui_username user) @ '' cannot get path '' @ quoted path))
         else
           (case (auth_req, engine) of
              (Some req, Some (dev, rd)) \<Rightarrow>
                (let d = authorize_with_reason dev rd user req
                 in case de_unavailable d of
                      Some cause \<Rightarrow> Refuse (authorizer_unavailable user)
                    | None \<Rightarrow>
                        if \<not> de_allowed d then Refuse (mk_error 403 ''Forbidden'' (forbidden_message user req))
                        else
                          (case guard_read rd user req query of
                             Inl e \<Rightarrow> Refuse e
                           | Inr _ \<Rightarrow> PassAs user (Some req)))
            | _ \<Rightarrow> PassAs user auth_req))"

definition rbac_middleware ::
    "(bool \<times> reads) option \<Rightarrow> user_info option \<Rightarrow> headers \<Rightarrow> string \<Rightarrow> string \<Rightarrow> (string \<times> string) list option \<Rightarrow> gate" where
  "rbac_middleware engine identity hs path http_method query =
     (if path \<in> set EXEMPT_PATHS then Pass
      else if is_discovery_path path \<and> http_method = ''GET'' then Pass
      else
        (let user0 = (case identity of Some u \<Rightarrow> u | None \<Rightarrow> ANONYMOUS)
         in case (case engine of
                    Some (dev, rd) \<Rightarrow>
                      (case impersonated dev rd user0 hs of
                         Inr (Some u) \<Rightarrow> Inr u
                       | Inr None \<Rightarrow> Inr user0
                       | Inl e \<Rightarrow> Inl e)
                  | None \<Rightarrow> Inr user0) of
              Inl e \<Rightarrow> Refuse e
            | Inr user \<Rightarrow> authorize_request engine user path http_method query))"

section \<open>What a decision means\<close>

text \<open>A binding among \<open>bindings\<close> names the user and leads to a role, found by \<open>get\<close> (and \<open>get_role\<close>
  for a namespace's own), whose rules permit the request.\<close>

definition cluster_grant :: "(string \<Rightarrow> json option) \<Rightarrow> json list \<Rightarrow> user_info \<Rightarrow> auth_request \<Rightarrow> bool" where
  "cluster_grant get bindings user req \<longleftrightarrow>
     (\<exists>b \<in> set bindings. subjects_match b user \<and> role_ref_kind b = ''ClusterRole'' \<and>
        (\<exists>role. get (cluster_key ''clusterroles'' (role_ref_name b)) = Some role \<and> rules_permit role req))"

definition namespace_grant ::
    "(string \<Rightarrow> json option) \<Rightarrow> (string \<Rightarrow> json option) \<Rightarrow> string \<Rightarrow> json list \<Rightarrow> user_info \<Rightarrow> auth_request \<Rightarrow> bool" where
  "namespace_grant get get_role ns bindings user req \<longleftrightarrow>
     (\<exists>b \<in> set bindings. subjects_match b user \<and>
        (\<exists>role. rules_permit role req \<and>
           (role_ref_kind b = ''ClusterRole'' \<and> get (cluster_key ''clusterroles'' (role_ref_name b)) = Some role \<or>
            role_ref_kind b = ''Role'' \<and> get_role (namespaced_key ''roles'' ns (role_ref_name b)) = Some role)))"

definition ok_of :: "api_error + 'a \<Rightarrow> 'a option" where
  "ok_of res = (case res of Inr v \<Rightarrow> Some v | Inl _ \<Rightarrow> None)"

definition stored_bindings :: "reads \<Rightarrow> string \<Rightarrow> json list" where
  "stored_bindings rd prefix = (case ok_of (rd_list rd prefix 1000) of Some bs \<Rightarrow> bs | None \<Rightarrow> [])"

definition store_grants :: "reads \<Rightarrow> user_info \<Rightarrow> auth_request \<Rightarrow> bool" where
  "store_grants rd user req \<longleftrightarrow>
     cluster_grant (\<lambda>k. ok_of (rd_get rd k)) (stored_bindings rd (cluster_prefix ''clusterrolebindings'')) user req \<or>
     (\<exists>ns. aq_namespace req = Some ns \<and>
        namespace_grant (\<lambda>k. ok_of (rd_get rd k)) (\<lambda>k. ok_of (rd_get rd k)) ns (stored_bindings rd (namespace_prefix ''rolebindings'' ns)) user req)"

definition viewed :: "reads \<Rightarrow> string \<Rightarrow> (string, json) btree" where
  "viewed rd prefix = (case rd_view rd prefix of Some m \<Rightarrow> m | None \<Rightarrow> [])"

text \<open>The same over the objects in the cache, a namespace's bindings being those whose key is in the namespace.\<close>

definition cache_grants :: "reads \<Rightarrow> user_info \<Rightarrow> auth_request \<Rightarrow> bool" where
  "cache_grants rd user req \<longleftrightarrow>
     cluster_grant (map_of (viewed rd CLUSTER_ROLES)) (map snd (viewed rd CLUSTER_ROLE_BINDINGS)) user req \<or>
     (\<exists>ns. aq_namespace req = Some ns \<and>
        namespace_grant (map_of (viewed rd CLUSTER_ROLES)) (map_of (viewed rd ROLES)) ns
          (map snd (filter (\<lambda>e. starts_with (fst e) (namespace_prefix ''rolebindings'' ns)) (viewed rd ROLE_BINDINGS))) user req)"

lemma readable_ok: "fst (readable res u) = ok_of res"
  by (simp add: readable_def ok_of_def split: sum.splits)

lemma cluster_loop_iff:
  "fst (cluster_loop rd user req bindings u) \<noteq> None \<longleftrightarrow> cluster_grant (\<lambda>k. ok_of (rd_get rd k)) bindings user req"
proof (induction bindings arbitrary: u)
  case (Cons b bindings)
  obtain o' u' where r: "readable (rd_get rd (cluster_key ''clusterroles'' (role_ref_name b))) u = (o', u')" by fastforce
  have o': "ok_of (rd_get rd (cluster_key ''clusterroles'' (role_ref_name b))) = o'"
    using readable_ok[of "rd_get rd (cluster_key ''clusterroles'' (role_ref_name b))" u] r by simp
  have g: "cluster_grant get (b # bindings) user req \<longleftrightarrow> cluster_grant get [b] user req \<or> cluster_grant get bindings user req" for get
    by (auto simp: cluster_grant_def)
  have one: "cluster_grant (\<lambda>k. ok_of (rd_get rd k)) [b] user req \<longleftrightarrow>
      subjects_match b user \<and> role_ref_kind b = ''ClusterRole'' \<and> (\<exists>role. o' = Some role \<and> rules_permit role req)"
    by (simp add: o' cluster_grant_def)
  show ?case using Cons r unfolding g one by (cases o') auto
qed (simp add: cluster_grant_def)

lemma bound_role_ok:
  "fst (bound_role rd ns b u) =
     (if role_ref_kind b = ''ClusterRole'' then ok_of (rd_get rd (cluster_key ''clusterroles'' (role_ref_name b)))
      else if role_ref_kind b = ''Role'' then ok_of (rd_get rd (namespaced_key ''roles'' ns (role_ref_name b))) else None)"
  by (simp add: bound_role_def readable_ok)

lemma namespace_loop_iff:
  "fst (namespace_loop rd user req ns bindings u) \<noteq> None \<longleftrightarrow> namespace_grant (\<lambda>k. ok_of (rd_get rd k)) (\<lambda>k. ok_of (rd_get rd k)) ns bindings user req"
proof (induction bindings arbitrary: u)
  case (Cons b bindings)
  obtain o' u' where r: "bound_role rd ns b u = (o', u')" by fastforce
  have o': "o' = (if role_ref_kind b = ''ClusterRole'' then ok_of (rd_get rd (cluster_key ''clusterroles'' (role_ref_name b)))
      else if role_ref_kind b = ''Role'' then ok_of (rd_get rd (namespaced_key ''roles'' ns (role_ref_name b))) else None)"
    using bound_role_ok[of rd ns b u] r by simp
  have g: "namespace_grant get get' ns (b # bindings) user req \<longleftrightarrow> namespace_grant get get' ns [b] user req \<or> namespace_grant get get' ns bindings user req" for get get'
    by (auto simp: namespace_grant_def)
  have one: "namespace_grant (\<lambda>k. ok_of (rd_get rd k)) (\<lambda>k. ok_of (rd_get rd k)) ns [b] user req \<longleftrightarrow>
      subjects_match b user \<and> (\<exists>role. o' = Some role \<and> rules_permit role req)"
    unfolding o' namespace_grant_def by (auto split: if_splits)
  show ?case using Cons r unfolding g one by (cases o') auto
qed (simp add: namespace_grant_def)

lemma check_cluster_iff:
  "fst (check_cluster_role_bindings rd user req u) \<noteq> None \<longleftrightarrow>
     cluster_grant (\<lambda>k. ok_of (rd_get rd k)) (stored_bindings rd (cluster_prefix ''clusterrolebindings'')) user req"
proof -
  let ?r = "readable (rd_list rd (cluster_prefix ''clusterrolebindings'') 1000) u"
  obtain o' u' where r: "?r = (o', u')" by fastforce
  have "ok_of (rd_list rd (cluster_prefix ''clusterrolebindings'') 1000) = o'" using readable_ok r by (metis fst_conv)
  then show ?thesis using r cluster_loop_iff[of rd user req _ u']
    by (cases o') (simp_all add: check_cluster_role_bindings_def stored_bindings_def cluster_grant_def)
qed

lemma check_namespace_iff:
  "fst (check_role_bindings rd user req ns u) \<noteq> None \<longleftrightarrow>
     namespace_grant (\<lambda>k. ok_of (rd_get rd k)) (\<lambda>k. ok_of (rd_get rd k)) ns (stored_bindings rd (namespace_prefix ''rolebindings'' ns)) user req"
proof -
  let ?r = "readable (rd_list rd (namespace_prefix ''rolebindings'' ns) 1000) u"
  obtain o' u' where r: "?r = (o', u')" by fastforce
  have "ok_of (rd_list rd (namespace_prefix ''rolebindings'' ns) 1000) = o'" using readable_ok r by (metis fst_conv)
  then show ?thesis using r namespace_loop_iff[of rd user req ns _ u']
    by (cases o') (simp_all add: check_role_bindings_def stored_bindings_def namespace_grant_def)
qed

lemma cached_namespace_sound:
  assumes "cached_namespace_loop rd cluster_roles req ns bindings \<noteq> None" "\<forall>b \<in> set bindings. subjects_match b user"
  shows "namespace_grant (map_of cluster_roles) (map_of (viewed rd ROLES)) ns bindings user req"
  using assms
proof (induction bindings)
  case (Cons b bindings)
  have g: "namespace_grant get get' ns (b # bindings) user req \<longleftrightarrow> namespace_grant get get' ns [b] user req \<or> namespace_grant get get' ns bindings user req" for get get'
    by (auto simp: namespace_grant_def)
  show ?case
  proof (cases "cached_namespace_loop rd cluster_roles req ns bindings = None")
    case True
    then have "namespace_grant (map_of cluster_roles) (map_of (viewed rd ROLES)) ns [b] user req"
      using Cons.prems by (auto simp: namespace_grant_def viewed_def split: if_splits option.splits)
    then show ?thesis unfolding g by simp
  next
    case False
    with Cons show ?thesis unfolding g by simp
  qed
qed simp

lemma cached_sound:
  assumes "cached_allow rd user req \<noteq> None"
  shows "cache_grants rd user req"
proof -
  obtain bindings cluster_roles where v: "rd_view rd CLUSTER_ROLE_BINDINGS = Some bindings" "rd_view rd CLUSTER_ROLES = Some cluster_roles"
    using assms by (auto simp: cached_allow_def split: option.splits)
  have vw: "viewed rd CLUSTER_ROLES = cluster_roles" "viewed rd CLUSTER_ROLE_BINDINGS = bindings" using v by (simp_all add: viewed_def)
  show ?thesis
  proof (cases "find (cached_cluster_grant cluster_roles user req) (map snd bindings)")
    case (Some b)
    then have "b \<in> set (map snd bindings)" "cached_cluster_grant cluster_roles user req b"
      by (metis find_Some_iff nth_mem)+
    then show ?thesis unfolding cache_grants_def vw cluster_grant_def cached_cluster_grant_def
      by (auto split: option.splits)
  next
    case None
    then obtain ns role_bindings where n: "aq_namespace req = Some ns" "rd_view rd ROLE_BINDINGS = Some role_bindings"
      using assms v by (auto simp: cached_allow_def split: option.splits)
    let ?p = "namespace_prefix ''rolebindings'' ns"
    let ?bs = "filter (\<lambda>b. subjects_match b user)
      (map snd (takeWhile (\<lambda>e. starts_with (fst e) ?p) (filter (\<lambda>e. ?p \<le> fst e) role_bindings)))"
    have "cached_namespace_loop rd cluster_roles req ns ?bs \<noteq> None"
      using assms None v n by (simp add: cached_allow_def Let_def)
    then have "namespace_grant (map_of cluster_roles) (map_of (viewed rd ROLES)) ns ?bs user req"
      by (rule cached_namespace_sound) simp
    moreover have "set ?bs \<subseteq> set (map snd (filter (\<lambda>e. starts_with (fst e) ?p) role_bindings))"
      by (auto dest!: set_takeWhileD)
    ultimately have "namespace_grant (map_of cluster_roles) (map_of (viewed rd ROLES)) ns
        (map snd (filter (\<lambda>e. starts_with (fst e) ?p) role_bindings)) user req"
      unfolding namespace_grant_def by blast
    then show ?thesis unfolding cache_grants_def using n vw by (auto simp: viewed_def)
  qed
qed

lemma authorize_iff:
  "authorize dev rd user req \<longleftrightarrow> superuser dev user \<or> cached_allow rd user req \<noteq> None \<or> store_grants rd user req"
proof -
  obtain c u where c: "check_cluster_role_bindings rd user req None = (c, u)" by fastforce
  have ci: "c \<noteq> None \<longleftrightarrow> cluster_grant (\<lambda>k. ok_of (rd_get rd k)) (stored_bindings rd (cluster_prefix ''clusterrolebindings'')) user req"
    using check_cluster_iff[of rd user req None] c by simp
  have ni: "fst (check_role_bindings rd user req ns u) \<noteq> None \<longleftrightarrow>
      namespace_grant (\<lambda>k. ok_of (rd_get rd k)) (\<lambda>k. ok_of (rd_get rd k)) ns (stored_bindings rd (namespace_prefix ''rolebindings'' ns)) user req" for ns
    by (rule check_namespace_iff)
  show ?thesis
  proof (cases "aq_namespace req")
    case None
    then show ?thesis unfolding store_grants_def ci[symmetric]
      by (auto simp: authorize_def authorize_with_reason_def superuser_def c decision_allow_def decision_deny_def
          decision_unavailable_def split: option.splits)
  next
    case (Some ns)
    obtain d w where d: "check_role_bindings rd user req ns u = (d, w)" by fastforce
    have "store_grants rd user req \<longleftrightarrow> c \<noteq> None \<or> d \<noteq> None" unfolding store_grants_def ci[symmetric] using ni[of ns] d Some by simp
    then show ?thesis using Some d
      by (auto simp: authorize_def authorize_with_reason_def superuser_def c decision_allow_def decision_deny_def
          decision_unavailable_def split: option.splits)
  qed
qed

lemma granted_role:
  assumes "store_grants rd user req \<or> cache_grants rd user req"
  obtains role k where "rd_get rd k = Inr role \<or> (\<exists>p m. rd_view rd p = Some m \<and> map_of m k = Some role)" "rules_permit role req"
proof -
  have s: "ok_of (rd_get rd k) = Some role \<Longrightarrow> rd_get rd k = Inr role" for k role
    by (simp add: ok_of_def split: sum.splits)
  have v: "map_of (viewed rd p) k = Some role \<Longrightarrow> \<exists>p m. rd_view rd p = Some m \<and> map_of m k = Some role" for p k role
    by (auto simp: viewed_def split: option.splits)
  show thesis using assms that s v
    unfolding store_grants_def cache_grants_def cluster_grant_def namespace_grant_def by blast
qed

section \<open>Reads that fail\<close>

definition answered :: "api_error + 'a \<Rightarrow> bool" where
  "answered res = (case res of Inr _ \<Rightarrow> True | Inl e \<Rightarrow> ae_reason e = ''NotFound'')"

lemma readable_None: "snd (readable res u) = None \<Longrightarrow> u = None \<and> answered res"
  by (auto simp: readable_def answered_def split: sum.splits option.splits if_splits)

lemma cluster_loop_read:
  assumes "cluster_loop rd user req bindings u = (None, None)"
  shows "u = None \<and> (\<forall>b \<in> set bindings. subjects_match b user \<longrightarrow> role_ref_kind b = ''ClusterRole'' \<longrightarrow>
    answered (rd_get rd (cluster_key ''clusterroles'' (role_ref_name b))))"
  using assms
proof (induction bindings arbitrary: u)
  case (Cons b bindings)
  show ?case
  proof (cases "subjects_match b user \<and> role_ref_kind b = ''ClusterRole''")
    case True
    obtain o' u' where r: "readable (rd_get rd (cluster_key ''clusterroles'' (role_ref_name b))) u = (o', u')" by fastforce
    have "cluster_loop rd user req bindings u' = (None, None)" using Cons.prems True r by (auto split: option.splits if_splits)
    with Cons.IH[of u'] readable_None[of "rd_get rd (cluster_key ''clusterroles'' (role_ref_name b))" u] r show ?thesis by auto
  next
    case False
    then show ?thesis using Cons by auto
  qed
qed simp

lemma bound_role_read:
  "snd (bound_role rd ns b u) = None \<Longrightarrow>
     u = None \<and> (role_ref_kind b = ''ClusterRole'' \<longrightarrow> answered (rd_get rd (cluster_key ''clusterroles'' (role_ref_name b)))) \<and>
     (role_ref_kind b = ''Role'' \<longrightarrow> answered (rd_get rd (namespaced_key ''roles'' ns (role_ref_name b))))"
  by (auto simp: bound_role_def split: if_splits dest: readable_None)

lemma namespace_loop_read:
  assumes "namespace_loop rd user req ns bindings u = (None, None)"
  shows "u = None \<and> (\<forall>b \<in> set bindings. subjects_match b user \<longrightarrow>
    (role_ref_kind b = ''ClusterRole'' \<longrightarrow> answered (rd_get rd (cluster_key ''clusterroles'' (role_ref_name b)))) \<and>
    (role_ref_kind b = ''Role'' \<longrightarrow> answered (rd_get rd (namespaced_key ''roles'' ns (role_ref_name b)))))"
  using assms
proof (induction bindings arbitrary: u)
  case (Cons b bindings)
  show ?case
  proof (cases "subjects_match b user")
    case True
    obtain o' u' where r: "bound_role rd ns b u = (o', u')" by fastforce
    have l: "namespace_loop rd user req ns bindings u' = (None, None)" using Cons.prems True r by (auto split: option.splits if_splits)
    then have u': "u' = None" using Cons.IH by simp
    have "snd (bound_role rd ns b u) = None" using r u' by simp
    from bound_role_read[OF this] Cons.IH[OF l] show ?thesis by simp
  next
    case False
    then show ?thesis using Cons by auto
  qed
qed simp

lemma check_cluster_read:
  assumes "check_cluster_role_bindings rd user req u = (None, None)"
  shows "answered (rd_list rd (cluster_prefix ''clusterrolebindings'') 1000) \<and>
    (\<forall>b \<in> set (stored_bindings rd (cluster_prefix ''clusterrolebindings'')). subjects_match b user \<longrightarrow> role_ref_kind b = ''ClusterRole'' \<longrightarrow>
       answered (rd_get rd (cluster_key ''clusterroles'' (role_ref_name b))))"
proof -
  let ?res = "rd_list rd (cluster_prefix ''clusterrolebindings'') 1000"
  obtain o' u' where r: "readable ?res u = (o', u')" by fastforce
  have o': "ok_of ?res = o'" using readable_ok r by (metis fst_conv)
  have a: "u' = None" using assms r cluster_loop_read[of rd user req _ u']
    by (cases o') (auto simp: check_cluster_role_bindings_def)
  then have "answered ?res" using readable_None[of ?res u] r by simp
  then show ?thesis using assms r o' cluster_loop_read[of rd user req _ u']
    by (cases o') (simp_all add: check_cluster_role_bindings_def stored_bindings_def)
qed

lemma check_namespace_read:
  assumes "check_role_bindings rd user req ns u = (None, None)"
  shows "u = None \<and> answered (rd_list rd (namespace_prefix ''rolebindings'' ns) 1000) \<and>
    (\<forall>b \<in> set (stored_bindings rd (namespace_prefix ''rolebindings'' ns)). subjects_match b user \<longrightarrow>
       (role_ref_kind b = ''ClusterRole'' \<longrightarrow> answered (rd_get rd (cluster_key ''clusterroles'' (role_ref_name b)))) \<and>
       (role_ref_kind b = ''Role'' \<longrightarrow> answered (rd_get rd (namespaced_key ''roles'' ns (role_ref_name b)))))"
proof -
  let ?res = "rd_list rd (namespace_prefix ''rolebindings'' ns) 1000"
  obtain o' u' where r: "readable ?res u = (o', u')" by fastforce
  have o': "ok_of ?res = o'" using readable_ok r by (metis fst_conv)
  have a: "u' = None" using assms r namespace_loop_read[of rd user req ns _ u']
    by (cases o') (auto simp: check_role_bindings_def)
  then have "u = None \<and> answered ?res" using readable_None[of ?res u] r by simp
  then show ?thesis using assms r o' namespace_loop_read[of rd user req ns _ u']
    by (cases o') (simp_all add: check_role_bindings_def stored_bindings_def)
qed

section \<open>Paths to a shell\<close>

lemma one_slash:
  assumes "t @ CHR ''/'' # w = p @ CHR ''/'' # q" "CHR ''/'' \<notin> set p" "CHR ''/'' \<notin> set q"
  shows "t = p"
proof -
  have "filter (\<lambda>c. c = CHR ''/'') p = []" "filter (\<lambda>c. c = CHR ''/'') q = []"
    using assms(2,3) unfolding filter_empty_conv by metis+
  then have "filter (\<lambda>c. c = CHR ''/'') (t @ CHR ''/'' # w) = [CHR ''/'']"
    unfolding assms(1) by simp
  then have "filter (\<lambda>c. c = CHR ''/'') t = []" by (cases "filter (\<lambda>c. c = CHR ''/'') t") auto
  then have "CHR ''/'' \<notin> set t" unfolding filter_empty_conv by metis
  then have "split_once CHR ''/'' (t @ CHR ''/'' # w) = Some (t, w)" by (rule split_once_append)
  moreover have "split_once CHR ''/'' (p @ CHR ''/'' # q) = Some (p, q)" using assms(2) by (rule split_once_append)
  ultimately show ?thesis unfolding assms(1) by (metis option.inject prod.inject)
qed

lemma star_only:
  assumes "star_prefix r (''pods/'' @ sub)" "CHR ''/'' \<notin> set sub"
  shows "r = ''pods/*''"
proof -
  obtain t where t: "r = t @ ''/*''" using assms(1) by (auto simp: star_prefix_def ends_with_iff)
  then have "butlast r = t @ ''/''" by (simp add: butlast_append)
  then obtain w where "''pods/'' @ sub = (t @ ''/'') @ w" using assms(1) by (auto simp: star_prefix_def starts_with_iff)
  then have "t @ CHR ''/'' # w = ''pods'' @ CHR ''/'' # sub" by simp
  then have "t = ''pods''" by (rule one_slash) (use assms(2) in auto)
  then show ?thesis using t by simp
qed

lemma shell_request:
  assumes "sub \<in> {''exec'', ''attach'', ''portforward''}" "CHR ''/'' \<notin> set ns" "CHR ''/'' \<notin> set pod"
    and "parse_authorization_request (''/api/v1/namespaces/'' @ ns @ ''/pods/'' @ pod @ ''/'' @ sub) m = Some req"
  shows "aq_verb req = ''create''" "request_target req = ''pods/'' @ sub" "aq_namespace req = Some ns" "aq_name req = Some pod"
proof -
  have s: "CHR ''/'' \<notin> set sub" using assms(1) by auto
  let ?p = "''/api/v1/namespaces/'' @ ns @ ''/pods/'' @ pod @ ''/'' @ sub"
  have "trim_start_matches CHR ''/'' ?p = ''api'' @ CHR ''/'' # ''v1'' @ CHR ''/'' # ''namespaces'' @ CHR ''/'' # ns @ CHR ''/'' #
      ''pods'' @ CHR ''/'' # pod @ CHR ''/'' # sub" by (simp add: trim_start_matches_def)
  then have "split_on CHR ''/'' (trim_start_matches CHR ''/'' ?p) = [''api'', ''v1'', ''namespaces'', ns, ''pods'', pod, sub]"
    using assms(2,3) s split_on_append[of "CHR ''/''" "''api''"] split_on_append[of "CHR ''/''" "''v1''"]
      split_on_append[of "CHR ''/''" "''namespaces''"] split_on_append[of "CHR ''/''" "''pods''"]
      split_on_append[of "CHR ''/''" ns] split_on_append[of "CHR ''/''" pod] split_on_nosep[of "CHR ''/''" sub] by simp
  then have "req = \<lparr>aq_verb = ''create'', aq_resource = ''pods'', aq_subresource = Some sub, aq_api_group = [],
      aq_namespace = Some ns, aq_name = Some pod\<rparr>"
    using assms(1,4) by (auto simp: parse_authorization_request_def parse_path_segments_def core_path_def Let_def split: option.splits)
  then show "aq_verb req = ''create''" "request_target req = ''pods/'' @ sub" "aq_namespace req = Some ns" "aq_name req = Some pod"
    by (simp_all add: request_target_def)
qed

lemma rule_matches_parts:
  assumes "rule_matches rule req"
  shows "\<exists>r \<in> set (arr (jidx rule ''resources'')). str_or [] r = ''*'' \<or> str_or [] r = request_target req \<or> star_prefix (str_or [] r) (request_target req)"
    and "jidx rule ''verbs'' = JArr vs \<Longrightarrow> \<exists>v \<in> set vs. str_or [] v = ''*'' \<or> str_or [] v = aq_verb req"
  using assms by (auto simp: rule_matches_def Let_def list_ex_iff split: if_splits option.splits)

section \<open>The gate\<close>

lemma authorize_request_passes:
  assumes "authorize_request (Some (dev, rd)) user path m q = PassAs u r"
  shows "u = user" "r = parse_authorization_request path m" "\<forall>req. r = Some req \<longrightarrow> authorize dev rd user req"
    "r = None \<longrightarrow> \<not> starts_with path ''/api/'' \<and> \<not> starts_with path ''/apis/''"
    "path = ''/metrics'' \<or> starts_with path ''/metrics/'' \<longrightarrow> de_allowed (authorize_non_resource dev rd user path ''get'')"
    "\<forall>req. r = Some req \<longrightarrow> guard_read rd user req q = Inr ()"
  using assms by (auto simp: authorize_request_def authorize_def Let_def split: if_splits option.splits sum.splits)

lemma guard_read_own:
  assumes "guard_read rd user req q = Inr ()" "is_bootstrapper user" "aq_api_group req = CSR_GROUP" "aq_resource req = CSR_RESOURCE"
    "aq_verb req \<in> {''get'', ''list'', ''watch''}"
  shows "\<exists>name csr. (aq_name req = Some name \<or> aq_name req = None \<and> watched_name q = Some name) \<and>
    rd_get rd (cluster_key CSR_RESOURCE name) = Inr csr \<and> as_str (jat csr [''spec'', ''username'']) = Some (ui_username user)"
  using assms unfolding guard_read_def Let_def by (auto split: option.splits sum.splits if_splits)

lemma middleware_passes_as:
  assumes "rbac_middleware (Some (dev, rd)) identity hs path m q = PassAs user r"
  shows "authorize_request (Some (dev, rd)) user path m q = PassAs user r"
    "impersonated dev rd (case identity of Some u \<Rightarrow> u | None \<Rightarrow> ANONYMOUS) hs \<in>
       {Inr (Some user)} \<union> (if user = (case identity of Some u \<Rightarrow> u | None \<Rightarrow> ANONYMOUS) then {Inr None} else {})"
proof -
  let ?u0 = "case identity of Some u \<Rightarrow> u | None \<Rightarrow> ANONYMOUS"
  have ne: "path \<notin> set EXEMPT_PATHS" "\<not> (is_discovery_path path \<and> m = ''GET'')"
    using assms by (auto simp: rbac_middleware_def split: if_splits)
  obtain u where u: "impersonated dev rd ?u0 hs = Inr (Some u) \<or> impersonated dev rd ?u0 hs = Inr None \<and> u = ?u0"
    "authorize_request (Some (dev, rd)) u path m q = PassAs user r"
    using assms ne by (auto simp: rbac_middleware_def Let_def split: sum.splits option.splits)
  have "user = u" by (rule authorize_request_passes(1)[OF u(2)])
  with u show "authorize_request (Some (dev, rd)) user path m q = PassAs user r"
    "impersonated dev rd ?u0 hs \<in> {Inr (Some user)} \<union> (if user = ?u0 then {Inr None} else {})"
    by auto
qed

section \<open>An example\<close>

text \<open>Alice may open a shell in pods, Bob may impersonate her; the cache is not there.\<close>

definition ex_alice :: user_info where "ex_alice = \<lparr>ui_username = ''alice'', ui_groups = [''dev'']\<rparr>"
definition ex_bob :: user_info where "ex_bob = \<lparr>ui_username = ''bob'', ui_groups = []\<rparr>"

definition ex_binding :: "string \<Rightarrow> string \<Rightarrow> json" where
  "ex_binding user role = JObj [(''metadata'', JObj [(''name'', JStr ''b'')]),
     (''roleRef'', JObj [(''kind'', JStr ''ClusterRole''), (''name'', JStr role)]),
     (''subjects'', JArr [JObj [(''kind'', JStr ''User''), (''name'', JStr user)]])]"

definition ex_role :: "string \<Rightarrow> string \<Rightarrow> json" where
  "ex_role resource verb = JObj [(''rules'', JArr [JObj [(''apiGroups'', JArr [JStr []]), (''resources'', JArr [JStr resource]), (''verbs'', JArr [JStr verb])]])]"

definition ex_reads :: reads where
  "ex_reads = \<lparr>rd_list = (\<lambda>p n. Inr (if p = cluster_prefix ''clusterrolebindings'' then [ex_binding ''alice'' ''shell'', ex_binding ''bob'' ''support''] else [])),
     rd_get = (\<lambda>k. if k = cluster_key ''clusterroles'' ''shell'' then Inr (ex_role ''pods/exec'' ''create'')
                   else if k = cluster_key ''clusterroles'' ''support'' then Inr (ex_role ''users'' ''impersonate'')
                   else Inl (not_found ''clusterroles'' k)),
     rd_view = (\<lambda>_. None)\<rparr>"

definition ex_exec :: string where "ex_exec = ''/api/v1/namespaces/n/pods/p/exec''"

lemmas ex_match = subjects_match_def subject_matches_def ex_binding_def role_ref_kind_def role_ref_name_def

lemma ex_exec_req: "parse_authorization_request ex_exec ''GET'' =
    Some \<lparr>aq_verb = ''create'', aq_resource = ''pods'', aq_subresource = Some ''exec'', aq_api_group = [], aq_namespace = Some ''n'', aq_name = Some ''p''\<rparr>"
  by (simp add: parse_authorization_request_def parse_path_segments_def core_path_def request_verb_def ex_exec_def trim_start_matches_def)

lemma ex_alice_exec:
  "store_grants ex_reads ex_alice \<lparr>aq_verb = ''create'', aq_resource = ''pods'', aq_subresource = Some ''exec'', aq_api_group = [], aq_namespace = ns, aq_name = nm\<rparr>"
  by (simp add: store_grants_def cluster_grant_def stored_bindings_def ok_of_def ex_reads_def ex_match ex_alice_def rules_permit_def
      ex_role_def rule_matches_def request_target_def)

lemma ex_bob_support:
  "store_grants ex_reads ex_bob (impersonate_check [] ''users'' None ''alice'')"
  by (simp add: store_grants_def cluster_grant_def stored_bindings_def ok_of_def ex_reads_def ex_match ex_bob_def rules_permit_def
      ex_role_def rule_matches_def request_target_def impersonate_check_def cluster_key_def)

lemma ex_passes:
  "impersonated False ex_reads ex_alice [] = Inr None"
  "rbac_middleware (Some (False, ex_reads)) (Some ex_alice) [] ex_exec ''GET'' None =
     PassAs ex_alice (Some \<lparr>aq_verb = ''create'', aq_resource = ''pods'', aq_subresource = Some ''exec'', aq_api_group = [],
       aq_namespace = Some ''n'', aq_name = Some ''p''\<rparr>)"
proof -
  let ?req = "\<lparr>aq_verb = ''create'', aq_resource = ''pods'', aq_subresource = Some ''exec'', aq_api_group = [], aq_namespace = Some ''n'', aq_name = Some ''p''\<rparr>"
  show i: "impersonated False ex_reads ex_alice [] = Inr None"
    by (simp add: impersonated_def header_values_def header_first_def map_filter_simps)
  have al: "authorize False ex_reads ex_alice ?req" using authorize_iff ex_alice_exec by blast
  then have "de_unavailable (authorize_with_reason False ex_reads ex_alice ?req) = None"
    by (auto simp: authorize_def authorize_with_reason_def decision_allow_def decision_deny_def decision_unavailable_def
        split: if_splits option.splits prod.splits)
  moreover have nm: "ex_exec \<noteq> ''/metrics''" "\<not> starts_with ex_exec ''/metrics/''" by (simp_all add: ex_exec_def starts_with_def)
  ultimately have "authorize_request (Some (False, ex_reads)) ex_alice ex_exec ''GET'' None = PassAs ex_alice (Some ?req)"
    using nm al by (simp add: authorize_request_def ex_exec_req authorize_def guard_read_def CSR_GROUP_def)
  moreover have "ex_exec \<notin> set EXEMPT_PATHS" "\<not> is_discovery_path ex_exec"
    by (simp_all add: ex_exec_def EXEMPT_PATHS_def is_discovery_path_def strip_prefix_def starts_with_def)
  ultimately show "rbac_middleware (Some (False, ex_reads)) (Some ex_alice) [] ex_exec ''GET'' None = PassAs ex_alice (Some ?req)"
    using i by (simp add: rbac_middleware_def)
qed

section \<open>Properties\<close>



text \<open>
  A refusal is an answer. If a request is refused as not allowed, rather than as
  undecided, then every read the decision needed was answered: the bindings were listed, and
  the role of every binding that names the user was read, or is known not to exist. A datastore
  that cannot be read never turns into a 403.
\<close>

theorem denied_only_if_read:
  assumes "\<not> de_allowed (authorize_with_reason dev rd user req)" "de_unavailable (authorize_with_reason dev rd user req) = None"
  shows "answered (rd_list rd (cluster_prefix ''clusterrolebindings'') 1000) \<and>
    (\<forall>b \<in> set (stored_bindings rd (cluster_prefix ''clusterrolebindings'')). subjects_match b user \<longrightarrow> role_ref_kind b = ''ClusterRole'' \<longrightarrow>
       answered (rd_get rd (cluster_key ''clusterroles'' (role_ref_name b)))) \<and>
    (\<forall>ns. aq_namespace req = Some ns \<longrightarrow>
       answered (rd_list rd (namespace_prefix ''rolebindings'' ns) 1000) \<and>
       (\<forall>b \<in> set (stored_bindings rd (namespace_prefix ''rolebindings'' ns)). subjects_match b user \<longrightarrow>
          (role_ref_kind b = ''ClusterRole'' \<longrightarrow> answered (rd_get rd (cluster_key ''clusterroles'' (role_ref_name b)))) \<and>
          (role_ref_kind b = ''Role'' \<longrightarrow> answered (rd_get rd (namespaced_key ''roles'' ns (role_ref_name b))))))"
proof -
  obtain u where c: "check_cluster_role_bindings rd user req None = (None, u)"
    and n: "\<forall>ns. aq_namespace req = Some ns \<longrightarrow> check_role_bindings rd user req ns u = (None, None)" "aq_namespace req = None \<longrightarrow> u = None"
    using assms by (auto simp: authorize_with_reason_def decision_allow_def decision_deny_def decision_unavailable_def
        split: if_splits option.splits prod.splits)
  have ns: "u = None \<and> answered (rd_list rd (namespace_prefix ''rolebindings'' ns) 1000) \<and>
       (\<forall>b \<in> set (stored_bindings rd (namespace_prefix ''rolebindings'' ns)). subjects_match b user \<longrightarrow>
          (role_ref_kind b = ''ClusterRole'' \<longrightarrow> answered (rd_get rd (cluster_key ''clusterroles'' (role_ref_name b)))) \<and>
          (role_ref_kind b = ''Role'' \<longrightarrow> answered (rd_get rd (namespaced_key ''roles'' ns (role_ref_name b)))))"
    if a: "aq_namespace req = Some ns" for ns
    by (rule check_namespace_read) (use n(1) a in simp)
  have "u = None" using n(2) ns by (cases "aq_namespace req") auto
  with check_cluster_read c ns show ?thesis by blast
qed

theorem denied_only_if_read_witness:
  "answered (rd_list ex_reads (cluster_prefix ''clusterrolebindings'') 1000)"
proof -
  let ?req = "\<lparr>aq_verb = ''get'', aq_resource = ''secrets'', aq_subresource = None, aq_api_group = [], aq_namespace = None, aq_name = Some ''s''\<rparr>"
  have "authorize_with_reason False ex_reads ex_alice ?req = decision_deny"
    by (simp add: authorize_with_reason_def cached_allow_def check_cluster_role_bindings_def ex_reads_def readable_def ex_match
        ex_alice_def rules_permit_def ex_role_def rule_matches_def request_target_def star_prefix_def ends_with_def)
  then show ?thesis using denied_only_if_read[of False ex_reads ex_alice ?req] by (simp add: decision_deny_def)
qed

text \<open>
  C5. The gate is closed. With the engine in place, a request reaches a handler only if its
  path is one of the health and version endpoints or a discovery document, or lies outside the
  API altogether, or its verb, resource and namespace, read off the path and the method, are
  allowed to the user it runs as; metrics need their own grant. The user is the authenticated
  one, or the one it was allowed to impersonate. A path under the API that cannot be read is
  refused. And a machine that is still enrolling reads one certificate request at a time, by
  name or by a watch of that name, and only one it filed.
\<close>

theorem gate_is_closed:
  "case rbac_middleware (Some (dev, rd)) identity hs path m q of
     Refuse e \<Rightarrow> True
   | Pass \<Rightarrow> path \<in> set EXEMPT_PATHS \<or> is_discovery_path path \<and> m = ''GET''
   | PassAs user r \<Rightarrow>
       impersonated dev rd (case identity of Some u \<Rightarrow> u | None \<Rightarrow> ANONYMOUS) hs \<in>
         {Inr (Some user)} \<union> (if user = (case identity of Some u \<Rightarrow> u | None \<Rightarrow> ANONYMOUS) then {Inr None} else {}) \<and>
       (path = ''/metrics'' \<or> starts_with path ''/metrics/'' \<longrightarrow> de_allowed (authorize_non_resource dev rd user path ''get'')) \<and>
       (case parse_authorization_request path m of
          Some req \<Rightarrow> r = Some req \<and> authorize dev rd user req \<and>
            (is_bootstrapper user \<and> aq_api_group req = CSR_GROUP \<and> aq_resource req = CSR_RESOURCE \<and> aq_verb req \<in> {''get'', ''list'', ''watch''} \<longrightarrow>
             (\<exists>name csr. (aq_name req = Some name \<or> aq_name req = None \<and> watched_name q = Some name) \<and>
                rd_get rd (cluster_key CSR_RESOURCE name) = Inr csr \<and> as_str (jat csr [''spec'', ''username'']) = Some (ui_username user)))
        | None \<Rightarrow> \<not> starts_with path ''/api/'' \<and> \<not> starts_with path ''/apis/'')"
proof (cases "rbac_middleware (Some (dev, rd)) identity hs path m q")
  case Pass
  then show ?thesis
    by (auto simp: rbac_middleware_def authorize_request_def Let_def split: if_splits sum.splits option.splits)
next
  case (PassAs user r)
  note a = middleware_passes_as[OF PassAs]
  note b = authorize_request_passes[OF a(1)]
  have "case parse_authorization_request path m of
          Some req \<Rightarrow> r = Some req \<and> authorize dev rd user req \<and>
            (is_bootstrapper user \<and> aq_api_group req = CSR_GROUP \<and> aq_resource req = CSR_RESOURCE \<and> aq_verb req \<in> {''get'', ''list'', ''watch''} \<longrightarrow>
             (\<exists>name csr. (aq_name req = Some name \<or> aq_name req = None \<and> watched_name q = Some name) \<and>
                rd_get rd (cluster_key CSR_RESOURCE name) = Inr csr \<and> as_str (jat csr [''spec'', ''username'']) = Some (ui_username user)))
        | None \<Rightarrow> \<not> starts_with path ''/api/'' \<and> \<not> starts_with path ''/apis/''"
    proof (cases "parse_authorization_request path m")
    case None
    then show ?thesis using b(2,4) by simp
  next
    case (Some req)
    then have "r = Some req" "authorize dev rd user req" "guard_read rd user req q = Inr ()" using b(2,3,6) by simp_all
    with Some show ?thesis using guard_read_own by simp
  qed
  then show ?thesis unfolding PassAs gate.case using a(2) b(5) by blast
qed simp

theorem gate_is_closed_witness:
  "rbac_middleware (Some (False, ex_reads)) (Some ex_alice) [] ex_exec ''GET'' None = PassAs ex_alice (parse_authorization_request ex_exec ''GET'') \<and>
   impersonated False ex_reads ex_alice [] = Inr None"
  using gate_is_closed[where dev = False and rd = ex_reads and identity = "Some ex_alice" and hs = "[]" and path = ex_exec and m = "''GET''" and q = None]
    ex_passes by (simp add: ex_exec_req)



text \<open>
  C38. Impersonation never exceeds its grants. A request that takes on another identity does so
  only if the caller is allowed to impersonate that user (or service account, in its
  namespace), every group it names, and the uid; the groups it gets are those, the ones every
  such identity has, and nothing else, so it becomes a superuser's only if the caller may
  impersonate the group \<^verbatim>\<open>system:masters\<close>.
\<close>

theorem impersonation_needs_every_grant:
  assumes "impersonated dev rd user hs = Inr (Some u)"
  shows "header_first hs ''impersonate-user'' = Some (ui_username u) \<and>
    (case service_account_of (ui_username u) of
       Some (ns, name) \<Rightarrow> authorize dev rd user (impersonate_check [] ''serviceaccounts'' (Some ns) name)
     | None \<Rightarrow> authorize dev rd user (impersonate_check [] ''users'' None (ui_username u))) \<and>
    (\<forall>g \<in> set (header_values hs ''impersonate-group''). authorize dev rd user (impersonate_check [] ''groups'' None g)) \<and>
    (\<forall>uid. header_first hs ''impersonate-uid'' = Some uid \<longrightarrow> authorize dev rd user (impersonate_check ''authentication.k8s.io'' ''uids'' None uid)) \<and>
    (''system:masters'' \<in> set (ui_groups u) \<longrightarrow> authorize dev rd user (impersonate_check [] ''groups'' None ''system:masters''))"
proof -
  let ?g = "header_values hs ''impersonate-group''" and ?uid = "header_first hs ''impersonate-uid''"
  have h: "header_first hs ''impersonate-user'' = Some (ui_username u)" "ui_groups u = impersonated_groups (ui_username u) ?g"
    and c: "find (\<lambda>c. \<not> authorize dev rd user c) (impersonation_checks (ui_username u) ?g ?uid) = None"
    using assms by (auto simp: impersonated_def Let_def split: option.splits if_splits)
  have all: "\<forall>c \<in> set (impersonation_checks (ui_username u) ?g ?uid). authorize dev rd user c" using c by (simp add: find_None_iff)
  have m: "''system:masters'' \<in> set (ui_groups u) \<longrightarrow> ''system:masters'' \<in> set ?g"
    unfolding h(2) by (auto simp: impersonated_groups_def Let_def split: if_splits option.splits)
  have groups: "\<forall>g \<in> set ?g. authorize dev rd user (impersonate_check [] ''groups'' None g)"
    using all by (auto simp: impersonation_checks_def)
  have "case service_account_of (ui_username u) of
       Some (ns, name) \<Rightarrow> authorize dev rd user (impersonate_check [] ''serviceaccounts'' (Some ns) name)
     | None \<Rightarrow> authorize dev rd user (impersonate_check [] ''users'' None (ui_username u))"
    using all by (auto simp: impersonation_checks_def split: option.splits)
  moreover have "\<forall>uid. ?uid = Some uid \<longrightarrow> authorize dev rd user (impersonate_check ''authentication.k8s.io'' ''uids'' None uid)"
    using all by (auto simp: impersonation_checks_def)
  ultimately show ?thesis using h(1) groups m by blast
qed

theorem impersonation_needs_every_grant_witness:
  "impersonated False ex_reads ex_bob [(''impersonate-user'', Some ''alice'')] =
     Inr (Some \<lparr>ui_username = ''alice'', ui_groups = [''system:authenticated'']\<rparr>) \<and>
   authorize False ex_reads ex_bob (impersonate_check [] ''users'' None ''alice'')"
proof -
  let ?hs = "[(''impersonate-user'', Some ''alice'')]"
  have a: "authorize False ex_reads ex_bob (impersonate_check [] ''users'' None ''alice'')" using authorize_iff ex_bob_support by blast
  have sa: "service_account_of ''alice'' = None" by (simp add: service_account_of_def strip_prefix_def starts_with_def)
  have i: "impersonated False ex_reads ex_bob ?hs = Inr (Some \<lparr>ui_username = ''alice'', ui_groups = [''system:authenticated'']\<rparr>)"
    using a sa by (simp add: impersonated_def header_values_def header_first_def map_filter_simps impersonation_checks_def impersonated_groups_def)
  from impersonation_needs_every_grant[OF i] i sa show ?thesis by simp
qed

end
