(* ===== verification/Escalation.thy ===== *)
theory Escalation
  imports Rbac
begin

text \<open>
  \<^verbatim>\<open>pkg/apiserver/src/escalation.rs\<close>: who may write a role or a binding. A caller who is not
  allowed \<^verbatim>\<open>escalate\<close> on a role, or \<^verbatim>\<open>bind\<close> on the role a binding refers to, must hold every
  permission it hands out. \<open>confirm\<close> is that check on the object about to be stored, \<open>None\<close>
  where the code panics. The theorems relate the check, which compares rules, to the
  authorizer of \<^verbatim>\<open>rbac_engine.rs\<close>, which matches requests.
\<close>

section \<open>The code\<close>

definition ESC_GROUP :: string where "ESC_GROUP = ''rbac.authorization.k8s.io''"

definition applies :: "string \<Rightarrow> string \<Rightarrow> string option \<Rightarrow> bool" where
  "applies grp resource subresource \<longleftrightarrow>
     grp = ESC_GROUP \<and> subresource = None \<and>
     resource \<in> {''roles'', ''clusterroles'', ''rolebindings'', ''clusterrolebindings''}"

definition strings :: "json \<Rightarrow> string list" where
  "strings v = List.map_filter as_str (arr v)"

definition has :: "string list \<Rightarrow> string \<Rightarrow> bool" where
  "has xs s = list_ex (\<lambda>x. x = ''*'' \<or> x = s) xs"

definition covers_resource :: "json \<Rightarrow> string \<Rightarrow> string \<Rightarrow> string \<Rightarrow> string option \<Rightarrow> bool" where
  "covers_resource owned grp resource verb name =
     (if \<not> has (strings (jidx owned ''verbs'')) verb \<or> \<not> has (strings (jidx owned ''apiGroups'')) grp then False
      else
        (let resources = strings (jidx owned ''resources'');
             resource_ok =
               has resources resource \<or>
               (case split_once CHR ''/'' resource of
                  Some (base, sub) \<Rightarrow> list_ex (\<lambda>r. r = ''*/'' @ sub \<or> r = base @ ''/*'') resources
                | None \<Rightarrow> False)
         in if \<not> resource_ok then False
            else
              (let names = strings (jidx owned ''resourceNames'')
               in names = [] \<or> (case name of Some n \<Rightarrow> n \<in> set names | None \<Rightarrow> False))))"

definition covers_url :: "json \<Rightarrow> string \<Rightarrow> string \<Rightarrow> bool" where
  "covers_url owned url verb \<longleftrightarrow>
     has (strings (jidx owned ''verbs'')) verb \<and>
     list_ex (\<lambda>u. u = url \<or> (ends_with u ''*'' \<and> starts_with url (trim_end_matches CHR ''*'' u)))
       (strings (jidx owned ''nonResourceURLs''))"

text \<open>
  A string as \<^verbatim>\<open>{:?}\<close> prints it: quoted, with the quote, the backslash and the control
  characters of ASCII escaped.
\<close>

definition hex_digit :: "nat \<Rightarrow> char" where
  "hex_digit n = (if n < 10 then digit_char n else char_of (87 + n))"

definition debug_char :: "char \<Rightarrow> string" where
  "debug_char c =
     (let n = of_char c :: nat
      in if n = 0 then [CHR 0x5C, CHR ''0'']
         else if n = 9 then [CHR 0x5C, CHR ''t'']
         else if n = 10 then [CHR 0x5C, CHR ''n'']
         else if n = 13 then [CHR 0x5C, CHR ''r'']
         else if n = 34 \<or> n = 92 then [CHR 0x5C, c]
         else if n < 16 then [CHR 0x5C, CHR ''u'', CHR 0x7B, hex_digit n, CHR 0x7D]
         else if n < 32 \<or> n = 127 then [CHR 0x5C, CHR ''u'', CHR 0x7B, hex_digit (n div 16), hex_digit (n mod 16), CHR 0x7D]
         else [c])"

definition debug_str :: "string \<Rightarrow> string" where
  "debug_str s = CHR 0x22 # concat (map debug_char s) @ [CHR 0x22]"

definition missing_resource :: "string \<Rightarrow> string \<Rightarrow> string option \<Rightarrow> string \<Rightarrow> string" where
  "missing_resource grp resource name verb =
     ''{APIGroups:['' @ debug_str grp @ ''], Resources:['' @ debug_str resource @ ''], '' @
     (case name of Some n \<Rightarrow> ''ResourceNames:['' @ debug_str n @ ''], '' | None \<Rightarrow> []) @
     ''Verbs:['' @ debug_str verb @ '']}''"

definition missing_url :: "string \<Rightarrow> string \<Rightarrow> string" where
  "missing_url url verb = ''{NonResourceURLs:['' @ debug_str url @ ''], Verbs:['' @ debug_str verb @ '']}''"

definition uncovered_rule :: "json list \<Rightarrow> json list \<Rightarrow> json \<Rightarrow> string list" where
  "uncovered_rule owner owner_non_resource rule =
     (let verbs = strings (jidx rule ''verbs'');
          names = strings (jidx rule ''resourceNames'')
      in concat (map (\<lambda>grp.
           concat (map (\<lambda>resource.
             concat (map (\<lambda>verb.
               (let held = (\<lambda>name. list_ex (\<lambda>owned. covers_resource owned grp resource verb name) owner)
                in if names = []
                   then (if held None then [] else [missing_resource grp resource None verb])
                   else concat (map (\<lambda>name. if held (Some name) then [] else [missing_resource grp resource (Some name) verb]) names)))
             verbs))
           (strings (jidx rule ''resources''))))
         (strings (jidx rule ''apiGroups''))) @
         concat (map (\<lambda>url.
           concat (map (\<lambda>verb.
             if list_ex (\<lambda>owned. covers_url owned url verb) owner_non_resource then [] else [missing_url url verb])
           verbs))
         (strings (jidx rule ''nonResourceURLs''))))"

definition uncovered :: "json list \<Rightarrow> json list \<Rightarrow> json list \<Rightarrow> string list" where
  "uncovered owner owner_non_resource rules = concat (map (uncovered_rule owner owner_non_resource) rules)"

definition GC_FIELDS :: "string list" where
  "GC_FIELDS = [''ownerReferences'', ''finalizers'', ''resourceVersion'', ''managedFields'', ''generation'']"

definition strip_gc :: "json \<Rightarrow> json option" where
  "strip_gc v =
     (case jtouch v [''metadata''] of
        None \<Rightarrow> None
      | Some v' \<Rightarrow>
          (case jidx v' ''metadata'' of
             JObj m \<Rightarrow> jset v' [''metadata''] (JObj (fold bt_remove GC_FIELDS m))
           | _ \<Rightarrow> Some v'))"

definition only_gc_fields_changed :: "json \<Rightarrow> json \<Rightarrow> bool option" where
  "only_gc_fields_changed stored new =
     (case (strip_gc stored, strip_gc new) of
        (Some a, Some b) \<Rightarrow> Some (a = b)
      | _ \<Rightarrow> None)"

definition esc_namespace :: "string \<Rightarrow> string option \<Rightarrow> json \<Rightarrow> string option" where
  "esc_namespace resource namespace obj =
     (if resource \<in> {''roles'', ''rolebindings''} then
        (case nonempty (as_str (jat obj [''metadata'', ''namespace''])) of
           Some n \<Rightarrow> Some n
         | None \<Rightarrow> namespace)
      else None)"

definition esc_kind :: "string \<Rightarrow> string" where
  "esc_kind resource =
     (if resource = ''roles'' then ''Role''
      else if resource = ''clusterroles'' then ''ClusterRole''
      else if resource = ''rolebindings'' then ''RoleBinding''
      else ''ClusterRoleBinding'')"

definition esc_forbidden :: "string \<Rightarrow> json \<Rightarrow> string \<Rightarrow> api_error" where
  "esc_forbidden resource obj why =
     forbidden (resource @ ''.'' @ ESC_GROUP @ '' '' @ quoted (str_or [] (jat obj [''metadata'', ''name''])) @ '' is forbidden: '' @ why)"

definition ask :: "string option \<Rightarrow> string \<Rightarrow> string \<Rightarrow> string \<Rightarrow> auth_request" where
  "ask namespace verb resource name =
     \<lparr>aq_verb = verb, aq_resource = resource, aq_subresource = None, aq_api_group = ESC_GROUP,
      aq_namespace = namespace, aq_name = Some name\<rparr>"

text \<open>The rules the write hands out, or the answer if there is one already.\<close>

definition role_rules :: "bool \<Rightarrow> reads \<Rightarrow> user_info \<Rightarrow> string \<Rightarrow> string option \<Rightarrow> json \<Rightarrow> (api_error + unit) + json" where
  "role_rules dev rd user resource namespace obj =
     (if authorize dev rd user (ask namespace ''escalate'' resource (str_or [] (jat obj [''metadata'', ''name'']))) then Inl (Inr ())
      else if esc_kind resource = ''ClusterRole'' \<and> jidx obj ''aggregationRule'' \<noteq> JNull
      then Inl (Inl (esc_forbidden resource obj
             (''user '' @ quoted (ui_username user) @ '' must hold '' @ quoted ''escalate'' @
              '' on clusterroles to write a ClusterRole with an aggregationRule'')))
      else Inr (jidx obj ''rules''))"

definition ref_resource :: "json \<Rightarrow> string option \<Rightarrow> string option" where
  "ref_resource obj namespace =
     (if role_ref_kind obj = ''ClusterRole'' then Some ''clusterroles''
      else if role_ref_kind obj = ''Role'' \<and> namespace \<noteq> None then Some ''roles''
      else None)"

definition ref_key :: "json \<Rightarrow> string option \<Rightarrow> string \<Rightarrow> string" where
  "ref_key obj namespace ref =
     (case namespace of
        Some ns \<Rightarrow>
          if ref = ''roles'' then namespaced_key ''roles'' ns (role_ref_name obj)
          else cluster_key ''clusterroles'' (role_ref_name obj)
      | None \<Rightarrow> cluster_key ''clusterroles'' (role_ref_name obj))"

definition binding_rules :: "bool \<Rightarrow> reads \<Rightarrow> user_info \<Rightarrow> string \<Rightarrow> string option \<Rightarrow> json \<Rightarrow> (api_error + unit) + json" where
  "binding_rules dev rd user resource namespace obj =
     (case ref_resource obj namespace of
        None \<Rightarrow>
          Inl (Inl (invalid (esc_kind resource @ '' '' @ quoted (str_or [] (jat obj [''metadata'', ''name''])) @
            '' is invalid: roleRef.kind: Unsupported value: '' @ quoted (role_ref_kind obj))))
      | Some ref \<Rightarrow>
          if authorize dev rd user (ask namespace ''bind'' ref (role_ref_name obj)) then Inl (Inr ())
          else
            (case rd_get rd (ref_key obj namespace ref) of
               Inr role \<Rightarrow> Inr (jidx role ''rules'')
             | Inl _ \<Rightarrow>
                 Inl (Inl (esc_forbidden resource obj
                   (''user '' @ quoted (ui_username user) @ '' may not bind '' @ role_ref_kind obj @ '' '' @ quoted (role_ref_name obj) @
                    '': it could not be read, and binding it needs '' @ quoted ''bind'' @ '' on it'')))))"

definition refusal :: "user_info \<Rightarrow> string list \<Rightarrow> bool \<Rightarrow> string" where
  "refusal user missing incomplete =
     ''user '' @ quoted (ui_username user) @ '' (groups=['' @ join_on CHR '' '' (map debug_str (ui_groups user)) @
     '']) is attempting to grant RBAC permissions not currently held:'' @ [CHR 0x0A] @ join_on CHR 0x0A missing @
     (if incomplete then CHR 0x0A # ''(some of the user'' @ [CHR 0x27] @ ''s own roles could not be read)'' else [])"

definition confirm ::
    "bool \<Rightarrow> reads \<Rightarrow> user_info \<Rightarrow> string \<Rightarrow> string option \<Rightarrow> json \<Rightarrow> json option \<Rightarrow> (api_error + unit) option" where
  "confirm dev rd user resource namespace obj old =
     (if superuser dev user then Some (Inr ())
      else
        (case (case old of None \<Rightarrow> Some False | Some stored \<Rightarrow> only_gc_fields_changed stored obj) of
           None \<Rightarrow> None
         | Some True \<Rightarrow> Some (Inr ())
         | Some False \<Rightarrow>
             (let ns = esc_namespace resource namespace obj
              in case (if esc_kind resource = ''Role'' \<or> esc_kind resource = ''ClusterRole''
                       then role_rules dev rd user resource ns obj
                       else binding_rules dev rd user resource ns obj) of
                   Inl answer \<Rightarrow> Some answer
                 | Inr rules \<Rightarrow>
                     (let held = rules_for dev rd user ns;
                          missing = uncovered (rs_resource_rules held) (rs_non_resource_rules held) (arr rules)
                      in if missing = [] then Some (Inr ())
                         else Some (Inl (esc_forbidden resource obj (refusal user missing (rs_incomplete held))))))))"

section \<open>Rules as written\<close>

text \<open>
  A rule of the type the API documents: a list of verbs, and groups, resources and names that
  are lists of strings where they are given. \<open>plain\<close> excludes the resources \<^verbatim>\<open>*/sub\<close>, which the
  check understands and the authorizer does not.
\<close>

definition string_list :: "json \<Rightarrow> bool" where
  "string_list v = (case v of JArr xs \<Rightarrow> list_all is_string xs | _ \<Rightarrow> False)"

definition rule_typed :: "json \<Rightarrow> bool" where
  "rule_typed rule \<longleftrightarrow>
     string_list (jidx rule ''verbs'') \<and>
     list_all (\<lambda>f. jidx rule f = JNull \<or> string_list (jidx rule f)) [''apiGroups'', ''resources'', ''resourceNames'']"

definition plain :: "json \<Rightarrow> bool" where
  "plain rule = list_all (\<lambda>r. \<not> starts_with r ''*/'') (strings (jidx rule ''resources''))"

definition role_typed :: "json \<Rightarrow> bool" where
  "role_typed role = list_all rule_typed (arr (jidx role ''rules''))"

lemma strings_typed:
  assumes "v = JNull \<or> string_list v"
  shows "arr v = map JStr (strings v)"
proof -
  have "list_all is_string (arr v)" using assms by (auto simp: string_list_def split: json.splits)
  moreover have "list_all is_string xs \<Longrightarrow> xs = map JStr (List.map_filter as_str xs)" for xs
    by (induction xs) (auto simp: map_filter_simps elim: is_string.elims)
  ultimately show ?thesis by (simp add: strings_def)
qed

lemma array_typed: "string_list v \<Longrightarrow> as_array v = Some (map JStr (strings v))"
  using strings_typed[of v] by (auto simp: string_list_def split: json.splits)

text \<open>What a well-typed rule grants, in terms of the lists the check compares.\<close>

lemma rule_matches_typed:
  assumes "rule_typed rule"
  shows "rule_matches rule req \<longleftrightarrow>
    (\<exists>g \<in> set (strings (jidx rule ''apiGroups'')). g = ''*'' \<or> g = aq_api_group req) \<and>
    (\<exists>r \<in> set (strings (jidx rule ''resources'')). r = ''*'' \<or> r = request_target req \<or> star_prefix r (request_target req)) \<and>
    (\<exists>v \<in> set (strings (jidx rule ''verbs'')). v = ''*'' \<or> v = aq_verb req) \<and>
    (strings (jidx rule ''resourceNames'') = [] \<or> (\<forall>n. aq_name req = Some n \<longrightarrow> n \<in> set (strings (jidx rule ''resourceNames''))))"
proof -
  have t: "jidx rule ''apiGroups'' = JNull \<or> string_list (jidx rule ''apiGroups'')"
    "jidx rule ''resources'' = JNull \<or> string_list (jidx rule ''resources'')"
    "jidx rule ''resourceNames'' = JNull \<or> string_list (jidx rule ''resourceNames'')"
    "string_list (jidx rule ''verbs'')"
    using assms by (simp_all add: rule_typed_def)
  note a = strings_typed[OF t(1)] strings_typed[OF t(2)]
  note v = array_typed[OF t(4)]
  have n: "(case as_array (jidx rule ''resourceNames'') of
              Some names \<Rightarrow> names \<noteq> [] \<and> (case aq_name req of Some n \<Rightarrow> \<not> list_ex (\<lambda>x. as_str x = Some n) names | None \<Rightarrow> False)
            | None \<Rightarrow> False) \<longleftrightarrow>
     \<not> (strings (jidx rule ''resourceNames'') = [] \<or> (\<forall>n. aq_name req = Some n \<longrightarrow> n \<in> set (strings (jidx rule ''resourceNames''))))"
    using t(3)
  proof
    assume "jidx rule ''resourceNames'' = JNull"
    then show ?thesis by (simp add: strings_def)
  next
    assume "string_list (jidx rule ''resourceNames'')"
    note b = array_typed[OF this]
    show ?thesis unfolding b by (auto simp: list_ex_iff split: option.splits)
  qed
  show ?thesis unfolding rule_matches_def Let_def a v n
    by (auto simp: list_ex_iff)
qed

section \<open>The check covers what the authorizer grants\<close>

lemma has_iff: "has xs s \<longleftrightarrow> ''*'' \<in> set xs \<or> s \<in> set xs"
  by (auto simp: has_def list_ex_iff)

text \<open>A resource of the caller's that covers one of the new rule's grants whatever that one grants.\<close>

lemma star_prefix_iff: "star_prefix r s \<longleftrightarrow> (\<exists>x t. r = x @ ''/*'' \<and> s = x @ ''/'' @ t)"
proof -
  have "butlast (x @ ''/*'') = x @ ''/''" for x :: string by (simp add: butlast_append)
  then show ?thesis unfolding star_prefix_def ends_with_iff starts_with_iff by auto
qed

lemma base_star_grants:
  assumes "split_once CHR ''/'' r = Some (base, sub)" "r = ''*'' \<or> r = target \<or> star_prefix r target"
  shows "star_prefix (base @ ''/*'') target"
proof -
  have r: "r = base @ ''/'' @ sub" "CHR ''/'' \<notin> set base" using split_once_Some[OF assms(1)] by simp_all
  have "r \<noteq> ''*''" using assms(1) by auto
  then consider "r = target" | "star_prefix r target" using assms(2) by blast
  then show ?thesis
  proof cases
    case 1
    then show ?thesis using r unfolding star_prefix_iff by auto
  next
    case 2
    then obtain x t where x: "r = x @ ''/*''" "target = x @ ''/'' @ t" unfolding star_prefix_iff by blast
    from r(1) x(1) have "base @ CHR ''/'' # sub = x @ CHR ''/'' # ''*''" by simp
    then obtain us where "base @ us = x \<and> us @ CHR ''/'' # ''*'' = CHR ''/'' # sub \<or> x @ us = base \<and> us @ CHR ''/'' # sub = CHR ''/'' # ''*''"
      unfolding append_eq_append_conv2 by metis
    then show ?thesis
    proof
      assume a: "base @ us = x \<and> us @ CHR ''/'' # ''*'' = CHR ''/'' # sub"
      show ?thesis
      proof (cases us)
        case Nil
        then show ?thesis using a x(2) unfolding star_prefix_iff by auto
      next
        case (Cons c us')
        then have "c = CHR ''/''" using a by simp
        then have "target = base @ ''/'' @ us' @ ''/'' @ t" using a x(2) Cons by auto
        then show ?thesis unfolding star_prefix_iff by blast
      qed
    next
      assume a: "x @ us = base \<and> us @ CHR ''/'' # sub = CHR ''/'' # ''*''"
      have "us = []"
      proof (cases us)
        case (Cons c us')
        then have "c = CHR ''/''" using a by simp
        then have "CHR ''/'' \<in> set base" using a Cons by auto
        then show ?thesis using r(2) by blast
      qed
      then show ?thesis using a x(2) unfolding star_prefix_iff by auto
    qed
  qed
qed

lemma resource_covered:
  assumes "plain owned" "r = ''*'' \<or> r = target \<or> star_prefix r target"
    "has (strings (jidx owned ''resources'')) r \<or>
     (case split_once CHR ''/'' r of
        Some (base, sub) \<Rightarrow> list_ex (\<lambda>x. x = ''*/'' @ sub \<or> x = base @ ''/*'') (strings (jidx owned ''resources''))
      | None \<Rightarrow> False)"
  shows "\<exists>x \<in> set (strings (jidx owned ''resources'')). x = ''*'' \<or> x = target \<or> star_prefix x target"
  using assms(3)
proof
  assume "has (strings (jidx owned ''resources'')) r"
  then show ?thesis using assms(2) unfolding has_iff by blast
next
  assume "case split_once CHR ''/'' r of
        Some (base, sub) \<Rightarrow> list_ex (\<lambda>x. x = ''*/'' @ sub \<or> x = base @ ''/*'') (strings (jidx owned ''resources''))
      | None \<Rightarrow> False"
  then obtain base sub x where s: "split_once CHR ''/'' r = Some (base, sub)"
    and x: "x \<in> set (strings (jidx owned ''resources''))" "x = ''*/'' @ sub \<or> x = base @ ''/*''"
    by (auto simp: list_ex_iff split: option.splits)
  have "\<not> starts_with x ''*/''" using assms(1) x(1) by (simp add: plain_def list_all_iff)
  then have "x = base @ ''/*''" using x(2) by auto
  then show ?thesis using x(1) base_star_grants[OF s assms(2)] by blast
qed

lemma covers_resource_grants:
  assumes "rule_typed owned" "plain owned" "covers_resource owned g r v name"
    and "g = ''*'' \<or> g = aq_api_group req" "r = ''*'' \<or> r = request_target req \<or> star_prefix r (request_target req)"
    and "v = ''*'' \<or> v = aq_verb req" "\<forall>n. name = Some n \<longrightarrow> aq_name req = None \<or> aq_name req = name"
  shows "rule_matches owned req"
proof -
  have c: "has (strings (jidx owned ''verbs'')) v" "has (strings (jidx owned ''apiGroups'')) g"
    "has (strings (jidx owned ''resources'')) r \<or>
     (case split_once CHR ''/'' r of
        Some (base, sub) \<Rightarrow> list_ex (\<lambda>x. x = ''*/'' @ sub \<or> x = base @ ''/*'') (strings (jidx owned ''resources''))
      | None \<Rightarrow> False)"
    "strings (jidx owned ''resourceNames'') = [] \<or> (\<exists>n \<in> set (strings (jidx owned ''resourceNames'')). name = Some n)"
    using assms(3) unfolding covers_resource_def Let_def by (simp_all split: if_splits option.splits)
  have "\<exists>x \<in> set (strings (jidx owned ''apiGroups'')). x = ''*'' \<or> x = aq_api_group req" using c(2) assms(4) unfolding has_iff by blast
  moreover have "\<exists>x \<in> set (strings (jidx owned ''verbs'')). x = ''*'' \<or> x = aq_verb req" using c(1) assms(6) unfolding has_iff by blast
  moreover have "strings (jidx owned ''resourceNames'') = [] \<or> (\<forall>n. aq_name req = Some n \<longrightarrow> n \<in> set (strings (jidx owned ''resourceNames'')))"
    using c(4) assms(7) by auto
  ultimately show ?thesis unfolding rule_matches_typed[OF assms(1)] using resource_covered[OF assms(2,5) c(3)] by blast
qed

lemma concat_if_Nil: "concat (map (\<lambda>x. if P x then [] else [f x]) xs) = [] \<longleftrightarrow> (\<forall>x \<in> set xs. P x)"
  by (induction xs) auto

lemma uncovered_rule_none:
  assumes "uncovered_rule owner urls rule = []" "g \<in> set (strings (jidx rule ''apiGroups''))"
    "r \<in> set (strings (jidx rule ''resources''))" "v \<in> set (strings (jidx rule ''verbs''))"
  shows "if strings (jidx rule ''resourceNames'') = [] then \<exists>o' \<in> set owner. covers_resource o' g r v None
    else \<forall>n \<in> set (strings (jidx rule ''resourceNames'')). \<exists>o' \<in> set owner. covers_resource o' g r v (Some n)"
proof -
  let ?held = "\<lambda>name. list_ex (\<lambda>owned. covers_resource owned g r v name) owner"
  have "\<forall>g \<in> set (strings (jidx rule ''apiGroups'')). \<forall>r \<in> set (strings (jidx rule ''resources'')). \<forall>v \<in> set (strings (jidx rule ''verbs'')).
      (if strings (jidx rule ''resourceNames'') = []
       then if list_ex (\<lambda>owned. covers_resource owned g r v None) owner then [] else [missing_resource g r None v]
       else concat (map (\<lambda>name. if list_ex (\<lambda>owned. covers_resource owned g r v (Some name)) owner then []
                                 else [missing_resource g r (Some name) v]) (strings (jidx rule ''resourceNames'')))) = []"
    using assms(1) unfolding uncovered_rule_def Let_def append_is_Nil_conv concat_eq_Nil_conv set_map ball_simps by blast
  then have "(if strings (jidx rule ''resourceNames'') = [] then if ?held None then [] else [missing_resource g r None v]
       else concat (map (\<lambda>name. if ?held (Some name) then [] else [missing_resource g r (Some name) v]) (strings (jidx rule ''resourceNames'')))) = []"
    using assms(2-4) by blast
  then show ?thesis unfolding list_ex_iff
    by (cases "strings (jidx rule ''resourceNames'') = []") (simp_all only: if_True if_False concat_if_Nil, simp split: if_splits)
qed

lemma covered_rule_granted:
  assumes "uncovered_rule owner urls rule = []" "rule_typed rule" "\<forall>o' \<in> set owner. rule_typed o' \<and> plain o'" "rule_matches rule req"
  shows "\<exists>o' \<in> set owner. rule_matches o' req"
proof -
  obtain g r v where g: "g \<in> set (strings (jidx rule ''apiGroups''))" "g = ''*'' \<or> g = aq_api_group req"
    and r: "r \<in> set (strings (jidx rule ''resources''))" "r = ''*'' \<or> r = request_target req \<or> star_prefix r (request_target req)"
    and v: "v \<in> set (strings (jidx rule ''verbs''))" "v = ''*'' \<or> v = aq_verb req"
    and n: "strings (jidx rule ''resourceNames'') = [] \<or> (\<forall>n. aq_name req = Some n \<longrightarrow> n \<in> set (strings (jidx rule ''resourceNames'')))"
    using assms(4) unfolding rule_matches_typed[OF assms(2)] by blast
  note u = uncovered_rule_none[OF assms(1) g(1) r(1) v(1)]
  obtain o' name where o': "o' \<in> set owner" "covers_resource o' g r v name" "\<forall>n. name = Some n \<longrightarrow> aq_name req = None \<or> aq_name req = name"
  proof (cases "strings (jidx rule ''resourceNames'')")
    case Nil
    then show ?thesis using u that by auto
  next
    case (Cons m ms)
    show ?thesis
    proof (cases "aq_name req")
      case None
      then show ?thesis using u Cons that[of _ "Some m"] by auto
    next
      case (Some k)
      then have "k \<in> set (strings (jidx rule ''resourceNames''))" using n Cons by auto
      then show ?thesis using u Cons Some that[of _ "Some k"] by auto
    qed
  qed
  then show ?thesis using covers_resource_grants[OF _ _ o'(2) g(2) r(2) v(2) o'(3)] assms(3) by blast
qed

section \<open>The rules a caller holds\<close>

definition resource_half :: "json \<Rightarrow> json" where
  "resource_half rule =
     JObj ([(''apiGroups'', jidx rule ''apiGroups'')] @
           (if has_items rule ''resourceNames'' then [(''resourceNames'', jidx rule ''resourceNames'')] else []) @
           [(''resources'', jidx rule ''resources''), (''verbs'', jidx rule ''verbs'')])"

lemma resource_half_fields:
  "jidx (resource_half rule) ''apiGroups'' = jidx rule ''apiGroups''"
  "jidx (resource_half rule) ''resources'' = jidx rule ''resources''"
  "jidx (resource_half rule) ''verbs'' = jidx rule ''verbs''"
  "jidx (resource_half rule) ''resourceNames'' = (if has_items rule ''resourceNames'' then jidx rule ''resourceNames'' else JNull)"
  by (simp_all add: resource_half_def)

lemma resource_half_matches: "rule_matches (resource_half rule) req = rule_matches rule req"
  unfolding rule_matches_def resource_half_fields
  by (cases "has_items rule ''resourceNames''") (simp_all add: has_items_def Let_def split: option.splits)

lemma resource_half_typed: "rule_typed rule \<Longrightarrow> rule_typed (resource_half rule)"
  by (simp add: rule_typed_def resource_half_fields)

lemma resource_half_plain: "plain (resource_half rule) = plain rule"
  by (simp add: plain_def resource_half_fields)

lemma foldl_collects:
  assumes "x \<in> set (R (foldl f rs bs))" "\<And>rs b. b \<in> set bs \<Longrightarrow> x \<in> set (R (f rs b)) \<Longrightarrow> x \<in> set (R rs) \<or> Q b"
  shows "x \<in> set (R rs) \<or> (\<exists>b \<in> set bs. Q b)"
  using assms
proof (induction bs arbitrary: rs)
  case Nil
  then show ?case by simp
next
  case (Cons b bs)
  have "x \<in> set (R (f rs b)) \<or> (\<exists>b \<in> set bs. Q b)" using Cons.IH[of "f rs b"] Cons.prems by simp
  then show ?case using Cons.prems(2)[of b rs] by auto
qed

lemma absorb_rule_collects:
  "x \<in> set (rs_resource_rules (absorb_rule rs rule)) \<Longrightarrow> x \<in> set (rs_resource_rules rs) \<or> x = resource_half rule"
  by (auto simp: absorb_rule_def Let_def resource_half_def split: if_splits)

lemma absorb_read_collects:
  assumes "x \<in> set (rs_resource_rules (absorb_read res rs))"
  shows "x \<in> set (rs_resource_rules rs) \<or> (\<exists>role. res = Inr role \<and> (\<exists>rule \<in> set (arr (jidx role ''rules'')). x = resource_half rule))"
proof (cases res)
  case (Inl e)
  then show ?thesis using assms by (simp add: absorb_read_def)
next
  case (Inr role)
  show ?thesis
  proof (cases "as_array (jidx role ''rules'')")
    case None
    then show ?thesis using assms Inr by (simp add: absorb_read_def absorb_def)
  next
    case (Some rules)
    then have "x \<in> set (rs_resource_rules (foldl absorb_rule rs rules))" using assms Inr by (simp add: absorb_read_def absorb_def)
    from foldl_collects[where R = rs_resource_rules and Q = "\<lambda>rule. x = resource_half rule", OF this absorb_rule_collects]
    show ?thesis using Inr Some by (auto simp: arr_def)
  qed
qed

text \<open>Where a held rule comes from: a role of a binding that names the user.\<close>

definition held_from :: "reads \<Rightarrow> user_info \<Rightarrow> string option \<Rightarrow> json \<Rightarrow> bool" where
  "held_from rd user ns x \<longleftrightarrow>
     (\<exists>k role. rd_get rd k = Inr role \<and> (\<exists>rule \<in> set (arr (jidx role ''rules'')). x = resource_half rule) \<and>
        (\<forall>req. (\<forall>n. ns = Some n \<longrightarrow> aq_namespace req = Some n) \<and> rules_permit role req \<longrightarrow> store_grants rd user req))"

lemma cluster_held:
  assumes "rd_list rd (cluster_prefix ''clusterrolebindings'') 1000 = Inr bs" "b \<in> set bs" "subjects_match b user"
    "role_ref_kind b = ''ClusterRole''" "rd_get rd (cluster_key ''clusterroles'' (role_ref_name b)) = Inr role"
    "\<exists>rule \<in> set (arr (jidx role ''rules'')). x = resource_half rule"
  shows "held_from rd user ns x"
proof -
  have "store_grants rd user req" if "rules_permit role req" for req
    using assms that by (auto simp: store_grants_def cluster_grant_def stored_bindings_def ok_of_def)
  then show ?thesis using assms(5,6) unfolding held_from_def by blast
qed

lemma namespace_held:
  assumes "rd_list rd (namespace_prefix ''rolebindings'' n) 1000 = Inr bs" "b \<in> set bs" "subjects_match b user"
    "role_ref_kind b = ''ClusterRole'' \<and> rd_get rd (cluster_key ''clusterroles'' (role_ref_name b)) = Inr role \<or>
     role_ref_kind b = ''Role'' \<and> rd_get rd (namespaced_key ''roles'' n (role_ref_name b)) = Inr role"
    "\<exists>rule \<in> set (arr (jidx role ''rules'')). x = resource_half rule"
  shows "held_from rd user (Some n) x"
proof -
  have "store_grants rd user req" if "rules_permit role req" "aq_namespace req = Some n" for req
    using assms that unfolding store_grants_def namespace_grant_def stored_bindings_def by (auto simp: ok_of_def)
  then show ?thesis using assms(4,5) unfolding held_from_def by blast
qed

lemma held_rules:
  assumes "\<not> superuser dev user" "x \<in> set (rs_resource_rules (rules_for dev rd user ns))"
  shows "held_from rd user ns x"
proof -
  let ?c = "\<lambda>rs b. if role_ref_kind b \<noteq> ''ClusterRole'' then rs
                   else absorb_read (rd_get rd (cluster_key ''clusterroles'' (role_ref_name b))) rs"
  let ?rs = "case rd_list rd (cluster_prefix ''clusterrolebindings'') 1000 of
      Inr bindings \<Rightarrow> foldl ?c rule_set_default (filter (\<lambda>b. subjects_match b user) bindings)
    | Inl _ \<Rightarrow> rule_set_default\<lparr>rs_incomplete := True\<rparr>"
  have c: "held_from rd user ns x" if "x \<in> set (rs_resource_rules ?rs)"
  proof (cases "rd_list rd (cluster_prefix ''clusterrolebindings'') 1000")
    case (Inl e)
    then show ?thesis using that by (simp add: rule_set_default_def)
  next
    case (Inr bs)
    have "x \<in> set (rs_resource_rules rule_set_default) \<or>
        (\<exists>b \<in> set (filter (\<lambda>b. subjects_match b user) bs). role_ref_kind b = ''ClusterRole'' \<and>
           (\<exists>role. rd_get rd (cluster_key ''clusterroles'' (role_ref_name b)) = Inr role \<and>
              (\<exists>rule \<in> set (arr (jidx role ''rules'')). x = resource_half rule)))"
      by (rule foldl_collects[where f = ?c]) (use that Inr in \<open>simp, auto dest: absorb_read_collects split: if_splits\<close>)
    then obtain b role where "b \<in> set bs" "subjects_match b user" "role_ref_kind b = ''ClusterRole''"
      "rd_get rd (cluster_key ''clusterroles'' (role_ref_name b)) = Inr role"
      "\<exists>rule \<in> set (arr (jidx role ''rules'')). x = resource_half rule"
      unfolding set_filter rule_set_default_def by auto
    then show ?thesis by (rule cluster_held[OF Inr])
  qed
  show ?thesis
  proof (cases ns)
    case None
    then show ?thesis using assms c by (simp add: rules_for_def Let_def)
  next
    case (Some n)
    show ?thesis
    proof (cases "rd_list rd (namespace_prefix ''rolebindings'' n) 1000")
      case (Inl e)
      then show ?thesis using assms c Some by (simp add: rules_for_def Let_def)
    next
      case (Inr bs)
      let ?n = "\<lambda>rs b. if role_ref_kind b = ''ClusterRole'' then absorb_read (rd_get rd (cluster_key ''clusterroles'' (role_ref_name b))) rs
            else if role_ref_kind b = ''Role'' then absorb_read (rd_get rd (namespaced_key ''roles'' n (role_ref_name b))) rs else rs"
      have "x \<in> set (rs_resource_rules (foldl ?n ?rs (filter (\<lambda>b. subjects_match b user) bs)))"
        using assms Some Inr by (simp add: rules_for_def Let_def)
      then have "x \<in> set (rs_resource_rules ?rs) \<or>
        (\<exists>b \<in> set (filter (\<lambda>b. subjects_match b user) bs).
           \<exists>role. (role_ref_kind b = ''ClusterRole'' \<and> rd_get rd (cluster_key ''clusterroles'' (role_ref_name b)) = Inr role \<or>
                   role_ref_kind b = ''Role'' \<and> rd_get rd (namespaced_key ''roles'' n (role_ref_name b)) = Inr role) \<and>
              (\<exists>rule \<in> set (arr (jidx role ''rules'')). x = resource_half rule))"
        by (rule foldl_collects[where f = ?n]) (auto dest: absorb_read_collects split: if_splits)
      then show ?thesis unfolding Some set_filter using c[unfolded Some] namespace_held[OF Inr] by blast
    qed
  qed
qed

section \<open>What a write hands out\<close>

text \<open>The role a write makes usable: itself, or the one a binding refers to.\<close>

definition handed_out :: "reads \<Rightarrow> string \<Rightarrow> string option \<Rightarrow> json \<Rightarrow> json option" where
  "handed_out rd resource ns obj =
     (if esc_kind resource = ''Role'' \<or> esc_kind resource = ''ClusterRole'' then Some obj
      else
        (case ref_resource obj ns of
           None \<Rightarrow> None
         | Some ref \<Rightarrow> ok_of (rd_get rd (ref_key obj ns ref))))"

text \<open>The grant that lets a caller write it whatever it contains.\<close>

definition may_hand_out :: "bool \<Rightarrow> reads \<Rightarrow> user_info \<Rightarrow> string \<Rightarrow> string option \<Rightarrow> json \<Rightarrow> bool" where
  "may_hand_out dev rd user resource ns obj \<longleftrightarrow>
     (if esc_kind resource = ''Role'' \<or> esc_kind resource = ''ClusterRole''
      then authorize dev rd user (ask ns ''escalate'' resource (str_or [] (jat obj [''metadata'', ''name''])))
      else (\<exists>ref. ref_resource obj ns = Some ref \<and> authorize dev rd user (ask ns ''bind'' ref (role_ref_name obj))))"

lemma strip_gc_other: "strip_gc v = Some w \<Longrightarrow> k \<noteq> ''metadata'' \<Longrightarrow> jidx w k = jidx v k"
  unfolding strip_gc_def jtouch_def
  using jset_other[of v "''metadata''" "[]"] jset_other[of _ "''metadata''" "[]"]
  by (auto split: option.splits json.splits simp del: jset.simps)

lemma gc_update_keeps:
  assumes "only_gc_fields_changed stored obj = Some True" "k \<noteq> ''metadata''"
  shows "jidx stored k = jidx obj k"
proof -
  obtain a where "strip_gc stored = Some a" "strip_gc obj = Some a"
    using assms(1) by (auto simp: only_gc_fields_changed_def split: option.splits)
  then show ?thesis using strip_gc_other[OF _ assms(2)] by metis
qed

lemma confirm_admits:
  assumes "confirm dev rd user resource namespace obj old = Some (Inr ())" "\<not> superuser dev user"
    "\<nexists>stored. old = Some stored \<and> only_gc_fields_changed stored obj = Some True"
    "handed_out rd resource (esc_namespace resource namespace obj) obj = Some role"
    "\<not> may_hand_out dev rd user resource (esc_namespace resource namespace obj) obj"
  shows "uncovered (rs_resource_rules (rules_for dev rd user (esc_namespace resource namespace obj)))
    (rs_non_resource_rules (rules_for dev rd user (esc_namespace resource namespace obj))) (arr (jidx role ''rules'')) = []"
proof -
  let ?ns = "esc_namespace resource namespace obj"
  let ?r = "if esc_kind resource = ''Role'' \<or> esc_kind resource = ''ClusterRole'' then role_rules dev rd user resource ?ns obj
    else binding_rules dev rd user resource ?ns obj"
  have n: "(case old of None \<Rightarrow> Some False | Some stored \<Rightarrow> only_gc_fields_changed stored obj) = Some False"
    using assms(1-3) by (auto simp: confirm_def split: option.splits bool.splits)
  have r: "?r = Inr (jidx role ''rules'') \<or> (\<exists>e. ?r = Inl (Inl e))"
  proof (cases "esc_kind resource = ''Role'' \<or> esc_kind resource = ''ClusterRole''")
    case True
    then show ?thesis using assms(4,5) by (simp add: handed_out_def may_hand_out_def role_rules_def)
  next
    case False
    then obtain ref where "ref_resource obj ?ns = Some ref" "rd_get rd (ref_key obj ?ns ref) = Inr role"
      using assms(4) by (auto simp: handed_out_def ok_of_def split: option.splits sum.splits)
    then show ?thesis using False assms(5) by (simp add: may_hand_out_def binding_rules_def)
  qed
  then have "?r = Inr (jidx role ''rules'')"
    using assms(1,2) n by (auto simp: confirm_def Let_def)
  then show ?thesis using assms(1,2) n by (auto simp: confirm_def Let_def split: if_splits)
qed

lemma rules_permit_iff: "rules_permit role req \<longleftrightarrow> (\<exists>rule \<in> set (arr (jidx role ''rules'')). rule_matches rule req)"
  by (cases "as_array (jidx role ''rules'')") (simp_all add: rules_permit_def arr_def list_ex_iff)

lemma covered_role_granted:
  assumes "\<not> superuser dev user" "role_typed role" "\<forall>k r. rd_get rd k = Inr r \<longrightarrow> role_typed r \<and> list_all plain (arr (jidx r ''rules''))"
    "uncovered (rs_resource_rules (rules_for dev rd user ns)) urls (arr (jidx role ''rules'')) = []"
    "rules_permit role req" "\<forall>n. ns = Some n \<longrightarrow> aq_namespace req = Some n"
  shows "store_grants rd user req"
proof -
  let ?held = "rs_resource_rules (rules_for dev rd user ns)"
  obtain rule where rule: "rule \<in> set (arr (jidx role ''rules''))" "rule_matches rule req"
    using assms(5) unfolding rules_permit_iff by blast
  have "uncovered_rule ?held urls rule = []" using assms(4) rule(1) by (simp add: uncovered_def)
  moreover have "rule_typed rule" using assms(2) rule(1) by (simp add: role_typed_def list_all_iff)
  moreover have "\<forall>x \<in> set ?held. rule_typed x \<and> plain x"
  proof
    fix x assume "x \<in> set ?held"
    from held_rules[OF assms(1) this] obtain k r rl where "rd_get rd k = Inr r" "rl \<in> set (arr (jidx r ''rules''))" "x = resource_half rl"
      unfolding held_from_def by blast
    then show "rule_typed x \<and> plain x" using assms(3) resource_half_typed resource_half_plain
      unfolding role_typed_def list_all_iff by blast
  qed
  ultimately obtain x where x: "x \<in> set ?held" "rule_matches x req" using covered_rule_granted rule(2) by blast
  from held_rules[OF assms(1) x(1)] obtain k r rl where r: "rd_get rd k = Inr r" "rl \<in> set (arr (jidx r ''rules''))" "x = resource_half rl"
    "(\<forall>n. ns = Some n \<longrightarrow> aq_namespace req = Some n) \<and> rules_permit r req \<longrightarrow> store_grants rd user req"
    unfolding held_from_def by blast
  have "rules_permit r req" using r(2,3) x(2) resource_half_matches
    unfolding rules_permit_iff by blast
  then show ?thesis using r(4) assms(6) by blast
qed

section \<open>Properties\<close>



text \<open>
  C39. Two ways a rule grants more than the check, or its author, sees. A rule with no list of
  verbs permits every verb on what it names, and the escalation check finds nothing in it to
  hold: whoever may create a role can create one that permits everything, whatever they hold.
  And a rule limited to named objects permits every request that names no object.
\<close>

theorem rule_fails_open:
  "confirm dev rd user ''roles'' namespace (JObj [(''rules'', JArr [JObj [(''apiGroups'', JArr [JStr ''*'']), (''resources'', JArr [JStr ''*''])]])]) None =
     Some (Inr ()) \<and>
   rules_permit (JObj [(''rules'', JArr [JObj [(''apiGroups'', JArr [JStr ''*'']), (''resources'', JArr [JStr ''*''])]])]) req \<and>
   rule_matches (JObj [(''apiGroups'', JArr [JStr (aq_api_group req)]), (''resourceNames'', JArr [JStr ''only-this'']),
                       (''resources'', JArr [JStr (request_target req)]), (''verbs'', JArr [JStr (aq_verb req)])]) (req\<lparr>aq_name := None\<rparr>)"
proof -
  let ?rule = "JObj [(''apiGroups'', JArr [JStr ''*'']), (''resources'', JArr [JStr ''*''])]"
  have "uncovered a b [?rule] = []" for a b by (simp add: uncovered_def uncovered_rule_def strings_def map_filter_simps)
  then have "confirm dev rd user ''roles'' namespace (JObj [(''rules'', JArr [?rule])]) None = Some (Inr ())"
    by (simp add: confirm_def Let_def esc_kind_def role_rules_def)
  moreover have "rules_permit (JObj [(''rules'', JArr [?rule])]) req" by (simp add: rules_permit_def rule_matches_def)
  moreover have "request_target (req\<lparr>aq_name := None\<rparr>) = request_target req" by (cases "aq_subresource req") (simp_all add: request_target_def)
  ultimately show ?thesis by (simp add: rule_matches_def)
qed

end
