(* ===== verification/Admission.thy ===== *)
theory Admission
  imports Escalation
begin

text \<open>
  What the apiserver writes into, and refuses of, an object about to be stored:
  \<^verbatim>\<open>admission.rs\<close> after its mutating webhooks (\<open>after_mutating\<close>), \<^verbatim>\<open>csr_admission.rs\<close> (who filed
  a certificate request, who may approve and sign it) and \<^verbatim>\<open>requester.rs\<close> (who created a
  storage object). \<open>None\<close> is a panic. An object's life is a create and any number of updates,
  by anyone, each admitted over what was stored before; the theorems follow the stamps
  through it.
\<close>

section \<open>Request attributes\<close>

datatype operation = Create | Update | Delete

record request_attrs =
  at_user :: user_info
  at_verb :: string
  at_group :: string
  at_version :: string
  at_resource :: string
  at_subresource :: "string option"
  at_namespace :: "string option"
  at_name :: "string option"
  at_dry_run :: bool
  at_rbac :: "(bool \<times> reads) option"
  at_warnings :: "string list"

definition write_verb :: "string \<Rightarrow> string option" where
  "write_verb http_method =
     (if http_method = ''POST'' then Some ''create''
      else if http_method = ''PUT'' then Some ''update''
      else if http_method = ''PATCH'' then Some ''patch''
      else if http_method = ''DELETE'' then Some ''delete''
      else None)"

definition path_version :: "string list \<Rightarrow> string option" where
  "path_version segments =
     (case segments of
        a # v # rest \<Rightarrow>
          if a = ''api'' then Some v
          else if a = ''apis'' then (case rest of w # _ \<Rightarrow> Some w | [] \<Rightarrow> None)
          else None
      | _ \<Rightarrow> None)"

definition request_attrs_of :: "string \<Rightarrow> string \<Rightarrow> (string \<times> string) list option \<Rightarrow> user_info \<Rightarrow> request_attrs option" where
  "request_attrs_of path http_method query user =
     (case write_verb http_method of
        None \<Rightarrow> None
      | Some verb \<Rightarrow>
          (let segments = split_on CHR ''/'' (trim_start_matches CHR ''/'' path)
           in case path_version segments of
                None \<Rightarrow> None
              | Some version \<Rightarrow>
                  (case parse_path_segments segments of
                     None \<Rightarrow> None
                   | Some (grp, resource, namespace, name, subresource) \<Rightarrow>
                       Some \<lparr>at_user = user, at_verb = verb, at_group = grp, at_version = version, at_resource = resource,
                         at_subresource = subresource,
                         at_namespace = (if resource \<noteq> ''namespaces'' then namespace else None),
                         at_name = name,
                         at_dry_run = list_ex (\<lambda>(k, v). k = ''dryRun'' \<and> v = ''All'') (case query of Some q \<Rightarrow> q | None \<Rightarrow> []),
                         at_rbac = None, at_warnings = []\<rparr>)))"

section \<open>Certificate requests\<close>

definition FORGE_NODE_SIGNER :: string where "FORGE_NODE_SIGNER = ''storm.io/forge-node''"

definition csr_on_create :: "user_info \<Rightarrow> json \<Rightarrow> (api_error + json) option" where
  "csr_on_create user obj0 =
     (case (if is_object (jidx obj0 ''spec'') then Some obj0 else jset obj0 [''spec''] (JObj [])) of
        None \<Rightarrow> None
      | Some obj \<Rightarrow>
          (let signer = str_or [] (jat obj [''spec'', ''signerName''])
           in if is_bootstrapper user \<and> signer \<noteq> FORGE_NODE_SIGNER
              then Some (Inl (forbidden (''certificatesigningrequests is forbidden: User '' @ quoted (ui_username user) @
                     '' may only request signerName '' @ quoted FORGE_NODE_SIGNER @ '', not '' @ quoted signer)))
              else
                (case jidx obj ''spec'' of
                   JObj spec \<Rightarrow>
                     map_option Inr (jset obj [''spec'']
                       (JObj (bt_remove ''extra'' (bt_remove ''uid''
                         (bt_insert ''groups'' (JArr (map JStr (ui_groups user)))
                           (bt_insert ''username'' (JStr (ui_username user)) spec))))))
                 | _ \<Rightarrow> None)))"

definition keep_stored :: "string option \<Rightarrow> json \<Rightarrow> json \<Rightarrow> json option" where
  "keep_stored sub obj0 stored =
     (case jset obj0 [''spec''] (jidx stored ''spec'') of
        None \<Rightarrow> None
      | Some obj \<Rightarrow>
          (case sub of
             None \<Rightarrow> jset obj [''status''] (jidx stored ''status'')
           | Some s \<Rightarrow>
               if s = ''approval'' then
                 (case jget (jidx stored ''status'') ''certificate'' of
                    Some c \<Rightarrow> jset obj [''status'', ''certificate''] c
                  | None \<Rightarrow>
                      (case jtouch obj [''status''] of
                         None \<Rightarrow> None
                       | Some obj' \<Rightarrow>
                           (case jidx obj' ''status'' of
                              JObj m \<Rightarrow> jset obj' [''status''] (JObj (bt_remove ''certificate'' m))
                            | _ \<Rightarrow> Some obj')))
               else Some obj))"

definition signer_names :: "string \<Rightarrow> string list" where
  "signer_names signer =
     signer # (case split_once CHR ''/'' signer of Some (domain, _) \<Rightarrow> [domain @ ''/*''] | None \<Rightarrow> [])"

definition signer_request :: "string \<Rightarrow> string \<Rightarrow> auth_request" where
  "signer_request verb name =
     \<lparr>aq_verb = verb, aq_resource = ''signers'', aq_subresource = None, aq_api_group = CSR_GROUP, aq_namespace = None, aq_name = Some name\<rparr>"

definition require :: "bool \<times> reads \<Rightarrow> user_info \<Rightarrow> string \<Rightarrow> string \<Rightarrow> api_error + unit" where
  "require rbac user verb signer =
     (if list_ex (\<lambda>name. authorize (fst rbac) (snd rbac) user (signer_request verb name)) (signer_names signer) then Inr ()
      else Inl (forbidden (''user not permitted to '' @ verb @ '' requests with signerName '' @ quoted signer @
             '' (User '' @ quoted (ui_username user) @ '')'')))"

definition csr_admit :: "request_attrs \<Rightarrow> operation \<Rightarrow> json \<Rightarrow> json option \<Rightarrow> (api_error + json) option" where
  "csr_admit rq op obj0 old =
     (case (op, old) of
        (Create, _) \<Rightarrow> if at_subresource rq = None then csr_on_create (at_user rq) obj0 else Some (Inr obj0)
      | (Update, Some stored) \<Rightarrow>
          (case keep_stored (at_subresource rq) obj0 stored of
             None \<Rightarrow> None
           | Some obj \<Rightarrow>
               (case at_rbac rq of
                  None \<Rightarrow> Some (Inr obj)
                | Some rbac \<Rightarrow>
                    (let signer = str_or [] (jat stored [''spec'', ''signerName''])
                     in Some (map_sum id (\<lambda>_. obj)
                          (if at_subresource rq = Some ''approval'' then require rbac (at_user rq) ''approve'' signer
                           else if at_subresource rq = Some ''status'' \<and>
                                   jat obj [''status'', ''certificate''] \<noteq> jat stored [''status'', ''certificate'']
                           then require rbac (at_user rq) ''sign'' signer
                           else Inr ())))))
      | _ \<Rightarrow> Some (Inr obj0))"

section \<open>The requester's stamp\<close>

definition REQUESTER_GROUP :: string where "REQUESTER_GROUP = ''storage.storm.io''"
definition REQUESTER :: string where "REQUESTER = ''storage.storm.io/requester''"
definition REQUESTER_GROUPS :: string where "REQUESTER_GROUPS = ''storage.storm.io/requester-groups''"

text \<open>\<open>metadata.annotations\<close> as a map, made one if it is not, and changed by \<open>f\<close>; a body that is no object is left alone.\<close>

definition annotations :: "json \<Rightarrow> ((string \<times> json) list \<Rightarrow> (string \<times> json) list) \<Rightarrow> json" where
  "annotations obj f =
     (case obj of
        JObj ob \<Rightarrow>
          (let meta = (case map_of ob ''metadata'' of Some (JObj m) \<Rightarrow> m | _ \<Rightarrow> []);
               a = (case map_of meta ''annotations'' of Some (JObj a) \<Rightarrow> a | _ \<Rightarrow> [])
           in JObj (bt_insert ''metadata'' (JObj (bt_insert ''annotations'' (JObj (f a)) meta)) ob))
      | _ \<Rightarrow> obj)"

definition requester_on_create :: "json \<Rightarrow> user_info \<Rightarrow> json" where
  "requester_on_create obj user =
     annotations obj (\<lambda>a. bt_insert REQUESTER_GROUPS (JStr (join_on CHR '','' (ui_groups user)))
       (bt_insert REQUESTER (JStr (ui_username user)) a))"

definition carry :: "json \<Rightarrow> string \<Rightarrow> (string \<times> json) list \<Rightarrow> (string \<times> json) list" where
  "carry stored k a =
     (case jget (jat stored [''metadata'', ''annotations'']) k of
        Some v \<Rightarrow> bt_insert k v a
      | None \<Rightarrow> bt_remove k a)"

definition requester_on_update :: "json \<Rightarrow> json \<Rightarrow> json" where
  "requester_on_update obj0 stored =
     (let obj = annotations obj0 (\<lambda>a. carry stored REQUESTER_GROUPS (carry stored REQUESTER a))
      in case obj of
           JObj ob \<Rightarrow>
             (case map_of ob ''metadata'' of
                Some (JObj m) \<Rightarrow>
                  if map_of m ''annotations'' = Some (JObj [])
                  then JObj (bt_insert ''metadata'' (JObj (bt_remove ''annotations'' m)) ob)
                  else obj
              | _ \<Rightarrow> obj)
         | _ \<Rightarrow> obj)"

section \<open>After the mutating webhooks\<close>

definition escalation :: "request_attrs \<Rightarrow> json \<Rightarrow> json option \<Rightarrow> (api_error + unit) option" where
  "escalation rq obj old =
     (case at_rbac rq of
        None \<Rightarrow> Some (Inr ())
      | Some (dev, rd) \<Rightarrow>
          if \<not> applies (at_group rq) (at_resource rq) (at_subresource rq) then Some (Inr ())
          else confirm dev rd (at_user rq) (at_resource rq) (at_namespace rq) obj old)"

definition after_mutating :: "request_attrs \<Rightarrow> operation \<Rightarrow> json \<Rightarrow> json option \<Rightarrow> (api_error + json) option" where
  "after_mutating rq op obj0 old =
     (let obj1 =
            (if at_group rq = REQUESTER_GROUP then
               (case (op, old) of
                  (Create, _) \<Rightarrow> requester_on_create obj0 (at_user rq)
                | (Update, Some stored) \<Rightarrow> requester_on_update obj0 stored
                | _ \<Rightarrow> obj0)
             else obj0)
      in case (if at_group rq = CSR_GROUP \<and> at_resource rq = CSR_RESOURCE then csr_admit rq op obj1 old else Some (Inr obj1)) of
           None \<Rightarrow> None
         | Some (Inl e) \<Rightarrow> Some (Inl e)
         | Some (Inr obj2) \<Rightarrow>
             (case escalation rq obj2 old of
                None \<Rightarrow> None
              | Some (Inl e) \<Rightarrow> Some (Inl e)
              | Some (Inr _) \<Rightarrow> Some (Inr obj2)))"

section \<open>An object's life\<close>

text \<open>
  The objects that a create and then updates, each admitted, can leave in the store: of a
  group and a resource, created by a user.
\<close>

inductive lifetime :: "string \<Rightarrow> string \<Rightarrow> user_info \<Rightarrow> json \<Rightarrow> bool" where
  created: "lifetime (at_group rq) (at_resource rq) (at_user rq) obj"
    if "after_mutating rq Create body None = Some (Inr obj)" "is_object body" "at_subresource rq = None"
| updated: "lifetime (at_group rq) (at_resource rq) user obj"
    if "lifetime (at_group rq) (at_resource rq) user stored" "after_mutating rq Update body (Some stored) = Some (Inr obj)" "is_object body"

lemma after_mutating_csr:
  assumes "after_mutating rq op body old = Some (Inr obj)" "at_group rq = CSR_GROUP" "at_resource rq = CSR_RESOURCE"
  shows "csr_admit rq op body old = Some (Inr obj)"
proof -
  have "CSR_GROUP \<noteq> REQUESTER_GROUP" by (simp add: CSR_GROUP_def REQUESTER_GROUP_def)
  then show ?thesis using assms unfolding after_mutating_def Let_def by (simp split: option.splits sum.splits)
qed

lemma after_mutating_requester:
  assumes "after_mutating rq op body old = Some (Inr obj)" "at_group rq = REQUESTER_GROUP"
  shows "obj = (case (op, old) of
                  (Create, _) \<Rightarrow> requester_on_create body (at_user rq)
                | (Update, Some stored) \<Rightarrow> requester_on_update body stored
                | _ \<Rightarrow> body)"
proof -
  have "CSR_GROUP \<noteq> REQUESTER_GROUP" by (simp add: CSR_GROUP_def REQUESTER_GROUP_def)
  then show ?thesis using assms unfolding after_mutating_def Let_def by (cases op; cases old) (simp_all split: option.splits sum.splits)
qed

lemma csr_on_create_spec:
  assumes "csr_on_create user body = Some (Inr obj)"
  shows "jat obj [''spec'', ''username''] = JStr (ui_username user)"
    "jat obj [''spec'', ''groups''] = JArr (map JStr (ui_groups user))"
    "is_bootstrapper user \<longrightarrow> jat obj [''spec'', ''signerName''] = JStr FORGE_NODE_SIGNER"
proof -
  obtain obj0 spec where o: "jidx obj0 ''spec'' = JObj spec" "\<not> (is_bootstrapper user \<and> str_or [] (jat obj0 [''spec'', ''signerName'']) \<noteq> FORGE_NODE_SIGNER)"
    "jset obj0 [''spec''] (JObj (bt_remove ''extra'' (bt_remove ''uid''
       (bt_insert ''groups'' (JArr (map JStr (ui_groups user))) (bt_insert ''username'' (JStr (ui_username user)) spec))))) = Some obj"
    using assms unfolding csr_on_create_def Let_def
    by (auto split: option.splits if_splits json.splits simp del: jset.simps)
  have s: "jidx obj ''spec'' = JObj (bt_remove ''extra'' (bt_remove ''uid''
       (bt_insert ''groups'' (JArr (map JStr (ui_groups user))) (bt_insert ''username'' (JStr (ui_username user)) spec))))"
    using jset_jat[OF o(3)] by simp
  show "jat obj [''spec'', ''username''] = JStr (ui_username user)"
    "jat obj [''spec'', ''groups''] = JArr (map JStr (ui_groups user))"
    by (simp_all add: s bt_simps)
  have "jat obj [''spec'', ''signerName''] = jat obj0 [''spec'', ''signerName'']" by (simp add: s o(1) bt_simps)
  moreover have "str_or [] v = FORGE_NODE_SIGNER \<Longrightarrow> v = JStr FORGE_NODE_SIGNER" for v
    by (cases v) (simp_all add: FORGE_NODE_SIGNER_def str_or_def)
  ultimately show "is_bootstrapper user \<longrightarrow> jat obj [''spec'', ''signerName''] = JStr FORGE_NODE_SIGNER"
    using o(2) by metis
qed

lemma keep_stored_spec:
  assumes "keep_stored sub body stored = Some obj"
  shows "jidx obj ''spec'' = jidx stored ''spec''"
proof -
  obtain obj0 where o: "jset body [''spec''] (jidx stored ''spec'') = Some obj0"
    using assms by (auto simp: keep_stored_def simp del: jset.simps split: option.splits)
  have s: "jidx obj0 ''spec'' = jidx stored ''spec''" using jset_jat[OF o] by simp
  have k: "jset v (''status'' # ks) x = Some w \<Longrightarrow> jidx w ''spec'' = jidx v ''spec''" for v ks x w
    by (rule jset_other) auto
  show ?thesis using assms o s k
    unfolding keep_stored_def jtouch_def by (auto simp del: jset.simps split: option.splits if_splits json.splits)
qed

lemma csr_update_keeps:
  "csr_admit rq Update body (Some stored) = Some (Inr obj) \<Longrightarrow> keep_stored (at_subresource rq) body stored = Some obj"
  by (auto simp: csr_admit_def Let_def map_sum_def split: option.splits sum.splits if_splits)

lemma keep_stored_status:
  assumes "keep_stored sub body stored = Some obj"
  shows "sub = None \<longrightarrow> jidx obj ''status'' = jidx stored ''status''"
    "sub = Some ''approval'' \<longrightarrow> jat obj [''status'', ''certificate''] = jat stored [''status'', ''certificate'']"
proof -
  obtain obj0 where o: "jset body [''spec''] (jidx stored ''spec'') = Some obj0"
    using assms by (auto simp: keep_stored_def simp del: jset.simps split: option.splits)
  show "sub = None \<longrightarrow> jidx obj ''status'' = jidx stored ''status''"
    using assms o jset_jat[of obj0 "[''status'']"] by (auto simp: keep_stored_def simp del: jset.simps)
  show "sub = Some ''approval'' \<longrightarrow> jat obj [''status'', ''certificate''] = jat stored [''status'', ''certificate'']"
  proof
    assume a: "sub = Some ''approval''"
    show "jat obj [''status'', ''certificate''] = jat stored [''status'', ''certificate'']"
    proof (cases "jget (jidx stored ''status'') ''certificate''")
      case (Some c)
      then have "jset obj0 [''status'', ''certificate''] c = Some obj" using assms o a by (simp add: keep_stored_def del: jset.simps)
      from jset_jat[OF this] Some show ?thesis by (simp add: jidx_def)
    next
      case None
      then have n: "jat stored [''status'', ''certificate''] = JNull" by (simp add: jidx_def)
      obtain obj1 where o1: "jtouch obj0 [''status''] = Some obj1"
        and o2: "(case jidx obj1 ''status'' of JObj m \<Rightarrow> jset obj1 [''status''] (JObj (bt_remove ''certificate'' m)) | _ \<Rightarrow> Some obj1) = Some obj"
        using assms o a None by (auto simp: keep_stored_def simp del: jset.simps split: option.splits)
      show ?thesis
      proof (cases "jidx obj1 ''status''")
        case (JObj m)
        then have "jidx obj ''status'' = JObj (bt_remove ''certificate'' m)"
          using o2 jset_jat[of obj1 "[''status'']"] by (simp del: jset.simps)
        then show ?thesis using n by (simp add: bt_simps)
      qed (use o2 n in auto)
    qed
  qed
qed

lemma require_ok: "require (dev, rd) user verb signer = Inr u \<Longrightarrow>
    \<exists>name \<in> set (signer_names signer). authorize dev rd user (signer_request verb name)"
  by (auto simp: require_def list_ex_iff split: if_splits)

lemma annotations_jat:
  assumes "is_object body"
  shows "\<exists>a. jat (annotations body f) [''metadata'', ''annotations''] = JObj (f a)"
  using assms unfolding annotations_def is_object_iff by (auto simp: bt_simps Let_def)

lemma requester_created:
  assumes "is_object body"
  shows "jat (requester_on_create body user) [''metadata'', ''annotations'', REQUESTER] = JStr (ui_username user)"
    "jat (requester_on_create body user) [''metadata'', ''annotations'', REQUESTER_GROUPS] = JStr (join_on CHR '','' (ui_groups user))"
proof -
  let ?f = "\<lambda>a. bt_insert REQUESTER_GROUPS (JStr (join_on CHR '','' (ui_groups user))) (bt_insert REQUESTER (JStr (ui_username user)) a)"
  obtain a where "jat (requester_on_create body user) [''metadata'', ''annotations''] = JObj (?f a)"
    using annotations_jat[OF assms, of ?f] unfolding requester_on_create_def by blast
  moreover have "REQUESTER_GROUPS \<noteq> REQUESTER" by (simp add: REQUESTER_GROUPS_def REQUESTER_def)
  ultimately show "jat (requester_on_create body user) [''metadata'', ''annotations'', REQUESTER] = JStr (ui_username user)"
    "jat (requester_on_create body user) [''metadata'', ''annotations'', REQUESTER_GROUPS] = JStr (join_on CHR '','' (ui_groups user))"
    by (simp_all add: bt_simps)
qed

lemma map_of_carry:
  "map_of (carry stored k a) = (map_of a)(k := jget (jat stored [''metadata'', ''annotations'']) k)"
  by (auto simp: carry_def bt_simps split: option.splits)

lemma requester_updated:
  assumes "is_object body" "k \<in> {REQUESTER, REQUESTER_GROUPS}"
  shows "jat (requester_on_update body stored) [''metadata'', ''annotations'', k] = jat stored [''metadata'', ''annotations'', k]"
proof -
  let ?f = "\<lambda>a. carry stored REQUESTER_GROUPS (carry stored REQUESTER a)"
  let ?obj = "annotations body ?f"
  obtain a where a: "jat ?obj [''metadata'', ''annotations''] = JObj (?f a)" using annotations_jat[OF assms(1)] by blast
  have k: "map_of (?f a) k = jget (jat stored [''metadata'', ''annotations'']) k" using assms(2) by (auto simp: map_of_carry)
  obtain ob m where om: "?obj = JObj ob" "map_of ob ''metadata'' = Some (JObj m)" "map_of m ''annotations'' = Some (JObj (?f a))"
  proof -
    obtain b where "body = JObj b" using assms(1) unfolding is_object_iff by blast
    then obtain ob m where "?obj = JObj ob" "map_of ob ''metadata'' = Some (JObj m)"
      by (simp add: annotations_def Let_def bt_simps)
    then show ?thesis using a that by (auto simp: jidx_def split: option.splits)
  qed
  show ?thesis
  proof (cases "?f a")
    case Nil
    then have "jget (jat stored [''metadata'', ''annotations'']) k = None" using k by simp
    moreover have "requester_on_update body stored = JObj (bt_insert ''metadata'' (JObj (bt_remove ''annotations'' m)) ob)"
      using om Nil unfolding requester_on_update_def Let_def by simp
    ultimately show ?thesis by (simp add: bt_simps jidx_def)
  next
    case (Cons x xs)
    then have "requester_on_update body stored = ?obj" using om unfolding requester_on_update_def Let_def by simp
    then show ?thesis using a k by (simp add: jidx_def)
  qed
qed

section \<open>Well-formed values\<close>

text \<open>A value as the decoder makes it: every object's keys sorted and distinct, all the way down.\<close>

fun json_wf :: "json \<Rightarrow> bool" where
  "json_wf (JArr xs) \<longleftrightarrow> list_all json_wf xs"
| "json_wf (JObj m) \<longleftrightarrow> bt_wf m \<and> list_all (\<lambda>e. json_wf (snd e)) m"
| "json_wf _ \<longleftrightarrow> True"

lemma wf_insert: "json_wf (JObj m) \<Longrightarrow> json_wf v \<Longrightarrow> json_wf (JObj (bt_insert k v m))"
  by (auto simp: list_all_iff bt_simps dest!: set_bt_insert)

lemma wf_remove: "json_wf (JObj m) \<Longrightarrow> json_wf (JObj (bt_remove k m))"
  by (auto simp: list_all_iff bt_simps set_bt_remove)

lemma wf_lookup: "json_wf (JObj m) \<Longrightarrow> map_of m k = Some v \<Longrightarrow> json_wf v"
  by (auto simp: list_all_iff dest!: map_of_SomeD)

lemma wf_jget: "json_wf v \<Longrightarrow> jget v k = Some x \<Longrightarrow> json_wf x"
  by (cases v) (simp_all add: wf_lookup del: json_wf.simps)

lemma wf_jidx: "json_wf v \<Longrightarrow> json_wf (jidx v k)"
  by (cases "jget v k") (simp_all add: jidx_def wf_jget)

lemma wf_jset: "json_wf v \<Longrightarrow> json_wf x \<Longrightarrow> jset v ks x = Some w \<Longrightarrow> json_wf w"
proof (induction v ks x arbitrary: w rule: jset.induct)
  case (1 v x)
  then show ?case by simp
next
  case (2 v k ks x)
  show ?case
  proof (cases v)
    case (JObj m)
    then obtain c where c: "jset (jidx v k) ks x = Some c" "w = JObj (bt_insert k c m)" using 2(5) by auto
    have "json_wf c" using 2(2)[OF JObj _ 2(4) c(1)] wf_jidx[OF 2(3)] by blast
    then show ?thesis using wf_insert c(2) 2(3) JObj by blast
  next
    case JNull
    then obtain c where c: "jset JNull ks x = Some c" "w = JObj [(k, c)]" using 2(5) by auto
    have "json_wf c" using 2(1)[OF JNull _ 2(4) c(1)] by simp
    then show ?thesis by (simp add: c(2) bt_wf_def)
  qed (use 2(5) in auto)
qed

lemma jset_step: "jset (JObj m) (k # ks) x = map_option (\<lambda>c. JObj (bt_insert k c m)) (jset (jidx (JObj m) k) ks x)"
  by simp

lemma jset_defined: "is_object v \<Longrightarrow> \<exists>w. jset v [k] x = Some w \<and> is_object w \<and> (json_wf v \<and> json_wf x \<longrightarrow> json_wf w)"
  using wf_insert by (auto simp: is_object_iff simp del: json_wf.simps)

lemma wf_annotations:
  assumes "is_object body" "json_wf body" "\<And>a. json_wf (JObj a) \<Longrightarrow> json_wf (JObj (f a))"
  shows "is_object (annotations body f) \<and> json_wf (annotations body f)"
proof -
  obtain b where b: "body = JObj b" using assms(1) unfolding is_object_iff by blast
  let ?meta = "case map_of b ''metadata'' of Some (JObj m) \<Rightarrow> m | _ \<Rightarrow> []"
  let ?a = "case map_of ?meta ''annotations'' of Some (JObj a) \<Rightarrow> a | _ \<Rightarrow> []"
  have e: "json_wf (JObj [])" by simp
  have m: "json_wf (JObj ?meta)" using wf_lookup[OF assms(2)[unfolded b], of "''metadata''"] e
    by (auto split: option.splits json.splits simp del: json_wf.simps)
  have a: "json_wf (JObj ?a)" using wf_lookup[OF m, of "''annotations''"] e
    by (auto split: option.splits json.splits simp del: json_wf.simps)
  have "annotations body f = JObj (bt_insert ''metadata'' (JObj (bt_insert ''annotations'' (JObj (f ?a)) ?meta)) b)"
    by (simp add: annotations_def b Let_def)
  then show ?thesis using wf_insert[OF assms(2)[unfolded b] wf_insert[OF m assms(3)[OF a]]] by (simp del: json_wf.simps)
qed

lemma wf_carry:
  assumes "json_wf stored" "json_wf (JObj a)"
  shows "json_wf (JObj (carry stored k a))"
proof (cases "jget (jat stored [''metadata'', ''annotations'']) k")
  case None
  show ?thesis unfolding carry_def None option.case by (rule wf_remove[OF assms(2)])
next
  case (Some v)
  have "json_wf (jat stored [''metadata'', ''annotations''])" using assms(1) by (simp add: wf_jidx del: json_wf.simps)
  then show ?thesis unfolding carry_def Some option.case by (rule wf_insert[OF assms(2) wf_jget[OF _ Some]])
qed

lemma wf_requester:
  assumes "is_object body" "json_wf body"
  shows "is_object (requester_on_create body user) \<and> json_wf (requester_on_create body user)"
    "json_wf stored \<Longrightarrow> is_object (requester_on_update body stored) \<and> json_wf (requester_on_update body stored)"
proof -
  show "is_object (requester_on_create body user) \<and> json_wf (requester_on_create body user)"
    unfolding requester_on_create_def by (rule wf_annotations[OF assms]) (intro wf_insert, auto)
  assume s: "json_wf stored"
  let ?obj = "annotations body (\<lambda>a. carry stored REQUESTER_GROUPS (carry stored REQUESTER a))"
  have w: "is_object ?obj \<and> json_wf ?obj" by (rule wf_annotations[OF assms]) (intro wf_carry s)
  then obtain ob where ob: "?obj = JObj ob" unfolding is_object_iff by blast
  have "json_wf (JObj (bt_insert ''metadata'' (JObj (bt_remove ''annotations'' m)) ob))" if "map_of ob ''metadata'' = Some (JObj m)" for m
    using w ob that wf_insert wf_remove wf_lookup by metis
  then show "is_object (requester_on_update body stored) \<and> json_wf (requester_on_update body stored)"
    using w unfolding requester_on_update_def Let_def ob by (auto split: option.splits json.splits simp del: json_wf.simps)
qed

lemma csr_on_create_total:
  assumes "is_object body" "json_wf body"
  shows "\<exists>r. csr_on_create user body = Some r \<and> (\<forall>obj. r = Inr obj \<longrightarrow> is_object obj \<and> json_wf obj)"
proof -
  obtain obj where obj: "(if is_object (jidx body ''spec'') then Some body else jset body [''spec''] (JObj [])) = Some obj"
    "is_object obj" "json_wf obj" "is_object (jidx obj ''spec'')"
  proof (cases "is_object (jidx body ''spec'')")
    case True
    then show ?thesis using assms that by simp
  next
    case False
    obtain w where w: "jset body [''spec''] (JObj []) = Some w" "is_object w" "json_wf w"
      using jset_defined[OF assms(1), of "''spec''" "JObj []"] assms(2) by (auto simp del: jset.simps)
    have "jidx w ''spec'' = JObj []" using jset_jat[OF w(1)] by simp
    then show ?thesis using w that False by (simp del: jset.simps json_wf.simps)
  qed
  obtain spec where spec: "jidx obj ''spec'' = JObj spec" using obj(4) unfolding is_object_iff by blast
  let ?spec = "JObj (bt_remove ''extra'' (bt_remove ''uid'' (bt_insert ''groups'' (JArr (map JStr (ui_groups user)))
      (bt_insert ''username'' (JStr (ui_username user)) spec))))"
  have "json_wf (JObj spec)" using wf_jidx[OF obj(3), of "''spec''"] spec by simp
  then have "json_wf ?spec" by (intro wf_remove wf_insert) (simp_all add: list_all_iff)
  then obtain w where "jset obj [''spec''] ?spec = Some w" "is_object w" "json_wf w"
    using jset_defined[OF obj(2), of "''spec''" ?spec] obj(3) by blast
  then show ?thesis unfolding csr_on_create_def obj(1) Let_def option.case spec json.case by (auto simp del: jset.simps json_wf.simps)
qed

lemma keep_stored_total:
  assumes "is_object body" "json_wf body" "jidx body ''status'' = JNull \<or> is_object (jidx body ''status'')" "json_wf stored"
  shows "\<exists>obj. keep_stored sub body stored = Some obj \<and> is_object obj \<and> json_wf obj"
proof -
  obtain o0 where o0: "jset body [''spec''] (jidx stored ''spec'') = Some o0" "is_object o0" "json_wf o0"
    using jset_defined[OF assms(1), of "''spec''" "jidx stored ''spec''"] assms(2) wf_jidx[OF assms(4)] by blast
  have st: "jidx o0 ''status'' = jidx body ''status''" by (rule jset_other[OF o0(1)]) simp
  consider "sub = None" | "sub = Some ''approval''" | "\<exists>s. sub = Some s \<and> s \<noteq> ''approval''" by (cases sub) auto
  then show ?thesis
  proof cases
    case 1
    then show ?thesis using jset_defined[OF o0(2), of "''status''" "jidx stored ''status''"] o0 wf_jidx[OF assms(4)]
      by (auto simp: keep_stored_def simp del: jset.simps json_wf.simps)
  next
    case 2
    show ?thesis
    proof (cases "jget (jidx stored ''status'') ''certificate''")
      case (Some c)
      have "json_wf c" using wf_jget[OF wf_jidx[OF assms(4)] Some] .
      moreover obtain s where s: "jset (jidx o0 ''status'') [''certificate''] c = Some s" using assms(3) st by (auto simp: is_object_iff)
      ultimately have "json_wf s" using wf_jset[OF wf_jidx[OF o0(3)] _ s] by blast
      moreover have "jset o0 [''status'', ''certificate''] c = jset o0 [''status''] s"
      proof -
        obtain m where m: "o0 = JObj m" using o0(2) unfolding is_object_iff by blast
        show ?thesis using s unfolding m jset_step by (simp only: option.map jset.simps(1))
      qed
      ultimately show ?thesis using jset_defined[OF o0(2), of "''status''" s] o0 2 Some by (auto simp: keep_stored_def simp del: jset.simps json_wf.simps)
    next
      case None
      obtain o1 where o1: "jtouch o0 [''status''] = Some o1" "is_object o1" "json_wf o1"
        unfolding jtouch_def using jset_defined[OF o0(2), of "''status''" "jat o0 [''status'']"] o0(3) wf_jidx[OF o0(3)] by auto
      have "\<exists>obj. (case jidx o1 ''status'' of JObj m \<Rightarrow> jset o1 [''status''] (JObj (bt_remove ''certificate'' m)) | _ \<Rightarrow> Some o1) = Some obj \<and>
          is_object obj \<and> json_wf obj"
      proof (cases "jidx o1 ''status''")
        case (JObj m)
        then have "json_wf (JObj (bt_remove ''certificate'' m))" using wf_jidx[OF o1(3), of "''status''"] wf_remove by metis
        then show ?thesis unfolding JObj json.case using jset_defined[OF o1(2)] o1(3) by blast
      qed (use o1 in simp_all)
      then show ?thesis using o0(1) o1(1) None 2 by (simp add: keep_stored_def del: jset.simps json_wf.simps)
    qed
  next
    case 3
    then show ?thesis using o0 by (auto simp: keep_stored_def simp del: jset.simps json_wf.simps)
  qed
qed

lemma csr_admit_total:
  assumes "is_object body" "json_wf body" "jidx body ''status'' = JNull \<or> is_object (jidx body ''status'')"
    "\<forall>stored. old = Some stored \<longrightarrow> is_object stored \<and> json_wf stored"
  shows "\<exists>r. csr_admit rq op body old = Some r \<and> (\<forall>obj. r = Inr obj \<longrightarrow> is_object obj \<and> json_wf obj)"
proof (cases op)
  case Create
  then show ?thesis using csr_on_create_total[OF assms(1,2)] assms(1,2) by (simp add: csr_admit_def)
next
  case Update
  show ?thesis
  proof (cases old)
    case None
    then show ?thesis using Update assms(1,2) by (simp add: csr_admit_def)
  next
    case (Some stored)
    then obtain obj where obj: "keep_stored (at_subresource rq) body stored = Some obj" "is_object obj" "json_wf obj"
      using keep_stored_total[OF assms(1-3)] assms(4) by blast
    then show ?thesis using Update Some
      by (auto simp: csr_admit_def Let_def map_sum_def split: option.splits sum.splits simp del: json_wf.simps)
  qed
next
  case Delete
  then show ?thesis using assms(1,2) by (simp add: csr_admit_def)
qed

lemma strip_gc_total: "is_object v \<Longrightarrow> \<exists>w. strip_gc v = Some w"
proof -
  assume "is_object v"
  then obtain v' where v': "jset v [''metadata''] (jat v [''metadata'']) = Some v'" "is_object v'"
    using jset_defined[of v "''metadata''"] by blast
  have "\<exists>w. jset v' [''metadata''] x = Some w" for x using jset_defined[OF v'(2)] by blast
  then show ?thesis using v'(1) unfolding strip_gc_def jtouch_def by (auto split: json.splits simp del: jset.simps)
qed

lemma escalation_total:
  assumes "is_object obj" "\<forall>stored. old = Some stored \<longrightarrow> is_object stored \<and> json_wf stored"
  shows "\<exists>e. escalation rq obj old = Some e"
proof -
  have g: "\<exists>b. (case old of None \<Rightarrow> Some False | Some stored \<Rightarrow> only_gc_fields_changed stored obj) = Some b"
  proof (cases old)
    case (Some stored)
    obtain a b where "strip_gc stored = Some a" "strip_gc obj = Some b" using strip_gc_total assms Some by blast
    then show ?thesis by (simp add: Some only_gc_fields_changed_def)
  qed auto
  have "\<exists>e. confirm dev rd user resource ns obj old = Some e" for dev rd user resource ns
  proof -
    obtain b where b: "(case old of None \<Rightarrow> Some False | Some stored \<Rightarrow> only_gc_fields_changed stored obj) = Some b" using g by blast
    show ?thesis unfolding confirm_def b Let_def by (cases b) (simp_all split: sum.splits)
  qed
  then show ?thesis by (auto simp: escalation_def split: option.splits)
qed

section \<open>Properties\<close>

text \<open>
  C36. The stamps name the creator. However a certificate request was created, and whoever
  updated it since with whatever body, its \<^verbatim>\<open>spec.username\<close> and \<^verbatim>\<open>spec.groups\<close> are those of the
  user who created it, and one an enrolling machine created asks for the forge's node signer
  and no other. The same for the requester annotations of every object of the storage group.
\<close>

theorem stamps_name_the_creator:
  assumes "lifetime grp resource user obj"
  shows "(grp = CSR_GROUP \<and> resource = CSR_RESOURCE \<longrightarrow>
      jat obj [''spec'', ''username''] = JStr (ui_username user) \<and>
      jat obj [''spec'', ''groups''] = JArr (map JStr (ui_groups user)) \<and>
      (is_bootstrapper user \<longrightarrow> jat obj [''spec'', ''signerName''] = JStr FORGE_NODE_SIGNER)) \<and>
    (grp = REQUESTER_GROUP \<longrightarrow>
      jat obj [''metadata'', ''annotations'', REQUESTER] = JStr (ui_username user) \<and>
      jat obj [''metadata'', ''annotations'', REQUESTER_GROUPS] = JStr (join_on CHR '','' (ui_groups user)))"
  using assms
proof (induction rule: lifetime.induct)
  case (created rq body obj)
  have "csr_on_create (at_user rq) body = Some (Inr obj)" if "at_group rq = CSR_GROUP" "at_resource rq = CSR_RESOURCE"
    using after_mutating_csr[OF created(1) that] created(3) by (simp add: csr_admit_def)
  moreover have "obj = requester_on_create body (at_user rq)" if "at_group rq = REQUESTER_GROUP"
    using after_mutating_requester[OF created(1) that] by simp
  ultimately show ?case using csr_on_create_spec requester_created[OF created(2)] by blast
next
  case (updated rq user stored body obj)
  have "jidx obj ''spec'' = jidx stored ''spec''" if "at_group rq = CSR_GROUP" "at_resource rq = CSR_RESOURCE"
    using keep_stored_spec[OF csr_update_keeps[OF after_mutating_csr[OF updated(2) that]]] .
  moreover have "obj = requester_on_update body stored" if "at_group rq = REQUESTER_GROUP"
    using after_mutating_requester[OF updated(2) that] by simp
  ultimately show ?case using updated.IH requester_updated[OF updated(3), of _ stored] by auto
qed

theorem stamps_name_the_creator_witness:
  "jat (JObj [(''spec'', JObj [(''groups'', JArr [JStr ''dev'']), (''username'', JStr ''alice'')]), (''status'', JNull)])
     [''spec'', ''username''] = JStr ''alice'' \<and>
   lifetime CSR_GROUP CSR_RESOURCE ex_alice
     (JObj [(''spec'', JObj [(''groups'', JArr [JStr ''dev'']), (''username'', JStr ''alice'')]), (''status'', JNull)])"
proof -
  let ?rq = "\<lambda>user verb. \<lparr>at_user = user, at_verb = verb, at_group = CSR_GROUP, at_version = ''v1'', at_resource = CSR_RESOURCE,
    at_subresource = None, at_namespace = None, at_name = None, at_dry_run = False, at_rbac = None, at_warnings = []\<rparr>"
  let ?spec = "JObj [(''groups'', JArr [JStr ''dev'']), (''username'', JStr ''alice'')]"
  let ?obj = "JObj [(''spec'', ?spec), (''status'', JNull)]"
  have g: "CSR_GROUP \<noteq> REQUESTER_GROUP" by (simp add: CSR_GROUP_def REQUESTER_GROUP_def)
  have "after_mutating (?rq ex_alice ''create'') Create (JObj []) None = Some (Inr (JObj [(''spec'', ?spec)]))"
    using g by (simp add: after_mutating_def csr_admit_def csr_on_create_def is_bootstrapper_def BOOTSTRAPPERS_def ex_alice_def escalation_def
        bt_remove_def less_list_code)
  from created[OF this] have c: "lifetime CSR_GROUP CSR_RESOURCE ex_alice (JObj [(''spec'', ?spec)])" by simp
  have "after_mutating (?rq ex_bob ''update'') Update (JObj [(''spec'', JObj [(''username'', JStr ''bob'')])]) (Some (JObj [(''spec'', ?spec)])) =
      Some (Inr ?obj)"
    using g by (simp add: after_mutating_def csr_admit_def keep_stored_def escalation_def less_list_code)
  from updated[OF _ this, of ex_alice] c have l: "lifetime CSR_GROUP CSR_RESOURCE ex_alice ?obj" by simp
  from stamps_name_the_creator[OF l] l show ?thesis by (simp add: ex_alice_def)
qed



text \<open>
  Approving and signing need their own grants. With the authorizer in place, an update of a
  certificate request through the approval subresource is admitted only if the caller may
  approve for the request's signer, by its name or its domain's wildcard; the issued
  certificate changes only through the status subresource, and only if the caller may sign for
  that signer; and an update of the request itself leaves its status as it is.
\<close>

theorem certificate_needs_signer:
  assumes "after_mutating rq Update body (Some stored) = Some (Inr obj)"
    and "at_group rq = CSR_GROUP" "at_resource rq = CSR_RESOURCE" "at_rbac rq = Some (dev, rd)"
    and "at_subresource rq \<in> {None, Some ''approval'', Some ''status''}"
  shows "(at_subresource rq = None \<longrightarrow> jidx obj ''status'' = jidx stored ''status'') \<and>
    (at_subresource rq = Some ''approval'' \<longrightarrow>
      (\<exists>name \<in> set (signer_names (str_or [] (jat stored [''spec'', ''signerName'']))).
         authorize dev rd (at_user rq) (signer_request ''approve'' name))) \<and>
    (jat obj [''status'', ''certificate''] \<noteq> jat stored [''status'', ''certificate''] \<longrightarrow>
      at_subresource rq = Some ''status'' \<and>
      (\<exists>name \<in> set (signer_names (str_or [] (jat stored [''spec'', ''signerName'']))).
         authorize dev rd (at_user rq) (signer_request ''sign'' name)))"
proof -
  note c = after_mutating_csr[OF assms(1-3)]
  note k = csr_update_keeps[OF c]
  let ?signer = "str_or [] (jat stored [''spec'', ''signerName''])"
  have r: "map_sum id (\<lambda>_. obj)
      (if at_subresource rq = Some ''approval'' then require (dev, rd) (at_user rq) ''approve'' ?signer
       else if at_subresource rq = Some ''status'' \<and> jat obj [''status'', ''certificate''] \<noteq> jat stored [''status'', ''certificate'']
       then require (dev, rd) (at_user rq) ''sign'' ?signer else Inr ()) = Inr obj"
    using c unfolding csr_admit_def Let_def by (simp only: prod.case operation.case option.case k assms(4) option.inject)
  have ap: "\<exists>name \<in> set (signer_names ?signer). authorize dev rd (at_user rq) (signer_request ''approve'' name)"
    if "at_subresource rq = Some ''approval''"
    using r that by (cases "require (dev, rd) (at_user rq) ''approve'' ?signer") (simp_all add: require_ok)
  have sg: "\<exists>name \<in> set (signer_names ?signer). authorize dev rd (at_user rq) (signer_request ''sign'' name)"
    if "at_subresource rq = Some ''status''" "jat obj [''status'', ''certificate''] \<noteq> jat stored [''status'', ''certificate'']"
    using r that by (cases "require (dev, rd) (at_user rq) ''sign'' ?signer") (simp_all add: require_ok)
  have "at_subresource rq = Some ''status''" if "jat obj [''status'', ''certificate''] \<noteq> jat stored [''status'', ''certificate'']"
    using that assms(5) keep_stored_status[OF k] by auto
  then show ?thesis using keep_stored_status(1)[OF k] ap sg by blast
qed

theorem certificate_needs_signer_witness:
  "\<exists>name \<in> set (signer_names FORGE_NODE_SIGNER). authorize False ex_reads \<lparr>ui_username = ''root'', ui_groups = [''system:masters'']\<rparr> (signer_request ''sign'' name)"
proof -
  let ?root = "\<lparr>ui_username = ''root'', ui_groups = [''system:masters'']\<rparr>"
  let ?rq = "\<lparr>at_user = ?root, at_verb = ''update'', at_group = CSR_GROUP, at_version = ''v1'', at_resource = CSR_RESOURCE,
    at_subresource = Some ''status'', at_namespace = None, at_name = None, at_dry_run = False, at_rbac = Some (False, ex_reads), at_warnings = []\<rparr>"
  let ?stored = "JObj [(''spec'', JObj [(''signerName'', JStr FORGE_NODE_SIGNER)])]"
  let ?obj = "JObj [(''spec'', JObj [(''signerName'', JStr FORGE_NODE_SIGNER)]), (''status'', JObj [(''certificate'', JStr ''c'')])]"
  have a: "authorize False ex_reads ?root r" for r using authorize_iff by (simp add: superuser_def)
  have "CSR_GROUP \<noteq> REQUESTER_GROUP" "CSR_GROUP \<noteq> ESC_GROUP" by (simp_all add: CSR_GROUP_def REQUESTER_GROUP_def ESC_GROUP_def)
  then have m: "after_mutating ?rq Update (JObj [(''status'', JObj [(''certificate'', JStr ''c'')])]) (Some ?stored) = Some (Inr ?obj)"
    by (simp add: after_mutating_def csr_admit_def keep_stored_def escalation_def applies_def require_def a signer_names_def less_list_code)
  have d: "jat ?obj [''status'', ''certificate''] \<noteq> jat ?stored [''status'', ''certificate'']" by simp
  have s: "str_or [] (jat ?stored [''spec'', ''signerName'']) = FORGE_NODE_SIGNER" by simp
  show ?thesis using certificate_needs_signer[OF m, of False ex_reads] d unfolding s by simp
qed

end
