(* ===== verification/Claims.thy ===== *)
theory Claims
  imports Storage
begin

text \<open>
  \<^verbatim>\<open>pkg/apiserver/src/service_ip.rs\<close> and \<^verbatim>\<open>node_port.rs\<close>: the addresses and node ports of
  Services, and the parts of \<^verbatim>\<open>handlers/resource.rs\<close> and \<^verbatim>\<open>builtin_admission.rs\<close> that claim them
  and give them back. An address is a key in the datastore, claimed by an atomic
  create-if-absent. Every other apiserver runs the same code at the same time, so the code is
  written as programs that stop at each access to the datastore: \<open>prog\<close> has one constructor
  per access, with what the program does with the answer. The programs run one after the
  other in a sequential reading, and interleaved in the theory \<open>ServiceRun\<close>. What the code leaves to
  chance, a random start and what a cache that trails the datastore shows, is an answer too.
\<close>

section \<open>Programs over the datastore\<close>

datatype 'a prog =
    PRet 'a
  | PPanic
  | PCreate string json "api_error + json \<Rightarrow> 'a prog"
  | PUpdate string json "nat option" "api_error + json \<Rightarrow> 'a prog"
  | PDelete string "nat option" "api_error + unit \<Rightarrow> 'a prog"
  | PGet string "api_error + json \<Rightarrow> 'a prog"
  | PSnapshot string "string list option \<Rightarrow> 'a prog"
  | PDraw "nat \<Rightarrow> 'a prog"

primrec bindp :: "'a prog \<Rightarrow> ('a \<Rightarrow> 'b prog) \<Rightarrow> 'b prog" where
  "bindp (PRet x) g = g x"
| "bindp PPanic g = PPanic"
| "bindp (PCreate k v f) g = PCreate k v (\<lambda>r. bindp (f r) g)"
| "bindp (PUpdate k v prev f) g = PUpdate k v prev (\<lambda>r. bindp (f r) g)"
| "bindp (PDelete k prev f) g = PDelete k prev (\<lambda>r. bindp (f r) g)"
| "bindp (PGet k f) g = PGet k (\<lambda>r. bindp (f r) g)"
| "bindp (PSnapshot p f) g = PSnapshot p (\<lambda>r. bindp (f r) g)"
| "bindp (PDraw f) g = PDraw (\<lambda>n. bindp (f n) g)"

text \<open>A step that may panic (\<open>None\<close>), and the \<open>?\<close> operator.\<close>

definition or_panic :: "'a option \<Rightarrow> ('a \<Rightarrow> 'b prog) \<Rightarrow> 'b prog" where
  "or_panic v g = (case v of Some x \<Rightarrow> g x | None \<Rightarrow> PPanic)"

definition ok :: "('e + 'a) prog \<Rightarrow> ('a \<Rightarrow> ('e + 'b) prog) \<Rightarrow> ('e + 'b) prog" where
  "ok p g = bindp p (\<lambda>r. case r of Inl e \<Rightarrow> PRet (Inl e) | Inr x \<Rightarrow> g x)"

section \<open>IPv4 addresses\<close>

text \<open>\<open>Ipv4Addr\<close> as its number: four octets in decimal, without leading zeros.\<close>

definition show_ipv4 :: "nat \<Rightarrow> string" where
  "show_ipv4 v = join_on CHR ''.'' (map show_nat [v div 16777216 mod 256, v div 65536 mod 256, v div 256 mod 256, v mod 256])"

definition parse_octet :: "string \<Rightarrow> nat option" where
  "parse_octet s =
     (if s \<noteq> [] \<and> length s \<le> 3 \<and> list_all is_digit s \<and> (hd s = CHR ''0'' \<longrightarrow> length s = 1) \<and> digits_val s < 256
      then Some (digits_val s) else None)"

definition parse_ipv4 :: "string \<Rightarrow> nat option" where
  "parse_ipv4 s =
     (case map parse_octet (split_on CHR ''.'' s) of
        [Some a, Some b, Some c, Some d] \<Rightarrow> Some (a * 16777216 + b * 65536 + c * 256 + d)
      | _ \<Rightarrow> None)"

section \<open>Addresses\<close>

definition SIP_PREFIX :: string where "SIP_PREFIX = ''/registry/serviceipallocations''"

definition sip_key :: "string \<Rightarrow> string" where
  "sip_key ip = SIP_PREFIX @ ''/'' @ ip"

definition parse_cidr :: "string \<Rightarrow> (nat \<times> nat) option" where
  "parse_cidr cidr =
     (case split_once CHR ''/'' cidr of
        None \<Rightarrow> None
      | Some (addr, prefix) \<Rightarrow>
          (case (parse_ipv4 addr, parse_uint 32 prefix) of
             (Some a, Some p) \<Rightarrow> Some (a, p)
           | _ \<Rightarrow> None))"

definition claim_key :: "string \<Rightarrow> json \<Rightarrow> (api_error + bool) prog" where
  "claim_key k rec =
     PCreate k rec (\<lambda>r. case r of
        Inr _ \<Rightarrow> PRet (Inr True)
      | Inl e \<Rightarrow> if is_already_exists e then PRet (Inr False) else PRet (Inl e))"

definition sip_claim :: "string \<Rightarrow> string \<Rightarrow> string \<Rightarrow> (api_error + bool) prog" where
  "sip_claim ip namespace name =
     claim_key (sip_key ip) (JObj [(''ip'', JStr ip), (''name'', JStr name), (''namespace'', JStr namespace)])"

definition given_ip :: "json \<Rightarrow> string option" where
  "given_ip obj =
     (case as_str (jat obj [''spec'', ''clusterIP'']) of
        Some ip \<Rightarrow> if ip \<noteq> ''None'' \<and> ip \<noteq> [] then Some ip else None
      | None \<Rightarrow> None)"

definition sip_release :: "json \<Rightarrow> unit prog" where
  "sip_release obj =
     (case given_ip obj of
        Some ip \<Rightarrow> PDelete (sip_key ip) None (\<lambda>_. PRet ())
      | None \<Rightarrow> PRet ())"

definition svc_namespace :: "json \<Rightarrow> string" where
  "svc_namespace obj = str_or ''default'' (jat obj [''metadata'', ''namespace''])"

definition svc_name :: "json \<Rightarrow> string" where
  "svc_name obj = str_or [] (jat obj [''metadata'', ''name''])"

definition sip_claim_for :: "json \<Rightarrow> unit prog" where
  "sip_claim_for obj =
     (case given_ip obj of
        Some ip \<Rightarrow> bindp (sip_claim ip (svc_namespace obj) (svc_name obj)) (\<lambda>_. PRet ())
      | None \<Rightarrow> PRet ())"

text \<open>The claim of every address a listed Service holds, counted.\<close>

fun sip_reconcile :: "json list \<Rightarrow> nat \<Rightarrow> nat prog" where
  "sip_reconcile [] n = PRet n"
| "sip_reconcile (svc # svcs) n =
     (case given_ip svc of
        None \<Rightarrow> sip_reconcile svcs n
      | Some ip \<Rightarrow>
          bindp (sip_claim ip (svc_namespace svc) (svc_name svc))
            (\<lambda>r. sip_reconcile svcs (if r = Inr True then n + 1 else n)))"

text \<open>The addresses more than one of the listed Services hold.\<close>

definition add_holder :: "(string, string list) btree \<Rightarrow> json \<Rightarrow> (string, string list) btree" where
  "add_holder by_ip svc =
     (case given_ip svc of
        None \<Rightarrow> by_ip
      | Some ip \<Rightarrow>
          bt_insert ip ((case map_of by_ip ip of Some v \<Rightarrow> v | None \<Rightarrow> []) @ [svc_namespace svc @ ''/'' @ svc_name svc]) by_ip)"

definition duplicates :: "json list \<Rightarrow> (string \<times> string list) list" where
  "duplicates items = filter (\<lambda>(ip, v). 1 < length v) (foldl add_holder [] items)"

definition sip_claimed :: "string list option \<Rightarrow> nat list" where
  "sip_claimed keys =
     (case keys of
        None \<Rightarrow> []
      | Some ks \<Rightarrow> List.map_filter (\<lambda>k. Option.bind (strip_prefix k (SIP_PREFIX @ ''/'')) parse_ipv4) ks)"

definition static_band :: "nat \<Rightarrow> nat" where
  "static_band cnt = min (min (max (cnt div 16) 16) 256) cnt"

definition spin :: "nat \<Rightarrow> nat \<Rightarrow> nat \<Rightarrow> nat list" where
  "spin start lo hi =
     (let len = hi - lo; first = (if len = 0 then 0 else start mod len)
      in map (\<lambda>i. lo + (first + i) mod len) [0..<len])"

definition candidates :: "nat \<Rightarrow> nat \<Rightarrow> nat list" where
  "candidates cnt start =
     (let band = static_band cnt
      in filter (\<lambda>off. 1 \<le> off \<and> off + 1 < cnt) (spin start band cnt @ spin start 0 band))"

fun try_addresses :: "nat \<Rightarrow> string \<Rightarrow> string \<Rightarrow> string \<Rightarrow> nat list \<Rightarrow> nat list \<Rightarrow> (api_error + string) prog" where
  "try_addresses base cidr namespace name [] taken = PRet (Inl (invalid (''no ClusterIP available in '' @ cidr)))"
| "try_addresses base cidr namespace name (off # offs) taken =
     (let v = base + off
      in if 2 ^ 32 \<le> v then try_addresses base cidr namespace name offs taken
         else if v \<in> set taken then try_addresses base cidr namespace name offs taken
         else
           ok (sip_claim (show_ipv4 v) namespace name) (\<lambda>won.
             if won then PRet (Inr (show_ipv4 v))
             else try_addresses base cidr namespace name offs (v # taken)))"

definition set_address :: "json \<Rightarrow> string \<Rightarrow> json option" where
  "set_address obj ip =
     Option.bind (jset obj [''spec'', ''clusterIP''] (JStr ip)) (\<lambda>o1.
     Option.bind (jset o1 [''spec'', ''clusterIPs''] (JArr [JStr ip])) (\<lambda>o2.
       if as_str (jat o2 [''spec'', ''type'']) = None then jset o2 [''spec'', ''type''] (JStr ''ClusterIP'') else Some o2))"

definition sip_allocate :: "string \<Rightarrow> json \<Rightarrow> (api_error + json) prog" where
  "sip_allocate cidr obj =
     (if str_or ''ClusterIP'' (jat obj [''spec'', ''type'']) = ''ExternalName'' then PRet (Inr obj)
      else if as_str (jat obj [''spec'', ''clusterIP'']) = Some ''None''
      then or_panic (jset obj [''spec'', ''clusterIPs''] (JArr [JStr ''None''])) (\<lambda>o1. PRet (Inr o1))
      else
        (case given_ip obj of
           Some ip \<Rightarrow>
             ok (sip_claim ip (svc_namespace obj) (svc_name obj)) (\<lambda>won.
               if \<not> won then PRet (Inl (invalid (''ClusterIP '' @ ip @ '' is already allocated'')))
               else or_panic (jset obj [''spec'', ''clusterIPs''] (JArr [JStr ip])) (\<lambda>o1. PRet (Inr o1)))
         | None \<Rightarrow>
             (case parse_cidr cidr of
                None \<Rightarrow> PRet (Inr obj)
              | Some (base, prefix) \<Rightarrow>
                  PSnapshot (SIP_PREFIX @ ''/'') (\<lambda>keys. PDraw (\<lambda>start.
                    ok (try_addresses base cidr (svc_namespace obj) (svc_name obj)
                          (candidates (2 ^ (32 - min prefix 32)) start) (sip_claimed keys))
                      (\<lambda>ip. or_panic (set_address obj ip) (\<lambda>o1. PRet (Inr o1))))))))"

section \<open>Node ports\<close>

definition NP_PREFIX :: string where "NP_PREFIX = ''/registry/servicenodeportallocations''"

definition np_key :: "nat \<Rightarrow> string" where
  "np_key port = NP_PREFIX @ ''/'' @ show_nat port"

definition parse_range :: "string \<Rightarrow> (nat \<times> nat) option" where
  "parse_range s =
     (case split_once CHR ''-'' s of
        None \<Rightarrow> None
      | Some (a, b) \<Rightarrow>
          (case (parse_uint 16 (trim a), parse_uint 16 (trim b)) of
             (Some x, Some y) \<Rightarrow> if 0 < x \<and> x \<le> y then Some (x, y) else None
           | _ \<Rightarrow> None))"

definition svc_type :: "json \<Rightarrow> string" where
  "svc_type svc = str_or ''ClusterIP'' (jat svc [''spec'', ''type''])"

definition allocates :: "json \<Rightarrow> bool" where
  "allocates svc =
     (if svc_type svc = ''NodePort'' then True
      else if svc_type svc = ''LoadBalancer'' then as_bool (jat svc [''spec'', ''allocateLoadBalancerNodePorts'']) \<noteq> Some False
      else False)"

definition may_have :: "json \<Rightarrow> bool" where
  "may_have svc \<longleftrightarrow> svc_type svc = ''NodePort'' \<or> svc_type svc = ''LoadBalancer''"

definition has_cluster_ip :: "json \<Rightarrow> bool" where
  "has_cluster_ip svc \<longleftrightarrow> svc_type svc \<noteq> ''ExternalName''"

definition node_port :: "json \<Rightarrow> nat" where
  "node_port p = (case as_u64 (jidx p ''nodePort'') of Some n \<Rightarrow> if n \<le> 65535 then n else 0 | None \<Rightarrow> 0)"

definition proto :: "json \<Rightarrow> string" where
  "proto p = str_or ''TCP'' (jidx p ''protocol'')"

definition svc_ports :: "json \<Rightarrow> json list" where
  "svc_ports svc = arr (jat svc [''spec'', ''ports''])"

text \<open>The code's set of ports, as a list without repetitions.\<close>

definition held :: "json \<Rightarrow> nat list" where
  "held svc = remdups (filter (\<lambda>n. n \<noteq> 0) (map node_port (svc_ports svc)))"

definition np_invalid :: "json \<Rightarrow> string list \<Rightarrow> api_error" where
  "np_invalid svc errs =
     invalid (''Service '' @ quoted (str_or [] (jat svc [''metadata'', ''name''])) @ '' is invalid: '' @
       (case errs of [] \<Rightarrow> [] | e # es \<Rightarrow> e @ concat (map (\<lambda>x. '', '' @ x) es)))"

definition np_claim :: "nat \<Rightarrow> json \<Rightarrow> (api_error + bool) prog" where
  "np_claim port svc =
     claim_key (np_key port)
       (JObj [(''name'', jat svc [''metadata'', ''name'']), (''namespace'', jat svc [''metadata'', ''namespace'']),
              (''port'', JNum (NInt (int port)))])"

definition claimed_view :: "string list option \<Rightarrow> nat list" where
  "claimed_view keys =
     (case keys of
        None \<Rightarrow> []
      | Some ks \<Rightarrow> List.map_filter (\<lambda>k. Option.bind (strip_prefix k (NP_PREFIX @ ''/'')) (parse_uint 16)) ks)"

record np_plan =
  np_claimed :: "string list"
  np_release :: "string list"

fun delete_all :: "string list \<Rightarrow> unit prog" where
  "delete_all [] = PRet ()"
| "delete_all (k # ks) = PDelete k None (\<lambda>_. delete_all ks)"

definition plan_commit :: "np_plan \<Rightarrow> unit prog" where
  "plan_commit p = delete_all (np_release p)"

definition plan_abort :: "np_plan \<Rightarrow> unit prog" where
  "plan_abort p = delete_all (np_claimed p)"

section \<open>What an update carries over\<close>

definition carry_ip :: "json \<Rightarrow> json \<Rightarrow> (json \<times> string list) option" where
  "carry_ip stored new =
     (let oip = str_or [] (jat stored [''spec'', ''clusterIP'']);
          nip = str_or [] (jat new [''spec'', ''clusterIP''])
      in if has_cluster_ip stored \<and> oip \<noteq> [] then
           (if has_cluster_ip new then
              (if nip = [] then
                 Option.bind (jset new [''spec'', ''clusterIP''] (JStr oip)) (\<lambda>n1.
                   case jat stored [''spec'', ''clusterIPs''] of
                     JArr ips \<Rightarrow> map_option (\<lambda>n2. (n2, [])) (jset n1 [''spec'', ''clusterIPs''] (JArr ips))
                   | _ \<Rightarrow> Some (n1, []))
               else if nip \<noteq> oip
               then Some (new, [''spec.clusterIP: Invalid value: '' @ quoted nip @ '': field is immutable''])
               else Some (new, []))
            else if nip = [] \<or> nip = oip then
              Option.bind (jtouch new [''spec'']) (\<lambda>n1.
                case jidx n1 ''spec'' of
                  JObj m \<Rightarrow> map_option (\<lambda>n2. (n2, [])) (jset n1 [''spec''] (JObj (bt_remove ''clusterIPs'' (bt_remove ''clusterIP'' m))))
                | _ \<Rightarrow> Some (n1, []))
            else Some (new, []))
         else Some (new, []))"

definition stored_port :: "json list \<Rightarrow> json \<Rightarrow> nat" where
  "stored_port old_ports p =
     (case find (\<lambda>q. str_or [] (jidx q ''name'') = str_or [] (jidx p ''name'')) old_ports of
        Some q \<Rightarrow> node_port q
      | None \<Rightarrow> 0)"

definition carry_port :: "bool \<Rightarrow> bool \<Rightarrow> json list \<Rightarrow> json \<Rightarrow> json option" where
  "carry_port keep new_may old_ports p =
     (let prev = stored_port old_ports p
      in if prev = 0 then Some p
         else if new_may \<and> keep \<and> node_port p = 0 then jset p [''nodePort''] (JNum (NInt (int prev)))
         else if \<not> new_may \<and> node_port p = prev then
           (case p of JObj m \<Rightarrow> Some (JObj (bt_remove ''nodePort'' m)) | _ \<Rightarrow> None)
         else Some p)"

definition carry_ports :: "json \<Rightarrow> json \<Rightarrow> json option" where
  "carry_ports stored new =
     Option.bind (jtouch new [''spec'', ''ports'']) (\<lambda>n1.
       case jat n1 [''spec'', ''ports''] of
         JArr ps \<Rightarrow>
           Option.bind (those (map (carry_port (may_have stored) (may_have new) (svc_ports stored)) ps))
             (\<lambda>ps'. jset n1 [''spec'', ''ports''] (JArr ps'))
       | _ \<Rightarrow> Some n1)"

definition at_port :: "nat \<Rightarrow> string \<Rightarrow> string" where
  "at_port i text = ''spec.ports['' @ show_nat i @ ''].nodePort: '' @ text"

definition port_errors :: "nat \<times> nat \<Rightarrow> json \<Rightarrow> string list" where
  "port_errors rng new =
     (let ports = List.enumerate 0 (map node_port (svc_ports new))
      in (if \<not> may_have new
          then List.map_filter (\<lambda>(i, n). if n \<noteq> 0
                 then Some (at_port i (''Forbidden: may not be used when `type` is '' @ [CHR 0x27] @ svc_type new @ [CHR 0x27])) else None) ports
          else []) @
         List.map_filter (\<lambda>(i, n). if n \<noteq> 0 \<and> may_have new \<and> \<not> (fst rng \<le> n \<and> n \<le> snd rng)
           then Some (at_port i (''Invalid value: '' @ show_nat n @
             '': provided port is not in the valid range. The range of valid ports is '' @ show_nat (fst rng) @ ''-'' @ show_nat (snd rng)))
           else None) ports)"

definition patch_and_check :: "nat \<times> nat \<Rightarrow> json option \<Rightarrow> json \<Rightarrow> (api_error + json) option" where
  "patch_and_check rng old new0 =
     Option.bind
       (case old of
          None \<Rightarrow> Some (new0, [])
        | Some stored \<Rightarrow>
            Option.bind (carry_ip stored new0) (\<lambda>(n1, errs). map_option (\<lambda>n2. (n2, errs)) (carry_ports stored n1)))
       (\<lambda>(new, errs0).
          let errs = errs0 @ port_errors rng new
          in Some (if errs = [] then Inr new else Inl (np_invalid new errs)))"

section \<open>Allocation\<close>

definition also_claimed :: "string \<Rightarrow> np_plan \<Rightarrow> np_plan" where
  "also_claimed k p = p\<lparr>np_claimed := np_claimed p @ [k]\<rparr>"

text \<open>An error comes with what was claimed so far.\<close>

definition ok_with :: "np_plan \<Rightarrow> (api_error + 'a) prog \<Rightarrow> ('a \<Rightarrow> (api_error \<times> np_plan + 'b) prog) \<Rightarrow> (api_error \<times> np_plan + 'b) prog" where
  "ok_with pl p g = bindp p (\<lambda>r. case r of Inl e \<Rightarrow> PRet (Inl (e, pl)) | Inr x \<Rightarrow> g x)"

text \<open>The ports the object names: each claimed, unless the stored object holds it or an earlier port has it.\<close>

fun claim_ports ::
    "json \<Rightarrow> nat list \<Rightarrow> nat \<Rightarrow> json list \<Rightarrow> nat list \<Rightarrow> (nat \<times> string) list \<Rightarrow> string list \<Rightarrow> np_plan \<Rightarrow>
     (api_error \<times> np_plan + nat list \<times> string list \<times> np_plan) prog" where
  "claim_ports new before i [] taken by_number errs pl = PRet (Inr (taken, errs, pl))"
| "claim_ports new before i (p # ps) taken by_number errs pl =
     (let n = node_port p
      in if n = 0 then claim_ports new before (i + 1) ps taken by_number errs pl
         else if (n, proto p) \<in> set by_number
         then claim_ports new before (i + 1) ps taken by_number (errs @ [at_port i (''Duplicate value: '' @ show_nat n)]) pl
         else if n \<in> set before \<or> n \<in> set taken
         then claim_ports new before (i + 1) ps (n # taken) (by_number @ [(n, proto p)]) errs pl
         else
           ok_with pl (np_claim n new) (\<lambda>won.
             if won then claim_ports new before (i + 1) ps (n # taken) (by_number @ [(n, proto p)]) errs (also_claimed (np_key n) pl)
             else claim_ports new before (i + 1) ps taken (by_number @ [(n, proto p)])
                    (errs @ [at_port i (''Invalid value: '' @ show_nat n @ '': provided port is already allocated'')]) pl))"

fun find_port :: "json \<Rightarrow> nat list \<Rightarrow> nat list \<Rightarrow> nat list \<Rightarrow> (api_error + nat option \<times> nat list) prog" where
  "find_port new unusable [] view = PRet (Inr (None, view))"
| "find_port new unusable (port # ports) view =
     (if port \<in> set view \<or> port \<in> set unusable then find_port new unusable ports view
      else
        ok (np_claim port new) (\<lambda>won.
          if won then PRet (Inr (Some port, view)) else find_port new unusable ports (port # view)))"

text \<open>The ports the object leaves open.\<close>

fun alloc_ports ::
    "nat \<times> nat \<Rightarrow> json \<Rightarrow> nat list \<Rightarrow> nat \<Rightarrow> json list \<Rightarrow> nat list \<Rightarrow> nat list \<Rightarrow> np_plan \<Rightarrow> json list \<Rightarrow>
     (api_error \<times> np_plan + json list \<times> nat list \<times> np_plan) prog" where
  "alloc_ports rng new before i [] view taken pl acc = PRet (Inr (acc, taken, pl))"
| "alloc_ports rng new before i (p # ps) view taken pl acc =
     (if node_port p \<noteq> 0 then alloc_ports rng new before (i + 1) ps view taken pl (acc @ [p])
      else
        (let (lo, hi) = rng; span = hi - lo + 1
         in PDraw (\<lambda>draw.
              let start = draw mod span
              in ok_with pl (find_port new (taken @ before) (map (\<lambda>off. lo + (start + off) mod span) [0..<span]) view)
                   (\<lambda>(got, view').
                      case got of
                        None \<Rightarrow>
                          PRet (Inl (np_invalid new [at_port i (''Internal error: range is full ('' @ show_nat lo @ ''-'' @ show_nat hi @ '')'')], pl))
                      | Some port \<Rightarrow>
                          or_panic (jset p [''nodePort''] (JNum (NInt (int port)))) (\<lambda>p'.
                            alloc_ports rng new before (i + 1) ps view' (port # taken) (also_claimed (np_key port) pl) (acc @ [p']))))))"

definition held_ip :: "json option \<Rightarrow> string option" where
  "held_ip old = (case old of Some svc \<Rightarrow> if has_cluster_ip svc then given_ip svc else None | None \<Rightarrow> None)"

definition before_of :: "json option \<Rightarrow> nat list" where
  "before_of old = (case old of Some svc \<Rightarrow> held svc | None \<Rightarrow> [])"

text \<open>The address: a new Service, or one that was an \<^verbatim>\<open>ExternalName\<close>, gets one.\<close>

definition allocate_ip :: "string \<Rightarrow> json option \<Rightarrow> json \<Rightarrow> np_plan \<Rightarrow> (api_error \<times> np_plan + json \<times> np_plan) prog" where
  "allocate_ip cidr old new pl =
     (if has_cluster_ip new \<and> held_ip old = None then
        ok_with pl (sip_allocate cidr new) (\<lambda>n1.
          PRet (Inr (n1, case given_ip n1 of Some ip \<Rightarrow> also_claimed (sip_key ip) pl | None \<Rightarrow> pl)))
      else PRet (Inr (new, pl)))"

definition release_ip :: "json option \<Rightarrow> json \<Rightarrow> np_plan \<Rightarrow> np_plan" where
  "release_ip old new pl =
     (case held_ip old of
        Some ip \<Rightarrow>
          if as_str (jat new [''spec'', ''clusterIP'']) \<noteq> Some ip
          then pl\<lparr>np_release := np_release pl @ [sip_key ip]\<rparr> else pl
      | None \<Rightarrow> pl)"

definition release_ports :: "nat list \<Rightarrow> nat list \<Rightarrow> np_plan \<Rightarrow> np_plan" where
  "release_ports before taken pl =
     pl\<lparr>np_release := np_release pl @ map np_key (filter (\<lambda>n. n \<notin> set taken) before)\<rparr>"

definition np_allocate ::
    "nat \<times> nat \<Rightarrow> string \<Rightarrow> json option \<Rightarrow> json \<Rightarrow> (api_error \<times> np_plan + json \<times> np_plan) prog" where
  "np_allocate rng cidr old new0 =
     ok (allocate_ip cidr old new0 \<lparr>np_claimed = [], np_release = []\<rparr>) (\<lambda>(new, pl0).
       let before = before_of old
       in ok (claim_ports new before 0 (svc_ports new) [] [] [] (release_ip old new pl0)) (\<lambda>(taken, errs, pl).
            if errs \<noteq> [] then PRet (Inl (np_invalid new errs, pl))
            else if allocates new then
              PSnapshot (NP_PREFIX @ ''/'') (\<lambda>keys.
                ok (alloc_ports rng new before 0 (svc_ports new) (claimed_view keys) taken pl [])
                  (\<lambda>(ports, taken', pl').
                     or_panic (if svc_ports new = [] then Some new else jset new [''spec'', ''ports''] (JArr ports)) (\<lambda>n1.
                       PRet (Inr (n1, release_ports before taken' pl')))))
            else PRet (Inr (new, release_ports before taken pl))))"

definition np_plan_for :: "nat \<times> nat \<Rightarrow> string \<Rightarrow> json option \<Rightarrow> json \<Rightarrow> (api_error + json \<times> np_plan) prog" where
  "np_plan_for rng cidr old new0 =
     or_panic (patch_and_check rng old new0) (\<lambda>checked.
       case checked of
         Inl e \<Rightarrow> PRet (Inl e)
       | Inr new \<Rightarrow>
           bindp (np_allocate rng cidr old new) (\<lambda>r.
             case r of
               Inl (e, pl) \<Rightarrow> bindp (plan_abort pl) (\<lambda>_. PRet (Inl e))
             | Inr res \<Rightarrow> PRet (Inr res)))"

section \<open>Releases and repairs\<close>

definition np_release_held :: "json \<Rightarrow> unit prog" where
  "np_release_held svc = delete_all (map np_key (held svc))"

definition release_all :: "json \<Rightarrow> unit prog" where
  "release_all svc = bindp (sip_release svc) (\<lambda>_. np_release_held svc)"

fun np_claim_all :: "json \<Rightarrow> nat list \<Rightarrow> nat \<Rightarrow> nat prog" where
  "np_claim_all svc [] n = PRet n"
| "np_claim_all svc (port # ports) n =
     bindp (np_claim port svc) (\<lambda>r. np_claim_all svc ports (if r = Inr True then n + 1 else n))"

definition np_claim_for :: "json \<Rightarrow> unit prog" where
  "np_claim_for svc = bindp (np_claim_all svc (held svc) 0) (\<lambda>_. PRet ())"

fun np_reconcile :: "json list \<Rightarrow> nat \<Rightarrow> nat prog" where
  "np_reconcile [] n = PRet n"
| "np_reconcile (svc # svcs) n = bindp (np_claim_all svc (held svc) n) (np_reconcile svcs)"

section \<open>The requests\<close>

text \<open>
  A create, from the built-in admission on: \<open>quota\<close> is the resource quota's answer, \<open>admit\<close>
  the webhooks and what the handler fills in after them. An update: \<open>mutate\<close> what the patch does and the
  defaults and checks before the plan, \<open>admit\<close> as before. A delete of a Service without finalizers.
\<close>

definition service_create ::
    "nat \<times> nat \<Rightarrow> string \<Rightarrow> (json \<Rightarrow> api_error + unit) \<Rightarrow> (json \<Rightarrow> api_error + json) \<Rightarrow> string \<Rightarrow> json \<Rightarrow> (api_error + json) prog" where
  "service_create rng cidr quota admit key body =
     ok (np_plan_for rng cidr None body) (\<lambda>(svc, _).
       case quota svc of
         Inl e \<Rightarrow> PRet (Inl e)
       | Inr _ \<Rightarrow>
           bindp (case admit svc of Inl e \<Rightarrow> PRet (Inl e) | Inr obj \<Rightarrow> PCreate key obj PRet) (\<lambda>created.
             case created of
               Inl e \<Rightarrow> bindp (release_all svc) (\<lambda>_. PRet (Inl e))
             | Inr obj \<Rightarrow> PRet (Inr obj)))"

definition is_terminated :: "json \<Rightarrow> bool" where
  "is_terminated obj \<longleftrightarrow>
     as_str (jat obj [''metadata'', ''deletionTimestamp'']) \<noteq> None \<and> arr (jat obj [''metadata'', ''finalizers'']) = []"

definition persist_or_finalize :: "string \<Rightarrow> json \<Rightarrow> (api_error + json) prog" where
  "persist_or_finalize key obj =
     (let prev = Option.bind (as_str (jat obj [''metadata'', ''resourceVersion''])) (parse_uint 64)
      in if is_terminated obj
         then PDelete key prev (\<lambda>r. case r of Inl e \<Rightarrow> PRet (Inl e) | Inr _ \<Rightarrow> PRet (Inr obj))
         else PUpdate key obj prev PRet)"

text \<open>The outer error is a refusal before the write, the inner one the write's own.\<close>

definition service_write ::
    "nat \<times> nat \<Rightarrow> string \<Rightarrow> (json \<Rightarrow> (api_error + json) option) \<Rightarrow> string \<Rightarrow> json \<Rightarrow> json \<Rightarrow> (api_error + api_error + json) prog" where
  "service_write rng cidr admit key existing body =
     ok (np_plan_for rng cidr (Some existing) body) (\<lambda>(svc, pl).
       or_panic (admit svc) (\<lambda>admitted.
         bindp (case admitted of Inl e \<Rightarrow> PRet (Inl e) | Inr obj \<Rightarrow> persist_or_finalize key obj) (\<lambda>written.
           bindp (case written of Inr _ \<Rightarrow> plan_commit pl | Inl _ \<Rightarrow> plan_abort pl) (\<lambda>_. PRet (Inr written)))))"

definition service_put ::
    "nat \<times> nat \<Rightarrow> string \<Rightarrow> (json \<Rightarrow> (api_error + json) option) \<Rightarrow> string \<Rightarrow> json \<Rightarrow> (api_error + json) prog" where
  "service_put rng cidr admit key body =
     ok (PGet key PRet) (\<lambda>existing. ok (service_write rng cidr admit key existing body) PRet)"

definition versioned :: "string \<Rightarrow> (json \<Rightarrow> api_error + json) \<Rightarrow> json \<Rightarrow> (api_error + json) option" where
  "versioned rv admit svc =
     (case admit svc of
        Inl e \<Rightarrow> Some (Inl e)
      | Inr obj \<Rightarrow> map_option Inr (jset obj [''metadata'', ''resourceVersion''] (JStr rv)))"

definition update_attempt ::
    "nat \<times> nat \<Rightarrow> string \<Rightarrow> string option \<Rightarrow> (json \<Rightarrow> api_error + json) \<Rightarrow> (json \<Rightarrow> api_error + json) \<Rightarrow> string \<Rightarrow>
     (api_error + api_error + json) prog" where
  "update_attempt rng cidr precondition mutate admit key =
     ok (PGet key PRet) (\<lambda>fresh.
       let read_rv = str_or [] (jat fresh [''metadata'', ''resourceVersion''])
       in if (case precondition of Some want \<Rightarrow> want \<noteq> read_rv | None \<Rightarrow> False)
          then PRet (Inl (conflict (''Operation cannot be fulfilled on '' @ quoted (str_or [] (jat fresh [''metadata'', ''name''])) @
                 '': the object has been modified; please apply your changes to the latest version and try again'')))
          else
            (case mutate fresh of
               Inl e \<Rightarrow> PRet (Inl e)
             | Inr obj \<Rightarrow>
                 if \<not> is_object (jidx obj ''metadata'') then PRet (Inl (invalid ''metadata must be an object''))
                 else service_write rng cidr (versioned read_rv admit) key fresh obj))"

text \<open>A write lost to another writer starts over, \<open>retries\<close> times before the budget runs out.\<close>

primrec service_patch ::
    "nat \<Rightarrow> nat \<times> nat \<Rightarrow> string \<Rightarrow> string option \<Rightarrow> (json \<Rightarrow> api_error + json) \<Rightarrow> (json \<Rightarrow> api_error + json) \<Rightarrow> string \<Rightarrow>
     (api_error + json) prog" where
  "service_patch 0 rng cidr precondition mutate admit key =
     ok (update_attempt rng cidr precondition mutate admit key) PRet"
| "service_patch (Suc retries) rng cidr precondition mutate admit key =
     ok (update_attempt rng cidr precondition mutate admit key) (\<lambda>written.
       case written of
         Inl e \<Rightarrow>
           if ae_reason e = ''Conflict'' then service_patch retries rng cidr precondition mutate admit key
           else PRet (Inl e)
       | Inr obj \<Rightarrow> PRet (Inr obj))"

definition service_delete :: "string \<Rightarrow> (api_error + unit) prog" where
  "service_delete key =
     PGet key (\<lambda>r. case r of
        Inl e \<Rightarrow> PRet (Inl e)
      | Inr obj \<Rightarrow> bindp (release_all obj) (\<lambda>_. PDelete key None PRet))"

section \<open>Fields of a Service\<close>

lemma show_ipv4_parse:
  assumes "v < 2 ^ 32"
  shows "parse_ipv4 (show_ipv4 v) = Some v"
proof -
  have nd: "CHR ''.'' \<notin> set (show_nat n)" for n
  proof
    assume "CHR ''.'' \<in> set (show_nat n)"
    then have "is_digit CHR ''.''" using show_nat_digits[of n] unfolding list_all_iff by blast
    then show False by (simp add: is_digit_def)
  qed
  have oct: "parse_octet (show_nat n) = Some n" if "n < 256" for n
  proof -
    have "length (show_nat n) \<le> 3 \<and> (hd (show_nat n) = CHR ''0'' \<longrightarrow> length (show_nat n) = 1)"
    proof (cases "n < 10")
      case True
      then show ?thesis by (simp add: show_nat_small)
    next
      case False
      show ?thesis
      proof (cases "n < 100")
        case True
        then have "show_nat n = [digit_char (n div 10), digit_char (n mod 10)]" using False by (simp add: show_nat_big show_nat_small)
        moreover have "digit_char (n div 10) \<noteq> CHR ''0''"
        proof -
          have "n div 10 < 10" "n div 10 \<noteq> 0" using True False by (simp_all add: less_mult_imp_div_less)
          then show ?thesis using digit_char_val[of "n div 10"] by (auto simp: digit_val_def)
        qed
        ultimately show ?thesis by simp
      next
        case big: False
        then have "show_nat n = [digit_char (n div 10 div 10), digit_char (n div 10 mod 10), digit_char (n mod 10)]"
          using that by (simp add: show_nat_big show_nat_small)
        moreover have "digit_char (n div 10 div 10) \<noteq> CHR ''0''"
        proof -
          have "n div 10 div 10 < 10" "n div 10 div 10 \<noteq> 0" using that big by (simp_all add: less_mult_imp_div_less div_mult2_eq[symmetric])
          then show ?thesis using digit_char_val[of "n div 10 div 10"] by (auto simp: digit_val_def)
        qed
        ultimately show ?thesis by simp
      qed
    qed
    then show ?thesis using that by (simp add: parse_octet_def)
  qed
  let ?os = "[v div 16777216 mod 256, v div 65536 mod 256, v div 256 mod 256, v mod 256]"
  have "split_on CHR ''.'' (show_ipv4 v) = map show_nat ?os"
    unfolding show_ipv4_def by (rule split_on_join) (auto simp: nd)
  then have "map parse_octet (split_on CHR ''.'' (show_ipv4 v)) = map Some ?os" by (simp add: oct)
  moreover have "v div 16777216 mod 256 * 16777216 + v div 65536 mod 256 * 65536 + v div 256 mod 256 * 256 + v mod 256 = v"
  proof -
    have "v = v div 256 * 256 + v mod 256" "v div 256 = v div 65536 * 256 + v div 256 mod 256"
      "v div 65536 = v div 16777216 * 256 + v div 65536 mod 256"
      using div_mult_mod_eq[of v 256] div_mult_mod_eq[of "v div 256" 256] div_mult_mod_eq[of "v div 65536" 256]
      by (simp_all add: div_mult2_eq[symmetric])
    moreover have "v div 16777216 mod 256 = v div 16777216" using assms by (simp add: less_mult_imp_div_less)
    ultimately show ?thesis by linarith
  qed
  ultimately show ?thesis unfolding parse_ipv4_def by (simp only: list.map list.case option.case)
qed

lemma show_ipv4_given: "v < 2 ^ 32 \<Longrightarrow> show_ipv4 v \<noteq> [] \<and> show_ipv4 v \<noteq> ''None''"
  using show_ipv4_parse[of v] by (auto simp: parse_ipv4_def parse_octet_def)

text \<open>The parts of an object the claims depend on.\<close>

lemma svc_type_cong: "jat w [''spec'', ''type''] = jat v [''spec'', ''type''] \<Longrightarrow> svc_type w = svc_type v"
  by (simp add: svc_type_def)

lemma given_ip_cong: "jat w [''spec'', ''clusterIP''] = jat v [''spec'', ''clusterIP''] \<Longrightarrow> given_ip w = given_ip v"
  by (simp add: given_ip_def)

lemma svc_ports_cong: "jat w [''spec'', ''ports''] = jat v [''spec'', ''ports''] \<Longrightarrow> svc_ports w = svc_ports v"
  by (simp add: svc_ports_def)

lemma has_cluster_ip_cong: "svc_type w = svc_type v \<Longrightarrow> has_cluster_ip w = has_cluster_ip v"
  by (simp add: has_cluster_ip_def)

lemma set_address_fields:
  assumes "set_address obj ip = Some w" "ip \<noteq> []" "ip \<noteq> ''None''"
  shows "given_ip w = Some ip" "svc_type w = svc_type obj" "svc_ports w = svc_ports obj"
proof -
  obtain o1 o2 where o1: "jset obj [''spec'', ''clusterIP''] (JStr ip) = Some o1" and o2: "jset o1 [''spec'', ''clusterIPs''] (JArr [JStr ip]) = Some o2"
    and w: "(if as_str (jat o2 [''spec'', ''type'']) = None then jset o2 [''spec'', ''type''] (JStr ''ClusterIP'') else Some o2) = Some w"
    using assms(1) by (auto simp: set_address_def bind_eq_Some_conv simp del: jset.simps jat_Cons)
  have c: "jat o2 [''spec'', ''clusterIP''] = JStr ip" "jat o2 [''spec'', ''type''] = jat obj [''spec'', ''type'']"
    "jat o2 [''spec'', ''ports''] = jat obj [''spec'', ''ports'']"
    using jset_sub(1)[OF o1] jset_sub(2)[OF o1, of "''type''"] jset_sub(2)[OF o1, of "''ports''"]
      jset_sub(2)[OF o2, of "''clusterIP''"] jset_sub(2)[OF o2, of "''type''"] jset_sub(2)[OF o2, of "''ports''"] by (simp_all del: jat_Cons)
  have "jat w [''spec'', ''clusterIP''] = JStr ip \<and> svc_type w = svc_type obj \<and> jat w [''spec'', ''ports''] = jat obj [''spec'', ''ports'']"
  proof (cases "as_str (jat o2 [''spec'', ''type'']) = None")
    case True
    then have j: "jset o2 [''spec'', ''type''] (JStr ''ClusterIP'') = Some w" using w by (simp only: if_True simp_thms)
    have "svc_type obj = ''ClusterIP''" using True c(2) by (simp add: svc_type_def str_or_def)
    moreover have "svc_type w = ''ClusterIP''" using jset_sub(1)[OF j] by (simp add: svc_type_def)
    ultimately show ?thesis using jset_sub(2)[OF j, of "''clusterIP''"] jset_sub(2)[OF j, of "''ports''"] c by (simp del: jat_Cons)
  next
    case False
    then have "w = o2" using w by (simp only: if_False option.inject simp_thms)
    then show ?thesis using c svc_type_cong[OF c(2)] by (simp del: jat_Cons)
  qed
  then show "given_ip w = Some ip" "svc_type w = svc_type obj" "svc_ports w = svc_ports obj"
    using assms(2,3) svc_ports_cong[of w obj] by (simp_all add: given_ip_def)
qed

section \<open>The order of the addresses\<close>

lemma spin_inj: "inj_on (\<lambda>i. (first + i) mod len) {0..<len}" for len :: nat
proof -
  have le: "i = j" if "i \<le> j" "j < len" "(first + i) mod len = (first + j) mod len" for i j
  proof -
    have "len dvd (first + j) - (first + i)" using that mod_eq_dvd_iff_nat[of "first + i" "first + j" len] by simp
    then have "len dvd j - i" by simp
    then have "j - i = 0" using that(2) by (metis diff_le_self dvd_imp_le le_less_trans linorder_not_le neq0_conv)
    then show ?thesis using that(1) by simp
  qed
  show ?thesis
  proof (rule inj_onI)
    fix i j assume "i \<in> {0..<len}" "j \<in> {0..<len}" "(first + i) mod len = (first + j) mod len"
    then show "i = j" using le[of i j] le[of j i] by (cases "i \<le> j") simp_all
  qed
qed

lemma spin_set: "set (spin start lo hi) = {lo..<hi}" "distinct (spin start lo hi)"
proof -
  define len where "len = hi - lo"
  define first where "first = (if len = 0 then 0 else start mod len)"
  have s: "spin start lo hi = map (\<lambda>i. lo + (first + i) mod len) [0..<len]" by (simp add: spin_def Let_def len_def first_def)
  have "inj_on (\<lambda>i. lo + (first + i) mod len) {0..<len}" by (rule inj_onI) (erule inj_onD[OF spin_inj[of first len], OF add_left_imp_eq])
  then show d: "distinct (spin start lo hi)" by (simp add: s distinct_map)
  have "set (spin start lo hi) \<subseteq> {lo..<hi}"
  proof
    fix x assume "x \<in> set (spin start lo hi)"
    then obtain i where i: "i < len" "x = lo + (first + i) mod len" by (auto simp: s)
    moreover have "(first + i) mod len < len" using i(1) by (intro mod_less_divisor) simp
    moreover have "lo + len = hi" using i(1) by (simp add: len_def)
    ultimately show "x \<in> {lo..<hi}" by (simp only: atLeastLessThan_iff) linarith
  qed
  moreover have "card (set (spin start lo hi)) = card {lo..<hi}" using distinct_card[OF d] by (simp add: s len_def)
  ultimately show "set (spin start lo hi) = {lo..<hi}" by (intro card_subset_eq) auto
qed

text \<open>
  C33. The addresses offered for a Service are every usable one of the range exactly once, all but
  the network and the broadcast address, and those of the upper band all come before the
  lowest ones, which are left for Services that ask for a fixed address.
\<close>

theorem candidates_cover_range:
  "distinct (candidates cnt start) \<and> set (candidates cnt start) = {off. 1 \<le> off \<and> off + 1 < cnt} \<and>
   (\<exists>upper lower. candidates cnt start = upper @ lower \<and>
      list_all (\<lambda>off. static_band cnt \<le> off) upper \<and> list_all (\<lambda>off. off < static_band cnt) lower)"
proof -
  let ?band = "static_band cnt" let ?ok = "\<lambda>off. 1 \<le> off \<and> off + 1 < cnt"
  have c: "candidates cnt start = filter ?ok (spin start ?band cnt) @ filter ?ok (spin start 0 ?band)" by (simp add: candidates_def Let_def)
  have b: "?band \<le> cnt" by (simp add: static_band_def)
  have "set (candidates cnt start) = {off. ?ok off}" unfolding c using b by (auto simp: spin_set(1))
  moreover have "distinct (candidates cnt start)" unfolding c by (auto simp: spin_set)
  moreover have "list_all (\<lambda>off. ?band \<le> off) (filter ?ok (spin start ?band cnt))" "list_all (\<lambda>off. off < ?band) (filter ?ok (spin start 0 ?band))"
    by (auto simp: list_all_iff spin_set(1))
  ultimately show ?thesis using c by blast
qed

end
