(* ===== verification/ServiceRun.thy ===== *)
theory ServiceRun
  imports Claims
begin

text \<open>
  The claims of Services under concurrency. Any number of requests run the programs of the
  theory \<open>Claims\<close> against one datastore, one access at a time in any order (\<open>sv_step\<close>). The
  proof follows who owns a claim: a request that made it, or the Service it was written into.
  \<open>own\<close> says of a program that it never gives back a claim it does not own, and never writes
  a Service that uses one; it is proved of each request by itself, and the invariant of the
  interleaving follows from it.
\<close>

section \<open>Keys and claims\<close>

definition is_claim :: "string \<Rightarrow> bool" where
  "is_claim k \<longleftrightarrow> starts_with k (SIP_PREFIX @ ''/'') \<or> starts_with k (NP_PREFIX @ ''/'')"

definition is_service :: "string \<Rightarrow> bool" where
  "is_service k \<longleftrightarrow> starts_with k ''/registry/services/''"

definition ip_claim :: "json \<Rightarrow> string set" where
  "ip_claim svc = (if has_cluster_ip svc then (case given_ip svc of Some ip \<Rightarrow> {sip_key ip} | None \<Rightarrow> {}) else {})"

definition claims :: "json \<Rightarrow> string set" where
  "claims svc = ip_claim svc \<union> np_key ` set (held svc)"

lemma claim_not_service: "is_claim k \<Longrightarrow> \<not> is_service k"
  by (auto simp: is_claim_def is_service_def starts_with_iff SIP_PREFIX_def NP_PREFIX_def)

lemma sip_key_claim [simp]: "is_claim (sip_key ip)"
  by (simp add: is_claim_def sip_key_def starts_with_def)

lemma np_key_claim [simp]: "is_claim (np_key n)"
  by (simp add: is_claim_def np_key_def starts_with_def)

lemma sip_key_inj [simp]: "sip_key a = sip_key b \<longleftrightarrow> a = b"
  by (simp add: sip_key_def)

lemma np_key_inj [simp]: "np_key a = np_key b \<longleftrightarrow> a = b"
  by (simp add: np_key_def show_nat_inj)

lemma sip_np_key [simp]: "sip_key a \<noteq> np_key n" "np_key n \<noteq> sip_key a"
  by (simp_all add: np_key_def sip_key_def SIP_PREFIX_def NP_PREFIX_def)

lemma claims_are_claims: "k \<in> claims svc \<Longrightarrow> is_claim k"
  by (auto simp: claims_def ip_claim_def split: if_splits option.splits)

section \<open>Ownership\<close>

text \<open>
  \<open>own p C K Q\<close>: run from here by a request that owns the claims \<open>C\<close> and has read the
  Services \<open>K\<close> (by key and version), whatever the answers, \<open>p\<close> gives back only claims it
  owns, writes Services only with claims it owns or that the Service already had, and ends
  with \<open>Q\<close>.
\<close>

type_synonym known = "string \<times> nat \<Rightarrow> json option"

text \<open>What a conditional delete leaves to the one who did it.\<close>

definition freed :: "string \<Rightarrow> nat option \<Rightarrow> known \<Rightarrow> string set" where
  "freed k prev K = (case Option.bind prev (\<lambda>r. K (k, r)) of Some old \<Rightarrow> claims old | None \<Rightarrow> {})"

primrec own :: "'a prog \<Rightarrow> string set \<Rightarrow> known \<Rightarrow> ('a \<Rightarrow> string set \<Rightarrow> known \<Rightarrow> bool) \<Rightarrow> bool" where
  "own (PRet x) C K Q = Q x C K"
| "own PPanic C K Q = True"
| "own (PCreate k v f) C K Q \<longleftrightarrow>
     (\<forall>e. own (f (Inl e)) C K Q) \<and>
     (if is_claim k then (k \<notin> C \<longrightarrow> (\<forall>w. own (f (Inr w)) (insert k C) K Q))
      else is_service k \<and> claims v \<subseteq> C \<and> (\<forall>w. own (f (Inr w)) (C - claims v) K Q))"
| "own (PUpdate k v prev f) C K Q \<longleftrightarrow>
     is_service k \<and> (\<forall>e. own (f (Inl e)) C K Q) \<and>
     (\<exists>r old. prev = Some r \<and> K (k, r) = Some old \<and> claims v - claims old \<subseteq> C \<and>
        (\<forall>w. own (f (Inr w)) ((C - claims v) \<union> (claims old - claims v)) K Q))"
| "own (PDelete k prev f) C K Q \<longleftrightarrow>
     (if is_claim k then k \<in> C \<and> (\<forall>r. own (f r) (C - {k}) K Q)
      else is_service k \<and> (\<forall>e. own (f (Inl e)) C K Q) \<and> own (f (Inr ())) (C \<union> freed k prev K) K Q)"
| "own (PGet k f) C K Q \<longleftrightarrow>
     (\<forall>e. own (f (Inl e)) C K Q) \<and>
     (\<forall>v r. r < 2 ^ 64 \<and> jat v [''metadata'', ''resourceVersion''] = JStr (show_nat r) \<longrightarrow>
        own (f (Inr v)) C (K((k, r) \<mapsto> v)) Q)"
| "own (PSnapshot p f) C K Q \<longleftrightarrow> (\<forall>keys. own (f keys) C K Q)"
| "own (PDraw f) C K Q \<longleftrightarrow> (\<forall>n. own (f n) C K Q)"

lemma own_bind [simp]: "own (bindp p g) C K Q = own p C K (\<lambda>x C' K'. own (g x) C' K' Q)"
  by (induction p arbitrary: C K) simp_all

lemma own_mono: "own p C K Q \<Longrightarrow> (\<And>x C K. Q x C K \<Longrightarrow> R x C K) \<Longrightarrow> own p C K R"
proof (induction p arbitrary: C K)
  case (PCreate k v f)
  then show ?case by (auto split: if_splits)
next
  case (PUpdate k v prev f)
  have ih: "own (f r) C K Q \<Longrightarrow> own (f r) C K R" for r C K using PUpdate.IH[OF rangeI] PUpdate.prems(2) by blast
  show ?case using PUpdate.prems(1) ih unfolding own.simps by blast
next
  case (PDelete k prev f)
  then show ?case by (auto split: if_splits)
qed auto

lemma own_ok [simp]:
  "own (ok p g) C K Q = own p C K (\<lambda>r C' K'. case r of Inl e \<Rightarrow> Q (Inl e) C' K' | Inr x \<Rightarrow> own (g x) C' K' Q)"
  unfolding ok_def own_bind by (rule arg_cong[where f = "own p C K"]) (auto simp: fun_eq_iff split: sum.splits)

lemma own_ok_with [simp]:
  "own (ok_with pl p g) C K Q = own p C K (\<lambda>r C' K'. case r of Inl e \<Rightarrow> Q (Inl (e, pl)) C' K' | Inr x \<Rightarrow> own (g x) C' K' Q)"
  unfolding ok_with_def own_bind by (rule arg_cong[where f = "own p C K"]) (auto simp: fun_eq_iff split: sum.splits)

lemma own_or_panic [simp]: "own (or_panic v g) C K Q \<longleftrightarrow> (\<forall>x. v = Some x \<longrightarrow> own (g x) C K Q)"
  by (simp add: or_panic_def split: option.splits)

lemma own_claim_key:
  assumes "is_claim k"
  shows "own (claim_key k v) C K Q \<longleftrightarrow> (k \<notin> C \<longrightarrow> Q (Inr True) (insert k C) K) \<and> Q (Inr False) C K \<and> (\<forall>e. \<not> is_already_exists e \<longrightarrow> Q (Inl e) C K)"
proof -
  have "\<exists>e. is_already_exists e" by (rule exI[of _ "already_exists [] []"]) (simp add: is_already_exists_def already_exists_def mk_error_def)
  then show ?thesis using assms by (auto simp: claim_key_def split: if_splits)
qed

lemma own_delete_all:
  "\<forall>k \<in> set ks. is_claim k \<Longrightarrow> distinct ks \<Longrightarrow> set ks \<subseteq> C \<Longrightarrow> Q () (C - set ks) K \<Longrightarrow> own (delete_all ks) C K Q"
proof (induction ks arbitrary: C)
  case (Cons k ks)
  have "C - {k} - set ks = C - set (k # ks)" by auto
  then have "own (delete_all ks) (C - {k}) K Q" using Cons by (intro Cons.IH) auto
  then show ?case using Cons.prems by simp
qed simp

section \<open>Allocating\<close>

lemma own_try_addresses:
  assumes "\<And>e. Q (Inl e) C K" "\<And>v. v < 2 ^ 32 \<Longrightarrow> sip_key (show_ipv4 v) \<notin> C \<Longrightarrow> Q (Inr (show_ipv4 v)) (insert (sip_key (show_ipv4 v)) C) K"
  shows "own (try_addresses base cidr ns nm offs taken) C K Q"
proof (induction offs arbitrary: taken)
  case Nil
  then show ?case using assms(1) by simp
next
  case (Cons off offs)
  then show ?case using assms by (simp add: Let_def sip_claim_def own_claim_key)
qed

lemma own_sip_allocate:
  assumes "has_cluster_ip obj" "\<And>e. Q (Inl e) C K"
    "\<And>w. svc_type w = svc_type obj \<Longrightarrow> svc_ports w = svc_ports obj \<Longrightarrow> given_ip w = None \<Longrightarrow> Q (Inr w) C K"
    "\<And>w ip. svc_type w = svc_type obj \<Longrightarrow> svc_ports w = svc_ports obj \<Longrightarrow> given_ip w = Some ip \<Longrightarrow> sip_key ip \<notin> C \<Longrightarrow>
       Q (Inr w) (insert (sip_key ip) C) K"
  shows "own (sip_allocate cidr obj) C K Q"
proof -
  have ips: "svc_type w = svc_type obj \<and> svc_ports w = svc_ports obj \<and> given_ip w = given_ip obj"
    if "jset obj [''spec'', ''clusterIPs''] x = Some w" for x w
    using svc_type_cong[OF jset_sub(2)[OF that]] svc_ports_cong[OF jset_sub(2)[OF that]] given_ip_cong[OF jset_sub(2)[OF that]] by simp
  have t: "str_or ''ClusterIP'' (jat obj [''spec'', ''type'']) \<noteq> ''ExternalName''" using assms(1) by (simp add: has_cluster_ip_def svc_type_def)
  show ?thesis
  proof (cases "as_str (jat obj [''spec'', ''clusterIP'']) = Some ''None''")
    case True
    then have "given_ip obj = None" by (simp add: given_ip_def)
    then have "own (or_panic (jset obj [''spec'', ''clusterIPs''] (JArr [JStr ''None''])) (\<lambda>o1. PRet (Inr o1))) C K Q"
      using ips assms(3) by (simp del: jset.simps)
    then show ?thesis unfolding sip_allocate_def by (simp only: t True if_False if_True simp_thms)
  next
    case False
    show ?thesis
    proof (cases "given_ip obj")
      case (Some ip)
      have "own (ok (sip_claim ip (svc_namespace obj) (svc_name obj)) (\<lambda>won.
          if \<not> won then PRet (Inl (invalid (''ClusterIP '' @ ip @ '' is already allocated'')))
          else or_panic (jset obj [''spec'', ''clusterIPs''] (JArr [JStr ip])) (\<lambda>o1. PRet (Inr o1)))) C K Q"
        using ips assms(2,4) Some by (simp add: sip_claim_def own_claim_key del: jset.simps)
      then show ?thesis unfolding sip_allocate_def by (simp only: t False Some option.case if_False simp_thms)
    next
      case None
      have "own (or_panic (set_address obj (show_ipv4 v)) (\<lambda>o1. PRet (Inr o1))) (insert (sip_key (show_ipv4 v)) C) K Q"
        if "v < 2 ^ 32" "sip_key (show_ipv4 v) \<notin> C" for v
        using set_address_fields[of obj "show_ipv4 v"] show_ipv4_given[OF that(1)] assms(4) that(2) by simp
      then have "own (ok (try_addresses base cidr ns nm offs taken) (\<lambda>ip. or_panic (set_address obj ip) (\<lambda>o1. PRet (Inr o1)))) C K Q"
        for base ns nm offs taken
        unfolding own_ok by (intro own_try_addresses) (simp_all add: assms(2) del: own_or_panic)
      then show ?thesis unfolding sip_allocate_def using t False None assms(3)[of obj]
        by (simp only: option.case if_False simp_thms) (simp split: option.splits prod.splits del: own_ok)
    qed
  qed
qed

text \<open>The invariant of an allocation: what was claimed is owned, each claim once.\<close>

definition pl_ok :: "np_plan \<Rightarrow> string set \<Rightarrow> bool" where
  "pl_ok pl C \<longleftrightarrow> set (np_claimed pl) = C \<and> distinct (np_claimed pl) \<and> (\<forall>k \<in> C. is_claim k)"

lemma pl_ok_claimed [simp]: "pl_ok pl C \<Longrightarrow> k \<notin> C \<Longrightarrow> is_claim k \<Longrightarrow> pl_ok (also_claimed k pl) (insert k C)"
  by (auto simp: pl_ok_def also_claimed_def)

lemma also_claimed_release [simp]: "np_release (also_claimed k pl) = np_release pl"
  by (simp add: also_claimed_def)

lemma own_claim_ports:
  assumes "pl_ok pl C" "np_key ` set taken \<subseteq> C \<union> np_key ` set before"
    and "\<And>e pl' C'. pl_ok pl' C' \<Longrightarrow> Q (Inl (e, pl')) C' K"
    and "\<And>taken' errs' pl' C'. pl_ok pl' C' \<Longrightarrow> C \<subseteq> C' \<Longrightarrow> np_release pl' = np_release pl \<Longrightarrow>
       np_key ` set taken' \<subseteq> C' \<union> np_key ` set before \<Longrightarrow> set taken \<subseteq> set taken' \<Longrightarrow>
       (errs' = [] \<longrightarrow> errs = [] \<and> (\<forall>p \<in> set ps. node_port p \<noteq> 0 \<longrightarrow> node_port p \<in> set taken')) \<Longrightarrow> Q (Inr (taken', errs', pl')) C' K"
  shows "own (claim_ports new before i ps taken bn errs pl) C K Q"
  using assms
proof (induction ps arbitrary: i taken bn errs pl C)
  case Nil
  then show ?case by simp
next
  case (Cons p ps)
  let ?n = "node_port p"
  note Q = Cons.prems(4)
  consider "?n = 0" | "?n \<noteq> 0" "(?n, proto p) \<in> set bn" | "?n \<noteq> 0" "(?n, proto p) \<notin> set bn" "?n \<in> set before \<or> ?n \<in> set taken"
    | "?n \<noteq> 0" "(?n, proto p) \<notin> set bn" "?n \<notin> set before" "?n \<notin> set taken" by blast
  then show ?case
  proof cases
    case 1
    have "own (claim_ports new before (i + 1) ps taken bn errs pl) C K Q"
      by (rule Cons.IH[OF Cons.prems(1,2,3)]) (use 1 in \<open>auto intro!: Q\<close>)
    then show ?thesis using 1 by simp
  next
    case 2
    have "own (claim_ports new before (i + 1) ps taken bn (errs @ [m]) pl) C K Q" for m
      by (rule Cons.IH[OF Cons.prems(1,2,3)]) (auto intro!: Q)
    then show ?thesis using 2 by (simp add: Let_def)
  next
    case 3
    have t: "np_key ` set (?n # taken) \<subseteq> C \<union> np_key ` set before" using Cons.prems(2) 3(3) by auto
    have "own (claim_ports new before (i + 1) ps (?n # taken) (bn @ [(?n, proto p)]) errs pl) C K Q"
      by (rule Cons.IH[OF Cons.prems(1) t Cons.prems(3)]) (auto intro!: Q)
    then show ?thesis using 3 by (simp add: Let_def)
  next
    case 4
    have lost: "own (claim_ports new before (i + 1) ps taken (bn @ [(?n, proto p)]) (errs @ [m]) pl) C K Q" for m
      by (rule Cons.IH[OF Cons.prems(1,2,3)]) (auto intro!: Q)
    have won: "own (claim_ports new before (i + 1) ps (?n # taken) (bn @ [(?n, proto p)]) errs (also_claimed (np_key ?n) pl)) (insert (np_key ?n) C) K Q"
      if "np_key ?n \<notin> C"
      by (rule Cons.IH[OF pl_ok_claimed[OF Cons.prems(1) that np_key_claim] _ Cons.prems(3)])
        (use Cons.prems(2) in \<open>auto intro!: Q\<close>)
    show ?thesis using 4 lost won Cons.prems(1,3) by (simp add: Let_def np_claim_def own_claim_key)
  qed
qed

lemma own_find_port:
  assumes "\<And>e. Q (Inl e) C K" "\<And>view. Q (Inr (None, view)) C K"
    "\<And>port view. np_key port \<notin> C \<Longrightarrow> Q (Inr (Some port, view)) (insert (np_key port) C) K"
  shows "own (find_port new unusable ports view) C K Q"
proof (induction ports arbitrary: view)
  case Nil
  then show ?case using assms(2) by simp
next
  case (Cons port ports)
  then show ?case using assms by (simp add: np_claim_def own_claim_key)
qed

lemma node_port_set:
  assumes "jset p [''nodePort''] (JNum (NInt (int n))) = Some q" "node_port q \<noteq> 0"
  shows "node_port q = n"
  using jset_jat[OF assms(1)] assms(2) by (auto simp: node_port_def split: if_splits)

lemma own_alloc_ports:
  assumes "pl_ok pl C" "np_key ` set taken \<subseteq> C \<union> np_key ` set before"
    and "\<forall>p \<in> set ps \<union> set acc. node_port p \<noteq> 0 \<longrightarrow> node_port p \<in> set taken"
    and "\<And>e pl' C'. pl_ok pl' C' \<Longrightarrow> Q (Inl (e, pl')) C' K"
    and "\<And>ports taken' pl' C'. pl_ok pl' C' \<Longrightarrow> C \<subseteq> C' \<Longrightarrow> np_release pl' = np_release pl \<Longrightarrow>
       np_key ` set taken' \<subseteq> C' \<union> np_key ` set before \<Longrightarrow>
       \<forall>p \<in> set ports. node_port p \<noteq> 0 \<longrightarrow> node_port p \<in> set taken' \<Longrightarrow> Q (Inr (ports, taken', pl')) C' K"
  shows "own (alloc_ports rng new before i ps view taken pl acc) C K Q"
  using assms
proof (induction ps arbitrary: i view taken pl acc C)
  case Nil
  then show ?case by simp
next
  case (Cons p ps)
  note Q = Cons.prems(5)
  show ?case
  proof (cases "node_port p = 0")
    case False
    have "own (alloc_ports rng new before (i + 1) ps view taken pl (acc @ [p])) C K Q"
      by (rule Cons.IH[OF Cons.prems(1,2) _ Cons.prems(4)]) (use Cons.prems(3) in \<open>auto intro!: Q\<close>)
    then show ?thesis using False by simp
  next
    case True
    have step: "own (alloc_ports rng new before (i + 1) ps view' (port # taken) (also_claimed (np_key port) pl) (acc @ [q])) (insert (np_key port) C) K Q"
      if n: "np_key port \<notin> C" and q: "jset p [''nodePort''] (JNum (NInt (int port))) = Some q" for port view' q
    proof (rule Cons.IH[OF pl_ok_claimed[OF Cons.prems(1) n np_key_claim] _ _ Cons.prems(4)])
      show "np_key ` set (port # taken) \<subseteq> insert (np_key port) C \<union> np_key ` set before" using Cons.prems(2) by auto
      show "\<forall>x \<in> set ps \<union> set (acc @ [q]). node_port x \<noteq> 0 \<longrightarrow> node_port x \<in> set (port # taken)"
        using Cons.prems(3) node_port_set[OF q] by auto
      show "Q (Inr (ports, taken', pl')) C' K"
        if "pl_ok pl' C'" "insert (np_key port) C \<subseteq> C'" "np_release pl' = np_release (also_claimed (np_key port) pl)"
          "np_key ` set taken' \<subseteq> C' \<union> np_key ` set before" "\<forall>p \<in> set ports. node_port p \<noteq> 0 \<longrightarrow> node_port p \<in> set taken'"
        for ports taken' pl' C' using that by (intro Q) auto
    qed
    have "own (ok_with pl (find_port new (taken @ before) offs view) (\<lambda>(got, view').
            case got of
              None \<Rightarrow> PRet (Inl (np_invalid new [m], pl))
            | Some port \<Rightarrow> or_panic (jset p [''nodePort''] (JNum (NInt (int port)))) (\<lambda>p'.
                alloc_ports rng new before (i + 1) ps view' (port # taken) (also_claimed (np_key port) pl) (acc @ [p'])))) C K Q"
      for offs m
      unfolding own_ok_with by (rule own_find_port) (use Cons.prems(1,4) step in \<open>auto simp del: jset.simps\<close>)
    then show ?thesis using True by (simp add: Let_def split: prod.splits del: own_ok_with jset.simps)
  qed
qed

section \<open>What an update keeps\<close>

lemma str_or_nonempty: "str_or [] v = s \<Longrightarrow> s \<noteq> [] \<Longrightarrow> v = JStr s"
  by (cases v) (auto simp: str_or_def)

lemma carry_ip_keeps:
  assumes "carry_ip stored new = Some (n1, [])"
  shows "svc_type n1 = svc_type new"
    "has_cluster_ip new \<Longrightarrow> held_ip (Some stored) = Some ip \<Longrightarrow> given_ip n1 = Some ip"
proof -
  let ?oip = "str_or [] (jat stored [''spec'', ''clusterIP''])"
  let ?nip = "str_or [] (jat new [''spec'', ''clusterIP''])"
  have g: "given_ip w = Some ip" if "jat w [''spec'', ''clusterIP''] = JStr ?oip" "held_ip (Some stored) = Some ip" for w
    using that by (simp add: held_ip_def given_ip_def str_or_def split: if_splits option.splits)
  have h: "has_cluster_ip stored \<and> ?oip \<noteq> []" if "held_ip (Some stored) = Some ip"
    using that by (auto simp: held_ip_def given_ip_def str_or_def split: if_splits option.splits)
  have shape: "n1 = new \<and> (has_cluster_ip stored \<and> ?oip \<noteq> [] \<and> has_cluster_ip new \<longrightarrow> ?nip = ?oip) \<or>
      (\<exists>a. jset new [''spec'', ''clusterIP''] (JStr ?oip) = Some a \<and> (n1 = a \<or> (\<exists>ips. jset a [''spec'', ''clusterIPs''] ips = Some n1))) \<or>
      (\<exists>a m. \<not> has_cluster_ip new \<and> jtouch new [''spec''] = Some a \<and>
         (n1 = a \<or> jidx a ''spec'' = JObj m \<and> jset a [''spec''] (JObj (bt_remove ''clusterIPs'' (bt_remove ''clusterIP'' m))) = Some n1))"
  proof (cases "has_cluster_ip stored \<and> ?oip \<noteq> []")
    case False
    have "n1 = new" using assms unfolding carry_ip_def Let_def by (simp only: False if_False) simp
    then show ?thesis using False by blast
  next
    case old: True
    show ?thesis
    proof (cases "has_cluster_ip new")
      case new: True
      show ?thesis
      proof (cases "?nip = []")
        case True
        obtain a where a: "jset new [''spec'', ''clusterIP''] (JStr ?oip) = Some a"
          "(case jat stored [''spec'', ''clusterIPs''] of
              JArr ips \<Rightarrow> map_option (\<lambda>n2. (n2, [])) (jset a [''spec'', ''clusterIPs''] (JArr ips))
            | _ \<Rightarrow> Some (a, [])) = Some (n1, [] :: string list)"
          using assms unfolding carry_ip_def Let_def by (simp only: old new True if_True bind_eq_Some_conv simp_thms) blast
        have "n1 = a \<or> (\<exists>ips. jset a [''spec'', ''clusterIPs''] ips = Some n1)"
          using a(2) by (cases "jat stored [''spec'', ''clusterIPs'']") (auto simp del: jset.simps jat_Cons)
        then show ?thesis using a(1) by blast
      next
        case False
        have "n1 = new \<and> ?nip = ?oip" using assms unfolding carry_ip_def Let_def
          by (cases "?nip = ?oip") (simp_all only: old new False if_True if_False simp_thms option.inject prod.inject list.distinct)
        then show ?thesis by blast
      qed
    next
      case new: False
      show ?thesis
      proof (cases "?nip = [] \<or> ?nip = ?oip")
        case True
        obtain a where a: "jtouch new [''spec''] = Some a"
          "(case jidx a ''spec'' of
              JObj m \<Rightarrow> map_option (\<lambda>n2. (n2, [])) (jset a [''spec''] (JObj (bt_remove ''clusterIPs'' (bt_remove ''clusterIP'' m))))
            | _ \<Rightarrow> Some (a, [])) = Some (n1, [] :: string list)"
          using assms unfolding carry_ip_def Let_def by (simp only: old new True if_True if_False bind_eq_Some_conv simp_thms) blast
        have "\<exists>m. n1 = a \<or> jidx a ''spec'' = JObj m \<and> jset a [''spec''] (JObj (bt_remove ''clusterIPs'' (bt_remove ''clusterIP'' m))) = Some n1"
          using a(2) by (cases "jidx a ''spec''") (auto simp del: jset.simps)
        then show ?thesis using a(1) new by blast
      next
        case False
        have "n1 = new" using assms unfolding carry_ip_def Let_def by (simp only: old new False if_True if_False simp_thms option.inject prod.inject)
        then show ?thesis using new by blast
      qed
    qed
  qed
  then consider (keep) "n1 = new" "has_cluster_ip stored \<and> ?oip \<noteq> [] \<and> has_cluster_ip new \<longrightarrow> ?nip = ?oip"
    | (fill) a where "jset new [''spec'', ''clusterIP''] (JStr ?oip) = Some a"
        "n1 = a \<or> (\<exists>ips. jset a [''spec'', ''clusterIPs''] ips = Some n1)"
    | (drop) a m where "\<not> has_cluster_ip new" "jtouch new [''spec''] = Some a"
        "n1 = a \<or> jidx a ''spec'' = JObj m \<and> jset a [''spec''] (JObj (bt_remove ''clusterIPs'' (bt_remove ''clusterIP'' m))) = Some n1"
    by blast
  note shape = this
  show "svc_type n1 = svc_type new"
  proof (cases rule: shape)
    case (fill a)
    have "svc_type a = svc_type new" by (rule svc_type_cong[OF jset_sub(2)[OF fill(1)]]) simp
    moreover have "svc_type n1 = svc_type a" if "jset a [''spec'', ''clusterIPs''] ips = Some n1" for ips
      by (rule svc_type_cong[OF jset_sub(2)[OF that]]) simp
    ultimately show ?thesis using fill(2) by auto
  next
    case (drop a m)
    have "svc_type a = svc_type new" using jset_jat[of new "[''spec'']" _ a] drop(2) by (simp add: jtouch_def svc_type_def del: jset.simps)
    moreover have "svc_type n1 = svc_type a" if "jidx a ''spec'' = JObj m" "jset a [''spec''] (JObj (bt_remove ''clusterIPs'' (bt_remove ''clusterIP'' m))) = Some n1"
      using jset_jat[OF that(2)] that(1) by (simp add: svc_type_def bt_simps del: jset.simps)
    ultimately show ?thesis using drop(3) by auto
  qed simp
  show "given_ip n1 = Some ip" if "has_cluster_ip new" "held_ip (Some stored) = Some ip"
  proof (cases rule: shape)
    case keep
    then show ?thesis using g h that str_or_nonempty[of _ ?oip] by blast
  next
    case (fill a)
    have "jat a [''spec'', ''clusterIP''] = JStr ?oip" by (rule jset_sub(1)[OF fill(1)])
    then have "jat n1 [''spec'', ''clusterIP''] = JStr ?oip" using fill(2) jset_sub(2)[of a "''spec''" "''clusterIPs''" _ n1 "''clusterIP''"] by auto
    then show ?thesis using g that(2) by blast
  next
    case drop
    then show ?thesis using that(1) by simp
  qed
qed

lemma carry_ports_keeps:
  assumes "carry_ports stored new = Some n"
  shows "svc_type n = svc_type new" "given_ip n = given_ip new"
proof -
  obtain a where a: "jset new [''spec'', ''ports''] (jat new [''spec'', ''ports'']) = Some a"
      "(case jat a [''spec'', ''ports''] of
         JArr ps \<Rightarrow>
           Option.bind (those (map (carry_port (may_have stored) (may_have new) (svc_ports stored)) ps))
             (\<lambda>ps'. jset a [''spec'', ''ports''] (JArr ps'))
       | _ \<Rightarrow> Some a) = Some n"
    using assms unfolding carry_ports_def jtouch_def bind_eq_Some_conv by blast
  have n: "n = a \<or> (\<exists>v. jset a [''spec'', ''ports''] v = Some n)"
    using a(2) by (cases "jat a [''spec'', ''ports'']") (auto simp: bind_eq_Some_conv simp del: jset.simps jat_Cons)
  have f: "svc_type w = svc_type v \<and> given_ip w = given_ip v" if "jset v [''spec'', ''ports''] x = Some w" for v w x
    using svc_type_cong[OF jset_sub(2)[OF that]] given_ip_cong[OF jset_sub(2)[OF that]] by simp
  show "svc_type n = svc_type new" "given_ip n = given_ip new" using f[OF a(1)] f n by (auto simp del: jset.simps jat_Cons)
qed

lemma patch_and_check_keeps:
  assumes "patch_and_check rng old new = Some (Inr n)"
  shows "has_cluster_ip n \<Longrightarrow> held_ip old = Some ip \<Longrightarrow> given_ip n = Some ip" "old = None \<Longrightarrow> n = new"
proof -
  show "old = None \<Longrightarrow> n = new" using assms by (auto simp: patch_and_check_def Let_def split: if_splits)
  assume h: "has_cluster_ip n" "held_ip old = Some ip"
  then obtain stored where o: "old = Some stored" by (auto simp: held_ip_def split: option.splits)
  obtain n1 where n1: "carry_ip stored new = Some (n1, [])" "carry_ports stored n1 = Some n"
    using assms by (auto simp: patch_and_check_def o Let_def bind_eq_Some_conv split: if_splits)
  have "has_cluster_ip new" using h(1) carry_ip_keeps(1)[OF n1(1)] carry_ports_keeps(1)[OF n1(2)] by (simp add: has_cluster_ip_def)
  then show "given_ip n = Some ip" using carry_ip_keeps(2)[OF n1(1)] carry_ports_keeps(2)[OF n1(2)] h(2) o by simp
qed

text \<open>
  C34. An update keeps the address of a Service: what passes the check has the stored ClusterIP,
  whether the update named it or left it out, unless the update makes it an ExternalName.
\<close>

theorem update_keeps_address:
  assumes "patch_and_check rng (Some stored) new = Some (Inr svc)"
    and "has_cluster_ip stored" "given_ip stored = Some ip" "has_cluster_ip svc"
  shows "given_ip svc = Some ip"
  using patch_and_check_keeps(1)[OF assms(1,4)] assms(2,3) by (simp add: held_ip_def)

theorem update_keeps_address_witness:
  "given_ip (JObj [(''spec'', JObj [(''clusterIP'', JStr ''10.96.0.9''), (''clusterIPs'', JArr [JStr ''10.96.0.9'']), (''ports'', JArr [])])]) =
     Some ''10.96.0.9''"
proof (rule update_keeps_address)
  show "patch_and_check (30000, 32767)
      (Some (JObj [(''spec'', JObj [(''clusterIP'', JStr ''10.96.0.9''), (''clusterIPs'', JArr [JStr ''10.96.0.9''])])]))
      (JObj [(''spec'', JObj [(''ports'', JArr [])])]) =
    Some (Inr (JObj [(''spec'', JObj [(''clusterIP'', JStr ''10.96.0.9''), (''clusterIPs'', JArr [JStr ''10.96.0.9'']), (''ports'', JArr [])])]))"
    by (simp add: patch_and_check_def carry_ip_def carry_ports_def has_cluster_ip_def svc_type_def str_or_def jtouch_def port_errors_def
        svc_ports_def less_char_def List.map_filter_def Let_def)
qed (simp_all add: has_cluster_ip_def svc_type_def given_ip_def str_or_def)

section \<open>A plan\<close>

definition old_claims :: "json option \<Rightarrow> string set" where
  "old_claims old = (case old of Some svc \<Rightarrow> claims svc | None \<Rightarrow> {})"

text \<open>What a plan promises: the object uses what was claimed or was there, and what it gives back was there and is not used.\<close>

definition planned :: "json option \<Rightarrow> json \<Rightarrow> np_plan \<Rightarrow> string set \<Rightarrow> bool" where
  "planned old svc pl C \<longleftrightarrow> pl_ok pl C \<and> claims svc \<subseteq> C \<union> old_claims old \<and>
     set (np_release pl) \<subseteq> old_claims old - claims svc \<and> distinct (np_release pl)"

lemma before_claims: "np_key ` set (before_of old) \<subseteq> old_claims old"
  by (auto simp: before_of_def old_claims_def claims_def split: option.splits)

lemma held_ip_claim: "held_ip old = Some ip \<Longrightarrow> sip_key ip \<in> old_claims old"
  by (auto simp: held_ip_def old_claims_def claims_def ip_claim_def split: option.splits if_splits)

lemma ip_claim_cong: "svc_type w = svc_type v \<Longrightarrow> given_ip w = given_ip v \<Longrightarrow> ip_claim w = ip_claim v"
  by (simp add: ip_claim_def has_cluster_ip_def)

lemma release_ip_release:
  assumes "np_release pl = []" "\<And>ip. has_cluster_ip new \<Longrightarrow> held_ip old = Some ip \<Longrightarrow> given_ip new = Some ip"
  shows "np_release (release_ip old new pl) = [] \<or>
    (\<exists>ip. held_ip old = Some ip \<and> \<not> has_cluster_ip new \<and> np_release (release_ip old new pl) = [sip_key ip])"
  using assms by (cases "held_ip old") (auto simp: release_ip_def given_ip_def split: option.splits if_splits)

lemma planned_ports:
  assumes pl: "pl_ok pl C" "np_release pl = np_release (release_ip old new pl0)" "np_release pl0 = []"
    and ip: "\<And>ip. has_cluster_ip new \<Longrightarrow> held_ip old = Some ip \<Longrightarrow> given_ip new = Some ip" "ip_claim new \<subseteq> C \<union> old_claims old"
    and svc: "svc_type svc = svc_type new" "given_ip svc = given_ip new"
    and taken: "np_key ` set taken \<subseteq> C \<union> np_key ` set (before_of old)" "\<forall>p \<in> set (svc_ports svc). node_port p \<noteq> 0 \<longrightarrow> node_port p \<in> set taken"
  shows "planned old svc (release_ports (before_of old) taken pl) C"
proof -
  let ?gone = "filter (\<lambda>n. n \<notin> set taken) (before_of old)"
  have c: "claims svc = ip_claim new \<union> np_key ` set (held svc)" using ip_claim_cong[OF svc] by (simp add: claims_def)
  have h: "set (held svc) \<subseteq> set taken" using taken(2) by (auto simp: held_def)
  have u: "claims svc \<subseteq> C \<union> old_claims old" using c h ip(2) taken(1) before_claims[of old] by blast
  have d: "distinct (map np_key ?gone)" by (auto simp: distinct_map inj_on_def before_of_def held_def split: option.splits)
  have g: "np_key ` set ?gone \<subseteq> old_claims old - claims svc"
    using before_claims[of old] c h by (auto simp: ip_claim_def split: if_splits option.splits)
  have r: "set (np_release pl) \<subseteq> old_claims old - claims svc \<and> distinct (np_release pl) \<and> set (np_release pl) \<inter> np_key ` set ?gone = {}"
    using release_ip_release[of pl0 new old, OF pl(3) ip(1)] held_ip_claim[of old] c pl(2) by (auto simp: ip_claim_def)
  show ?thesis using u d g r pl(1) by (auto simp: planned_def release_ports_def pl_ok_def)
qed

text \<open>The object planned is of the type asked for, and without an address of its own its address field is as it was.\<close>

definition same_type :: "json \<Rightarrow> json \<Rightarrow> bool" where
  "same_type v w \<longleftrightarrow> svc_type w = svc_type v \<and> (\<not> has_cluster_ip v \<longrightarrow> given_ip w = given_ip v)"

lemma own_allocate_ip:
  assumes ip: "\<And>ip. has_cluster_ip new \<Longrightarrow> held_ip old = Some ip \<Longrightarrow> given_ip new = Some ip"
    and Q: "\<And>e pl C. pl_ok pl C \<Longrightarrow> Q (Inl (e, pl)) C K"
    "\<And>w pl C. pl_ok pl C \<Longrightarrow> np_release pl = [] \<Longrightarrow> ip_claim w \<subseteq> C \<union> old_claims old \<Longrightarrow>
       (\<And>ip. has_cluster_ip w \<Longrightarrow> held_ip old = Some ip \<Longrightarrow> given_ip w = Some ip) \<Longrightarrow> same_type new w \<Longrightarrow> Q (Inr (w, pl)) C K"
  shows "own (allocate_ip cidr old new \<lparr>np_claimed = [], np_release = []\<rparr>) {} K Q"
proof -
  let ?pl = "\<lparr>np_claimed = [], np_release = []\<rparr>"
  have e: "pl_ok ?pl {}" by (simp add: pl_ok_def)
  show ?thesis
  proof (cases "has_cluster_ip new \<and> held_ip old = None")
    case True
    have n: "Q (Inr (w, ?pl)) {} K" if "given_ip w = None" "svc_type w = svc_type new" for w
      using that True e by (intro Q(2)) (auto simp: ip_claim_def same_type_def)
    have c: "Q (Inr (w, also_claimed (sip_key ip) ?pl)) {sip_key ip} K" if "given_ip w = Some ip" "svc_type w = svc_type new" for w ip
      using that True pl_ok_claimed[OF e, of "sip_key ip"] by (intro Q(2)) (auto simp: ip_claim_def also_claimed_def same_type_def)
    show ?thesis unfolding allocate_ip_def own_ok_with using True
      by (simp only: if_True own_ok_with simp_thms) (rule own_sip_allocate, use Q(1)[OF e] n c True in auto)
  next
    case False
    have "ip_claim new \<subseteq> old_claims old" using False ip held_ip_claim[of old] by (auto simp: ip_claim_def split: option.splits)
    then show ?thesis unfolding allocate_ip_def using False e ip by (auto simp: same_type_def intro!: Q(2))
  qed
qed

lemma release_ip_ok [simp]: "pl_ok (release_ip old new pl) C = pl_ok pl C"
  by (auto simp: release_ip_def pl_ok_def split: option.splits)

lemma own_np_allocate:
  assumes ip: "\<And>ip. has_cluster_ip new \<Longrightarrow> held_ip old = Some ip \<Longrightarrow> given_ip new = Some ip"
    and Q: "\<And>e pl C. pl_ok pl C \<Longrightarrow> Q (Inl (e, pl)) C K" "\<And>svc pl C. planned old svc pl C \<Longrightarrow> same_type new svc \<Longrightarrow> Q (Inr (svc, pl)) C K"
  shows "own (np_allocate rng cidr old new) {} K Q"
proof -
  have rest: "own (let before = before_of old
       in ok (claim_ports w before 0 (svc_ports w) [] [] [] (release_ip old w pl0)) (\<lambda>(taken, errs, pl).
            if errs \<noteq> [] then PRet (Inl (np_invalid w errs, pl))
            else if allocates w then
              PSnapshot (NP_PREFIX @ ''/'') (\<lambda>keys.
                ok (alloc_ports rng w before 0 (svc_ports w) (claimed_view keys) taken pl [])
                  (\<lambda>(ports, taken', pl').
                     or_panic (if svc_ports w = [] then Some w else jset w [''spec'', ''ports''] (JArr ports)) (\<lambda>n1.
                       PRet (Inr (n1, release_ports before taken' pl')))))
            else PRet (Inr (w, release_ports before taken pl)))) C K Q"
    if w: "pl_ok pl0 C" "np_release pl0 = []" "ip_claim w \<subseteq> C \<union> old_claims old"
      "\<And>ip. has_cluster_ip w \<Longrightarrow> held_ip old = Some ip \<Longrightarrow> given_ip w = Some ip" "same_type new w" for w pl0 C
  proof -
    have final: "planned old svc (release_ports (before_of old) taken pl) C' \<and> same_type new svc"
      if "pl_ok pl C'" "C \<subseteq> C'" "np_release pl = np_release (release_ip old w pl0)"
        "np_key ` set taken \<subseteq> C' \<union> np_key ` set (before_of old)" "\<forall>p \<in> set (svc_ports svc). node_port p \<noteq> 0 \<longrightarrow> node_port p \<in> set taken"
        "svc_type svc = svc_type w" "given_ip svc = given_ip w" for svc taken pl C'
      using planned_ports[OF that(1,3) w(2,4) _ that(6,7,4,5)] w(3,5) that(2,6,7) by (auto simp: same_type_def)
    have set_ports: "planned old n1 (release_ports (before_of old) taken pl) C' \<and> same_type new n1"
      if "(if svc_ports w = [] then Some w else jset w [''spec'', ''ports''] (JArr ports)) = Some n1" "pl_ok pl C'" "C \<subseteq> C'"
        "np_release pl = np_release (release_ip old w pl0)" "np_key ` set taken \<subseteq> C' \<union> np_key ` set (before_of old)"
        "\<forall>p \<in> set ports. node_port p \<noteq> 0 \<longrightarrow> node_port p \<in> set taken" for ports n1 taken pl C'
    proof (cases "svc_ports w = []")
      case True
      then show ?thesis using that by (intro final) auto
    next
      case False
      then have j: "jset w [''spec'', ''ports''] (JArr ports) = Some n1" using that(1) by (simp only: if_False)
      have p: "svc_ports n1 = ports" using jset_sub(1)[OF j] by (simp add: svc_ports_def)
      show ?thesis using that(2-6) p svc_type_cong[OF jset_sub(2)[OF j]] given_ip_cong[OF jset_sub(2)[OF j]] by (intro final) simp_all
    qed
    show ?thesis unfolding Let_def own_ok
    proof (rule own_claim_ports[where before = "before_of old"], goal_cases)
      case (4 taken errs pl C')
      have "own (alloc_ports rng w (before_of old) 0 (svc_ports w) view taken pl []) C' K
          (\<lambda>r C'' K'. case r of Inl e \<Rightarrow> Q (Inl e) C'' K' | Inr x \<Rightarrow> own ((\<lambda>(ports, taken', pl').
               or_panic (if svc_ports w = [] then Some w else jset w [''spec'', ''ports''] (JArr ports)) (\<lambda>n1.
                 PRet (Inr (n1, release_ports (before_of old) taken' pl')))) x) C'' K' Q)" if "errs = []" for view
        by (rule own_alloc_ports[where before = "before_of old"]) (use 4 that Q(1) in \<open>auto intro!: Q(2) set_ports[THEN conjunct1] set_ports[THEN conjunct2] simp del: jset.simps\<close>)
      then show ?case using 4 by (auto intro!: Q final[THEN conjunct1] final[THEN conjunct2])
    qed (use w Q(1) in auto)
  qed
  show ?thesis unfolding np_allocate_def own_ok
    by (rule own_allocate_ip[OF ip]) (simp_all only: sum.case prod.case Q(1) rest)
qed

lemma own_plan_abort: "pl_ok pl C \<Longrightarrow> Q () {} K \<Longrightarrow> own (plan_abort pl) C K Q"
  unfolding plan_abort_def by (rule own_delete_all) (auto simp: pl_ok_def)

lemma own_np_plan_for:
  assumes "\<And>e. Q (Inl e) {} K"
    "\<And>svc pl C. planned old svc pl C \<Longrightarrow> (old = None \<Longrightarrow> same_type new svc) \<Longrightarrow> Q (Inr (svc, pl)) C K"
  shows "own (np_plan_for rng cidr old new) {} K Q"
proof -
  have "own (bindp (np_allocate rng cidr old n) (\<lambda>r. case r of
            Inl (e, pl) \<Rightarrow> bindp (plan_abort pl) (\<lambda>_. PRet (Inl e))
          | Inr res \<Rightarrow> PRet (Inr res))) {} K Q" if n: "patch_and_check rng old new = Some (Inr n)" for n
    unfolding own_bind
    by (rule own_np_allocate[OF patch_and_check_keeps(1)[OF n]])
       (use assms patch_and_check_keeps(2)[OF n] in \<open>auto intro!: own_plan_abort\<close>)
  then show ?thesis using assms(1) by (auto simp: np_plan_for_def split: sum.splits simp del: own_bind)
qed

section \<open>The requests\<close>

lemma own_release_all:
  assumes "claims svc \<subseteq> C" "has_cluster_ip svc \<or> given_ip svc = None" "Q () (C - claims svc) K"
  shows "own (release_all svc) C K Q"
proof -
  have p: "own (delete_all (map np_key (held svc))) (C - ip_claim svc) K Q"
    by (rule own_delete_all) (use assms in \<open>auto simp: claims_def ip_claim_def distinct_map inj_on_def held_def set_diff_eq split: option.splits if_splits\<close>)
  have i: "ip_claim svc = (case given_ip svc of Some ip \<Rightarrow> {sip_key ip} | None \<Rightarrow> {})"
    using assms(2) by (auto simp: ip_claim_def split: option.splits)
  show ?thesis using p assms(1)
    by (cases "given_ip svc") (auto simp: release_all_def sip_release_def np_release_held_def claims_def i)
qed

text \<open>What admission does after the claims were made leaves them as they are.\<close>

definition keeps_claims :: "(json \<Rightarrow> api_error + json) \<Rightarrow> bool" where
  "keeps_claims admit \<longleftrightarrow> (\<forall>svc obj. admit svc = Inr obj \<longrightarrow> claims obj = claims svc)"

lemma own_service_create:
  assumes "is_service key" "has_cluster_ip body \<or> given_ip body = None" "keeps_claims admit"
  shows "own (service_create rng cidr quota admit key body) {} K (\<lambda>_ _ _. True)"
  unfolding service_create_def own_ok
proof (rule own_np_plan_for, goal_cases)
  case (2 svc pl C)
  have c: "claims svc \<subseteq> C" and g: "has_cluster_ip svc \<or> given_ip svc = None"
    using 2 assms(2) by (auto simp: planned_def old_claims_def same_type_def has_cluster_ip_def)
  have r: "own (bindp (release_all svc) (\<lambda>_. PRet (Inl e))) C K (\<lambda>_ _ _. True)" for e
    using own_release_all[OF c g] by simp
  have "claims obj \<subseteq> C" if "admit svc = Inr obj" for obj using that assms(3) c by (auto simp: keeps_claims_def)
  then show ?case using r assms(1) claim_not_service[of key] by (auto split: sum.splits simp del: own_bind simp: own_bind[of "PRet _"] own_bind[of "PCreate _ _ _"])
qed simp

lemma claims_cong: "jidx w ''spec'' = jidx v ''spec'' \<Longrightarrow> claims w = claims v"
  by (simp add: claims_def ip_claim_def has_cluster_ip_def svc_type_def given_ip_def held_def svc_ports_def)

lemma own_plan_commit:
  assumes "planned (Some old) svc pl C" "claims old - claims svc \<subseteq> C'" "\<And>C. Q () C K"
  shows "own (plan_commit pl) C' K Q"
  unfolding plan_commit_def
  by (rule own_delete_all) (use assms claims_are_claims[of _ old] in \<open>auto simp: planned_def old_claims_def\<close>)

lemma own_persist:
  assumes k: "is_service key" "K (key, r) = Some fresh" "r < 2 ^ 64" and pl: "planned (Some fresh) svc pl C"
    and obj: "jat obj [''metadata'', ''resourceVersion''] = JStr (show_nat r)" "claims obj = claims svc"
    and Q: "\<And>e. Q (Inl e) C K" "\<And>v C'. claims fresh - claims svc \<subseteq> C' \<Longrightarrow> Q (Inr v) C' K"
  shows "own (persist_or_finalize key obj) C K Q"
proof -
  have p: "Option.bind (as_str (jat obj [''metadata'', ''resourceVersion''])) (parse_uint 64) = Some r"
    using k(3) by (simp only: obj(1) as_str.simps bind.simps parse_show_nat)
  have c: "claims obj - claims fresh \<subseteq> C" using pl obj(2) by (auto simp: planned_def old_claims_def)
  show ?thesis unfolding persist_or_finalize_def p Let_def using k(1,2) claim_not_service[of key] c Q
    by (auto simp: freed_def obj(2) intro!: Q(2))
qed

lemma own_service_write:
  assumes k: "is_service key" "K (key, r) = Some fresh" "r < 2 ^ 64" "keeps_claims admit"
    and Q: "\<And>e. Q (Inl e) {} K" "\<And>e. Q (Inr (Inl e)) {} K" "\<And>v C. Q (Inr (Inr v)) C K"
  shows "own (service_write rng cidr (versioned (show_nat r) admit) key fresh body) {} K Q"
  unfolding service_write_def own_ok
proof (rule own_np_plan_for, goal_cases)
  case (2 svc pl C)
  have a: "own (bindp (plan_abort pl) (\<lambda>_. PRet (Inr (Inl e)))) C K Q" for e
    using own_plan_abort[of pl C] 2(1) Q(2) by (simp add: planned_def)
  have w: "own (persist_or_finalize key obj) C K (\<lambda>written C' K'.
      own (bindp (case written of Inr _ \<Rightarrow> plan_commit pl | Inl _ \<Rightarrow> plan_abort pl) (\<lambda>_. PRet (Inr written))) C' K' Q)"
    if "admit svc = Inr o0" "jset o0 [''metadata'', ''resourceVersion''] (JStr (show_nat r)) = Some obj" for o0 obj
  proof (rule own_persist[of key K r, OF k(1-3) 2(1)])
    show "jat obj [''metadata'', ''resourceVersion''] = JStr (show_nat r)" by (rule jset_sub(1)[OF that(2)])
    have "claims obj = claims o0" by (rule claims_cong) (rule jset_sub(3)[OF that(2)], simp)
    then show "claims obj = claims svc" using that(1) k(4) by (simp add: keeps_claims_def)
  qed (use a own_plan_commit[OF 2(1)] Q(3) in simp_all)
  show ?case using a w by (auto simp: versioned_def split: sum.splits simp del: jset.simps own_bind simp: own_bind[of "PRet _"] own_bind[of "persist_or_finalize _ _"])
qed (simp add: Q)

lemma own_update_attempt:
  assumes k: "is_service key" "keeps_claims admit"
    and Q: "\<And>e K. Q (Inl e) {} K" "\<And>e K. Q (Inr (Inl e)) {} K" "\<And>v C K. Q (Inr (Inr v)) C K"
  shows "own (update_attempt rng cidr pre mutate admit key) {} K Q"
proof -
  have "own (service_write rng cidr (versioned (str_or [] (jat v [''metadata'', ''resourceVersion''])) admit) key v obj) {} (K((key, r) \<mapsto> v)) Q"
    if "r < 2 ^ 64" "jat v [''metadata'', ''resourceVersion''] = JStr (show_nat r)" for v r obj
    unfolding that(2) str_or_def as_str.simps option.case by (rule own_service_write) (use that k Q in auto)
  then show ?thesis using Q(1) by (simp add: update_attempt_def Let_def split: sum.splits del: jat_Cons)
qed

lemma own_service_patch:
  assumes k: "is_service key" "keeps_claims admit"
  shows "own (service_patch n rng cidr pre mutate admit key) {} K (\<lambda>_ _ _. True)"
proof (induction n arbitrary: K)
  case 0
  show ?case unfolding service_patch.simps own_ok by (rule own_update_attempt[OF k]) simp_all
next
  case (Suc n)
  show ?case unfolding service_patch.simps own_ok by (rule own_update_attempt[OF k]) (simp_all add: Suc)
qed

section \<open>Who holds a claim\<close>

text \<open>
  A claim is held by a running request (\<open>Inl\<close>, its place in the pool) or by the Service
  stored at a key (\<open>Inr\<close>). \<open>svc_at\<close> is the Service in the store, \<open>claims_ok\<close> what is to hold:
  the claims of the stored Services are there, and no two Services share one.
\<close>

definition svc_at :: "'b from_slice \<Rightarrow> (string \<rightharpoonup> 'b \<times> nat) \<Rightarrow> string \<Rightarrow> json option" where
  "svc_at from_slice m k =
     (case m k of
        Some (b, _) \<Rightarrow> if is_service k then (case from_slice b of Inr v \<Rightarrow> Some v | Inl _ \<Rightarrow> None) else None
      | None \<Rightarrow> None)"

definition claims_ok :: "'b from_slice \<Rightarrow> (string \<rightharpoonup> 'b \<times> nat) \<Rightarrow> bool" where
  "claims_ok from_slice m \<longleftrightarrow>
     (\<forall>k v. svc_at from_slice m k = Some v \<longrightarrow>
        claims v \<subseteq> dom m \<and> (\<forall>k' v'. svc_at from_slice m k' = Some v' \<and> k' \<noteq> k \<longrightarrow> claims v \<inter> claims v' = {}))"

type_synonym owner = "string \<Rightarrow> (nat + string) option"

definition owned :: "'b from_slice \<Rightarrow> (string \<rightharpoonup> 'b \<times> nat) \<Rightarrow> nat \<Rightarrow> owner \<Rightarrow> (nat \<Rightarrow> known) \<Rightarrow> bool" where
  "owned from_slice m n ow Ks \<longleftrightarrow>
     (\<forall>c h. ow c = Some h \<longrightarrow> is_claim c \<and> c \<in> dom m) \<and>
     (\<forall>k v. svc_at from_slice m k = Some v \<longrightarrow> claims v \<subseteq> {c. ow c = Some (Inr k)}) \<and>
     (\<forall>i k r v. Ks i (k, r) = Some v \<longrightarrow> 0 < r \<and> r \<le> n \<and>
        (\<forall>b. is_service k \<and> m k = Some (b, r) \<longrightarrow> (\<exists>v'. svc_at from_slice m k = Some v' \<and> claims v' = claims v)))"

lemma ownedI:
  assumes "\<And>c h. ow c = Some h \<Longrightarrow> is_claim c \<and> c \<in> dom m"
    "\<And>k v c. svc_at from_slice m k = Some v \<Longrightarrow> c \<in> claims v \<Longrightarrow> ow c = Some (Inr k)"
    "\<And>i k r v. Ks i (k, r) = Some v \<Longrightarrow> 0 < r \<and> r \<le> n"
    "\<And>i k r v b. Ks i (k, r) = Some v \<Longrightarrow> is_service k \<Longrightarrow> m k = Some (b, r) \<Longrightarrow> \<exists>v'. svc_at from_slice m k = Some v' \<and> claims v' = claims v"
  shows "owned from_slice m n ow Ks"
  using assms unfolding owned_def by blast

lemma ownedD:
  assumes "owned from_slice m n ow Ks"
  shows "ow c = Some h \<Longrightarrow> is_claim c \<and> c \<in> dom m"
    "svc_at from_slice m k = Some v \<Longrightarrow> c \<in> claims v \<Longrightarrow> ow c = Some (Inr k)"
    "Ks i (k, r) = Some v \<Longrightarrow> 0 < r \<and> r \<le> n"
    "Ks i (k, r) = Some v \<Longrightarrow> is_service k \<Longrightarrow> m k = Some (b, r) \<Longrightarrow> \<exists>v'. svc_at from_slice m k = Some v' \<and> claims v' = claims v"
  using assms unfolding owned_def by (blast, blast, blast, blast)

lemma owned_claims_ok:
  assumes o: "owned from_slice m n ow Ks"
  shows "claims_ok from_slice m"
  unfolding claims_ok_def
proof (intro allI impI conjI)
  fix k v assume v: "svc_at from_slice m k = Some v"
  show "claims v \<subseteq> dom m" using ownedD(1)[OF o ownedD(2)[OF o v]] by blast
  fix k' v' assume v': "svc_at from_slice m k' = Some v' \<and> k' \<noteq> k"
  have False if "c \<in> claims v" "c \<in> claims v'" for c
    using ownedD(2)[OF o v that(1)] ownedD(2)[OF o _ that(2)] v' by force
  then show "claims v \<inter> claims v' = {}" by blast
qed

lemma claims_ok_owned:
  assumes "claims_ok from_slice m"
  shows "\<exists>ow. owned from_slice m n ow (\<lambda>_. Map.empty) \<and> (\<forall>c i. ow c \<noteq> Some (Inl i))"
proof -
  define ow :: owner where "ow c = (if \<exists>k v. svc_at from_slice m k = Some v \<and> c \<in> claims v
      then Some (Inr (SOME k. \<exists>v. svc_at from_slice m k = Some v \<and> c \<in> claims v)) else None)" for c
  have holder: "ow c = Some (Inr k)" if "svc_at from_slice m k = Some v" "c \<in> claims v" for k v c
  proof -
    have "(SOME k. \<exists>v. svc_at from_slice m k = Some v \<and> c \<in> claims v) = k"
      using assms that unfolding claims_ok_def by (intro some_equality) blast+
    then show ?thesis using that by (auto simp: ow_def)
  qed
  have "owned from_slice m n ow (\<lambda>_. Map.empty)"
  proof (rule ownedI)
    fix c h assume "ow c = Some h"
    then obtain k v where v: "svc_at from_slice m k = Some v" "c \<in> claims v" by (auto simp: ow_def split: if_splits)
    have "claims v \<subseteq> dom m" using assms v(1) unfolding claims_ok_def by blast
    then show "is_claim c \<and> c \<in> dom m" using v(2) claims_are_claims by blast
  qed (use holder in auto)
  moreover have "\<forall>c i. ow c \<noteq> Some (Inl i)" by (simp add: ow_def)
  ultimately show ?thesis by blast
qed

lemma svc_at_claim: "is_claim c \<Longrightarrow> svc_at from_slice (m(c := x)) = svc_at from_slice m"
  using claim_not_service[of c] by (auto simp: svc_at_def fun_eq_iff split: option.splits)

lemma svc_at_write:
  "is_service k \<Longrightarrow> from_slice b = Inr v \<Longrightarrow> svc_at from_slice (m(k \<mapsto> (b, r))) k' = (if k' = k then Some v else svc_at from_slice m k')"
  by (simp add: svc_at_def)

lemma svc_at_gone: "svc_at from_slice (m(k := None)) k' = (if k' = k then None else svc_at from_slice m k')"
  by (simp add: svc_at_def)

text \<open>The effects of the accesses: a claim made, by this request or for nobody; a Service written; a claim or a Service removed.\<close>

lemma owned_claim:
  assumes o: "owned from_slice m n ow Ks" and c: "is_claim c" "n \<le> n'"
  shows "owned from_slice (m(c \<mapsto> x)) n' ow Ks" "ow c = None \<Longrightarrow> owned from_slice (m(c \<mapsto> x)) n' (ow(c \<mapsto> Inl i)) Ks"
proof -
  have new: "owned from_slice (m(c \<mapsto> x)) n' ow' Ks" if "\<And>d h. ow' d = Some h \<Longrightarrow> d = c \<or> ow d = Some h" "\<And>d k. ow d = Some k \<Longrightarrow> ow' d = Some k" for ow'
  proof (rule ownedI, unfold svc_at_claim[OF c(1)])
    fix d h assume "ow' d = Some h"
    then show "is_claim d \<and> d \<in> dom (m(c \<mapsto> x))" using that(1)[of d h] ownedD(1)[OF o, of d h] c(1) by (auto simp del: domIff)
  next
    fix j k r v b assume "Ks j (k, r) = Some v" "is_service k" "(m(c \<mapsto> x)) k = Some (b, r)"
    then show "\<exists>v'. svc_at from_slice m k = Some v' \<and> claims v' = claims v"
      using ownedD(4)[OF o] claim_not_service[OF c(1)] by (auto split: if_splits)
  qed (use that(2) ownedD(2,3)[OF o] c(2) order_trans in blast)+
  show "owned from_slice (m(c \<mapsto> x)) n' ow Ks" by (rule new) auto
  show "ow c = None \<Longrightarrow> owned from_slice (m(c \<mapsto> x)) n' (ow(c \<mapsto> Inl i)) Ks" by (rule new) (auto split: if_splits)
qed

lemma owned_unclaim:
  assumes o: "owned from_slice m n ow Ks" and c: "ow c = Some (Inl i)" "n \<le> n'" "m' = m \<or> m' = m(c := None)"
  shows "owned from_slice m' n' (ow(c := None)) Ks"
proof -
  have cl: "is_claim c" using ownedD(1)[OF o c(1)] by simp
  have s: "svc_at from_slice m' = svc_at from_slice m" using c(3) svc_at_claim[OF cl] by metis
  show ?thesis
  proof (rule ownedI, unfold s)
    fix d h assume "(ow(c := None)) d = Some h"
    then show "is_claim d \<and> d \<in> dom m'" using ownedD(1)[OF o, of d h] c(3) by (auto split: if_splits simp del: domIff)
  next
    fix k v d assume "svc_at from_slice m k = Some v" "d \<in> claims v"
    then show "(ow(c := None)) d = Some (Inr k)" using ownedD(2)[OF o] c(1) by fastforce
  next
    fix j k r v b assume "Ks j (k, r) = Some v" "is_service k" "m' k = Some (b, r)"
    then show "\<exists>v'. svc_at from_slice m k = Some v' \<and> claims v' = claims v"
      using ownedD(4)[OF o] claim_not_service[OF cl] c(3) by (auto split: if_splits)
  qed (use ownedD(3)[OF o] c(2) order_trans in blast)
qed

definition moved :: "owner \<Rightarrow> string \<Rightarrow> nat \<Rightarrow> string set \<Rightarrow> string set \<Rightarrow> owner" where
  "moved ow k i T R c = (if c \<in> T then Some (Inr k) else if c \<in> R then Some (Inl i) else ow c)"

lemma owned_write:
  assumes o: "owned from_slice m n ow Ks" and k: "is_service k" "from_slice b = Inr v" "n < n'"
    and T: "claims v \<subseteq> {c. ow c = Some (Inl i) \<or> ow c = Some (Inr k)}" "R \<subseteq> {c. ow c = Some (Inr k)}"
  shows "owned from_slice (m(k \<mapsto> (b, n'))) n' (moved ow k i (claims v) R) Ks"
proof (rule ownedI, unfold svc_at_write[of k from_slice b v, OF k(1,2)])
  fix c h assume "moved ow k i (claims v) R c = Some h"
  then obtain h' where "ow c = Some h'" using T by (auto simp: moved_def split: if_splits)
  then show "is_claim c \<and> c \<in> dom (m(k \<mapsto> (b, n')))" using ownedD(1)[OF o] by (simp del: domIff)
next
  fix k' v' c assume "(if k' = k then Some v else svc_at from_slice m k') = Some v'" "c \<in> claims v'"
  then show "moved ow k i (claims v) R c = Some (Inr k')"
    using T ownedD(2)[OF o, of k' v' c] by (fastforce simp: moved_def split: if_splits)
next
  fix j k' r w assume "Ks j (k', r) = Some w"
  then show "0 < r \<and> r \<le> n'" using ownedD(3)[OF o] k(3) by fastforce
next
  fix j k' r w b' assume r: "Ks j (k', r) = Some w" "is_service k'" "(m(k \<mapsto> (b, n'))) k' = Some (b', r)"
  then have "k' \<noteq> k" using ownedD(3)[OF o r(1)] k(3) by auto
  then show "\<exists>v'. (if k' = k then Some v else svc_at from_slice m k') = Some v' \<and> claims v' = claims w"
    using r ownedD(4)[OF o] by auto
qed

lemma owned_remove:
  assumes o: "owned from_slice m n ow Ks" and k: "is_service k" "n \<le> n'" and R: "R \<subseteq> {c. ow c = Some (Inr k)}"
  shows "owned from_slice (m(k := None)) n' (moved ow k i {} R) Ks"
proof (rule ownedI, unfold svc_at_gone)
  fix c h assume "moved ow k i {} R c = Some h"
  then obtain h' where "ow c = Some h'" using R by (auto simp: moved_def split: if_splits)
  then show "is_claim c \<and> c \<in> dom (m(k := None))" using ownedD(1)[OF o, of c h'] k(1) claim_not_service by (auto simp del: domIff)
next
  fix k' v' c assume "(if k' = k then None else svc_at from_slice m k') = Some v'" "c \<in> claims v'"
  then show "moved ow k i {} R c = Some (Inr k')"
    using R ownedD(2)[OF o, of k' v' c] by (fastforce simp: moved_def split: if_splits)
next
  fix j k' r w assume "Ks j (k', r) = Some w"
  then show "0 < r \<and> r \<le> n'" using ownedD(3)[OF o] k(2) by fastforce
next
  fix j k' r w b' assume "Ks j (k', r) = Some w" "is_service k'" "(m(k := None)) k' = Some (b', r)"
  then show "\<exists>v'. (if k' = k then None else svc_at from_slice m k') = Some v' \<and> claims v' = claims w"
    using ownedD(4)[OF o] by (auto split: if_splits)
qed

text \<open>A read: what it saw is what is there, at that version.\<close>

lemma owned_read:
  assumes o: "owned from_slice m n ow Ks" and r: "m k = Some (b, r)" "0 < r" "r \<le> n" "from_slice b = Inr v0" "claims v = claims v0"
  shows "owned from_slice m n ow (Ks(i := (Ks i)((k, r) \<mapsto> v)))"
proof (rule ownedI)
  fix j k' r' w b' assume "(Ks(i := (Ks i)((k, r) \<mapsto> v))) j (k', r') = Some w" "is_service k'" "m k' = Some (b', r')"
  then show "\<exists>v'. svc_at from_slice m k' = Some v' \<and> claims v' = claims w"
    using ownedD(4)[OF o] r by (auto simp: svc_at_def split: if_splits)
qed (use ownedD(1-3)[OF o] r in \<open>auto split: if_splits\<close>)

section \<open>Interleaving\<close>

text \<open>
  The requests: creates whose body does not carry an address it cannot have, guaranteed updates,
  and the repair of the claims at startup, over any list of Services.
\<close>

inductive service_request :: "nat \<times> nat \<Rightarrow> string \<Rightarrow> (api_error + json) prog \<Rightarrow> bool" for rng cidr where
  create: "is_service key \<Longrightarrow> has_cluster_ip body \<or> given_ip body = None \<Longrightarrow> keeps_claims admit \<Longrightarrow>
    service_request rng cidr (service_create rng cidr quota admit key body)"
| patch: "is_service key \<Longrightarrow> keeps_claims admit \<Longrightarrow>
    service_request rng cidr (service_patch n rng cidr precondition mutate admit key)"
| repair: "service_request rng cidr (bindp (sip_reconcile svcs 0) (\<lambda>_. bindp (np_reconcile svcs 0) (\<lambda>_. PRet (Inr JNull))))"

text \<open>
  One access of one request, or a new request. The answers are the storage's, over any
  datastore; a write of a Service that the datastore fails is not carried out. The cache and
  the random numbers may show anything.
\<close>

inductive sv_step ::
    "'b to_vec \<Rightarrow> 'b from_slice \<Rightarrow> (string \<Rightarrow> 's \<Rightarrow> error + ('b \<times> nat) option) \<Rightarrow> ('s, 'b) put_op \<Rightarrow>
     (string \<Rightarrow> nat option \<Rightarrow> 's \<Rightarrow> 's \<times> (error + nat)) \<Rightarrow> ('r prog \<Rightarrow> bool) \<Rightarrow>
     's \<times> 'r prog list \<Rightarrow> 's \<times> 'r prog list \<Rightarrow> bool"
  for to_vec from_slice get put delete request where
  start: "request p \<Longrightarrow> sv_step to_vec from_slice get put delete request (s, ps) (s, ps @ [p])"
| create: "i < length ps \<Longrightarrow> ps ! i = PCreate k v f \<Longrightarrow> st_create to_vec put k v s = Some (s', r) \<Longrightarrow>
    is_service k \<and> (\<exists>e. r = Inl e) \<longrightarrow> s' = s \<Longrightarrow>
    sv_step to_vec from_slice get put delete request (s, ps) (s', ps[i := f r])"
| update: "i < length ps \<Longrightarrow> ps ! i = PUpdate k v prev f \<Longrightarrow> st_update to_vec put k v prev s = Some (s', r) \<Longrightarrow>
    (\<exists>e. r = Inl e) \<longrightarrow> s' = s \<Longrightarrow>
    sv_step to_vec from_slice get put delete request (s, ps) (s', ps[i := f r])"
| delete: "i < length ps \<Longrightarrow> ps ! i = PDelete k prev f \<Longrightarrow> st_delete delete k prev s = (s', r) \<Longrightarrow>
    sv_step to_vec from_slice get put delete request (s, ps) (s', ps[i := f r])"
| get: "i < length ps \<Longrightarrow> ps ! i = PGet k f \<Longrightarrow> st_get from_slice get k s = Some r \<Longrightarrow>
    sv_step to_vec from_slice get put delete request (s, ps) (s, ps[i := f r])"
| snapshot: "i < length ps \<Longrightarrow> ps ! i = PSnapshot p f \<Longrightarrow>
    sv_step to_vec from_slice get put delete request (s, ps) (s, ps[i := f keys])"
| draw: "i < length ps \<Longrightarrow> ps ! i = PDraw f \<Longrightarrow>
    sv_step to_vec from_slice get put delete request (s, ps) (s, ps[i := f n])"

lemma own_sip_reconcile: "(\<And>x C. Q x C K) \<Longrightarrow> own (sip_reconcile svcs n) C K Q"
  by (induction svcs arbitrary: n C) (simp_all add: sip_claim_def own_claim_key split: option.splits)

lemma own_np_claim_all: "(\<And>x C. Q x C K) \<Longrightarrow> own (np_claim_all svc ports n) C K Q"
  by (induction ports arbitrary: n C) (simp_all add: np_claim_def own_claim_key)

lemma own_np_reconcile: "(\<And>x C. Q x C K) \<Longrightarrow> own (np_reconcile svcs n) C K Q"
  by (induction svcs arbitrary: n C) (simp_all add: own_np_claim_all)

lemma own_request: "service_request rng cidr p \<Longrightarrow> own p {} K (\<lambda>_ _ _. True)"
  by (induction rule: service_request.induct)
     (simp_all add: own_service_create own_service_patch own_sip_reconcile own_np_reconcile)

text \<open>The pool: every request owns what \<open>own\<close> needs, and no other request is an owner.\<close>

definition pool_ok :: "owner \<Rightarrow> (nat \<Rightarrow> known) \<Rightarrow> 'r prog list \<Rightarrow> bool" where
  "pool_ok ow Ks ps \<longleftrightarrow> (\<forall>i < length ps. own (ps ! i) {c. ow c = Some (Inl i)} (Ks i) (\<lambda>_ _ _. True)) \<and>
     (\<forall>i c. ow c = Some (Inl i) \<longrightarrow> i < length ps)"

definition sv_inv :: "'b from_slice \<Rightarrow> (string \<rightharpoonup> 'b \<times> nat) \<Rightarrow> nat \<Rightarrow> 'r prog list \<Rightarrow> bool" where
  "sv_inv from_slice m n ps \<longleftrightarrow> (\<exists>ow Ks. owned from_slice m n ow Ks \<and> pool_ok ow Ks ps)"

lemma pool_ok_at: "pool_ok ow Ks ps \<Longrightarrow> i < length ps \<Longrightarrow> own (ps ! i) {c. ow c = Some (Inl i)} (Ks i) (\<lambda>_ _ _. True)"
  by (simp add: pool_ok_def)

lemma pool_ok_step:
  assumes "pool_ok ow Ks ps" "i < length ps" "own p {c. ow' c = Some (Inl i)} (Ks' i) (\<lambda>_ _ _. True)"
    and "\<And>j c. j \<noteq> i \<Longrightarrow> ow' c = Some (Inl j) \<longleftrightarrow> ow c = Some (Inl j)" "\<And>j. j \<noteq> i \<Longrightarrow> Ks' j = Ks j"
  shows "pool_ok ow' Ks' (ps[i := p])"
proof -
  have "own (ps[i := p] ! j) {c. ow' c = Some (Inl j)} (Ks' j) (\<lambda>_ _ _. True)" if "j < length ps" for j
    using assms that pool_ok_at[OF assms(1), of j] by (cases "j = i") simp_all
  moreover have "j < length ps" if "ow' c = Some (Inl j)" for j c
    using assms that by (cases "j = i") (auto simp: pool_ok_def)
  ultimately show ?thesis by (simp add: pool_ok_def)
qed

lemma sv_inv_start:
  assumes "sv_inv from_slice m n ps" "service_request rng cidr p"
  shows "sv_inv from_slice m n (ps @ [p])"
proof -
  obtain ow Ks where o: "owned from_slice m n ow Ks" "pool_ok ow Ks ps" using assms(1) by (auto simp: sv_inv_def)
  have e: "{c. ow c = Some (Inl (length ps))} = {}" using o(2) by (auto simp: pool_ok_def)
  have "pool_ok ow Ks (ps @ [p])"
    using o(2) own_request[OF assms(2)] e by (auto simp: pool_ok_def nth_append less_Suc_eq)
  then show ?thesis using o(1) by (auto simp: sv_inv_def)
qed

section \<open>Objects in the store\<close>

lemma claims_stored: "is_service k \<Longrightarrow> claims (stored_form k v) = claims v"
proof -
  assume "is_service k"
  then obtain rest where "k = ''/registry/services/'' @ rest" by (auto simp: is_service_def starts_with_iff)
  then have "metric_resource k = ''services''" by (simp add: metric_resource_def trim_start_matches_def)
  then have n: "stored_form k v = strip_resource_version v"
    by (simp add: stored_form_def numbers_to_strings_def QUANTITY_RESOURCES_def)
  show ?thesis unfolding n
    by (rule claims_cong) (simp add: strip_resource_version_def bt_simps split: json.splits option.splits)
qed

lemma claims_injected: "inject_resource_version v r = Some w \<Longrightarrow> claims w = claims v"
proof (rule claims_cong)
  assume "inject_resource_version v r = Some w"
  then obtain o1 where o1: "jset o1 [''metadata'', ''resourceVersion''] (JStr (show_nat r)) = Some w"
      "o1 = v \<or> jset v [''metadata''] (JObj []) = Some o1"
    by (auto simp: inject_resource_version_def simp del: jset.simps split: option.splits if_splits)
  then show "jidx w ''spec'' = jidx v ''spec''" using jset_sub(3)[OF o1(1)] jset_other[of v "''metadata''" "[]" _ o1] by auto
qed

section \<open>The invariant over a store\<close>

context kv_store
begin

lemma absent: "inv s \<Longrightarrow> mod_rev (contents s) k = 0 \<Longrightarrow> contents s k = None"
  using rev_pos[of s k] by (fastforce simp: mod_rev_def split: option.splits)

lemma at_version: "mod_rev (contents s) k = r \<Longrightarrow> 0 < r \<Longrightarrow> \<exists>b. contents s k = Some (b, r)"
  by (auto simp: mod_rev_def split: option.splits)

lemma create_effect:
  assumes "inv s" "serde_ok to_vec from_slice" "st_create to_vec put k v s = Some (s', r)"
  shows "(\<exists>w b. r = Inr w \<and> contents s k = None \<and> from_slice b = Inr (stored_form k v) \<and> wrote s k b s') \<or>
    (\<exists>e. r = Inl e \<and> (s' = s \<or> (\<exists>b. wrote s k b s')))"
proof (cases r)
  case (Inr w)
  then obtain b rv where b: "to_vec (stored_form k v) = Inr b" "put k b (Some 0) s = (s', Inr rv)"
    using assms(3) st_create_Inr by metis
  then show ?thesis using Inr put_ok[OF assms(1) b(2)] absent[OF assms(1)] assms(2) by (auto simp: serde_ok_def)
next
  case (Inl e)
  have "s' = s \<or> (\<exists>b. wrote s k b s')"
    using assms(3) Inl put_err[OF assms(1)] by (auto simp: st_create_def Let_def split: sum.splits prod.splits error.splits) metis+
  then show ?thesis using Inl by blast
qed

lemma update_effect:
  assumes "inv s" "serde_ok to_vec from_slice" "st_update to_vec put k v (Some p) s = Some (s', Inr w)" "0 < p" "p < 2 ^ 63"
  shows "\<exists>b b0. contents s k = Some (b0, p) \<and> from_slice b = Inr (stored_form k v) \<and> wrote s k b s'"
proof -
  obtain b rv where b: "to_vec (stored_form k v) = Inr b" "put k b (Some p) s = (s', Inr rv)"
    using assms(3) st_update_Inr by metis
  then show ?thesis using put_ok[OF assms(1) b(2)] at_version[of s k p] assms by (auto simp: serde_ok_def)
qed

lemma delete_effect:
  assumes "inv s" "st_delete delete k prev s = (s', r)"
  shows "s' = s \<and> (\<exists>e. r = Inl e) \<or> removed s k s' \<and> (\<forall>w < 2 ^ 63. prev = Some w \<longrightarrow> mod_rev (contents s) k = w)"
proof (cases "delete k prev s")
  case (Pair s1 x)
  show ?thesis
  proof (cases x)
    case (Inl e)
    then show ?thesis using assms(2) Pair delete_err[OF assms(1), of k prev s1 e] by (auto simp: st_delete_def)
  next
    case (Inr n)
    then show ?thesis using assms(2) Pair delete_ok[OF assms(1), of k prev s1 n] by (auto simp: st_delete_def)
  qed
qed

lemma sv_inv_create:
  assumes s: "inv s" "serde_ok to_vec from_slice" "sv_inv from_slice (contents s) (rev s) ps"
    and st: "i < length ps" "ps ! i = PCreate k v f" "st_create to_vec put k v s = Some (s', r)" "is_service k \<and> (\<exists>e. r = Inl e) \<longrightarrow> s' = s"
  shows "inv s' \<and> sv_inv from_slice (contents s') (rev s') (ps[i := f r])"
proof -
  obtain ow Ks where o: "owned from_slice (contents s) (rev s) ow Ks" and p: "pool_ok ow Ks ps" using s(3) by (auto simp: sv_inv_def)
  note q = pool_ok_at[OF p st(1), unfolded st(2) own.simps]
  have sc: "is_claim k \<or> is_service k" using q by (auto split: if_splits)
  consider (stored) w b where "r = Inr w" "contents s k = None" "from_slice b = Inr (stored_form k v)" "wrote s k b s'"
    | (failed) e where "r = Inl e" "s' = s" | (leaked) e b where "r = Inl e" "is_claim k" "wrote s k b s'"
    using create_effect[OF s(1,2) st(3)] st(4) sc by blast
  then show ?thesis
  proof cases
    case failed
    have "pool_ok ow Ks (ps[i := f r])" by (rule pool_ok_step[OF p st(1)]) (use q failed in auto)
    then show ?thesis using o failed(2) s(1) by (auto simp: sv_inv_def)
  next
    case leaked
    note e = wrote_effect[OF s(1) leaked(3)]
    have "pool_ok ow Ks (ps[i := f r])" by (rule pool_ok_step[OF p st(1)]) (use q leaked in auto)
    moreover have "owned from_slice (contents s') (rev s') ow Ks" using owned_claim(1)[OF o leaked(2)] e by simp
    ultimately show ?thesis using e by (auto simp: sv_inv_def)
  next
    case stored
    note e = wrote_effect[OF s(1) stored(4)]
    show ?thesis
    proof (cases "is_claim k")
      case True
      have n: "ow k = None" using ownedD(1)[OF o, of k] stored(2) by (cases "ow k") auto
      have c: "{c. (ow(k \<mapsto> Inl i)) c = Some (Inl i)} = insert k {c. ow c = Some (Inl i)}" by auto
      have "pool_ok (ow(k \<mapsto> Inl i)) Ks (ps[i := f r])"
        by (rule pool_ok_step[OF p st(1)]) (use q True stored(1) n c in auto)
      moreover have "owned from_slice (contents s') (rev s') (ow(k \<mapsto> Inl i)) Ks" using owned_claim(2)[OF o True] n e by simp
      ultimately show ?thesis using e by (auto simp: sv_inv_def)
    next
      case False
      let ?ow = "moved ow k i (claims v) {}"
      have k: "is_service k" "claims v \<subseteq> {c. ow c = Some (Inl i)}" using q False by auto
      have c: "{c. ?ow c = Some (Inl i)} = {c. ow c = Some (Inl i)} - claims v" by (auto simp: moved_def)
      have "pool_ok ?ow Ks (ps[i := f r])"
        by (rule pool_ok_step[OF p st(1)]) (use q False stored(1) c k in \<open>auto simp: moved_def\<close>)
      moreover have "owned from_slice (contents s') (rev s') (moved ow k i (claims (stored_form k v)) {}) Ks"
        using owned_write[OF o k(1) stored(3), of "rev s'" i "{}"] e k by (simp add: claims_stored subset_iff)
      ultimately show ?thesis using e k(1) by (auto simp: sv_inv_def claims_stored)
    qed
  qed
qed

lemma sv_inv_update:
  assumes s: "inv s" "rev s < 2 ^ 63" "serde_ok to_vec from_slice" "sv_inv from_slice (contents s) (rev s) ps"
    and st: "i < length ps" "ps ! i = PUpdate k v prev f" "st_update to_vec put k v prev s = Some (s', r)" "(\<exists>e. r = Inl e) \<longrightarrow> s' = s"
  shows "inv s' \<and> sv_inv from_slice (contents s') (rev s') (ps[i := f r])"
proof -
  obtain ow Ks where o: "owned from_slice (contents s) (rev s) ow Ks" and p: "pool_ok ow Ks ps" using s(4) by (auto simp: sv_inv_def)
  from pool_ok_at[OF p st(1), unfolded st(2) own.simps] obtain x old where
    k: "is_service k" "prev = Some x" "Ks i (k, x) = Some old" "claims v - claims old \<subseteq> {c. ow c = Some (Inl i)}"
    and q: "\<And>e. own (f (Inl e)) {c. ow c = Some (Inl i)} (Ks i) (\<lambda>_ _ _. True)"
      "\<And>w. own (f (Inr w)) ({c. ow c = Some (Inl i)} - claims v \<union> (claims old - claims v)) (Ks i) (\<lambda>_ _ _. True)" by blast
  show ?thesis
  proof (cases r)
    case (Inl e)
    have "pool_ok ow Ks (ps[i := f r])" by (rule pool_ok_step[OF p st(1)]) (use q Inl in auto)
    then show ?thesis using o st(4) Inl s(1) by (auto simp: sv_inv_def)
  next
    case (Inr w)
    have x: "0 < x" "x < 2 ^ 63" using ownedD(3)[OF o k(3)] s(2) by auto
    obtain b b0 where b: "contents s k = Some (b0, x)" "from_slice b = Inr (stored_form k v)" "wrote s k b s'"
      using update_effect[OF s(1,3) st(3)[unfolded k(2) Inr] x] by blast
    note e = wrote_effect[OF s(1) b(3)]
    obtain cur where cur: "svc_at from_slice (contents s) k = Some cur" "claims cur = claims old"
      using ownedD(4)[OF o k(3,1) b(1)] by blast
    have old: "claims old \<subseteq> {c. ow c = Some (Inr k)}" using ownedD(2)[OF o cur(1)] cur(2) by auto
    let ?ow = "moved ow k i (claims v) (claims old - claims v)"
    have c: "{c. ?ow c = Some (Inl i)} = {c. ow c = Some (Inl i)} - claims v \<union> (claims old - claims v)" by (auto simp: moved_def)
    have "pool_ok ?ow Ks (ps[i := f r])"
      by (rule pool_ok_step[OF p st(1)]) (use q(2) Inr c k(4) old in \<open>auto simp: moved_def\<close>)
    moreover have "owned from_slice (contents s') (rev s') (moved ow k i (claims (stored_form k v)) (claims old - claims v)) Ks"
      using owned_write[OF o k(1) b(2), of "rev s'" i "claims old - claims v"] e k(1,4) old by (auto simp: claims_stored)
    ultimately show ?thesis using e k(1) by (auto simp: sv_inv_def claims_stored)
  qed
qed

lemma sv_inv_delete:
  assumes s: "inv s" "rev s < 2 ^ 63" "sv_inv from_slice (contents s) (rev s) ps"
    and st: "i < length ps" "ps ! i = PDelete k prev f" "st_delete delete k prev s = (s', r)"
  shows "inv s' \<and> sv_inv from_slice (contents s') (rev s') (ps[i := f r])"
proof -
  obtain ow Ks where o: "owned from_slice (contents s) (rev s) ow Ks" and p: "pool_ok ow Ks ps" using s(3) by (auto simp: sv_inv_def)
  note q = pool_ok_at[OF p st(1), unfolded st(2) own.simps]
  have e: "inv s' \<and> rev s \<le> rev s' \<and> (contents s' = contents s \<or> contents s' = (contents s)(k := None))"
    using delete_effect[OF s(1) st(3)] removed_effect[OF s(1)] s(1) by auto
  show ?thesis
  proof (cases "is_claim k")
    case True
    then have h: "ow k = Some (Inl i)" using q by auto
    have c: "{c. (ow(k := None)) c = Some (Inl i)} = {c. ow c = Some (Inl i)} - {k}" by auto
    have "pool_ok (ow(k := None)) Ks (ps[i := f r])" by (rule pool_ok_step[OF p st(1)]) (use q True c h in auto)
    then show ?thesis using owned_unclaim[OF o h] e by (auto simp: sv_inv_def)
  next
    case False
    then have k: "is_service k" using q by simp
    show ?thesis
    proof (cases r)
      case (Inl x)
      have "pool_ok ow Ks (ps[i := f r])" by (rule pool_ok_step[OF p st(1)]) (use q False Inl in auto)
      moreover have "moved ow k i {} {} = ow" by (auto simp: moved_def)
      ultimately show ?thesis
        using e o owned_remove[OF o k, of "rev s'" "{}" i] delete_effect[OF s(1) st(3)] removed_effect[OF s(1), of k s']
        by (fastforce simp: sv_inv_def)
    next
      case (Inr x)
      let ?R = "freed k prev (Ks i)"
      have d: "removed s k s'" "\<forall>w < 2 ^ 63. prev = Some w \<longrightarrow> mod_rev (contents s) k = w" using delete_effect[OF s(1) st(3)] Inr by auto
      note e = removed_effect[OF s(1) d(1)]
      have R: "?R \<subseteq> {c. ow c = Some (Inr k)}"
      proof (cases "Option.bind prev (\<lambda>r. Ks i (k, r))")
        case (Some old)
        then obtain y where y: "prev = Some y" "Ks i (k, y) = Some old" by (auto simp: bind_eq_Some_conv)
        then obtain b where "contents s k = Some (b, y)" using ownedD(3)[OF o y(2)] d(2) s(2) at_version[of s k y] by auto
        then show ?thesis using ownedD(4)[OF o y(2) k] ownedD(2)[OF o] Some by (fastforce simp: freed_def)
      qed (simp add: freed_def)
      have c: "{c. moved ow k i {} ?R c = Some (Inl i)} = {c. ow c = Some (Inl i)} \<union> ?R" by (auto simp: moved_def)
      have "pool_ok (moved ow k i {} ?R) Ks (ps[i := f r])"
        by (rule pool_ok_step[OF p st(1)]) (use q False Inr c R in \<open>auto simp: moved_def\<close>)
      then show ?thesis using owned_remove[OF o k _ R, of "rev s'" i] e by (auto simp: sv_inv_def)
    qed
  qed
qed

lemma sv_inv_get:
  assumes s: "inv s" "rev s < 2 ^ 63" "sv_inv from_slice (contents s) (rev s) ps"
    and st: "i < length ps" "ps ! i = PGet k f" "st_get from_slice get k s = Some r"
  shows "sv_inv from_slice (contents s) (rev s) (ps[i := f r])"
proof -
  obtain ow Ks where o: "owned from_slice (contents s) (rev s) ow Ks" and p: "pool_ok ow Ks ps" using s(3) by (auto simp: sv_inv_def)
  note q = pool_ok_at[OF p st(1), unfolded st(2) own.simps]
  show ?thesis
  proof (cases r)
    case (Inl e)
    have "pool_ok ow Ks (ps[i := f r])" by (rule pool_ok_step[OF p st(1)]) (use q Inl in auto)
    then show ?thesis using o by (auto simp: sv_inv_def)
  next
    case (Inr v)
    obtain b x v0 where v: "get k s = Inr (Some (b, x))" "from_slice b = Inr v0" "inject_resource_version v0 x = Some v"
      using st_get_Inr[OF st(3)[unfolded Inr]] by blast
    have c: "contents s k = Some (b, x)" using get_ok[OF s(1) v(1)] by simp
    note x = c rev_pos[OF s(1) c]
    have "pool_ok ow (Ks(i := (Ks i)((k, x) \<mapsto> v))) (ps[i := f r])"
      by (rule pool_ok_step[OF p st(1)]) (use q Inr inject_version[OF v(3)] x(2) s(2) in auto)
    moreover have "owned from_slice (contents s) (rev s) ow (Ks(i := (Ks i)((k, x) \<mapsto> v)))"
      using owned_read[OF o x(1) _ _ v(2) claims_injected[OF v(3)]] x(2) by simp
    ultimately show ?thesis by (auto simp: sv_inv_def)
  qed
qed

lemma sv_inv_silent:
  assumes "sv_inv from_slice m n ps" "i < length ps" "\<And>C K. own (ps ! i) C K (\<lambda>_ _ _. True) \<Longrightarrow> own p C K (\<lambda>_ _ _. True)"
  shows "sv_inv from_slice m n (ps[i := p])"
  using assms pool_ok_step[OF _ assms(2)] pool_ok_at[OF _ assms(2)] by (auto simp: sv_inv_def) metis

lemma sv_step_inv:
  assumes "sv_step to_vec from_slice get put delete (service_request rng cidr) st st'" "serde_ok to_vec from_slice" "\<And>s. inv s \<Longrightarrow> rev s < 2 ^ 63"
    and "inv (fst st)" "sv_inv from_slice (contents (fst st)) (rev (fst st)) (snd st)"
  shows "inv (fst st') \<and> sv_inv from_slice (contents (fst st')) (rev (fst st')) (snd st')"
  using assms
proof (cases rule: sv_step.cases)
  case (start p s ps)
  then show ?thesis using assms(4,5) sv_inv_start by simp
next
  case (create i ps k v f s s' r)
  then show ?thesis using sv_inv_create[OF _ assms(2) _ create(3-6)] assms(4,5) by simp
next
  case (update i ps k v prev f s s' r)
  then show ?thesis using sv_inv_update[OF _ _ assms(2) _ update(3-6)] assms(3-5) by simp
next
  case (delete i ps k prev f s s' r)
  then show ?thesis using sv_inv_delete[OF _ _ _ delete(3-5)] assms(3-5) by simp
next
  case (get i ps k f s r)
  then show ?thesis using sv_inv_get[OF _ _ _ get(3-5)] assms(3-5) by simp
next
  case (snapshot i ps p f s keys)
  then show ?thesis using assms(4,5) by (auto intro: sv_inv_silent)
next
  case (draw i ps f s n)
  then show ?thesis using assms(4,5) by (auto intro: sv_inv_silent)
qed

lemma claims_stay_exclusive:
  assumes "(sv_step to_vec from_slice get put delete (service_request rng cidr))\<^sup>*\<^sup>* (s, []) (s', ps)" "serde_ok to_vec from_slice"
    and "\<And>s. inv s \<Longrightarrow> rev s < 2 ^ 63" "inv s" "claims_ok from_slice (contents s)"
  shows "claims_ok from_slice (contents s')"
proof -
  obtain ow where ow: "owned from_slice (contents s) (rev s) ow (\<lambda>_. Map.empty)" "\<forall>c i. ow c \<noteq> Some (Inl i)"
    using claims_ok_owned[OF assms(5)] by blast
  have "inv (fst st) \<and> sv_inv from_slice (contents (fst st)) (rev (fst st)) (snd st)"
    if "(sv_step to_vec from_slice get put delete (service_request rng cidr))\<^sup>*\<^sup>* (s, []) st" for st
    using that
  proof (induction rule: rtranclp_induct)
    case base
    then show ?case using assms(4) ow by (auto simp: sv_inv_def pool_ok_def)
  next
    case (step st st')
    then show ?case using sv_step_inv[OF step.hyps(2) assms(2,3)] by blast
  qed
  then show ?thesis using assms(1) owned_claims_ok by (fastforce simp: sv_inv_def)
qed

end

section \<open>No two Services share an address or a port\<close>

text \<open>What \<open>claims_ok\<close> says of addresses and ports.\<close>

lemma claims_ok_meaning:
  assumes ok: "claims_ok from_slice m" and v: "svc_at from_slice m k = Some v"
  shows "(\<forall>ip. has_cluster_ip v \<and> given_ip v = Some ip \<longrightarrow> m (sip_key ip) \<noteq> None) \<and> (\<forall>n \<in> set (held v). m (np_key n) \<noteq> None) \<and>
    (\<forall>k' v'. k' \<noteq> k \<and> svc_at from_slice m k' = Some v' \<longrightarrow>
       set (held v) \<inter> set (held v') = {} \<and>
       (has_cluster_ip v \<and> has_cluster_ip v' \<and> given_ip v \<noteq> None \<longrightarrow> given_ip v' \<noteq> given_ip v))"
proof -
  have d: "claims v \<subseteq> dom m" using ok v unfolding claims_ok_def by blast
  have e: "claims v \<inter> claims v' = {}" if "k' \<noteq> k" "svc_at from_slice m k' = Some v'" for k' v'
    using ok v that unfolding claims_ok_def by blast
  have ip: "sip_key ip \<in> claims w" if "has_cluster_ip w" "given_ip w = Some ip" for w ip using that by (simp add: claims_def ip_claim_def)
  have np: "np_key n \<in> claims w" if "n \<in> set (held w)" for w n using that by (simp add: claims_def)
  have "set (held v) \<inter> set (held v') = {} \<and> (has_cluster_ip v \<and> has_cluster_ip v' \<and> given_ip v \<noteq> None \<longrightarrow> given_ip v' \<noteq> given_ip v)"
    if "k' \<noteq> k" "svc_at from_slice m k' = Some v'" for k' v'
    using e[OF that] np[of _ v] np[of _ v'] ip[of v] ip[of v'] by fastforce
  then show ?thesis using d ip[of v] np[of _ v] by blast
qed

context etcd
begin

lemmas adapter_claims = claims_stay_exclusive

end

definition ex_ip :: string where "ex_ip = ''10.96.0.9''"
definition ex_svc_key :: string where "ex_svc_key = ''/registry/services/n/a''"
definition ex_body :: json where
  "ex_body = JObj [(''metadata'', JObj [(''name'', JStr ''a''), (''namespace'', JStr ''n'')]), (''spec'', JObj [(''clusterIP'', JStr ex_ip)])]"
definition ex_svc :: json where
  "ex_svc = JObj [(''metadata'', JObj [(''name'', JStr ''a''), (''namespace'', JStr ''n'')]),
     (''spec'', JObj [(''clusterIP'', JStr ex_ip), (''clusterIPs'', JArr [JStr ex_ip])])]"
definition ex_rec :: json where "ex_rec = JObj [(''ip'', JStr ex_ip), (''name'', JStr ''a''), (''namespace'', JStr ''n'')]"
definition ex_request :: "(api_error + json) prog" where
  "ex_request = service_create (30000, 32767) ''10.96.0.0/12'' (\<lambda>_. Inr ()) Inr ex_svc_key ex_body"

lemma ex_fields: "svc_type ex_body = ''ClusterIP''" "given_ip ex_body = Some ex_ip" "svc_ports ex_body = []" "svc_namespace ex_body = ''n''"
  "svc_name ex_body = ''a''" "jset ex_body [''spec'', ''clusterIPs''] (JArr [JStr ex_ip]) = Some ex_svc"
  "svc_type ex_svc = ''ClusterIP''" "given_ip ex_svc = Some ex_ip" "svc_ports ex_svc = []"
  by (simp_all add: ex_body_def ex_svc_def ex_ip_def svc_type_def given_ip_def svc_ports_def svc_namespace_def svc_name_def str_or_def less_char_def)

lemma ex_first:
  "sip_allocate cidr ex_body = ok (claim_key (sip_key ex_ip) ex_rec) (\<lambda>won.
     if \<not> won then PRet (Inl (invalid (''ClusterIP '' @ ex_ip @ '' is already allocated''))) else PRet (Inr ex_svc))"
proof -
  have n: "as_str (jat ex_body [''spec'', ''clusterIP'']) \<noteq> Some ''None''" "str_or ''ClusterIP'' (jat ex_body [''spec'', ''type'']) \<noteq> ''ExternalName''"
    by (simp_all add: ex_body_def ex_ip_def str_or_def)
  show ?thesis unfolding sip_allocate_def
    by (simp only: n ex_fields if_False option.case or_panic_def sip_claim_def ex_rec_def simp_thms)
qed

lemma ex_planned:
  "\<exists>f. np_plan_for rng cidr None ex_body = PCreate (sip_key ex_ip) ex_rec f \<and>
       (\<forall>w. f (Inr w) = PRet (Inr (ex_svc, \<lparr>np_claimed = [sip_key ex_ip], np_release = []\<rparr>)))"
proof -
  have p: "patch_and_check rng None ex_body = Some (Inr ex_body)"
    by (simp add: patch_and_check_def port_errors_def ex_fields List.map_filter_def)
  have h: "has_cluster_ip ex_body" "held_ip None = None" "before_of None = []" "\<not> allocates ex_svc" "release_ip None ex_svc pl = pl" for pl
    by (simp_all add: has_cluster_ip_def ex_fields held_ip_def before_of_def allocates_def release_ip_def)
  let ?e = "\<lparr>np_claimed = [], np_release = []\<rparr>" let ?p = "\<lparr>np_claimed = [sip_key ex_ip], np_release = []\<rparr>"
  have a: "allocate_ip cidr None ex_body ?e = ok_with ?e (sip_allocate cidr ex_body) (\<lambda>n1.
      PRet (Inr (n1, case given_ip n1 of Some ip \<Rightarrow> also_claimed (sip_key ip) ?e | None \<Rightarrow> ?e)))"
    by (simp add: allocate_ip_def h)
  obtain f where f: "allocate_ip cidr None ex_body ?e = PCreate (sip_key ex_ip) ex_rec f" "\<And>w. f (Inr w) = PRet (Inr (ex_svc, ?p))"
    unfolding a ex_first by (simp add: ok_def ok_with_def claim_key_def ex_fields also_claimed_def)
  show ?thesis unfolding np_plan_for_def p or_panic_def np_allocate_def ok_def
    by (simp add: f h ex_fields release_ports_def)
qed

lemma ex_program:
  "\<exists>f g. ex_request = PCreate (sip_key ex_ip) ex_rec f \<and> (\<forall>w. f (Inr w) = PCreate ex_svc_key ex_svc g) \<and> (\<forall>w. g (Inr w) = PRet (Inr w))"
  using ex_planned[of "(30000, 32767)" "''10.96.0.0/12''"] by (auto simp: ex_request_def service_create_def ok_def)

definition ex_claimed :: "json kv" where "ex_claimed = \<lparr>kv_value = ex_rec, kv_create = 2, kv_mod = 2, kv_version = 1\<rparr>"
definition ex_written :: "json kv" where "ex_written = \<lparr>kv_value = ex_svc, kv_create = 3, kv_mod = 3, kv_version = 1\<rparr>"
definition ex_end :: "json server" where
  "ex_end = [[], [], [(sip_key ex_ip, ex_claimed)], [(sip_key ex_ip, ex_claimed), (ex_svc_key, ex_written)]]"

definition ex_mid :: "json server" where "ex_mid = [[], [], [(sip_key ex_ip, ex_claimed)]]"

lemma ex_made: "\<exists>w. st_create Inr (etcd_put srv_put srv_txn) (sip_key ex_ip) ex_rec ex_empty = Some (ex_mid, Inr w)"
proof -
  have st: "stored_form (sip_key ex_ip) ex_rec = ex_rec"
    by (simp add: stored_form_def metric_resource_def sip_key_def SIP_PREFIX_def trim_start_matches_def numbers_to_strings_def
        QUANTITY_RESOURCES_def strip_resource_version_def ex_rec_def)
  obtain w where "inject_resource_version ex_rec 2 = Some w"
    by (simp add: inject_resource_version_def ex_rec_def less_char_def)
  then show ?thesis unfolding st_create_def st Let_def
    by (simp add: etcd_put_def srv_txn_def srv_put_def ex_empty_def ex_mid_def ex_claimed_def srv_kv_def header_rev_def)
qed

lemma ex_stored_svc: "\<exists>w. st_create Inr (etcd_put srv_put srv_txn) ex_svc_key ex_svc ex_mid = Some (ex_end, Inr w)"
proof -
  have st: "stored_form ex_svc_key ex_svc = ex_svc"
    by (simp add: stored_form_def metric_resource_def ex_svc_key_def trim_start_matches_def numbers_to_strings_def
        QUANTITY_RESOURCES_def strip_resource_version_def bt_remove_def ex_svc_def less_char_def)
  obtain w where "inject_resource_version ex_svc 3 = Some w"
    by (simp add: inject_resource_version_def ex_svc_def less_char_def)
  then show ?thesis unfolding st_create_def st Let_def
    by (simp add: etcd_put_def srv_txn_def srv_put_def ex_mid_def ex_end_def ex_claimed_def ex_written_def srv_kv_def header_rev_def
        sip_key_def SIP_PREFIX_def ex_svc_key_def less_char_def)
qed

lemma ex_steps:
  "\<exists>ps. (sv_step Inr Inr (etcd_get srv_range) (etcd_put srv_put srv_txn) (etcd_delete srv_delete srv_txn)
     (service_request (30000, 32767) ''10.96.0.0/12''))\<^sup>*\<^sup>* (ex_empty, []) (ex_end, ps)"
proof -
  obtain f g where p: "ex_request = PCreate (sip_key ex_ip) ex_rec f" "\<And>w. f (Inr w) = PCreate ex_svc_key ex_svc g"
    using ex_program by blast
  obtain w1 w2 where w: "st_create Inr (etcd_put srv_put srv_txn) (sip_key ex_ip) ex_rec ex_empty = Some (ex_mid, Inr w1)"
    "st_create Inr (etcd_put srv_put srv_txn) ex_svc_key ex_svc ex_mid = Some (ex_end, Inr w2)" using ex_made ex_stored_svc by blast
  let ?step = "sv_step Inr Inr (etcd_get srv_range) (etcd_put srv_put srv_txn) (etcd_delete srv_delete srv_txn)
     (service_request (30000, 32767) ''10.96.0.0/12'')"
  have "service_request (30000, 32767) ''10.96.0.0/12'' ex_request"
    unfolding ex_request_def by (rule service_request.create) (simp_all add: is_service_def ex_svc_key_def starts_with_def has_cluster_ip_def ex_fields keeps_claims_def)
  then have 1: "?step (ex_empty, []) (ex_empty, [ex_request])" using sv_step.start[of _ ex_request _ _ _ _ _ ex_empty "[]"] by simp
  have 2: "?step (ex_empty, [ex_request]) (ex_mid, [f (Inr w1)])" using sv_step.create[of 0 "[ex_request]", OF _ _ w(1)] p(1) by simp
  have 3: "?step (ex_mid, [f (Inr w1)]) (ex_end, [g (Inr w2)])" using sv_step.create[of 0 "[f (Inr w1)]", OF _ _ w(2)] p(2) by simp
  show ?thesis using 1 2 3 by (meson converse_rtranclp_into_rtranclp rtranclp.rtrancl_refl)
qed



end
