(* ===== verification/Selector.thy ===== *)
theory Selector
  imports Prelude
begin

text \<open>
  Label and field selectors: \<^verbatim>\<open>pkg/apimachinery/src/selector.rs\<close> (\<^verbatim>\<open>metav1.LabelSelector\<close> as the
  controllers read it) and \<^verbatim>\<open>pkg/apiserver/src/selector.rs\<close> (the query parameters of LIST and
  WATCH). Shown: printing requirements and parsing the text gives them back, and the two
  implementations select the same objects. The text of a compound JSON value is an argument.
\<close>

section \<open>LabelSelector objects\<close>

definition str_values :: "json \<Rightarrow> string list" where
  "str_values v = List.map_filter as_str (arr v)"

definition expr_ok :: "json \<Rightarrow> json \<Rightarrow> bool" where
  "expr_ok labels expr =
     (let key = str_or [] (jidx expr ''key'');
          oper = str_or [] (jidx expr ''operator'');
          values = str_values (jidx expr ''values'');
          have_v = Option.bind (jget labels key) as_str
      in if oper = ''In'' then (case have_v of Some v \<Rightarrow> v \<in> set values | None \<Rightarrow> False)
         else if oper = ''NotIn'' then (case have_v of Some v \<Rightarrow> v \<notin> set values | None \<Rightarrow> True)
         else if oper = ''Exists'' then have_v \<noteq> None
         else if oper = ''DoesNotExist'' then have_v = None
         else False)"

definition selector_matches :: "json \<Rightarrow> json \<Rightarrow> bool" where
  "selector_matches selector labels =
     (if is_null selector \<or> \<not> is_object selector then False
      else if \<not> list_all (\<lambda>(k, want). jget labels k = Some want)
                (case Option.bind (jget selector ''matchLabels'') as_object of Some ml \<Rightarrow> ml | None \<Rightarrow> [])
      then False
      else
        (case Option.bind (jget selector ''matchExpressions'') as_array of
           None \<Rightarrow> True
         | Some exprs \<Rightarrow> list_all (expr_ok labels) exprs))"

section \<open>Selectors in requests\<close>

datatype label_requirement =
    Eq string string
  | NotEq string string
  | In string "string list"
  | NotIn string "string list"
  | Exists string
  | DoesNotExist string

record field_requirement =
  fr_field :: string
  fr_value :: string
  fr_negate :: bool

text \<open>\<open>split_selector\<close>: on commas outside parentheses. The piece so far is kept reversed.\<close>

fun split_selector_from :: "int \<Rightarrow> string \<Rightarrow> string \<Rightarrow> string list" where
  "split_selector_from depth acc [] = [rev acc]"
| "split_selector_from depth acc (c # s) =
     (if c = CHR ''('' then split_selector_from (depth + 1) (c # acc) s
      else if c = CHR '')'' then split_selector_from (depth - 1) (c # acc) s
      else if c = CHR '','' \<and> depth = 0 then rev acc # split_selector_from depth [] s
      else split_selector_from depth (c # acc) s)"

definition split_selector :: "string \<Rightarrow> string list" where
  "split_selector s = split_selector_from 0 [] s"

definition parse_set_values :: "string \<Rightarrow> string list" where
  "parse_set_values s0 =
     (let s1 = trim s0;
          s2 = (case strip_prefix s1 ''('' of Some t \<Rightarrow> t | None \<Rightarrow> s1);
          s3 = (case strip_suffix s2 '')'' of Some t \<Rightarrow> t | None \<Rightarrow> s2)
      in filter (\<lambda>v. v \<noteq> []) (map trim (split_on CHR '','' s3)))"

definition parse_one_label :: "string \<Rightarrow> label_requirement option" where
  "parse_one_label s =
     (case split_at_sub '' notin '' s of
        Some (a, b) \<Rightarrow> Some (NotIn (trim a) (parse_set_values b))
      | None \<Rightarrow>
     (case split_at_sub '' in '' s of
        Some (a, b) \<Rightarrow> Some (In (trim a) (parse_set_values b))
      | None \<Rightarrow>
     (case split_at_sub ''!='' s of
        Some (a, b) \<Rightarrow> Some (NotEq (trim a) (trim b))
      | None \<Rightarrow>
     (case split_once CHR ''='' s of
        Some (a, rest) \<Rightarrow>
          Some (Eq (trim a) (trim (case strip_prefix rest ''='' of Some t \<Rightarrow> t | None \<Rightarrow> rest)))
      | None \<Rightarrow>
          (let absent = (case strip_prefix s ''!'' of Some t \<Rightarrow> trim t | None \<Rightarrow> [])
           in if absent \<noteq> [] then Some (DoesNotExist absent)
              else if trim s \<noteq> [] then Some (Exists (trim s)) else None)))))"

definition parse_label_selector :: "string \<Rightarrow> label_requirement list" where
  "parse_label_selector s0 =
     (let s = trim s0
      in if s = [] then []
         else List.map_filter parse_one_label (filter (\<lambda>p. p \<noteq> []) (map trim (split_selector s))))"

definition parse_field_part :: "string \<Rightarrow> field_requirement option" where
  "parse_field_part part =
     (case split_at_sub ''!='' part of
        Some (a, b) \<Rightarrow> Some \<lparr>fr_field = trim a, fr_value = trim b, fr_negate = True\<rparr>
      | None \<Rightarrow>
          (case split_once CHR ''='' part of
             Some (a, b) \<Rightarrow> Some \<lparr>fr_field = trim a, fr_value = trim b, fr_negate = False\<rparr>
           | None \<Rightarrow> None))"

definition parse_field_selector :: "string \<Rightarrow> field_requirement list" where
  "parse_field_selector s0 =
     (let s = trim s0
      in if s = [] then []
         else List.map_filter parse_field_part (filter (\<lambda>p. p \<noteq> []) (map trim (split_on CHR '','' s))))"

fun label_ok :: "(string \<times> json) list \<Rightarrow> label_requirement \<Rightarrow> bool" where
  "label_ok labels (Eq k v) = (Option.bind (map_of labels k) as_str = Some v)"
| "label_ok labels (NotEq k v) = (Option.bind (map_of labels k) as_str \<noteq> Some v)"
| "label_ok labels (In k vals) =
     (case Option.bind (map_of labels k) as_str of Some v \<Rightarrow> v \<in> set vals | None \<Rightarrow> False)"
| "label_ok labels (NotIn k vals) =
     (case Option.bind (map_of labels k) as_str of Some v \<Rightarrow> v \<notin> set vals | None \<Rightarrow> True)"
| "label_ok labels (Exists k) = (map_of labels k \<noteq> None)"
| "label_ok labels (DoesNotExist k) = (map_of labels k = None)"

definition matches_label_selector :: "(string \<times> json) list \<Rightarrow> label_requirement list \<Rightarrow> bool" where
  "matches_label_selector labels reqs = list_all (label_ok labels) reqs"

definition zero_value :: "string \<Rightarrow> string" where
  "zero_value field = (if field = ''spec.unschedulable'' then ''false'' else [])"

fun walk_path :: "json \<Rightarrow> string list \<Rightarrow> json option" where
  "walk_path v [] = Some v"
| "walk_path v (p # ps) = (case jget v p of Some x \<Rightarrow> walk_path x ps | None \<Rightarrow> None)"

fun field_text :: "(json \<Rightarrow> string) \<Rightarrow> json \<Rightarrow> string option" where
  "field_text json_text (JStr s) = Some s"
| "field_text json_text (JNum (NInt i)) = Some (show_int i)"
| "field_text json_text (JNum (NFloat s)) = Some s"
| "field_text json_text (JBool b) = Some (if b then ''true'' else ''false'')"
| "field_text json_text JNull = None"
| "field_text json_text v = Some (json_text v)"

definition resolve_field :: "(json \<Rightarrow> string) \<Rightarrow> json \<Rightarrow> string \<Rightarrow> string option" where
  "resolve_field json_text obj path =
     (let p = (if path = ''source'' \<and> (case jget obj ''source'' of Some x \<Rightarrow> is_object x | None \<Rightarrow> False)
               then ''source.component'' else path)
      in Option.bind (walk_path obj (split_on CHR ''.'' p)) (field_text json_text))"

definition matches_field_selector :: "(json \<Rightarrow> string) \<Rightarrow> json \<Rightarrow> field_requirement list \<Rightarrow> bool" where
  "matches_field_selector json_text obj reqs =
     list_all (\<lambda>req.
       (let actual = (case resolve_field json_text obj (fr_field req) of Some v \<Rightarrow> v | None \<Rightarrow> zero_value (fr_field req))
        in (actual = fr_value req) \<noteq> fr_negate req)) reqs"

definition label_reqs_of :: "string option \<Rightarrow> label_requirement list" where
  "label_reqs_of sel = (case sel of Some s \<Rightarrow> parse_label_selector s | None \<Rightarrow> [])"

definition field_reqs_of :: "string option \<Rightarrow> field_requirement list" where
  "field_reqs_of sel = (case sel of Some s \<Rightarrow> parse_field_selector s | None \<Rightarrow> [])"

definition filter_objects :: "(json \<Rightarrow> string) \<Rightarrow> json list \<Rightarrow> string option \<Rightarrow> string option \<Rightarrow> json list" where
  "filter_objects json_text items label_sel field_sel =
     (let label_reqs = label_reqs_of label_sel; field_reqs = field_reqs_of field_sel
      in if label_reqs = [] \<and> field_reqs = [] then items
         else filter (\<lambda>obj.
           (if label_reqs = [] then True
            else matches_label_selector (entries (jat obj [''metadata'', ''labels''])) label_reqs) \<and>
           (if field_reqs = [] then True else matches_field_selector json_text obj field_reqs)) items)"

definition matches_selectors :: "(json \<Rightarrow> string) \<Rightarrow> json \<Rightarrow> string option \<Rightarrow> string option \<Rightarrow> bool" where
  "matches_selectors json_text obj label_sel field_sel =
     (let label_reqs = label_reqs_of label_sel; field_reqs = field_reqs_of field_sel
      in if label_reqs \<noteq> [] \<and> \<not> matches_label_selector (entries (jat obj [''metadata'', ''labels''])) label_reqs then False
         else if field_reqs \<noteq> [] \<and> \<not> matches_field_selector json_text obj field_reqs then False
         else True)"

section \<open>Printing requirements\<close>

text \<open>The selector syntax, and the keys and values it is used with.\<close>

definition commas :: "string list \<Rightarrow> string" where
  "commas vs = join_on CHR '','' vs"

fun print_req :: "label_requirement \<Rightarrow> string" where
  "print_req (Eq k v) = k @ ''='' @ v"
| "print_req (NotEq k v) = k @ ''!='' @ v"
| "print_req (In k vs) = k @ '' in ('' @ commas vs @ '')''"
| "print_req (NotIn k vs) = k @ '' notin ('' @ commas vs @ '')''"
| "print_req (Exists k) = k"
| "print_req (DoesNotExist k) = ''!'' @ k"

definition print_selector :: "label_requirement list \<Rightarrow> string" where
  "print_selector reqs = commas (map print_req reqs)"

definition plain :: "string \<Rightarrow> bool" where
  "plain s \<longleftrightarrow> list_all (\<lambda>c. \<not> is_space c \<and> c \<notin> {CHR '','', CHR ''('', CHR '')'', CHR ''!'', CHR ''=''}) s"

fun plain_req :: "label_requirement \<Rightarrow> bool" where
  "plain_req (Eq k v) = (plain k \<and> k \<noteq> [] \<and> plain v)"
| "plain_req (NotEq k v) = (plain k \<and> k \<noteq> [] \<and> plain v)"
| "plain_req (In k vs) = (plain k \<and> k \<noteq> [] \<and> vs \<noteq> [] \<and> list_all (\<lambda>v. plain v \<and> v \<noteq> []) vs)"
| "plain_req (NotIn k vs) = (plain k \<and> k \<noteq> [] \<and> vs \<noteq> [] \<and> list_all (\<lambda>v. plain v \<and> v \<noteq> []) vs)"
| "plain_req (Exists k) = (plain k \<and> k \<noteq> [])"
| "plain_req (DoesNotExist k) = (plain k \<and> k \<noteq> [])"

lemma plain_chars:
  assumes "plain s"
  shows "CHR '' '' \<notin> set s" "CHR '','' \<notin> set s" "CHR ''('' \<notin> set s" "CHR '')'' \<notin> set s" "CHR ''!'' \<notin> set s" "CHR ''='' \<notin> set s"
    "\<forall>c \<in> set s. \<not> is_space c"
proof -
  have p: "\<not> is_space c \<and> c \<notin> {CHR '','', CHR ''('', CHR '')'', CHR ''!'', CHR ''=''}" if "c \<in> set s" for c
    using assms that unfolding plain_def list_all_iff by blast
  have sp: "is_space CHR '' ''" by (simp add: is_space_def)
  show "CHR '' '' \<notin> set s" "CHR '','' \<notin> set s" "CHR ''('' \<notin> set s" "CHR '')'' \<notin> set s" "CHR ''!'' \<notin> set s" "CHR ''='' \<notin> set s"
    "\<forall>c \<in> set s. \<not> is_space c"
    using p sp by blast+
qed

lemma dropWhile_hd: "xs = [] \<or> \<not> P (hd xs) \<Longrightarrow> dropWhile P xs = xs"
  by (cases xs) auto

lemma trim_nospace: "s = [] \<or> \<not> is_space (hd s) \<and> \<not> is_space (last s) \<Longrightarrow> trim s = s"
  using dropWhile_hd[of s is_space] dropWhile_hd[of "rev s" is_space] by (auto simp: trim_def hd_rev)

lemma trim_plain: "plain s \<Longrightarrow> trim s = s"
  using plain_chars(7) by (intro trim_nospace) (metis hd_in_set last_in_set)

text \<open>A pattern does not start inside a text without its first character.\<close>

lemma split_at_sub_skip:
  "c \<notin> set p \<Longrightarrow> split_at_sub (c # q) (p @ s) = map_option (\<lambda>(a, b). (p @ a, b)) (split_at_sub (c # q) s)"
  by (cases "split_at_sub (c # q) s"; induction p) (auto simp: starts_with_def)

lemma split_at_sub_none: "c \<notin> set s \<Longrightarrow> split_at_sub (c # q) s = None"
  by (induction s) (auto simp: starts_with_def)

lemma split_at_sub_here: "split_at_sub (c # q) ((c # q) @ s) = Some ([], s)"
  by (simp add: starts_with_def)


lemma set_commas: "set (commas vs) \<subseteq> insert CHR '','' (\<Union> (set ` set vs))"
  by (auto simp: commas_def join_on_def split: list.splits)

lemma parse_set_values_commas:
  assumes "vs \<noteq> []" "list_all (\<lambda>v. plain v \<and> v \<noteq> []) vs"
  shows "parse_set_values (''('' @ commas vs @ '')'') = vs"
proof -
  have "trim (''('' @ commas vs @ '')'') = ''('' @ commas vs @ '')''" by (rule trim_nospace) (simp add: is_space_def)
  moreover have "split_on CHR '','' (commas vs) = vs"
    unfolding commas_def using assms by (intro split_on_join) (auto simp: list_all_iff dest: plain_chars)
  moreover have "map trim vs = vs" "filter (\<lambda>v. v \<noteq> []) vs = vs"
    using assms by (auto simp: list_all_iff trim_plain intro!: map_idI)
  moreover have "strip_prefix (''('' @ commas vs @ '')'') ''('' = Some (commas vs @ '')'')" by (rule strip_prefix_append)
  ultimately show ?thesis by (simp add: parse_set_values_def)
qed

lemma commas_char: "c \<noteq> CHR '','' \<Longrightarrow> \<forall>v \<in> set vs. c \<notin> set v \<Longrightarrow> c \<notin> set (commas vs)"
  using set_commas by blast

lemma commas_no_space: "list_all (\<lambda>v. plain v \<and> v \<noteq> []) vs \<Longrightarrow> CHR '' '' \<notin> set (commas vs)"
  by (rule commas_char) (simp_all add: list_all_iff plain_chars)

text \<open>One requirement reads back from its own text.\<close>

lemma parse_print_req:
  assumes "plain_req r"
  shows "parse_one_label (print_req r) = Some r"
proof (cases r)
  case (Eq k v)
  then have p: "plain k" "plain v" "k \<noteq> []" using assms by auto
  note k = plain_chars[OF p(1)] and v = plain_chars[OF p(2)]
  have "split_at_sub '' notin '' (k @ ''='' @ v) = None" "split_at_sub '' in '' (k @ ''='' @ v) = None" "split_at_sub ''!='' (k @ ''='' @ v) = None"
    by (rule split_at_sub_none, use k v in simp)+
  moreover have "split_once CHR ''='' (k @ ''='' @ v) = Some (k, v)" using split_once_append[OF k(6), of v] by simp
  moreover have "strip_prefix v ''='' = None" using v(6) by (cases v) (auto simp: strip_prefix_def starts_with_def)
  ultimately show ?thesis using p by (simp add: parse_one_label_def Eq trim_plain)
next
  case (NotEq k v)
  then have p: "plain k" "plain v" "k \<noteq> []" using assms by auto
  note k = plain_chars[OF p(1)] and v = plain_chars[OF p(2)]
  have "split_at_sub '' notin '' (k @ ''!='' @ v) = None" "split_at_sub '' in '' (k @ ''!='' @ v) = None"
    by (rule split_at_sub_none, use k v in simp)+
  moreover have "split_at_sub ''!='' (k @ ''!='' @ v) = Some (k, v)"
    by (simp add: split_at_sub_skip[OF k(5)] starts_with_def)
  ultimately show ?thesis using p by (simp add: parse_one_label_def NotEq trim_plain)
next
  case (In k vs)
  then have p: "plain k" "k \<noteq> []" "vs \<noteq> []" "list_all (\<lambda>v. plain v \<and> v \<noteq> []) vs" using assms by auto
  note k = plain_chars[OF p(1)] and sp = commas_no_space[OF p(4)]
  have "split_at_sub '' notin '' ('' in ('' @ commas vs @ '')'') = None"
    using split_at_sub_none[of "CHR '' ''" "commas vs @ '')''"] sp by (simp add: starts_with_def)
  then have "split_at_sub '' notin '' (k @ '' in ('' @ commas vs @ '')'') = None"
    by (simp only: split_at_sub_skip[OF k(1)] option.map)
  moreover have "split_at_sub '' in '' ('' in ('' @ commas vs @ '')'') = Some ([], ''('' @ commas vs @ '')'')"
    by (simp add: starts_with_def)
  then have "split_at_sub '' in '' (k @ '' in ('' @ commas vs @ '')'') = Some (k, ''('' @ commas vs @ '')'')"
    by (simp only: split_at_sub_skip[OF k(1)] option.map prod.case append_Nil2)
  ultimately show ?thesis using p parse_set_values_commas[OF p(3,4)] unfolding In print_req.simps parse_one_label_def
    by (simp add: trim_plain)
next
  case (NotIn k vs)
  then have p: "plain k" "k \<noteq> []" "vs \<noteq> []" "list_all (\<lambda>v. plain v \<and> v \<noteq> []) vs" using assms by auto
  note k = plain_chars[OF p(1)]
  have "split_at_sub '' notin '' ('' notin ('' @ commas vs @ '')'') = Some ([], ''('' @ commas vs @ '')'')"
    by (simp add: starts_with_def)
  then have "split_at_sub '' notin '' (k @ '' notin ('' @ commas vs @ '')'') = Some (k, ''('' @ commas vs @ '')'')"
    by (simp only: split_at_sub_skip[OF k(1)] option.map prod.case append_Nil2)
  then show ?thesis using p parse_set_values_commas[OF p(3,4)] unfolding NotIn print_req.simps parse_one_label_def
    by (simp add: trim_plain)
next
  case (Exists k)
  then have p: "plain k" "k \<noteq> []" using assms by auto
  note k = plain_chars[OF p(1)]
  have "split_at_sub '' notin '' k = None" "split_at_sub '' in '' k = None" "split_at_sub ''!='' k = None"
    by (rule split_at_sub_none, use k in simp)+
  moreover have "split_once CHR ''='' k = None" using k(6) by (simp add: split_once_None)
  moreover have "strip_prefix k ''!'' = None" using k(5) by (cases k) (auto simp: strip_prefix_def starts_with_def)
  ultimately show ?thesis using p by (simp add: parse_one_label_def Exists trim_plain)
next
  case (DoesNotExist k)
  then have p: "plain k" "k \<noteq> []" using assms by auto
  note k = plain_chars[OF p(1)]
  have "split_at_sub '' notin '' (''!'' @ k) = None" "split_at_sub '' in '' (''!'' @ k) = None"
    by (rule split_at_sub_none, use k in simp)+
  moreover have "\<not> starts_with (CHR ''!'' # k) ''!=''" using k(6) by (cases k) (auto simp: starts_with_def)
  then have "split_at_sub ''!='' (''!'' @ k) = None" by (simp add: split_at_sub_none[OF k(5)])
  moreover have "split_once CHR ''='' (''!'' @ k) = None" using k(6) by (simp add: split_once_None)
  moreover have "strip_prefix (''!'' @ k) ''!'' = Some k" by (rule strip_prefix_append)
  ultimately show ?thesis using p by (simp add: parse_one_label_def DoesNotExist trim_plain)
qed

section \<open>Splitting\<close>

lemma split_from_skip:
  "CHR ''('' \<notin> set p \<Longrightarrow> CHR '')'' \<notin> set p \<Longrightarrow> CHR '','' \<notin> set p \<or> d \<noteq> 0 \<Longrightarrow>
     split_selector_from d acc (p @ s) = split_selector_from d (rev p @ acc) s"
  by (induction p arbitrary: acc) auto

lemma commas_no_paren:
  "list_all (\<lambda>v. plain v \<and> v \<noteq> []) vs \<Longrightarrow> CHR ''('' \<notin> set (commas vs) \<and> CHR '')'' \<notin> set (commas vs)"
  by (intro conjI commas_char) (simp_all add: list_all_iff plain_chars)

lemma split_from_req:
  assumes "plain_req r"
  shows "split_selector_from 0 acc (print_req r @ s) = split_selector_from 0 (rev (print_req r) @ acc) s"
proof -
  have flat: "split_selector_from 0 acc (p @ s) = split_selector_from 0 (rev p @ acc) s"
    if "CHR ''('' \<notin> set p" "CHR '')'' \<notin> set p" "CHR '','' \<notin> set p" for p
    using that by (simp add: split_from_skip)
  have group: "split_selector_from 0 acc ((w @ ''('' @ commas vs @ '')'') @ s) =
      split_selector_from 0 (rev (w @ ''('' @ commas vs @ '')'') @ acc) s"
    if "CHR ''('' \<notin> set w" "CHR '')'' \<notin> set w" "CHR '','' \<notin> set w" "list_all (\<lambda>v. plain v \<and> v \<noteq> []) vs" for w vs
    using that commas_no_paren[OF that(4)] split_from_skip[of w 0 acc "''('' @ commas vs @ '')'' @ s"]
      split_from_skip[of "commas vs" 1 "''('' @ rev w @ acc" "'')'' @ s"] by simp
  show ?thesis
  proof (cases r)
    case (In k vs)
    then show ?thesis using group[of "k @ '' in ''" vs] assms plain_chars[of k] by simp
  next
    case (NotIn k vs)
    then show ?thesis using group[of "k @ '' notin ''" vs] assms plain_chars[of k] by simp
  next
    case (Eq k v)
    then show ?thesis using flat[of "print_req r"] assms plain_chars[of k] plain_chars[of v] by simp
  next
    case (NotEq k v)
    then show ?thesis using flat[of "print_req r"] assms plain_chars[of k] plain_chars[of v] by simp
  next
    case (Exists k)
    then show ?thesis using flat[of "print_req r"] assms plain_chars[of k] by simp
  next
    case (DoesNotExist k)
    then show ?thesis using flat[of "print_req r"] assms plain_chars[of k] by simp
  qed
qed

lemma split_print:
  assumes "reqs \<noteq> []" "list_all plain_req reqs"
  shows "split_selector_from 0 [] (commas (map print_req reqs)) = map print_req reqs"
  using assms
proof (induction reqs rule: induct_list012)
  case (2 r)
  then show ?case using split_from_req[of r "[]" "[]"] by (simp add: commas_def join_on_def)
next
  case (3 r q reqs)
  have "commas (map print_req (r # q # reqs)) = print_req r @ '','' @ commas (map print_req (q # reqs))"
    by (simp add: commas_def join_on_def)
  then show ?case using 3 split_from_req[of r "[]" "'','' @ commas (map print_req (q # reqs))"] by simp
qed simp

lemma print_ends:
  assumes "plain_req r"
  shows "print_req r \<noteq> []" "\<not> is_space (hd (print_req r))" "\<not> is_space (last (print_req r))"
proof -
  have e: "\<not> is_space CHR ''='' " "\<not> is_space CHR '')'' " "\<not> is_space CHR ''!''" by (simp_all add: is_space_def)
  have in_plain: "\<not> is_space (hd k)" "\<not> is_space (last k)" if "plain k" "k \<noteq> []" for k
    using plain_chars(7)[OF that(1)] that(2) by auto
  show "print_req r \<noteq> []" using assms by (cases r) auto
  show "\<not> is_space (hd (print_req r))" using assms in_plain e by (cases r) (auto simp: hd_append)
  show "\<not> is_space (last (print_req r))" using assms in_plain e by (cases r) (auto simp: last_append)
qed

lemma commas_ends:
  "ps \<noteq> [] \<Longrightarrow> list_all (\<lambda>p. p \<noteq> []) ps \<Longrightarrow> commas ps \<noteq> [] \<and> hd (commas ps) = hd (hd ps) \<and> last (commas ps) = last (last ps)"
proof (induction ps rule: induct_list012)
  case (3 p q ps)
  have "commas (p # q # ps) = p @ '','' @ commas (q # ps)" by (simp add: commas_def join_on_def)
  with 3 show ?case by simp
qed (simp_all add: commas_def join_on_def)

lemma parse_print:
  assumes "list_all plain_req reqs"
  shows "parse_label_selector (print_selector reqs) = reqs"
proof (cases "reqs = []")
  case True
  then show ?thesis by (simp add: parse_label_selector_def print_selector_def commas_def join_on_def trim_def)
next
  case False
  let ?ps = "map print_req reqs"
  have ps: "?ps \<noteq> []" "list_all (\<lambda>p. p \<noteq> []) ?ps" using False assms print_ends(1) by (auto simp: list_all_iff)
  note ce = commas_ends[OF ps]
  have "plain_req (hd reqs)" "plain_req (last reqs)" using False assms by (auto simp: list_all_iff)
  then have t: "trim (commas ?ps) = commas ?ps"
    using ce print_ends(2,3) False by (intro trim_nospace) (simp add: hd_map last_map)
  have "map trim ?ps = ?ps" using assms print_ends by (auto simp: list_all_iff trim_nospace intro!: map_idI)
  moreover have "filter (\<lambda>p. p \<noteq> []) ?ps = ?ps" using ps(2) by (auto simp: list_all_iff filter_id_conv)
  moreover have "List.map_filter parse_one_label ?ps = reqs"
    using assms by (induction reqs) (simp_all add: parse_print_req List.map_filter_simps)
  ultimately show ?thesis
    using ce t split_print[OF False assms] by (simp add: parse_label_selector_def print_selector_def split_selector_def del: map_map)
qed

text \<open>
  C26. Selectors survive the query string: for requirements whose keys and values have no
  white space and none of the characters the syntax uses, parsing the printed selector gives
  back exactly those requirements, in order, whatever mixture of operators and value lists.
\<close>

theorem parse_print_selector:
  assumes "list_all plain_req reqs"
  shows "parse_label_selector (print_selector reqs) = reqs"
  by (rule parse_print[OF assms])

theorem parse_print_selector_witness:
  "parse_label_selector (print_selector [Eq ''app'' ''web'', NotIn ''tier'' [''db'', ''cache''], DoesNotExist ''old'']) =
     [Eq ''app'' ''web'', NotIn ''tier'' [''db'', ''cache''], DoesNotExist ''old'']"
  by (rule parse_print_selector) (simp add: plain_def is_space_def)

section \<open>Two implementations, one meaning\<close>

text \<open>A requirement as the \<^verbatim>\<open>LabelSelector\<close> object the controllers read.\<close>

fun req_json :: "label_requirement \<Rightarrow> json" where
  "req_json (Eq k v) = JObj [(''key'', JStr k), (''operator'', JStr ''In''), (''values'', JArr [JStr v])]"
| "req_json (NotEq k v) = JObj [(''key'', JStr k), (''operator'', JStr ''NotIn''), (''values'', JArr [JStr v])]"
| "req_json (In k vs) = JObj [(''key'', JStr k), (''operator'', JStr ''In''), (''values'', JArr (map JStr vs))]"
| "req_json (NotIn k vs) = JObj [(''key'', JStr k), (''operator'', JStr ''NotIn''), (''values'', JArr (map JStr vs))]"
| "req_json (Exists k) = JObj [(''key'', JStr k), (''operator'', JStr ''Exists'')]"
| "req_json (DoesNotExist k) = JObj [(''key'', JStr k), (''operator'', JStr ''DoesNotExist'')]"

lemma str_values_strings [simp]: "str_values (JArr (map JStr vs)) = vs" "str_values (JArr [JStr v]) = [v]"
  by (induction vs) (simp_all add: str_values_def List.map_filter_simps)

lemma expr_ok_req:
  assumes "\<forall>(k, v) \<in> set labels. is_string v"
  shows "expr_ok (JObj labels) (req_json r) = label_ok labels r"
proof -
  have h: "\<exists>s. map_of labels k = Some (JStr s) \<or> map_of labels k = None" for k
  proof (cases "map_of labels k")
    case (Some v)
    then have "is_string v" using assms by (auto dest: map_of_SomeD)
    with Some show ?thesis by (cases v) auto
  qed simp
  show ?thesis
  proof (cases r)
    case (Eq k v)
    with h[of k] show ?thesis by (auto simp: expr_ok_def)
  next
    case (NotEq k v)
    with h[of k] show ?thesis by (auto simp: expr_ok_def)
  next
    case (In k vs)
    with h[of k] show ?thesis by (auto simp: expr_ok_def)
  next
    case (NotIn k vs)
    with h[of k] show ?thesis by (auto simp: expr_ok_def)
  next
    case (Exists k)
    with h[of k] show ?thesis by (auto simp: expr_ok_def)
  next
    case (DoesNotExist k)
    with h[of k] show ?thesis by (auto simp: expr_ok_def)
  qed
qed

text \<open>
  C27. The controllers and the API server select the same objects: on labels that are
  strings, a \<^verbatim>\<open>LabelSelector\<close> object with the requirements as its expressions matches exactly when
  the parsed selector text does.
\<close>

theorem selector_implementations_agree:
  assumes "list_all plain_req reqs" "\<forall>(k, v) \<in> set labels. is_string v"
  shows "selector_matches (JObj [(''matchExpressions'', JArr (map req_json reqs))]) (JObj labels) \<longleftrightarrow>
    matches_label_selector labels (parse_label_selector (print_selector reqs))"
proof -
  have "list_all (expr_ok (JObj labels)) (map req_json reqs) \<longleftrightarrow> list_all (label_ok labels) reqs"
    by (simp add: list_all_iff expr_ok_req[OF assms(2)])
  then show ?thesis by (simp add: selector_matches_def matches_label_selector_def parse_print[OF assms(1)])
qed

theorem selector_implementations_agree_witness:
  "selector_matches (JObj [(''matchExpressions'', JArr (map req_json [In ''tier'' [''db'', ''cache'']]))]) (JObj [(''tier'', JStr ''db'')])"
  using selector_implementations_agree[of "[In ''tier'' [''db'', ''cache'']]" "[(''tier'', JStr ''db'')]"]
  by (simp add: plain_def is_space_def parse_print matches_label_selector_def)

end
