(* ===== verification/Taint.thy ===== *)
theory Taint
  imports Prelude
begin

text \<open>
  \<^verbatim>\<open>pkg/apimachinery/src/taint.rs\<close>: taints and tolerations, what a \<^verbatim>\<open>NoExecute\<close> taint does to a
  running pod, and adding and removing taints. Seconds are \<^verbatim>\<open>i64\<close> with wrap-around; a panic of
  an index expression is \<open>None\<close>.
\<close>

definition sub_i64 :: "int \<Rightarrow> int \<Rightarrow> int" where
  "sub_i64 a b = (a - b + 2 ^ 63) mod 2 ^ 64 - 2 ^ 63"

definition toleration_matches :: "json \<Rightarrow> json \<Rightarrow> int option option" where
  "toleration_matches toleration taint =
     (let t_key = str_or [] (jidx toleration ''key'');
          t_effect = str_or [] (jidx toleration ''effect'');
          t_value = str_or [] (jidx toleration ''value'');
          oper = str_or ''Equal'' (jidx toleration ''operator'');
          taint_key = str_or [] (jidx taint ''key'');
          taint_effect = str_or [] (jidx taint ''effect'');
          taint_value = str_or [] (jidx taint ''value'')
      in if t_effect \<noteq> [] \<and> t_effect \<noteq> taint_effect then None
         else if \<not> (if oper = ''Exists'' then t_key = [] \<or> t_key = taint_key
                    else if oper = [] \<or> oper = ''Equal'' then t_key = taint_key \<and> t_value = taint_value
                    else False) then None
         else Some (as_i64 (jidx toleration ''tolerationSeconds'')))"

fun best_toleration :: "json \<Rightarrow> int option option \<Rightarrow> json list \<Rightarrow> int option option" where
  "best_toleration taint best [] = best"
| "best_toleration taint best (t # ts) =
     (case toleration_matches t taint of
        None \<Rightarrow> best_toleration taint best ts
      | Some None \<Rightarrow> Some None
      | Some (Some secs) \<Rightarrow>
          best_toleration taint
            (case best of
               Some (Some prev) \<Rightarrow> if secs \<le> prev then Some (Some prev) else Some (Some secs)
             | _ \<Rightarrow> Some (Some secs)) ts)"

definition pod_tolerates :: "json \<Rightarrow> json \<Rightarrow> int option option" where
  "pod_tolerates pod taint =
     (case as_array (jat pod [''spec'', ''tolerations'']) of
        None \<Rightarrow> None
      | Some tolerations \<Rightarrow> best_toleration taint None tolerations)"

datatype verdict = Stay | Evict string | EvictIn int string

fun verdict_loop :: "json \<Rightarrow> (json \<Rightarrow> int) \<Rightarrow> (int \<times> string) option \<Rightarrow> json list \<Rightarrow> verdict" where
  "verdict_loop pod age soonest [] = (case soonest of Some (secs, key) \<Rightarrow> EvictIn secs key | None \<Rightarrow> Stay)"
| "verdict_loop pod age soonest (taint # taints) =
     (if as_str (jidx taint ''effect'') \<noteq> Some ''NoExecute'' then verdict_loop pod age soonest taints
      else
        (let key = str_or [] (jidx taint ''key'')
         in case pod_tolerates pod taint of
              Some None \<Rightarrow> verdict_loop pod age soonest taints
            | None \<Rightarrow> Evict key
            | Some (Some secs) \<Rightarrow>
                (let remaining = sub_i64 secs (age taint)
                 in if remaining \<le> 0 then Evict key
                    else verdict_loop pod age
                      (case soonest of
                         Some (prev, k) \<Rightarrow> if prev \<le> remaining then soonest else Some (remaining, key)
                       | None \<Rightarrow> Some (remaining, key)) taints)))"

definition verdict_for :: "json \<Rightarrow> json list \<Rightarrow> (json \<Rightarrow> int) \<Rightarrow> verdict" where
  "verdict_for pod taints age = verdict_loop pod age None taints"

definition taint_is :: "string \<Rightarrow> string \<Rightarrow> json \<Rightarrow> bool" where
  "taint_is key effect t \<longleftrightarrow> as_str (jidx t ''key'') = Some key \<and> as_str (jidx t ''effect'') = Some effect"

definition add_taint :: "json \<Rightarrow> string \<Rightarrow> string \<Rightarrow> string \<Rightarrow> (json \<times> bool) option" where
  "add_taint node key effect now =
     (let taint = JObj [(''effect'', JStr effect), (''key'', JStr key), (''timeAdded'', JStr now)]
      in case jtouch node [''spec'', ''taints''] of
           None \<Rightarrow> None
         | Some node1 \<Rightarrow>
             (case as_array (jat node1 [''spec'', ''taints'']) of
                Some taints \<Rightarrow>
                  if list_ex (taint_is key effect) taints then Some (node1, False)
                  else map_option (\<lambda>n. (n, True)) (jset node1 [''spec'', ''taints''] (JArr (taints @ [taint])))
              | None \<Rightarrow> map_option (\<lambda>n. (n, True)) (jset node1 [''spec'', ''taints''] (JArr [taint]))))"

definition remove_taint :: "json \<Rightarrow> string \<Rightarrow> string \<Rightarrow> (json \<times> bool) option" where
  "remove_taint node key effect =
     (case jtouch node [''spec'', ''taints''] of
        None \<Rightarrow> None
      | Some node1 \<Rightarrow>
          (case as_array (jat node1 [''spec'', ''taints'']) of
             None \<Rightarrow> Some (node1, False)
           | Some taints \<Rightarrow>
               (let kept = filter (\<lambda>t. \<not> taint_is key effect t) taints
                in map_option (\<lambda>n. (n, length taints \<noteq> length kept)) (jset node1 [''spec'', ''taints''] (JArr kept)))))"

section \<open>Tolerations\<close>

text \<open>What a pod's tolerations allow for a taint: for ever, for the longest of the times given, or not at all.\<close>

definition windows :: "json \<Rightarrow> json list \<Rightarrow> int option list" where
  "windows taint ts = List.map_filter (\<lambda>t. toleration_matches t taint) ts"

lemma best_toleration_spec:
  "best \<noteq> Some None \<Longrightarrow>
   best_toleration taint best ts =
     (if None \<in> set (windows taint ts) then Some None
      else (let secs = (case best of Some (Some p) \<Rightarrow> [p] | _ \<Rightarrow> []) @ map the (windows taint ts)
            in if secs = [] then None else Some (Some (Max (set secs)))))"
proof (induction taint best ts rule: best_toleration.induct)
  case (1 taint best)
  then show ?case by (auto simp: windows_def Let_def split: option.splits)
next
  case (2 taint best t ts)
  show ?case
  proof (cases "toleration_matches t taint")
    case None
    then show ?thesis using 2 by (simp add: windows_def)
  next
    case (Some w)
    show ?thesis
    proof (cases w)
      case None
      then show ?thesis using Some by (simp add: windows_def)
    next
      case s: (Some secs)
      let ?best = "case best of Some (Some prev) \<Rightarrow> if secs \<le> prev then Some (Some prev) else Some (Some secs) | _ \<Rightarrow> Some (Some secs)"
      let ?ws = "map the (windows taint ts)"
      have ih: "best_toleration taint ?best ts =
        (if None \<in> set (windows taint ts) then Some None
         else (let l = (case ?best of Some (Some p) \<Rightarrow> [p] | _ \<Rightarrow> []) @ ?ws in if l = [] then None else Some (Some (Max (set l)))))"
        by (rule 2(2)[OF Some s]) (use 2(3) in \<open>auto split: option.splits\<close>)
      have e: "best_toleration taint best (t # ts) = best_toleration taint ?best ts" using Some s by simp
      have w: "windows taint (t # ts) = Some secs # windows taint ts" using Some s by (simp add: windows_def)
      have m: "Max (insert a (insert b S)) = Max (insert (max a b) S)" if "finite S" for a b :: int and S
        using that by (cases "S = {}") (simp_all add: max.assoc)
      show ?thesis
      proof (cases "\<exists>p. best = Some (Some p)")
        case True
        then obtain p where p: "best = Some (Some p)" by blast
        have "?best = Some (Some (max p secs))" using p by (simp add: max_def)
        then show ?thesis unfolding e ih w using p m[of "set ?ws" p secs] by (simp add: Let_def)
      next
        case False
        then have "best = None" using 2(3) by (cases best) auto
        then show ?thesis unfolding e ih w by (simp add: Let_def)
      qed
    qed
  qed
qed

lemma pod_tolerates_spec:
  "pod_tolerates pod taint =
     (let ws = windows taint (arr (jat pod [''spec'', ''tolerations'']))
      in if ws = [] then None
         else if None \<in> set ws then Some None
         else Some (Some (Max (the ` set ws))))"
proof (cases "as_array (jat pod [''spec'', ''tolerations''])")
  case None
  then show ?thesis by (simp add: pod_tolerates_def arr_def windows_def del: jat_Cons)
next
  case (Some ts)
  then show ?thesis using best_toleration_spec[of None taint ts]
    by (auto simp: pod_tolerates_def arr_def Let_def simp del: jat_Cons)
qed

section \<open>Eviction\<close>

definition no_execute :: "json list \<Rightarrow> json list" where
  "no_execute taints = filter (\<lambda>t. as_str (jidx t ''effect'') = Some ''NoExecute'') taints"

text \<open>The seconds a taint still leaves a pod, if it is tolerated at all and not for ever.\<close>

definition left_for :: "json \<Rightarrow> (json \<Rightarrow> int) \<Rightarrow> json \<Rightarrow> int option option" where
  "left_for pod age taint = (case pod_tolerates pod taint of
     None \<Rightarrow> None | Some None \<Rightarrow> Some None | Some (Some secs) \<Rightarrow> Some (Some (sub_i64 secs (age taint))))"

definition must_go :: "json \<Rightarrow> (json \<Rightarrow> int) \<Rightarrow> json \<Rightarrow> bool" where
  "must_go pod age taint = (case left_for pod age taint of None \<Rightarrow> True | Some None \<Rightarrow> False | Some (Some r) \<Rightarrow> r \<le> 0)"

definition limits :: "json \<Rightarrow> (json \<Rightarrow> int) \<Rightarrow> json list \<Rightarrow> int list" where
  "limits pod age taints = List.map_filter (\<lambda>t. case left_for pod age t of Some (Some r) \<Rightarrow> Some r | _ \<Rightarrow> None) (no_execute taints)"

lemma in_map_filter: "x \<in> set (List.map_filter f xs) \<longleftrightarrow> (\<exists>t \<in> set xs. f t = Some x)"
  by (induction xs) (auto simp: List.map_filter_simps split: option.splits)

lemma in_limits: "x \<in> set (limits pod age taints) \<longleftrightarrow> (\<exists>t \<in> set (no_execute taints). left_for pod age t = Some (Some x))"
  unfolding limits_def in_map_filter by (rule bex_cong[OF refl]) (auto split: option.splits)

lemma no_limits: "limits pod age taints = [] \<longleftrightarrow> (\<forall>t \<in> set (no_execute taints). \<forall>x. left_for pod age t \<noteq> Some (Some x))"
  using in_limits by (metis last_in_set list.set(1) empty_iff)

lemma verdict_loop_spec:
  "(\<forall>r k. soonest = Some (r, k) \<longrightarrow> 0 < r) \<Longrightarrow>
   (if list_ex (must_go pod age) (no_execute taints) then \<exists>k. verdict_loop pod age soonest taints = Evict k
    else (let ls = (case soonest of Some (r, _) \<Rightarrow> [r] | None \<Rightarrow> []) @ limits pod age taints
          in if ls = [] then verdict_loop pod age soonest taints = Stay
             else \<exists>k. verdict_loop pod age soonest taints = EvictIn (Min (set ls)) k))"
proof (induction pod age soonest taints rule: verdict_loop.induct)
  case (1 pod age soonest)
  then show ?case by (auto simp: no_execute_def limits_def split: option.splits)
next
  case (2 pod age soonest taint taints)
  show ?case
  proof (cases "as_str (jidx taint ''effect'') = Some ''NoExecute''")
    case False
    then have g: "no_execute (taint # taints) = no_execute taints" "limits pod age (taint # taints) = limits pod age taints"
      "verdict_loop pod age soonest (taint # taints) = verdict_loop pod age soonest taints"
      by (simp_all add: no_execute_def limits_def)
    show ?thesis unfolding g by (rule 2(1)[OF False 2(4)])
  next
    case ne: True
    then have n: "no_execute (taint # taints) = taint # no_execute taints" by (simp add: no_execute_def)
    consider (no) "pod_tolerates pod taint = None" | (ever) "pod_tolerates pod taint = Some None"
      | (secs) s where "pod_tolerates pod taint = Some (Some s)" by (metis not_None_eq)
    then show ?thesis
    proof cases
      case no
      then show ?thesis using ne n by (simp add: must_go_def left_for_def)
    next
      case ever
      then have g: "\<not> must_go pod age taint" "limits pod age (taint # taints) = limits pod age taints"
        "verdict_loop pod age soonest (taint # taints) = verdict_loop pod age soonest taints"
        using ne n by (simp_all add: must_go_def left_for_def limits_def)
      show ?thesis using 2(2)[OF _ refl ever refl 2(4)] ne n unfolding g by (simp add: g(1))
    next
      case (secs s)
      let ?r = "sub_i64 s (age taint)"
      let ?key = "str_or [] (jidx taint ''key'')"
      let ?soonest = "case soonest of Some (prev, k) \<Rightarrow> if prev \<le> ?r then soonest else Some (?r, ?key) | None \<Rightarrow> Some (?r, ?key)"
      have lf: "left_for pod age taint = Some (Some ?r)" using secs by (simp add: left_for_def)
      show ?thesis
      proof (cases "?r \<le> 0")
        case True
        then show ?thesis using ne n lf secs by (simp add: must_go_def)
      next
        case False
        have g: "\<not> must_go pod age taint" "limits pod age (taint # taints) = ?r # limits pod age taints"
          "verdict_loop pod age soonest (taint # taints) = verdict_loop pod age ?soonest taints"
          using ne n lf secs False by (simp_all add: must_go_def limits_def Let_def)
        have pos: "\<forall>r k. ?soonest = Some (r, k) \<longrightarrow> 0 < r" using 2(4) False by (auto split: option.splits if_splits)
        have ih: "if list_ex (must_go pod age) (no_execute taints) then \<exists>k. verdict_loop pod age ?soonest taints = Evict k
          else (let ls = (case ?soonest of Some (r, _) \<Rightarrow> [r] | None \<Rightarrow> []) @ limits pod age taints
            in if ls = [] then verdict_loop pod age ?soonest taints = Stay
               else \<exists>k. verdict_loop pod age ?soonest taints = EvictIn (Min (set ls)) k)"
          by (rule 2(3)[OF _ refl secs refl refl False pos]) (use ne in simp)
        have m: "Min (insert a (insert b S)) = Min (insert (min a b) S)" if "finite S" for a b :: int and S
          using that by (cases "S = {}") (simp_all add: min.assoc)
        show ?thesis
        proof (cases soonest)
          case None
          then have sn: "?soonest = Some (?r, ?key)" by simp
          show ?thesis unfolding g(3)[unfolded sn] g(2) n using ih[unfolded sn] by (simp add: g(1) None Let_def split: if_splits)
        next
          case (Some pk)
          obtain p k where pk: "pk = (p, k)" by (cases pk)
          have sn: "?soonest = Some (min p ?r, if p \<le> ?r then k else ?key)" using Some pk by (simp add: min_def)
          show ?thesis unfolding g(3)[unfolded sn] g(2) n
            using ih[unfolded sn] m[of "set (limits pod age taints)" p ?r] by (simp add: g(1) Some pk Let_def split: if_splits)
        qed
      qed
    qed
  qed
qed


text \<open>
  C28. What a \<^verbatim>\<open>NoExecute\<close> taint does, whatever the order of taints and tolerations. The pod is
  evicted at once exactly if some such taint is not tolerated or its time is used up; it stays
  exactly if every one is tolerated for ever; otherwise it goes after the shortest remaining
  time, where a taint is tolerated for the longest time any matching toleration gives.
\<close>

theorem verdict_is_strictest_taint:
  "(\<exists>k. verdict_for pod taints age = Evict k) = list_ex (must_go pod age) (no_execute taints) \<and>
   (verdict_for pod taints age = Stay) =
     list_all (\<lambda>t. pod_tolerates pod t = Some None) (no_execute taints) \<and>
   (\<forall>n k. verdict_for pod taints age = EvictIn n k \<longrightarrow> limits pod age taints \<noteq> [] \<and> n = Min (set (limits pod age taints)) \<and> 0 < n) \<and>
   (\<forall>t. pod_tolerates pod t =
      (let ws = windows t (arr (jat pod [''spec'', ''tolerations'']))
       in if ws = [] then None else if None \<in> set ws then Some None else Some (Some (Max (the ` set ws)))))"
proof -
  have r: "if list_ex (must_go pod age) (no_execute taints) then \<exists>k. verdict_for pod taints age = Evict k
    else if limits pod age taints = [] then verdict_for pod taints age = Stay
    else \<exists>k. verdict_for pod taints age = EvictIn (Min (set (limits pod age taints))) k"
    using verdict_loop_spec[of None pod age taints] by (simp add: verdict_for_def Let_def split: if_splits)
  have pos: "0 < x" if "\<not> list_ex (must_go pod age) (no_execute taints)" "x \<in> set (limits pod age taints)" for x
    using that by (fastforce simp: list_ex_iff must_go_def in_limits)
  have stay: "\<not> list_ex (must_go pod age) (no_execute taints) \<and> limits pod age taints = [] \<longleftrightarrow>
      list_all (\<lambda>t. pod_tolerates pod t = Some None) (no_execute taints)"
  proof
    assume a: "\<not> list_ex (must_go pod age) (no_execute taints) \<and> limits pod age taints = []"
    have "pod_tolerates pod t = Some None" if t: "t \<in> set (no_execute taints)" for t
    proof -
      have "\<not> must_go pod age t" using a t by (auto simp: list_ex_iff)
      moreover have "left_for pod age t \<noteq> Some (Some x)" for x
        using a t by (simp add: no_limits)
      ultimately show ?thesis by (auto simp: must_go_def left_for_def split: option.splits)
    qed
    then show "list_all (\<lambda>t. pod_tolerates pod t = Some None) (no_execute taints)" by (simp add: list_all_iff)
  next
    assume "list_all (\<lambda>t. pod_tolerates pod t = Some None) (no_execute taints)"
    then have "left_for pod age t = Some None" if "t \<in> set (no_execute taints)" for t
      using that by (simp add: list_all_iff left_for_def)
    then show "\<not> list_ex (must_go pod age) (no_execute taints) \<and> limits pod age taints = []"
      by (auto simp: list_ex_iff must_go_def no_limits)
  qed
  show ?thesis
  proof (intro conjI allI impI)
    show "(\<exists>k. verdict_for pod taints age = Evict k) = list_ex (must_go pod age) (no_execute taints)"
      using r by (auto split: if_splits)
    show "(verdict_for pod taints age = Stay) = list_all (\<lambda>t. pod_tolerates pod t = Some None) (no_execute taints)"
      using r stay by (auto split: if_splits)
    fix n k assume "verdict_for pod taints age = EvictIn n k"
    with r have e: "\<not> list_ex (must_go pod age) (no_execute taints)" "limits pod age taints \<noteq> []" "n = Min (set (limits pod age taints))"
      by (auto split: if_splits)
    then show "limits pod age taints \<noteq> []" "n = Min (set (limits pod age taints))" by simp_all
    have "Min (set (limits pod age taints)) \<in> set (limits pod age taints)" using e(2) by (intro Min_in) simp_all
    with pos[OF e(1)] e(3) show "0 < n" by simp
  qed (rule pod_tolerates_spec)
qed

theorem verdict_is_strictest_taint_witness:
  "let taint = JObj [(''effect'', JStr ''NoExecute''), (''key'', JStr ''not-ready'')];
       pod = JObj [(''spec'', JObj [(''tolerations'', JArr
         [JObj [(''key'', JStr ''not-ready''), (''operator'', JStr ''Exists''), (''tolerationSeconds'', JNum (NInt 300))],
          JObj [(''operator'', JStr ''Exists''), (''tolerationSeconds'', JNum (NInt 60))]])])]
   in verdict_for pod [taint] (\<lambda>_. 100) = EvictIn 200 ''not-ready'' \<and> limits pod (\<lambda>_. 100) [taint] \<noteq> []"
proof -
  let ?taint = "JObj [(''effect'', JStr ''NoExecute''), (''key'', JStr ''not-ready'')]"
  let ?pod = "JObj [(''spec'', JObj [(''tolerations'', JArr
    [JObj [(''key'', JStr ''not-ready''), (''operator'', JStr ''Exists''), (''tolerationSeconds'', JNum (NInt 300))],
     JObj [(''operator'', JStr ''Exists''), (''tolerationSeconds'', JNum (NInt 60))]])])]"
  have "verdict_for ?pod [?taint] (\<lambda>_. 100) = EvictIn 200 ''not-ready''"
    by (simp add: verdict_for_def pod_tolerates_def toleration_matches_def sub_i64_def)
  with verdict_is_strictest_taint[of ?pod "[?taint]" "\<lambda>_. 100"] show ?thesis unfolding Let_def by blast
qed

section \<open>Adding and removing\<close>

text \<open>
  A taint comes off again: adding a taint that was not there and then removing it
  reports both changes and leaves the list of taints as it was.
\<close>

theorem taint_comes_off:
  assumes "jat node [''spec'', ''taints''] = JArr taints" "\<not> list_ex (taint_is key effect) taints"
    and "add_taint node key effect now = Some (node1, b1)" "remove_taint node1 key effect = Some (node2, b2)"
  shows "b1 \<and> b2 \<and> jat node2 [''spec'', ''taints''] = JArr taints"
proof -
  let ?path = "[''spec'', ''taints'']"
  let ?taint = "JObj [(''effect'', JStr effect), (''key'', JStr key), (''timeAdded'', JStr now)]"
  have t: "jat n' ?path = jat n ?path" if "jtouch n ?path = Some n'" for n n'
    using that jset_jat[of n ?path "jat n ?path" n'] by (simp add: jtouch_def)
  from assms(3) obtain n0 where n0: "jtouch node ?path = Some n0" by (auto simp: add_taint_def Let_def simp del: jat_Cons jset.simps split: option.splits)
  then have a0: "jat n0 ?path = JArr taints" using t assms(1) by simp
  with assms(2,3) n0 have b1: "b1" and s1: "jset n0 ?path (JArr (taints @ [?taint])) = Some node1"
    by (auto simp: add_taint_def Let_def simp del: jat_Cons jset.simps)
  have a1: "jat node1 ?path = JArr (taints @ [?taint])" using jset_jat[OF s1] .
  from assms(4) obtain n2 where n2: "jtouch node1 ?path = Some n2" by (auto simp: remove_taint_def simp del: jat_Cons jset.simps split: option.splits)
  then have a2: "jat n2 ?path = JArr (taints @ [?taint])" using t a1 by simp
  have k: "filter (\<lambda>t. \<not> taint_is key effect t) (taints @ [?taint]) = taints"
    using assms(2) by (auto simp: list_ex_iff filter_id_conv taint_is_def)
  from assms(4) n2 a2 k have b2: "b2" and s2: "jset n2 ?path (JArr taints) = Some node2"
    by (auto simp: remove_taint_def Let_def simp del: jat_Cons jset.simps filter_append)
  show ?thesis using b1 b2 jset_jat[OF s2] by simp
qed

theorem taint_comes_off_witness:
  "\<exists>node1 node2. add_taint (JObj [(''spec'', JObj [(''taints'', JArr [])])]) ''not-ready'' ''NoSchedule'' ''now'' = Some (node1, True) \<and>
     remove_taint node1 ''not-ready'' ''NoSchedule'' = Some (node2, True) \<and> jat node2 [''spec'', ''taints''] = JArr []"
proof -
  let ?node = "JObj [(''spec'', JObj [(''taints'', JArr [])])]"
  let ?taint = "JObj [(''effect'', JStr ''NoSchedule''), (''key'', JStr ''not-ready''), (''timeAdded'', JStr ''now'')]"
  let ?node1 = "JObj [(''spec'', JObj [(''taints'', JArr [?taint])])]"
  have a: "add_taint ?node ''not-ready'' ''NoSchedule'' ''now'' = Some (?node1, True)"
    by (simp add: add_taint_def jtouch_def)
  have r: "remove_taint ?node1 ''not-ready'' ''NoSchedule'' = Some (?node, True)"
    by (simp add: remove_taint_def jtouch_def taint_is_def)
  from taint_comes_off[OF _ _ a r] a r show ?thesis by simp
qed

text \<open>
  Removing a taint from a node without any leaves \<open>taints: null\<close> behind in the object,
  although it reports that nothing changed.
\<close>

theorem remove_taint_writes_null:
  "remove_taint (JObj [(''spec'', JObj [])]) key effect = Some (JObj [(''spec'', JObj [(''taints'', JNull)])], False)"
  by (simp add: remove_taint_def jtouch_def)

end
