(* ===== verification/SchedFilter.thy ===== *)
theory SchedFilter
  imports Quantity Selector Taint "HOL-Library.Word" "HOL-Library.AList" "HOL-Library.Multiset"
begin

text \<open>
  Which nodes a pod may run on, and which it prefers: \<^verbatim>\<open>pkg/scheduler/src/filter.rs\<close>, \<^verbatim>\<open>affinity.rs\<close>,
  \<^verbatim>\<open>spread.rs\<close>, \<^verbatim>\<open>score.rs\<close>, \<^verbatim>\<open>volumebinding.rs\<close> and \<^verbatim>\<open>virtualmachine.rs\<close>, with the sum of a pod's
  requests from \<^verbatim>\<open>apimachinery/src/pod_resources.rs\<close>. Amounts are \<^verbatim>\<open>u64\<close>, kept as 64-bit words;
  scores are \<^verbatim>\<open>i64\<close> with wrap-around. A map that is only looked into and never iterated is a
  function.
\<close>

section \<open>Requests\<close>

type_synonym u64 = "64 word"

definition sat_sub :: "u64 \<Rightarrow> u64 \<Rightarrow> u64" where
  "sat_sub a b = (if a < b then 0 else a - b)"

definition wrap_i64 :: "int \<Rightarrow> int" where
  "wrap_i64 x = (x + 2 ^ 63) mod 2 ^ 64 - 2 ^ 63"

text \<open>\<open>containers_total\<close>, for any type of amounts with zero, sum and order.\<close>

definition ct_get :: "(string, 'a::zero) btree \<Rightarrow> string \<Rightarrow> 'a" where
  "ct_get m k = (case map_of m k of Some v \<Rightarrow> v | None \<Rightarrow> 0)"

definition ct_each :: "string \<Rightarrow> (string \<Rightarrow> json \<Rightarrow> 'a) \<Rightarrow> json \<Rightarrow> (string, 'a) btree" where
  "ct_each kind amount c = foldl (\<lambda>m (k, v). bt_insert k (amount k v) m) [] (entries (jat c [''resources'', kind]))"

definition ct_add :: "(string, 'a::{zero,plus}) btree \<Rightarrow> (string, 'a) btree \<Rightarrow> (string, 'a) btree" where
  "ct_add into from = foldl (\<lambda>m (k, v). bt_insert k (ct_get m k + v) m) into from"

definition ct_max :: "(string, 'a::{zero,ord}) btree \<Rightarrow> (string, 'a) btree \<Rightarrow> (string, 'a) btree" where
  "ct_max into from = foldl (\<lambda>m (k, v). bt_insert k (if ct_get m k < v then v else ct_get m k) m) into from"

definition ct_init ::
    "string \<Rightarrow> (string \<Rightarrow> json \<Rightarrow> 'a::{zero,plus,ord}) \<Rightarrow>
     (string, 'a) btree \<times> (string, 'a) btree \<times> (string, 'a) btree \<Rightarrow> json \<Rightarrow>
     (string, 'a) btree \<times> (string, 'a) btree \<times> (string, 'a) btree" where
  "ct_init kind amount st c =
     (case st of (tot, sidecars, busiest) \<Rightarrow>
        (let mine = ct_each kind amount c
         in if as_str (jidx c ''restartPolicy'') = Some ''Always''
            then (let sidecars' = ct_add sidecars mine in (ct_add tot mine, sidecars', ct_max busiest sidecars'))
            else (tot, sidecars, ct_max busiest (ct_add mine sidecars))))"

definition containers_total :: "json \<Rightarrow> string \<Rightarrow> (string \<Rightarrow> json \<Rightarrow> 'a::{zero,plus,ord}) \<Rightarrow> (string, 'a) btree" where
  "containers_total pod kind amount =
     (let running = foldl (\<lambda>t c. ct_add t (ct_each kind amount c)) [] (arr (jat pod [''spec'', ''containers'']));
          (tot, sidecars, busiest) = foldl (ct_init kind amount) (running, [], []) (arr (jat pod [''spec'', ''initContainers'']))
      in ct_max tot busiest)"

definition cpu_of :: "json \<Rightarrow> u64" where
  "cpu_of v = (case as_str v of Some q \<Rightarrow> of_nat (parse_cpu_millis q) | None \<Rightarrow> 0)"

definition mem_of :: "json \<Rightarrow> u64" where
  "mem_of v = (case as_str v of Some q \<Rightarrow> of_nat (parse_bytes q) | None \<Rightarrow> 0)"

definition request_amount :: "string \<Rightarrow> json \<Rightarrow> u64" where
  "request_amount k v = (if k = ''cpu'' then cpu_of v else if k = ''memory'' then mem_of v else 0)"

definition held_by_status :: "json list \<Rightarrow> u64 \<times> u64 \<Rightarrow> u64 \<times> u64" where
  "held_by_status statuses start =
     foldl (\<lambda>(cpu, mem) r. if is_null r then (cpu, mem) else (max cpu (cpu_of (jidx r ''cpu'')), max mem (mem_of (jidx r ''memory''))))
       start (concat (map (\<lambda>cs. [jat cs [''resources'', ''requests''], jat cs [''allocatedResources'', ''requests'']]) statuses))"

definition requests_without_overhead :: "json \<Rightarrow> u64 \<times> u64" where
  "requests_without_overhead pod =
     (let pod_level = jat pod [''spec'', ''resources'', ''requests''];
          cpu = cpu_of (jidx pod_level ''cpu''); mem = mem_of (jidx pod_level ''memory'')
      in if \<not> is_null pod_level \<and> (cpu \<noteq> 0 \<or> mem \<noteq> 0) then (cpu, mem)
         else
           (let tot = containers_total pod ''requests'' request_amount
            in held_by_status (arr (jat pod [''status'', ''containerStatuses''])) (ct_get tot ''cpu'', ct_get tot ''memory'')))"

definition pod_requests :: "json \<Rightarrow> u64 \<times> u64" where
  "pod_requests pod =
     (case requests_without_overhead pod of (cpu, mem) \<Rightarrow>
        (cpu + cpu_of (jat pod [''spec'', ''overhead'', ''cpu'']), mem + mem_of (jat pod [''spec'', ''overhead'', ''memory''])))"

section \<open>The state of the cluster\<close>

record node_usage =
  nu_cpu :: u64
  nu_mem :: u64
  nu_pods :: u64

definition no_usage :: node_usage where
  "no_usage = \<lparr>nu_cpu = 0, nu_mem = 0, nu_pods = 0\<rparr>"

record cluster_state =
  cs_usage :: "string \<Rightarrow> node_usage"
  cs_placed :: "(string \<times> json) list"

definition node_name_of :: "json \<Rightarrow> string" where
  "node_name_of node = str_or [] (jat node [''metadata'', ''name''])"

definition cs_used :: "cluster_state \<Rightarrow> json \<Rightarrow> node_usage" where
  "cs_used state node = cs_usage state (node_name_of node)"

definition pod_priority :: "json \<Rightarrow> int" where
  "pod_priority pod = (case as_i64 (jat pod [''spec'', ''priority'']) of Some p \<Rightarrow> p | None \<Rightarrow> 0)"

section \<open>Filters of a node alone\<close>

datatype filter_result = Pass | Fail string

definition TOO_MANY_PODS :: string where "TOO_MANY_PODS = ''Too many pods''"

definition pods_limit :: "json \<Rightarrow> nat option" where
  "pods_limit node =
     (case jat node [''status'', ''allocatable'', ''pods''] of
        JStr s \<Rightarrow> parse_uint 64 (trim s)
      | JNum n \<Rightarrow> as_u64 (JNum n)
      | _ \<Rightarrow> None)"

definition pod_count_filter :: "json \<Rightarrow> node_usage \<Rightarrow> filter_result" where
  "pod_count_filter node used =
     (case pods_limit node of
        Some limit \<Rightarrow> if (of_nat limit :: u64) \<le> nu_pods used then Fail TOO_MANY_PODS else Pass
      | None \<Rightarrow> Pass)"

definition node_ready_filter :: "json \<Rightarrow> filter_result" where
  "node_ready_filter node =
     (if \<exists>c \<in> set (arr (jat node [''status'', ''conditions''])).
           as_str (jidx c ''type'') = Some ''Ready'' \<and> as_str (jidx c ''status'') = Some ''True''
      then Pass else Fail ''node is not Ready'')"

definition unschedulable_filter :: "json \<Rightarrow> filter_result" where
  "unschedulable_filter node =
     (if as_bool (jat node [''spec'', ''unschedulable'']) = Some True then Fail ''node is unschedulable (cordoned)'' else Pass)"

definition keeps_off :: "json \<Rightarrow> json \<Rightarrow> bool" where
  "keeps_off pod taint \<longleftrightarrow>
     str_or [] (jidx taint ''effect'') \<in> {''NoSchedule'', ''NoExecute''} \<and> pod_tolerates pod taint = None"

definition taint_toleration_filter :: "json \<Rightarrow> json \<Rightarrow> filter_result" where
  "taint_toleration_filter pod node =
     (case find (keeps_off pod) (arr (jat node [''spec'', ''taints''])) of
        Some taint \<Rightarrow>
          Fail (''node has taint '' @ str_or [] (jidx taint ''key'') @ ''='' @ str_or [] (jidx taint ''value'') @ '':'' @
                str_or [] (jidx taint ''effect'') @ '' not tolerated'')
      | None \<Rightarrow> Pass)"

definition node_selector_filter :: "json \<Rightarrow> json \<Rightarrow> filter_result" where
  "node_selector_filter pod node =
     (case as_object (jat pod [''spec'', ''nodeSelector'']) of
        None \<Rightarrow> Pass
      | Some selector \<Rightarrow>
          (case as_object (jat node [''metadata'', ''labels'']) of
             Some labels \<Rightarrow>
               (case find (\<lambda>(k, v). map_of labels k \<noteq> Some v) selector of
                  Some (k, v) \<Rightarrow> Fail (''node missing label '' @ k @ ''='' @ str_or [] v)
                | None \<Rightarrow> Pass)
           | None \<Rightarrow> if selector = [] then Pass else Fail ''node has no labels but pod has nodeSelector''))"

definition expr_values :: "json \<Rightarrow> string list" where
  "expr_values e = List.map_filter as_str (arr (jidx e ''values''))"

definition both_i64 :: "string option \<Rightarrow> string list \<Rightarrow> (int \<times> int) option" where
  "both_i64 val values =
     (case (Option.bind val (parse_sint 64), Option.bind (case values of [] \<Rightarrow> None | s # _ \<Rightarrow> Some s) (parse_sint 64)) of
        (Some a, Some b) \<Rightarrow> Some (a, b)
      | _ \<Rightarrow> None)"

definition match_expression :: "json \<Rightarrow> json option \<Rightarrow> bool" where
  "match_expression e node_val =
     (let oper = str_or [] (jidx e ''operator''); values = expr_values e; val = Option.bind node_val as_str
      in if oper = ''In'' then (case val of Some v \<Rightarrow> v \<in> set values | None \<Rightarrow> False)
         else if oper = ''NotIn'' then (case val of Some v \<Rightarrow> v \<notin> set values | None \<Rightarrow> True)
         else if oper = ''Exists'' then node_val \<noteq> None
         else if oper = ''DoesNotExist'' then node_val = None
         else if oper = ''Gt'' then (case both_i64 val values of Some (a, b) \<Rightarrow> b < a | None \<Rightarrow> False)
         else if oper = ''Lt'' then (case both_i64 val values of Some (a, b) \<Rightarrow> a < b | None \<Rightarrow> False)
         else True)"

definition match_field :: "string \<Rightarrow> json \<Rightarrow> bool" where
  "match_field node_name f =
     (if as_str (jidx f ''key'') \<noteq> Some ''metadata.name'' then True
      else if str_or [] (jidx f ''operator'') = ''In'' then node_name \<in> set (expr_values f)
      else if str_or [] (jidx f ''operator'') = ''NotIn'' then node_name \<notin> set (expr_values f)
      else True)"

definition node_selector_term_matches :: "json \<Rightarrow> (string \<times> json) list option \<Rightarrow> string \<Rightarrow> bool" where
  "node_selector_term_matches term labels node_name \<longleftrightarrow>
     list_all (\<lambda>e. match_expression e (Option.bind labels (\<lambda>l. map_of l (str_or [] (jidx e ''key''))))) (arr (jidx term ''matchExpressions'')) \<and>
     list_all (match_field node_name) (arr (jidx term ''matchFields''))"

definition node_affinity_filter :: "json \<Rightarrow> json \<Rightarrow> filter_result" where
  "node_affinity_filter pod node =
     (let terms = arr (jat pod [''spec'', ''affinity'', ''nodeAffinity'', ''requiredDuringSchedulingIgnoredDuringExecution'', ''nodeSelectorTerms''])
      in if terms = [] then Pass
         else if \<exists>t \<in> set terms. node_selector_term_matches t (as_object (jat node [''metadata'', ''labels''])) (node_name_of node)
         then Pass else Fail ''node does not match required nodeAffinity'')"

definition node_name_filter :: "json \<Rightarrow> json \<Rightarrow> filter_result" where
  "node_name_filter pod node =
     (let want = str_or [] (jat pod [''spec'', ''nodeName''])
      in if want = [] then Pass
         else if as_str (jat node [''metadata'', ''name'']) = Some want then Pass
         else Fail (''pod is bound to node '' @ want))"

definition resource_fit_filter :: "json \<Rightarrow> json \<Rightarrow> node_usage \<Rightarrow> filter_result" where
  "resource_fit_filter pod node used =
     (case pod_requests pod of (cpu, mem) \<Rightarrow>
        (let allocatable = jat node [''status'', ''allocatable'']
         in if cpu = 0 \<and> mem = 0 then Pass
            else if is_null allocatable then Pass
            else
              (case as_str (jidx allocatable ''cpu'') of
                 Some q \<Rightarrow>
                   if sat_sub (of_nat (parse_cpu_millis q)) (nu_cpu used) < cpu then Fail ''Insufficient cpu''
                   else (case as_str (jidx allocatable ''memory'') of
                           Some q \<Rightarrow> if sat_sub (of_nat (parse_bytes q)) (nu_mem used) < mem then Fail ''Insufficient memory'' else Pass
                         | None \<Rightarrow> Pass)
               | None \<Rightarrow>
                   (case as_str (jidx allocatable ''memory'') of
                      Some q \<Rightarrow> if sat_sub (of_nat (parse_bytes q)) (nu_mem used) < mem then Fail ''Insufficient memory'' else Pass
                    | None \<Rightarrow> Pass))))"

section \<open>Inter-pod affinity\<close>

text \<open>The scheduler's own selector match: an operator it does not know holds, unlike \<open>Selector.selector_matches\<close>.\<close>

definition aff_expr_ok :: "json \<Rightarrow> json \<Rightarrow> bool" where
  "aff_expr_ok labels e =
     (let key = str_or [] (jidx e ''key''); oper = str_or ''In'' (jidx e ''operator''); vals = expr_values e; have = as_str (jidx labels key)
      in if oper = ''In'' then (case have of Some h \<Rightarrow> h \<in> set vals | None \<Rightarrow> False)
         else if oper = ''NotIn'' then (case have of Some h \<Rightarrow> h \<notin> set vals | None \<Rightarrow> True)
         else if oper = ''Exists'' then \<not> is_null (jidx labels key)
         else if oper = ''DoesNotExist'' then is_null (jidx labels key)
         else True)"

definition aff_selector_matches :: "json \<Rightarrow> json \<Rightarrow> bool" where
  "aff_selector_matches selector labels \<longleftrightarrow>
     list_all (\<lambda>(k, v). jidx labels k = v) (entries (jidx selector ''matchLabels'')) \<and>
     list_all (aff_expr_ok labels) (arr (jidx selector ''matchExpressions''))"

definition domain_of :: "json \<Rightarrow> string \<Rightarrow> string option" where
  "domain_of node topology_key = as_str (jat node [''metadata'', ''labels'', topology_key])"

definition pod_namespace :: "json \<Rightarrow> string" where
  "pod_namespace pod = str_or ''default'' (jat pod [''metadata'', ''namespace''])"

definition topology_key_of :: "json \<Rightarrow> string" where
  "topology_key_of term = str_or ''kubernetes.io/hostname'' (jidx term ''topologyKey'')"

definition term_matches_pod :: "json \<Rightarrow> string \<Rightarrow> json \<Rightarrow> bool" where
  "term_matches_pod term pod_ns other =
     (let other_ns = pod_namespace other; listed = arr (jidx term ''namespaces'');
          ns_ok = (if listed \<noteq> [] then \<exists>n \<in> set listed. as_str n = Some other_ns
                   else if is_object (jidx term ''namespaceSelector'') then True
                   else other_ns = pod_ns)
      in ns_ok \<and> aff_selector_matches (jidx term ''labelSelector'') (jat other [''metadata'', ''labels'']))"

text \<open>Nodes collected into a map by name: of two with one name, the later is kept.\<close>

definition nodes_by_name :: "json list \<Rightarrow> string \<Rightarrow> json option" where
  "nodes_by_name nodes = map_of (rev (List.map_filter (\<lambda>n. map_option (\<lambda>s. (s, n)) (as_str (jat n [''metadata'', ''name'']))) nodes))"

definition occupied_domains :: "json \<Rightarrow> string \<Rightarrow> json list \<Rightarrow> cluster_state \<Rightarrow> string list" where
  "occupied_domains term pod_ns nodes state =
     List.map_filter
       (\<lambda>(node_name, other).
          if term_matches_pod term pod_ns other
          then Option.bind (nodes_by_name nodes node_name) (\<lambda>n. domain_of n (topology_key_of term))
          else None)
       (cs_placed state)"

fun required_affinity :: "string \<Rightarrow> json \<Rightarrow> json list \<Rightarrow> cluster_state \<Rightarrow> json list \<Rightarrow> string + unit" where
  "required_affinity pod_ns node nodes state [] = Inr ()"
| "required_affinity pod_ns node nodes state (term # terms) =
     (let key = topology_key_of term
      in case domain_of node key of
           None \<Rightarrow> Inl (''node has no '' @ key @ '' label, required by podAffinity'')
         | Some here \<Rightarrow>
             if here \<notin> set (occupied_domains term pod_ns nodes state)
             then Inl (''podAffinity: no matching pod in '' @ key @ ''='' @ here)
             else required_affinity pod_ns node nodes state terms)"

fun required_anti_affinity :: "string \<Rightarrow> json \<Rightarrow> json list \<Rightarrow> cluster_state \<Rightarrow> json list \<Rightarrow> string + unit" where
  "required_anti_affinity pod_ns node nodes state [] = Inr ()"
| "required_anti_affinity pod_ns node nodes state (term # terms) =
     (let key = topology_key_of term
      in case domain_of node key of
           None \<Rightarrow> required_anti_affinity pod_ns node nodes state terms
         | Some here \<Rightarrow>
             if here \<in> set (occupied_domains term pod_ns nodes state)
             then Inl (''podAntiAffinity: a matching pod is already in '' @ key @ ''='' @ here)
             else required_anti_affinity pod_ns node nodes state terms)"

definition required_terms :: "json \<Rightarrow> string \<Rightarrow> json list" where
  "required_terms pod path = arr (jat pod [''spec'', ''affinity'', path, ''requiredDuringSchedulingIgnoredDuringExecution''])"

definition pod_affinity_filter :: "json \<Rightarrow> json \<Rightarrow> json list \<Rightarrow> cluster_state \<Rightarrow> string + unit" where
  "pod_affinity_filter pod node nodes state =
     (case required_affinity (pod_namespace pod) node nodes state (required_terms pod ''podAffinity'') of
        Inl e \<Rightarrow> Inl e
      | Inr _ \<Rightarrow> required_anti_affinity (pod_namespace pod) node nodes state (required_terms pod ''podAntiAffinity''))"

definition preferred_terms :: "json \<Rightarrow> string \<Rightarrow> json list" where
  "preferred_terms pod path = arr (jat pod [''spec'', ''affinity'', path, ''preferredDuringSchedulingIgnoredDuringExecution''])"

definition affinity_weight :: "json \<Rightarrow> int" where
  "affinity_weight w = max 1 (min 100 (case as_i64 (jidx w ''weight'') of Some x \<Rightarrow> x | None \<Rightarrow> 1))"

definition weigh :: "string \<Rightarrow> json \<Rightarrow> json list \<Rightarrow> cluster_state \<Rightarrow> int \<times> int \<Rightarrow> bool \<times> json \<Rightarrow> int \<times> int" where
  "weigh pod_ns node nodes state acc w =
     (case (acc, w) of ((got, tot), (want_present, w)) \<Rightarrow>
        (let weight = affinity_weight w; term = jidx w ''podAffinityTerm''
         in case domain_of node (topology_key_of term) of
              None \<Rightarrow> (got, tot + weight)
            | Some here \<Rightarrow>
                if (here \<in> set (occupied_domains term pod_ns nodes state)) = want_present
                then (got + weight, tot + weight) else (got, tot + weight)))"

definition pod_affinity_score :: "json \<Rightarrow> json \<Rightarrow> json list \<Rightarrow> cluster_state \<Rightarrow> int" where
  "pod_affinity_score pod node nodes state =
     (case foldl (weigh (pod_namespace pod) node nodes state) (0, 0)
             (map (Pair True) (preferred_terms pod ''podAffinity'') @ map (Pair False) (preferred_terms pod ''podAntiAffinity'')) of
        (got, tot) \<Rightarrow> if tot = 0 then 0 else got * 100 div tot)"

section \<open>Topology spread\<close>

definition bump :: "string \<Rightarrow> (string \<times> int) list \<Rightarrow> (string \<times> int) list" where
  "bump d counts = AList.update d ((case map_of counts d of Some c \<Rightarrow> c | None \<Rightarrow> 0) + 1) counts"

definition zero_counts :: "string \<Rightarrow> json list \<Rightarrow> (string \<times> int) list" where
  "zero_counts key nodes = map (\<lambda>d. (d, 0)) (remdups (List.map_filter (\<lambda>n. domain_of n key) nodes))"

definition counts_by_domain :: "json \<Rightarrow> string \<Rightarrow> json list \<Rightarrow> cluster_state \<Rightarrow> (string \<times> int) list" where
  "counts_by_domain constraint pod_ns nodes state =
     (let key = topology_key_of constraint
      in foldl
           (\<lambda>counts (node_name, other).
              if pod_namespace other = pod_ns \<and> aff_selector_matches (jidx constraint ''labelSelector'') (jat other [''metadata'', ''labels''])
              then (case Option.bind (nodes_by_name nodes node_name) (\<lambda>n. domain_of n key) of
                      Some d \<Rightarrow> bump d counts
                    | None \<Rightarrow> counts)
              else counts)
           (zero_counts key nodes) (cs_placed state))"

definition skew_if_placed :: "(string \<times> int) list \<Rightarrow> string \<Rightarrow> int \<Rightarrow> int" where
  "skew_if_placed counts here min_domains =
     (let vals = map (\<lambda>(d, c). if d = here then c + 1 else c) counts;
          vals = vals @ replicate (nat min_domains - length vals) 0
      in if vals = [] then 0 else Max (set vals) - Min (set vals))"

definition unsatisfiable_mode :: "json \<Rightarrow> string" where
  "unsatisfiable_mode c = str_or ''DoNotSchedule'' (jidx c ''whenUnsatisfiable'')"

definition i64_or :: "int \<Rightarrow> json \<Rightarrow> int" where
  "i64_or d v = (case as_i64 v of Some x \<Rightarrow> x | None \<Rightarrow> d)"

fun spread_constraints :: "string \<Rightarrow> json \<Rightarrow> json list \<Rightarrow> cluster_state \<Rightarrow> json list \<Rightarrow> string + unit" where
  "spread_constraints pod_ns node nodes state [] = Inr ()"
| "spread_constraints pod_ns node nodes state (c # cs) =
     (if unsatisfiable_mode c \<noteq> ''DoNotSchedule'' then spread_constraints pod_ns node nodes state cs
      else
        (let key = topology_key_of c
         in case domain_of node key of
              None \<Rightarrow> Inl (''node has no '' @ key @ '' label, required by topology spread'')
            | Some here \<Rightarrow>
                (let max_skew = max 1 (i64_or 1 (jidx c ''maxSkew''));
                     skew = skew_if_placed (counts_by_domain c pod_ns nodes state) here (i64_or 0 (jidx c ''minDomains''))
                 in if max_skew < skew
                    then Inl (''topology spread: placing here makes skew '' @ show_int skew @ '' over '' @ key @
                              '' (maxSkew '' @ show_int max_skew @ '')'')
                    else spread_constraints pod_ns node nodes state cs)))"

definition spread_filter :: "json \<Rightarrow> json \<Rightarrow> json list \<Rightarrow> cluster_state \<Rightarrow> string + unit" where
  "spread_filter pod node nodes state =
     spread_constraints (pod_namespace pod) node nodes state (arr (jat pod [''spec'', ''topologySpreadConstraints'']))"

definition spread_skews :: "string \<Rightarrow> json \<Rightarrow> json list \<Rightarrow> cluster_state \<Rightarrow> json list \<Rightarrow> int list" where
  "spread_skews pod_ns node nodes state cs =
     List.map_filter
       (\<lambda>c. if unsatisfiable_mode c \<noteq> ''ScheduleAnyway'' then None
             else map_option (\<lambda>here. skew_if_placed (counts_by_domain c pod_ns nodes state) here (i64_or 0 (jidx c ''minDomains'')))
                    (domain_of node (topology_key_of c))) cs"

definition spread_score :: "json \<Rightarrow> json \<Rightarrow> json list \<Rightarrow> cluster_state \<Rightarrow> int" where
  "spread_score pod node nodes state =
     (let skews = spread_skews (pod_namespace pod) node nodes state (arr (jat pod [''spec'', ''topologySpreadConstraints'']))
      in if skews = [] then 0 else max 0 (100 - foldl max 0 skews * 20))"

section \<open>All filters\<close>

definition or_else :: "filter_result \<Rightarrow> filter_result \<Rightarrow> filter_result" where
  "or_else r next_one = (case r of Fail reason \<Rightarrow> Fail reason | Pass \<Rightarrow> next_one)"

fun of_result :: "string + unit \<Rightarrow> filter_result" where
  "of_result (Inl reason) = Fail reason"
| "of_result (Inr _) = Pass"

definition run_filters :: "json \<Rightarrow> json \<Rightarrow> node_usage \<Rightarrow> cluster_state \<Rightarrow> json list \<Rightarrow> filter_result" where
  "run_filters pod node used state nodes =
     or_else (node_ready_filter node)
     (or_else (unschedulable_filter node)
     (or_else (taint_toleration_filter pod node)
     (or_else (node_selector_filter pod node)
     (or_else (node_affinity_filter pod node)
     (or_else (node_name_filter pod node)
     (or_else (of_result (pod_affinity_filter pod node nodes state))
     (or_else (of_result (spread_filter pod node nodes state))
     (resource_fit_filter pod node used))))))))"

section \<open>Scores\<close>

definition free_score :: "u64 \<Rightarrow> u64 \<Rightarrow> int" where
  "free_score have used = (if have = 0 then 0 else sint (sat_sub have used * 50 div have))"

definition least_requested_score :: "json \<Rightarrow> node_usage \<Rightarrow> int" where
  "least_requested_score node used =
     (let allocatable = jat node [''status'', ''allocatable'']
      in if is_null allocatable then 50
         else
           (let cpu = (case as_str (jidx allocatable ''cpu'') of Some q \<Rightarrow> of_nat (parse_cpu_millis q) | None \<Rightarrow> 1000);
                mem = (case as_str (jidx allocatable ''memory'') of Some q \<Rightarrow> of_nat (parse_bytes q) | None \<Rightarrow> 1024 * 1024 * 1024)
            in wrap_i64 (free_score cpu (nu_cpu used) + free_score mem (nu_mem used))))"

definition image_locality_score :: "json \<Rightarrow> json \<Rightarrow> int" where
  "image_locality_score pod node =
     (let node_image_names = concat (map (\<lambda>img. List.map_filter as_str (arr (jidx img ''names''))) (arr (jat node [''status'', ''images''])));
          matched = length (filter (\<lambda>c. case as_str (jidx c ''image'') of Some img \<Rightarrow> img \<in> set node_image_names | None \<Rightarrow> False)
                              (arr (jat pod [''spec'', ''containers''])))
      in int matched * 10)"

definition preferred_expr_ok :: "(string \<times> json) list option \<Rightarrow> json \<Rightarrow> bool" where
  "preferred_expr_ok node_labels e =
     (let key = str_or [] (jidx e ''key''); oper = str_or ''In'' (jidx e ''operator''); values = expr_values e
      in case node_labels of
           Some labels \<Rightarrow>
             (let node_val = Option.bind (map_of labels key) as_str
              in if oper = ''In'' then (case node_val of Some v \<Rightarrow> v \<in> set values | None \<Rightarrow> False)
                 else if oper = ''NotIn'' then (case node_val of Some v \<Rightarrow> v \<notin> set values | None \<Rightarrow> True)
                 else if oper = ''Exists'' then map_of labels key \<noteq> None
                 else if oper = ''DoesNotExist'' then map_of labels key = None
                 else False)
         | None \<Rightarrow> oper = ''DoesNotExist'')"

definition node_affinity_score :: "json \<Rightarrow> json \<Rightarrow> int" where
  "node_affinity_score pod node =
     foldl
       (\<lambda>score term.
          if list_all (preferred_expr_ok (as_object (jat node [''metadata'', ''labels'']))) (arr (jat term [''preference'', ''matchExpressions'']))
          then wrap_i64 (score + i64_or 1 (jidx term ''weight'')) else score)
       0 (preferred_terms pod ''nodeAffinity'')"

definition score_node :: "json \<Rightarrow> json \<Rightarrow> node_usage \<Rightarrow> cluster_state \<Rightarrow> json list \<Rightarrow> int" where
  "score_node pod node used state nodes =
     wrap_i64 (least_requested_score node used + image_locality_score pod node + node_affinity_score pod node +
               pod_affinity_score pod node nodes state + spread_score pod node nodes state)"

section \<open>Volumes\<close>

definition ANN_SELECTED_NODE :: string where "ANN_SELECTED_NODE = ''volume.kubernetes.io/selected-node''"

record volume_state =
  vs_claims :: "string \<times> string \<Rightarrow> json option"
  vs_volumes :: "string \<Rightarrow> json option"
  vs_classes :: "string \<Rightarrow> json option"
  vs_capacities :: "json list"
  vs_capacity_tracking :: "string list"

definition vs_claim :: "volume_state \<Rightarrow> string \<Rightarrow> string \<Rightarrow> json option" where
  "vs_claim state namespace claim = vs_claims state (namespace, claim)"

definition pod_name_of :: "json \<Rightarrow> string" where
  "pod_name_of pod = str_or [] (jat pod [''metadata'', ''name''])"

definition pod_claims :: "json \<Rightarrow> string list" where
  "pod_claims pod =
     List.map_filter
       (\<lambda>v. case as_str (jat v [''persistentVolumeClaim'', ''claimName'']) of
               Some c \<Rightarrow> Some c
             | None \<Rightarrow> if jget v ''ephemeral'' \<noteq> None then Some (pod_name_of pod @ ''-'' @ str_or [] (jidx v ''name'')) else None)
       (arr (jat pod [''spec'', ''volumes'']))"

definition uses_storage :: "json \<Rightarrow> bool" where
  "uses_storage pod \<longleftrightarrow> pod_claims pod \<noteq> []"

definition unbound_claims :: "json \<Rightarrow> string \<Rightarrow> volume_state \<Rightarrow> string list" where
  "unbound_claims pod namespace state =
     filter (\<lambda>c. case vs_claim state namespace c of
                    Some pvc \<Rightarrow> str_or [] (jat pvc [''spec'', ''volumeName'']) = []
                  | None \<Rightarrow> True) (pod_claims pod)"

definition single_pod_claim :: "volume_state \<Rightarrow> string \<Rightarrow> string \<Rightarrow> bool" where
  "single_pod_claim state namespace c =
     (case vs_claim state namespace c of
        Some pvc \<Rightarrow> \<exists>v \<in> set (arr (jat pvc [''spec'', ''accessModes''])). as_str v = Some ''ReadWriteOncePod''
      | None \<Rightarrow> False)"

fun rwop_holder :: "string \<Rightarrow> string \<Rightarrow> string list \<Rightarrow> (string \<times> json) list \<Rightarrow> string option" where
  "rwop_holder me namespace wanted [] = None"
| "rwop_holder me namespace wanted ((node, other) # placed) =
     (if pod_namespace other \<noteq> namespace \<or> pod_name_of other = me then rwop_holder me namespace wanted placed
      else
        (case find (\<lambda>want. want \<in> set (pod_claims other)) wanted of
           Some want \<Rightarrow>
             Some (''persistentvolumeclaim '' @ namespace @ ''/'' @ want @ '' is ReadWriteOncePod and is already used by pod '' @ pod_name_of other)
         | None \<Rightarrow> rwop_holder me namespace wanted placed))"

definition rwop_conflict :: "json \<Rightarrow> string \<Rightarrow> volume_state \<Rightarrow> (string \<times> json) list \<Rightarrow> string option" where
  "rwop_conflict pod namespace state placed =
     (let wanted = filter (single_pod_claim state namespace) (pod_claims pod)
      in if wanted = [] then None else rwop_holder (pod_name_of pod) namespace wanted placed)"

definition capacity_fits :: "json \<Rightarrow> string \<Rightarrow> json \<Rightarrow> volume_state \<Rightarrow> bool" where
  "capacity_fits pvc class_name node state =
     (let want = parse_bytes (str_or ''0'' (jat pvc [''spec'', ''resources'', ''requests'', ''storage'']));
          labels = jat node [''metadata'', ''labels'']
      in \<exists>cap \<in> set (vs_capacities state).
           as_str (jidx cap ''storageClassName'') = Some class_name \<and>
           (is_null (jidx cap ''nodeTopology'') \<or> selector_matches (jidx cap ''nodeTopology'') labels) \<and>
           want \<le> parse_bytes (case as_str (jidx cap ''maximumVolumeSize'') of Some m \<Rightarrow> m | None \<Rightarrow> str_or ''0'' (jidx cap ''capacity'')))"

definition claim_on_node :: "json \<Rightarrow> volume_state \<Rightarrow> string \<Rightarrow> json \<Rightarrow> string + unit" where
  "claim_on_node node state claim_name pvc =
     (let labels = as_object (jat node [''metadata'', ''labels'']); node_name = node_name_of node;
          volume_name = str_or [] (jat pvc [''spec'', ''volumeName''])
      in if volume_name \<noteq> [] then
           (case vs_volumes state volume_name of
              None \<Rightarrow> Inr ()
            | Some pv \<Rightarrow>
                (let terms = arr (jat pv [''spec'', ''nodeAffinity'', ''required'', ''nodeSelectorTerms''])
                 in if terms \<noteq> [] \<and> \<not> (\<exists>t \<in> set terms. node_selector_term_matches t labels node_name)
                    then Inl (''volume '' @ volume_name @ '' (claim '' @ claim_name @ '') is not available on this node'')
                    else Inr ()))
         else
           (let selected = str_or [] (jat pvc [''metadata'', ''annotations'', ANN_SELECTED_NODE]);
                class_name = str_or [] (jat pvc [''spec'', ''storageClassName''])
            in if selected \<noteq> [] \<and> selected \<noteq> node_name
               then Inl (''claim '' @ claim_name @ '' already selected node '' @ selected)
               else if class_name = [] then Inr ()
               else
                 (case vs_classes state class_name of
                    None \<Rightarrow> Inr ()
                  | Some class \<Rightarrow>
                      if str_or [] (jidx class ''provisioner'') \<in> set (vs_capacity_tracking state) \<and>
                         \<not> capacity_fits pvc class_name node state
                      then Inl (''no published storage capacity for class '' @ class_name @ '' on this node'')
                      else Inr ())))"

fun filter_claims :: "string \<Rightarrow> json \<Rightarrow> volume_state \<Rightarrow> string list \<Rightarrow> string + unit" where
  "filter_claims namespace node state [] = Inr ()"
| "filter_claims namespace node state (c # cs) =
     (case vs_claim state namespace c of
        None \<Rightarrow> filter_claims namespace node state cs
      | Some pvc \<Rightarrow>
          (case claim_on_node node state c pvc of
             Inl e \<Rightarrow> Inl e
           | Inr _ \<Rightarrow> filter_claims namespace node state cs))"

definition filter_node :: "json \<Rightarrow> string \<Rightarrow> json \<Rightarrow> volume_state \<Rightarrow> string + unit" where
  "filter_node pod namespace node state = filter_claims namespace node state (pod_claims pod)"

section \<open>Virtual machines\<close>

definition non_empty :: "string option \<Rightarrow> string option" where
  "non_empty s = (if s = Some [] then None else s)"

definition vm_node_of :: "json \<Rightarrow> string option" where
  "vm_node_of vmi =
     (case non_empty (as_str (jat vmi [''status'', ''nodeName''])) of
        Some n \<Rightarrow> Some n
      | None \<Rightarrow> non_empty (as_str (jat vmi [''spec'', ''nodeName''])))"

definition vm_is_terminal :: "json \<Rightarrow> bool" where
  "vm_is_terminal vmi \<longleftrightarrow> as_str (jat vmi [''status'', ''phase'']) \<in> {Some ''Succeeded'', Some ''Failed''}"

definition vcpu_factor :: "json \<Rightarrow> u64" where
  "vcpu_factor v = of_nat (max 1 (case as_u64 v of Some n \<Rightarrow> n | None \<Rightarrow> 1))"

definition vcpus :: "json \<Rightarrow> u64" where
  "vcpus vmi =
     (let cpu = jat vmi [''spec'', ''domain'', ''cpu'']
      in vcpu_factor (jidx cpu ''cores'') * vcpu_factor (jidx cpu ''sockets'') * vcpu_factor (jidx cpu ''threads''))"

definition first_str :: "json list \<Rightarrow> string option" where
  "first_str vs = (case List.map_filter as_str vs of [] \<Rightarrow> None | s # _ \<Rightarrow> Some s)"

definition vm_requests :: "json \<Rightarrow> u64 \<times> u64" where
  "vm_requests vmi =
     (let domain = jat vmi [''spec'', ''domain''];
          res = jat domain [''resources'', ''requests''];
          mem = (case first_str [jat domain [''memory'', ''guest''], jidx res ''memory'', jat domain [''resources'', ''limits'', ''memory'']] of
                   Some q \<Rightarrow> of_nat (parse_bytes q) | None \<Rightarrow> 0);
          cpu = (case as_str (jidx res ''cpu'') of
                   Some req \<Rightarrow> of_nat (parse_cpu_millis req)
                 | None \<Rightarrow> if as_bool (jat domain [''cpu'', ''dedicatedCpuPlacement'']) = Some True then vcpus vmi * 1000 else 0)
      in (cpu, mem))"

definition copied_keys :: "string list" where
  "copied_keys = [''nodeSelector'', ''affinity'', ''tolerations'', ''priorityClassName'', ''schedulerName'']"

definition copy_key :: "json \<Rightarrow> (string \<times> json) list \<Rightarrow> string \<Rightarrow> (string \<times> json) list" where
  "copy_key spec shim_spec k = (if is_null (jidx spec k) then shim_spec else bt_insert k (jidx spec k) shim_spec)"

definition scheduling_shim :: "json \<Rightarrow> json" where
  "scheduling_shim vmi =
     (case vm_requests vmi of (cpu, mem) \<Rightarrow>
        JObj [(''apiVersion'', JStr ''v1''),
              (''kind'', JStr ''Pod''),
              (''metadata'', JObj [(''labels'', jat vmi [''metadata'', ''labels'']),
                                   (''name'', jat vmi [''metadata'', ''name'']),
                                   (''namespace'', jat vmi [''metadata'', ''namespace''])]),
              (''spec'', JObj (foldl (copy_key (jidx vmi ''spec''))
                 [(''containers'', JArr [JObj [(''name'', JStr ''vm''),
                     (''resources'', JObj [(''requests'', JObj [(''cpu'', JStr (show_nat (unat cpu) @ ''m'')),
                                                               (''memory'', JStr (show_nat (unat mem)))])])]])] copied_keys)),
              (''status'', JObj [(''phase'', JStr ''Pending'')])])"

definition active_migration :: "json \<Rightarrow> json option" where
  "active_migration vmi =
     (let state = jat vmi [''status'', ''migrationState''];
          finished = as_bool (jidx state ''completed'') = Some True \<or> as_bool (jidx state ''failed'') = Some True
      in if non_empty (as_str (jidx state ''migrationUid'')) \<noteq> None \<and> \<not> finished then Some state else None)"

definition wants_migration_target :: "json \<Rightarrow> bool" where
  "wants_migration_target vmi =
     (case active_migration vmi of
        Some m \<Rightarrow> non_empty (as_str (jidx m ''targetNode'')) = None \<and> as_bool (jidx m ''abortRequested'') \<noteq> Some True
      | None \<Rightarrow> False)"

section \<open>What a pod's containers add up to\<close>

lemma ct_get_insert: "ct_get (bt_insert k v m) r = (if r = k then v else ct_get m r)"
  by (simp add: ct_get_def map_of_bt_insert)

lemma bt_wf_foldl: "bt_wf m \<Longrightarrow> bt_wf (foldl (\<lambda>m (k, v). bt_insert k (f m k v) m) m kvs)"
  by (induction kvs arbitrary: m) (auto simp: bt_insert_wf)

lemma ct_each_wf: "bt_wf (ct_each kind amount c)"
  using bt_wf_foldl[of "[]" "\<lambda>_. amount"] by (simp add: ct_each_def)

lemma ct_add_wf: "bt_wf m \<Longrightarrow> bt_wf (ct_add m from)"
  using bt_wf_foldl[of m "\<lambda>m k v. ct_get m k + v"] by (simp add: ct_add_def)

lemma ct_max_wf: "bt_wf m \<Longrightarrow> bt_wf (ct_max m from)"
  using bt_wf_foldl[of m "\<lambda>m k v. if ct_get m k < v then v else ct_get m k"] by (simp add: ct_max_def)

lemmas ct_wf = ct_each_wf ct_add_wf ct_max_wf

lemma ct_get_Nil [simp]: "ct_get [] r = 0"
  by (simp add: ct_get_def)

lemma ct_get_Cons: "ct_get ((k, v) # m) r = (if r = k then v else ct_get m r)"
  by (simp add: ct_get_def)

lemma ct_get_notin: "k \<notin> fst ` set m \<Longrightarrow> ct_get m k = 0"
  by (simp add: ct_get_def iffD2[OF map_of_eq_None_iff])

lemma ct_get_add:
  fixes into :: "(string, u64) btree"
  shows "bt_wf from \<Longrightarrow> ct_get (ct_add into from) r = ct_get into r + ct_get from r"
proof (induction "from" arbitrary: into)
  case (Cons e m)
  obtain k v where e: "e = (k, v)" by force
  have "k \<notin> fst ` set m" using Cons.prems e by (auto simp: bt_wf_Cons)
  then show ?case using Cons e ct_get_notin[of k m]
    by (simp add: bt_wf_Cons ct_add_def ct_get_insert ct_get_Cons)
qed (simp add: ct_add_def)

lemma ct_get_max:
  fixes into :: "(string, u64) btree"
  shows "bt_wf from \<Longrightarrow> ct_get (ct_max into from) r = max (ct_get into r) (ct_get from r)"
proof (induction "from" arbitrary: into)
  case (Cons e m)
  obtain k v where e: "e = (k, v)" by force
  have "k \<notin> fst ` set m" using Cons.prems e by (auto simp: bt_wf_Cons)
  then show ?case using Cons e ct_get_notin[of k m]
    by (auto simp: bt_wf_Cons ct_max_def ct_get_insert ct_get_Cons max_def not_less word_gt_0)
qed (simp add: ct_max_def)

definition is_sidecar :: "json \<Rightarrow> bool" where
  "is_sidecar c \<longleftrightarrow> as_str (jidx c ''restartPolicy'') = Some ''Always''"

definition own_amount :: "string \<Rightarrow> (string \<Rightarrow> json \<Rightarrow> u64) \<Rightarrow> string \<Rightarrow> json \<Rightarrow> u64" where
  "own_amount kind amount r c = ct_get (ct_each kind amount c) r"

definition sidecar_sum :: "string \<Rightarrow> (string \<Rightarrow> json \<Rightarrow> u64) \<Rightarrow> string \<Rightarrow> json list \<Rightarrow> u64" where
  "sidecar_sum kind amount r cs = sum_list (map (own_amount kind amount r) (filter is_sidecar cs))"

text \<open>The most any init step holds: the step's own amount beside the sidecars started before it.\<close>

definition busiest_step :: "string \<Rightarrow> (string \<Rightarrow> json \<Rightarrow> u64) \<Rightarrow> string \<Rightarrow> json list \<Rightarrow> u64" where
  "busiest_step kind amount r cs =
     Max (insert 0 ((\<lambda>i. own_amount kind amount r (cs ! i) + sidecar_sum kind amount r (take i cs)) ` {..<length cs}))"

lemma busiest_step_snoc:
  "busiest_step kind amount r (cs @ [c]) =
     max (busiest_step kind amount r cs) (own_amount kind amount r c + sidecar_sum kind amount r cs)"
proof -
  let ?f = "\<lambda>cs i. own_amount kind amount r (cs ! i) + sidecar_sum kind amount r (take i cs)"
  have "?f (cs @ [c]) ` {..<length (cs @ [c])} = insert (own_amount kind amount r c + sidecar_sum kind amount r cs) (?f cs ` {..<length cs})"
    by (simp add: lessThan_Suc nth_append cong: image_cong_simp)
  then show ?thesis by (simp add: busiest_step_def insert_commute[of 0] max.commute)
qed

lemma running_total:
  "bt_wf m \<Longrightarrow> ct_get (foldl (\<lambda>t c. ct_add t (ct_each kind amount c)) m cs) r = ct_get m r + sum_list (map (own_amount kind amount r) cs)
     \<and> bt_wf (foldl (\<lambda>t c. ct_add t (ct_each kind amount c)) m cs)"
  by (induction cs arbitrary: m) (simp_all add: ct_wf ct_get_add own_amount_def add.assoc)

lemma init_fold:
  assumes "bt_wf t" "foldl (ct_init kind amount) (t, [], []) cs = (tot, sidecars, busiest)"
  shows "bt_wf tot \<and> bt_wf sidecars \<and> bt_wf busiest \<and>
         ct_get tot r = ct_get t r + sidecar_sum kind amount r cs \<and> ct_get sidecars r = sidecar_sum kind amount r cs \<and>
         ct_get busiest r = busiest_step kind amount r cs"
  using assms(2)
proof (induction cs arbitrary: tot sidecars busiest rule: rev_induct)
  case Nil
  with assms(1) show ?case by (simp add: sidecar_sum_def busiest_step_def)
next
  case (snoc c cs)
  obtain t' s' b' where before: "foldl (ct_init kind amount) (t, [], []) cs = (t', s', b')" by (metis prod_cases3)
  note ih = snoc.IH[OF before]
  have step: "ct_init kind amount (t', s', b') c = (tot, sidecars, busiest)" using snoc.prems before by simp
  show ?case
  proof (cases "is_sidecar c")
    case True
    with step ih show ?thesis
      by (auto simp: ct_init_def Let_def is_sidecar_def ct_wf ct_get_add ct_get_max busiest_step_snoc sidecar_sum_def own_amount_def add.commute add.left_commute)
  next
    case False
    with step ih show ?thesis
      by (auto simp: ct_init_def Let_def is_sidecar_def ct_wf ct_get_add ct_get_max busiest_step_snoc sidecar_sum_def own_amount_def)
  qed
qed

text \<open>
  C29. What a pod needs of a resource is its peak: the larger of what runs together once it is up (every
  container and every sidecar) and the most any init step holds (the step's own amount beside the
  sidecars started before it). The \<^verbatim>\<open>amount\<close> function is any; sums wrap at 64 bits.
\<close>

theorem containers_total_is_peak:
  "ct_get (containers_total pod kind amount) r =
     (let cs = arr (jat pod [''spec'', ''containers'']); ics = arr (jat pod [''spec'', ''initContainers''])
      in max (sum_list (map (own_amount kind amount r) cs) + sidecar_sum kind amount r ics) (busiest_step kind amount r ics))"
proof -
  let ?cs = "arr (jat pod [''spec'', ''containers''])" and ?ics = "arr (jat pod [''spec'', ''initContainers''])"
  let ?run = "foldl (\<lambda>t c. ct_add t (ct_each kind amount c)) [] ?cs"
  obtain tot sidecars busiest where f: "foldl (ct_init kind amount) (?run, [], []) ?ics = (tot, sidecars, busiest)" by (metis prod_cases3)
  from running_total[of "[]" kind amount ?cs r] have run: "bt_wf ?run" "ct_get ?run r = sum_list (map (own_amount kind amount r) ?cs)" by simp_all
  from init_fold[OF run(1) f] run(2) f show ?thesis
    by (simp add: containers_total_def Let_def ct_get_max del: jat_Cons)
qed

section \<open>When a node passes\<close>

definition alloc_cpu :: "json \<Rightarrow> u64 option" where
  "alloc_cpu node = map_option (\<lambda>q. of_nat (parse_cpu_millis q)) (as_str (jat node [''status'', ''allocatable'', ''cpu'']))"

definition alloc_mem :: "json \<Rightarrow> u64 option" where
  "alloc_mem node = map_option (\<lambda>q. of_nat (parse_bytes q)) (as_str (jat node [''status'', ''allocatable'', ''memory'']))"

lemma or_else_Pass [simp]: "or_else r s = Pass \<longleftrightarrow> r = Pass \<and> s = Pass"
  by (cases r) (auto simp: or_else_def)

lemma of_result_Pass [simp]: "of_result r = Pass \<longleftrightarrow> r = Inr ()"
  by (cases r) auto

lemma le_sat_sub: "r \<le> sat_sub a u \<longleftrightarrow> r = 0 \<or> unat u + unat r \<le> unat a"
  by (auto simp: sat_sub_def word_le_nat_alt word_less_nat_alt unat_sub unat_eq_0 simp flip: unat_eq_0)

lemma jat_snoc: "jat v (ks @ [k]) = jidx (jat v ks) k"
  by (simp add: jat_def)

lemma resource_fit_Pass:
  "resource_fit_filter pod node used = Pass \<longleftrightarrow>
     (case pod_requests pod of (cpu, mem) \<Rightarrow>
        cpu = 0 \<and> mem = 0 \<or>
        (\<forall>a. alloc_cpu node = Some a \<longrightarrow> cpu \<le> sat_sub a (nu_cpu used)) \<and>
        (\<forall>a. alloc_mem node = Some a \<longrightarrow> mem \<le> sat_sub a (nu_mem used)))"
proof -
  let ?a = "jat node [''status'', ''allocatable'']"
  have a: "alloc_cpu node = map_option (\<lambda>q. of_nat (parse_cpu_millis q)) (as_str (jidx ?a ''cpu''))"
    "alloc_mem node = map_option (\<lambda>q. of_nat (parse_bytes q)) (as_str (jidx ?a ''memory''))"
    unfolding alloc_cpu_def alloc_mem_def by (simp_all add: jat_def)
  have n: "is_null ?a \<Longrightarrow> as_str (jidx ?a k) = None" for k by (cases ?a) (simp_all add: jidx_def del: jat_Cons)
  show ?thesis unfolding a
    by (cases "is_null ?a")
      (auto simp: resource_fit_filter_def Let_def n not_less simp del: jat_Cons split: option.splits prod.splits)
qed

lemma pod_count_Pass:
  "pod_count_filter node used = Pass \<longleftrightarrow> (\<forall>l. pods_limit node = Some l \<longrightarrow> nu_pods used < of_nat l)"
  by (auto simp: pod_count_filter_def not_le split: option.splits)

section \<open>The order of placed pods does not matter\<close>

lemma map_filter_set: "set (List.map_filter f xs) = {y. \<exists>x \<in> set xs. f x = Some y}"
  by (force simp: map_filter_def)

lemma occupied_cong: "set (cs_placed s) = set (cs_placed s') \<Longrightarrow> set (occupied_domains t ns nodes s) = set (occupied_domains t ns nodes s')"
  by (simp add: occupied_domains_def map_filter_set)

lemma affinity_cong:
  assumes "set (cs_placed s) = set (cs_placed s')"
  shows "required_affinity ns node nodes s terms = required_affinity ns node nodes s' terms"
    and "required_anti_affinity ns node nodes s terms = required_anti_affinity ns node nodes s' terms"
  by (induction terms) (auto simp: Let_def occupied_cong[OF assms] split: option.splits)

lemma map_of_bumps:
  "map_of (foldl (\<lambda>m p. case hit p of Some d \<Rightarrow> bump d m | None \<Rightarrow> m) m ps) d =
     (if length (filter (\<lambda>p. hit p = Some d) ps) = 0 then map_of m d
      else Some ((case map_of m d of Some c \<Rightarrow> c | None \<Rightarrow> 0) + int (length (filter (\<lambda>p. hit p = Some d) ps))))"
  by (induction ps arbitrary: m) (auto simp: bump_def update_conv' split: option.splits)

lemma distinct_bumps:
  "distinct (map fst m) \<Longrightarrow> distinct (map fst (foldl (\<lambda>m p. case hit p of Some d \<Rightarrow> bump d m | None \<Rightarrow> m) m ps))"
  by (induction ps arbitrary: m) (auto simp: bump_def distinct_update split: option.splits)

definition spread_hit :: "json \<Rightarrow> string \<Rightarrow> json list \<Rightarrow> string \<times> json \<Rightarrow> string option" where
  "spread_hit c pod_ns nodes p =
     (case p of (node_name, other) \<Rightarrow>
        if pod_namespace other = pod_ns \<and> aff_selector_matches (jidx c ''labelSelector'') (jat other [''metadata'', ''labels''])
        then Option.bind (nodes_by_name nodes node_name) (\<lambda>n. domain_of n (topology_key_of c)) else None)"

lemma counts_as_bumps:
  "counts_by_domain c pod_ns nodes state =
     foldl (\<lambda>m p. case spread_hit c pod_ns nodes p of Some d \<Rightarrow> bump d m | None \<Rightarrow> m) (zero_counts (topology_key_of c) nodes) (cs_placed state)"
proof -
  have "(\<lambda>counts (node_name, other).
              if pod_namespace other = pod_ns \<and> aff_selector_matches (jidx c ''labelSelector'') (jat other [''metadata'', ''labels''])
              then (case Option.bind (nodes_by_name nodes node_name) (\<lambda>n. domain_of n (topology_key_of c)) of
                      Some d \<Rightarrow> bump d counts | None \<Rightarrow> counts)
              else counts) = (\<lambda>m p. case spread_hit c pod_ns nodes p of Some d \<Rightarrow> bump d m | None \<Rightarrow> m)"
    by (intro ext) (auto simp: spread_hit_def simp del: jat_Cons)
  then show ?thesis by (simp add: counts_by_domain_def Let_def)
qed

lemma skew_cong:
  assumes "distinct (map fst m)" "distinct (map fst m')" "map_of m = map_of m'"
  shows "skew_if_placed m here md = skew_if_placed m' here md"
proof -
  have s: "set m = set m'" using assms by (metis map_of_inject_set)
  have l: "length m = length m'" using assms(1,2) s by (metis distinct_card distinct_map length_map)
  let ?f = "\<lambda>(d, c). if d = here then c + 1 else c :: int"
  have "set (map ?f m @ replicate (nat md - length m) 0) = set (map ?f m' @ replicate (nat md - length m') 0)" using s l by simp
  moreover have "map ?f m @ replicate (nat md - length m) 0 = [] \<longleftrightarrow> map ?f m' @ replicate (nat md - length m') 0 = []" using s l by auto
  ultimately show ?thesis by (simp add: skew_if_placed_def Let_def del: set_append set_map)
qed

lemma counts_cong:
  assumes "mset (cs_placed s) = mset (cs_placed s')"
  shows "skew_if_placed (counts_by_domain c ns nodes s) here md = skew_if_placed (counts_by_domain c ns nodes s') here md"
proof (rule skew_cong)
  have z: "distinct (map fst (zero_counts key nodes))" for key by (simp add: zero_counts_def comp_def)
  show "distinct (map fst (counts_by_domain c ns nodes s))" "distinct (map fst (counts_by_domain c ns nodes s'))"
    unfolding counts_as_bumps by (rule distinct_bumps[OF z])+
  have "length (filter P (cs_placed s)) = length (filter P (cs_placed s'))" for P
    using assms by (metis mset_filter size_mset)
  then show "map_of (counts_by_domain c ns nodes s) = map_of (counts_by_domain c ns nodes s')"
    unfolding counts_as_bumps by (intro ext) (simp only: map_of_bumps)
qed

lemma spread_cong:
  "mset (cs_placed s) = mset (cs_placed s') \<Longrightarrow> spread_constraints ns node nodes s cs = spread_constraints ns node nodes s' cs"
  by (induction cs) (auto simp: Let_def counts_cong[of s s'] split: option.splits)

lemma run_filters_cong:
  assumes "mset (cs_placed s) = mset (cs_placed s')"
  shows "run_filters pod node used s nodes = run_filters pod node used s' nodes"
proof -
  have eq: "set (cs_placed s) = set (cs_placed s')" using assms by (metis set_mset_mset)
  show ?thesis
    unfolding run_filters_def pod_affinity_filter_def spread_filter_def affinity_cong[OF eq] spread_cong[OF assms] by (rule refl)
qed

end
