(* ===== verification/Preemption.thy ===== *)
theory Preemption
  imports SchedFilter "HOL-Library.Product_Lexorder"
begin

text \<open>
  Which lower-priority pods must go from which node so that a pod fits:
  \<^verbatim>\<open>pkg/scheduler/src/preemption.rs\<close>. The counts charged to each disruption budget are only looked
  up, so they are a function of the budget's key.
\<close>

section \<open>Choosing the victims\<close>

record candidate =
  cd_node :: string
  cd_victims :: "json list"
  cd_pdb_violations :: nat

definition p_uid :: "json \<Rightarrow> string" where
  "p_uid obj = str_or [] (jat obj [''metadata'', ''uid''])"

definition may_preempt :: "json \<Rightarrow> bool" where
  "may_preempt pod \<longleftrightarrow> as_str (jat pod [''spec'', ''preemptionPolicy'']) \<noteq> Some ''Never''"

definition usage_sub :: "node_usage \<Rightarrow> json \<Rightarrow> node_usage" where
  "usage_sub u pod =
     (case pod_requests pod of (cpu, mem) \<Rightarrow>
        \<lparr>nu_cpu = sat_sub (nu_cpu u) cpu, nu_mem = sat_sub (nu_mem u) mem, nu_pods = sat_sub (nu_pods u) 1\<rparr>)"

definition usage_add :: "node_usage \<Rightarrow> json \<Rightarrow> node_usage" where
  "usage_add u pod =
     (case pod_requests pod of (cpu, mem) \<Rightarrow>
        \<lparr>nu_cpu = nu_cpu u + cpu, nu_mem = nu_mem u + mem, nu_pods = nu_pods u + 1\<rparr>)"

definition fits :: "json \<Rightarrow> json \<Rightarrow> cluster_state \<Rightarrow> json list \<Rightarrow> bool" where
  "fits pod node state nodes \<longleftrightarrow>
     run_filters pod node (cs_used state node) state nodes = Pass \<and> pod_count_filter node (cs_used state node) = Pass"

definition without :: "cluster_state \<Rightarrow> string \<Rightarrow> json list \<Rightarrow> cluster_state" where
  "without state node gone =
     \<lparr>cs_usage = (cs_usage state)(node := foldl usage_sub (cs_usage state node) gone),
      cs_placed = filter (\<lambda>(n, p). \<not> (n = node \<and> p_uid p \<in> set (map p_uid gone))) (cs_placed state)\<rparr>"

definition budgets_for :: "json \<Rightarrow> json list \<Rightarrow> json list" where
  "budgets_for pod pdbs =
     filter (\<lambda>pdb. as_str (jat pdb [''metadata'', ''namespace'']) = Some (str_or [] (jat pod [''metadata'', ''namespace''])) \<and>
                    is_object (jat pdb [''spec'', ''selector'']) \<and>
                    selector_matches (jat pdb [''spec'', ''selector'']) (jat pod [''metadata'', ''labels''])) pdbs"

definition charge_budget :: "string \<Rightarrow> bool \<times> (string \<Rightarrow> int) \<Rightarrow> json \<Rightarrow> bool \<times> (string \<Rightarrow> int)" where
  "charge_budget ns acc pdb =
     (case acc of (violation, taken) \<Rightarrow>
        (let key = ns @ ''/'' @ pod_name_of pdb; allowed = i64_or 0 (jat pdb [''status'', ''disruptionsAllowed''])
         in (violation \<or> wrap_i64 (allowed - taken key) \<le> 0, taken(key := taken key + 1))))"

definition violates :: "json \<Rightarrow> json list \<Rightarrow> (string \<Rightarrow> int) \<Rightarrow> bool \<times> (string \<Rightarrow> int)" where
  "violates pod pdbs taken =
     foldl (charge_budget (str_or [] (jat pod [''metadata'', ''namespace'']))) (False, taken) (budgets_for pod pdbs)"

fun count_violations :: "json list \<Rightarrow> (string \<Rightarrow> int) \<Rightarrow> json list \<Rightarrow> nat" where
  "count_violations pdbs taken [] = 0"
| "count_violations pdbs taken (v # vs) =
     (case violates v pdbs taken of (bad, taken') \<Rightarrow> (if bad then 1 else 0) + count_violations pdbs taken' vs)"

fun reprieve :: "json \<Rightarrow> json \<Rightarrow> json list \<Rightarrow> string \<Rightarrow> cluster_state \<Rightarrow> json list \<Rightarrow> json list \<Rightarrow> json list" where
  "reprieve pod node nodes node_name trial victims [] = victims"
| "reprieve pod node nodes node_name trial victims (p # ps) =
     (let u = cs_usage trial node_name;
          trial' = \<lparr>cs_usage = (cs_usage trial)(node_name := usage_add u p), cs_placed = cs_placed trial @ [(node_name, p)]\<rparr>
      in if fits pod node trial' nodes then reprieve pod node nodes node_name trial' victims ps
         else reprieve pod node nodes node_name
                (trial\<lparr>cs_usage := (cs_usage trial)(node_name := usage_sub (usage_add u p) p)\<rparr>) (victims @ [p]) ps)"

definition lower_pods :: "json \<Rightarrow> string \<Rightarrow> cluster_state \<Rightarrow> json list" where
  "lower_pods pod node_name state =
     map snd (filter (\<lambda>(n, p). n = node_name \<and> pod_priority p < pod_priority pod \<and>
                               is_null (jat p [''metadata'', ''deletionTimestamp'']) \<and> p_uid p \<noteq> p_uid pod) (cs_placed state))"

definition reprieve_order :: "json list \<Rightarrow> json list \<Rightarrow> json list" where
  "reprieve_order pdbs lows =
     (let ranked = sort_key (\<lambda>p. - pod_priority p) lows
      in filter (\<lambda>p. fst (violates p pdbs (\<lambda>_. 0))) ranked @ filter (\<lambda>p. \<not> fst (violates p pdbs (\<lambda>_. 0))) ranked)"

definition on_node :: "json \<Rightarrow> json \<Rightarrow> cluster_state \<Rightarrow> json list \<Rightarrow> json list \<Rightarrow> candidate option" where
  "on_node pod node state nodes pdbs =
     (case as_str (jat node [''metadata'', ''name'']) of
        None \<Rightarrow> None
      | Some node_name \<Rightarrow>
          (let lows = lower_pods pod node_name state; trial = without state node_name lows
           in if lows = [] then None
              else if \<not> fits pod node trial nodes then None
              else
                (let victims = reprieve pod node nodes node_name trial [] (reprieve_order pdbs lows)
                 in Some \<lparr>cd_node = node_name, cd_victims = victims, cd_pdb_violations = count_violations pdbs (\<lambda>_. 0) victims\<rparr>)))"

definition candidate_rank :: "candidate \<Rightarrow> nat \<times> int \<times> int \<times> nat" where
  "candidate_rank c =
     (let prios = map pod_priority (cd_victims c)
      in (cd_pdb_violations c, if prios = [] then - (2 ^ 63) else Max (set prios), wrap_i64 (sum_list prios), length (cd_victims c)))"

definition select :: "json \<Rightarrow> json list \<Rightarrow> json list \<Rightarrow> cluster_state \<Rightarrow> json list \<Rightarrow> candidate option" where
  "select pod nodes all_nodes state pdbs =
     (if \<not> may_preempt pod then None
      else
        (case sort_key candidate_rank (List.map_filter (\<lambda>n. on_node pod n state all_nodes pdbs) nodes) of
           [] \<Rightarrow> None
         | c # _ \<Rightarrow> Some c))"

definition waiting_for_victims :: "json \<Rightarrow> cluster_state \<Rightarrow> bool" where
  "waiting_for_victims pod state =
     (case non_empty (as_str (jat pod [''status'', ''nominatedNodeName''])) of
        None \<Rightarrow> False
      | Some node \<Rightarrow>
          \<exists>(n, p) \<in> set (cs_placed state).
            n = node \<and> pod_priority p < pod_priority pod \<and> \<not> is_null (jat p [''metadata'', ''deletionTimestamp'']))"

section \<open>A node with some of its pods gone\<close>

definition cpu_sum :: "json list \<Rightarrow> nat" where
  "cpu_sum ps = sum_list (map (\<lambda>p. unat (fst (pod_requests p))) ps)"

definition mem_sum :: "json list \<Rightarrow> nat" where
  "mem_sum ps = sum_list (map (\<lambda>p. unat (snd (pod_requests p))) ps)"

definition pods_on :: "string \<Rightarrow> cluster_state \<Rightarrow> json list" where
  "pods_on node_name state = map snd (filter (\<lambda>(n, p). n = node_name) (cs_placed state))"

text \<open>The pods on the node have distinct uids, and the node's account covers their requests and their slots.\<close>

definition accounted :: "string \<Rightarrow> cluster_state \<Rightarrow> bool" where
  "accounted node_name state \<longleftrightarrow>
     distinct (map p_uid (pods_on node_name state)) \<and>
     cpu_sum (pods_on node_name state) \<le> unat (nu_cpu (cs_usage state node_name)) \<and>
     mem_sum (pods_on node_name state) \<le> unat (nu_mem (cs_usage state node_name)) \<and>
     length (pods_on node_name state) \<le> unat (nu_pods (cs_usage state node_name))"

definition used_minus :: "node_usage \<Rightarrow> json list \<Rightarrow> node_usage \<Rightarrow> bool" where
  "used_minus full gone u \<longleftrightarrow>
     unat (nu_cpu u) + cpu_sum gone = unat (nu_cpu full) \<and>
     unat (nu_mem u) + mem_sum gone = unat (nu_mem full) \<and>
     unat (nu_pods u) + length gone = unat (nu_pods full)"

definition removed :: "cluster_state \<Rightarrow> string \<Rightarrow> json list \<Rightarrow> cluster_state \<Rightarrow> bool" where
  "removed state node_name gone s \<longleftrightarrow>
     used_minus (cs_usage state node_name) gone (cs_usage s node_name) \<and>
     mset (cs_placed s) + mset (map (Pair node_name) gone) = mset (cs_placed state)"

lemma sums_simps [simp]:
  "cpu_sum [] = 0" "mem_sum [] = 0" "cpu_sum (p # ps) = unat (fst (pod_requests p)) + cpu_sum ps"
  "mem_sum (p # ps) = unat (snd (pod_requests p)) + mem_sum ps"
  "cpu_sum (ps @ qs) = cpu_sum ps + cpu_sum qs" "mem_sum (ps @ qs) = mem_sum ps + mem_sum qs"
  by (simp_all add: cpu_sum_def mem_sum_def)

lemma sums_mset: "cpu_sum ps = (\<Sum>p\<in>#mset ps. unat (fst (pod_requests p)))" "mem_sum ps = (\<Sum>p\<in>#mset ps. unat (snd (pod_requests p)))"
  by (simp_all add: cpu_sum_def mem_sum_def sum_mset_sum_list flip: mset_map)

lemma sums_mono:
  assumes "mset ps \<subseteq># mset qs"
  shows "cpu_sum ps \<le> cpu_sum qs" "mem_sum ps \<le> mem_sum qs" "length ps \<le> length qs"
proof -
  obtain M where M: "mset qs = mset ps + M" using assms by (metis subset_mset.add_diff_inverse)
  then show "cpu_sum ps \<le> cpu_sum qs" "mem_sum ps \<le> mem_sum qs" by (simp_all add: sums_mset)
  show "length ps \<le> length qs" using assms by (metis size_mset size_mset_mono)
qed

lemma used_minus_unique: "used_minus full gone u \<Longrightarrow> used_minus full gone v \<Longrightarrow> u = v"
  unfolding used_minus_def by (intro node_usage.equality) (auto intro!: word_unat_eq_iff[THEN iffD2])

lemma used_minus_mset: "mset gone = mset gone' \<Longrightarrow> used_minus full gone u \<longleftrightarrow> used_minus full gone' u"
  unfolding used_minus_def by (metis (no_types, lifting) size_mset sums_mset)

lemma unat_sat_sub: "unat (sat_sub a b) = unat a - unat b"
  by (auto simp: sat_sub_def unat_sub word_le_nat_alt word_less_nat_alt not_less)

lemma used_minus_sub: "used_minus full (gone @ [p]) v \<Longrightarrow> used_minus full gone u \<Longrightarrow> usage_sub u p = v"
  by (rule used_minus_unique[of full "gone @ [p]"]) (auto simp: used_minus_def usage_sub_def unat_sat_sub split: prod.splits)

lemma usage_sub_minus:
  assumes "used_minus full gone u" "cpu_sum (gone @ [p]) \<le> unat (nu_cpu full)" "mem_sum (gone @ [p]) \<le> unat (nu_mem full)"
    "length (gone @ [p]) \<le> unat (nu_pods full)"
  shows "used_minus full (gone @ [p]) (usage_sub u p)"
  using assms by (auto simp: used_minus_def usage_sub_def unat_sat_sub split: prod.splits)

lemma usage_add_minus:
  assumes "used_minus full (p # gone) u"
  shows "used_minus full gone (usage_add u p)" "usage_sub (usage_add u p) p = u"
proof -
  have unat: "unat a + unat b \<le> unat (c :: u64) \<Longrightarrow> unat (a + b) = unat a + unat b" for a b c :: u64
    by (rule unat_add_lem[THEN iffD1, OF le_less_trans[OF _ unsigned_less]])
  obtain cpu mem where r: "pod_requests p = (cpu, mem)" by force
  from assms r have le: "unat (nu_cpu u) + unat cpu \<le> unat (nu_cpu full)" "unat (nu_mem u) + unat mem \<le> unat (nu_mem full)"
    "unat (nu_pods u) + unat (1 :: u64) \<le> unat (nu_pods full)" by (auto simp: used_minus_def)
  note sums = unat[OF le(1)] unat[OF le(2)] unat[OF le(3)]
  with assms r show m: "used_minus full gone (usage_add u p)" by (simp add: used_minus_def usage_add_def)
  show "usage_sub (usage_add u p) p = u"
    by (rule used_minus_unique[OF _ assms]) (use m r sums assms in \<open>simp add: used_minus_def usage_add_def usage_sub_def unat_sat_sub\<close>)
qed

lemma mset_sub_cancel:
  assumes "A + B = C" "A' + B' = C" "B' \<subseteq># B"
  shows "A \<subseteq># A'"
proof -
  obtain D where "B = B' + D" using assms(3) by (metis subset_mset.add_diff_inverse)
  with assms(1,2) have "A + D + B' = A' + B'" by (simp add: ac_simps)
  then show ?thesis by (metis add_right_cancel mset_subset_eq_add_left)
qed

lemma removed_mset: "mset gone = mset gone' \<Longrightarrow> removed state n gone s \<longleftrightarrow> removed state n gone' s"
  using used_minus_mset[of gone gone'] by (simp add: removed_def)

lemma pods_on_mset: "mset (map (Pair n) (pods_on n state)) = filter_mset (\<lambda>(m, p). m = n) (mset (cs_placed state))"
proof -
  have "map (Pair n) (pods_on n state) = filter (\<lambda>(m, p). m = n) (cs_placed state)"
    unfolding pods_on_def by (induction "cs_placed state") (auto intro: map_idI)
  then show ?thesis by (simp only: mset_filter)
qed

lemma foldl_usage_sub:
  "used_minus full gone u \<Longrightarrow> cpu_sum (gone @ ps) \<le> unat (nu_cpu full) \<Longrightarrow> mem_sum (gone @ ps) \<le> unat (nu_mem full) \<Longrightarrow>
   length (gone @ ps) \<le> unat (nu_pods full) \<Longrightarrow> used_minus full (gone @ ps) (foldl usage_sub u ps)"
proof (induction ps arbitrary: gone u)
  case (Cons p ps)
  have "used_minus full (gone @ [p]) (usage_sub u p)" by (rule usage_sub_minus[OF Cons.prems(1)]) (use Cons.prems in auto)
  from Cons.IH[OF this] Cons.prems show ?case by simp
qed simp

lemma without_removed:
  assumes acc: "accounted n state" and sub: "mset gone \<subseteq># mset (pods_on n state)"
  shows "removed state n gone (without state n gone)"
proof -
  let ?on = "pods_on n state"
  from acc have du: "distinct (map p_uid ?on)" by (simp add: accounted_def)
  then have inj: "inj_on p_uid (set ?on)" and d: "distinct ?on" by (auto simp: distinct_map)
  have gs: "set gone \<subseteq> set ?on" using sub by (metis set_mset_mono set_mset_mset)
  have dg: "distinct gone" using d mset_subset_eq_count[OF sub] unfolding distinct_count_atmost_1
    by (metis count_greater_eq_one_iff count_mset_0_iff le_antisym in_multiset_in_set gs subsetD)
  have "filter (\<lambda>p. p_uid p \<in> set (map p_uid gone)) ?on = filter (\<lambda>p. p \<in> set gone) ?on"
    by (rule filter_cong[OF refl]) (use inj gs in \<open>auto dest: inj_onD\<close>)
  moreover have "mset (filter (\<lambda>p. p \<in> set gone) ?on) = mset gone"
    by (rule set_eq_iff_mset_eq_distinct[THEN iffD1]) (use d dg gs in auto)
  ultimately have g: "filter_mset (\<lambda>p. p_uid p \<in> set (map p_uid gone)) (mset ?on) = mset gone" by (metis mset_filter)
  let ?P = "\<lambda>e. fst e = n \<and> p_uid (snd e) \<in> set (map p_uid gone)"
  have "filter_mset ?P (mset (cs_placed state)) = filter_mset (\<lambda>e. p_uid (snd e) \<in> set (map p_uid gone)) (mset (map (Pair n) ?on))"
    unfolding pods_on_mset filter_filter_mset by (rule filter_mset_cong) auto
  also have "\<dots> = image_mset (Pair n) (filter_mset (\<lambda>p. p_uid p \<in> set (map p_uid gone)) (mset ?on))"
    by (simp add: filter_mset_image_mset)
  finally have "filter_mset ?P (mset (cs_placed state)) = mset (map (Pair n) gone)" unfolding g by simp
  moreover have "mset (cs_placed (without state n gone)) = filter_mset (\<lambda>e. \<not> ?P e) (mset (cs_placed state))"
    by (simp add: without_def case_prod_unfold)
  ultimately have "mset (cs_placed (without state n gone)) + mset (map (Pair n) gone) = mset (cs_placed state)"
    using multiset_partition[of "mset (cs_placed state)" ?P] by (simp only: add.commute)
  moreover have "used_minus (cs_usage state n) gone (cs_usage (without state n gone) n)"
    using foldl_usage_sub[of "cs_usage state n" "[]" "cs_usage state n" gone] sums_mono[OF sub] acc
    by (simp add: accounted_def used_minus_def without_def)
  ultimately show ?thesis by (simp add: removed_def)
qed

lemma fits_removed:
  assumes "removed state n gone s" "removed state n gone s'" "node_name_of node = n"
  shows "fits pod node s nodes = fits pod node s' nodes"
proof -
  have "cs_used s node = cs_used s' node" using assms used_minus_unique by (auto simp: removed_def cs_used_def)
  moreover have "mset (cs_placed s) = mset (cs_placed s')" using assms(1,2) by (simp add: removed_def) (metis add_right_cancel)
  ultimately show ?thesis unfolding fits_def by (metis run_filters_cong)
qed

section \<open>Removing more pods never hurts\<close>

definition only_repelled :: "json \<Rightarrow> bool" where
  "only_repelled pod \<longleftrightarrow>
     required_terms pod ''podAffinity'' = [] \<and>
     list_all (\<lambda>c. unsatisfiable_mode c \<noteq> ''DoNotSchedule'') (arr (jat pod [''spec'', ''topologySpreadConstraints'']))"

lemma anti_affinity_mono:
  "set (cs_placed s) \<subseteq> set (cs_placed s') \<Longrightarrow> required_anti_affinity ns node nodes s' terms = Inr () \<Longrightarrow>
   required_anti_affinity ns node nodes s terms = Inr ()"
proof (induction terms)
  case (Cons t ts)
  have "set (occupied_domains t ns nodes s) \<subseteq> set (occupied_domains t ns nodes s')"
    unfolding occupied_domains_def map_filter_set using Cons.prems(1) by blast
  with Cons show ?case by (auto simp: Let_def split: option.splits if_splits)
qed simp

lemma spread_free: "list_all (\<lambda>c. unsatisfiable_mode c \<noteq> ''DoNotSchedule'') cs \<Longrightarrow> spread_constraints ns node nodes s cs = Inr ()"
  by (induction cs) auto

lemma resource_fit_mono:
  assumes "resource_fit_filter pod node u' = Pass" "nu_cpu u \<le> nu_cpu u'" "nu_mem u \<le> nu_mem u'"
  shows "resource_fit_filter pod node u = Pass"
proof -
  have "unat a \<le> unat b \<Longrightarrow> r \<le> sat_sub c b \<Longrightarrow> r \<le> sat_sub c a" for a b c r :: u64 by (auto simp: le_sat_sub)
  with assms show ?thesis unfolding resource_fit_Pass word_le_nat_alt by (auto split: prod.splits)
qed

lemma fits_mono:
  assumes r: "removed state n gone s" "removed state n gone' s'" and sub: "mset gone' \<subseteq># mset gone"
    and n: "node_name_of node = n" and o: "only_repelled pod" and f: "fits pod node s' nodes"
  shows "fits pod node s nodes"
proof -
  let ?u = "cs_used s node" and ?u' = "cs_used s' node"
  have u: "nu_cpu ?u \<le> nu_cpu ?u'" "nu_mem ?u \<le> nu_mem ?u'" "nu_pods ?u \<le> nu_pods ?u'"
    using r sums_mono[OF sub] n by (auto simp: removed_def used_minus_def cs_used_def word_le_nat_alt)
  have "mset (map (Pair n) gone') \<subseteq># mset (map (Pair n) gone)" using image_mset_subseteq_mono[OF sub] by simp
  then have "mset (cs_placed s) \<subseteq># mset (cs_placed s')" using r unfolding removed_def
    by (metis mset_sub_cancel)
  then have p: "set (cs_placed s) \<subseteq> set (cs_placed s')" by (metis set_mset_mono set_mset_mset)
  from o have aff: "required_terms pod ''podAffinity'' = []"
    and sp: "spread_filter pod node nodes t = Inr ()" for t
    by (auto simp: only_repelled_def spread_filter_def spread_free simp del: jat_Cons)
  from f aff sp have "run_filters pod node ?u s nodes = Pass"
    by (auto simp: fits_def run_filters_def pod_affinity_filter_def intro: anti_affinity_mono[OF p] resource_fit_mono[OF _ u(1,2)])
  moreover have "pod_count_filter node ?u = Pass" using f u(3) unfolding fits_def pod_count_Pass by (meson order_le_less_trans)
  ultimately show ?thesis by (simp add: fits_def)
qed

section \<open>The reprieve\<close>

lemma put_back:
  assumes "removed state n (vs @ p # ps) trial"
  shows "removed state n (vs @ ps)
           \<lparr>cs_usage = (cs_usage trial)(n := usage_add (cs_usage trial n) p), cs_placed = cs_placed trial @ [(n, p)]\<rparr>"
    and "usage_sub (usage_add (cs_usage trial n) p) p = cs_usage trial n"
proof -
  have m: "mset (vs @ p # ps) = mset (p # vs @ ps)" by simp
  with assms have r: "removed state n (p # vs @ ps) trial" by (metis removed_mset)
  then have u: "used_minus (cs_usage state n) (p # vs @ ps) (cs_usage trial n)" by (simp add: removed_def)
  from usage_add_minus[OF u] r show "removed state n (vs @ ps)
           \<lparr>cs_usage = (cs_usage trial)(n := usage_add (cs_usage trial n) p), cs_placed = cs_placed trial @ [(n, p)]\<rparr>"
    by (simp add: removed_def)
  from usage_add_minus(2)[OF u] show "usage_sub (usage_add (cs_usage trial n) p) p = cs_usage trial n" .
qed

lemma reprieve_spec:
  assumes n: "node_name_of node = n"
  shows "removed state n (vs @ ps) trial \<Longrightarrow> fits pod node trial nodes \<Longrightarrow>
         (\<forall>v \<in> set vs. \<exists>gone s. removed state n gone s \<and> \<not> fits pod node s nodes \<and> mset (vs @ ps) \<subseteq># add_mset v (mset gone)) \<Longrightarrow>
         \<exists>s. removed state n (reprieve pod node nodes n trial vs ps) s \<and> fits pod node s nodes \<and>
             mset (reprieve pod node nodes n trial vs ps) \<subseteq># mset (vs @ ps) \<and>
             (\<forall>v \<in> set (reprieve pod node nodes n trial vs ps). \<exists>gone s. removed state n gone s \<and> \<not> fits pod node s nodes \<and>
                mset (reprieve pod node nodes n trial vs ps) \<subseteq># add_mset v (mset gone))"
proof (induction ps arbitrary: trial vs)
  case Nil
  then show ?case by auto
next
  case (Cons p ps)
  let ?t = "\<lparr>cs_usage = (cs_usage trial)(n := usage_add (cs_usage trial n) p), cs_placed = cs_placed trial @ [(n, p)]\<rparr>"
  note pb = put_back[OF Cons.prems(1)]
  show ?case
  proof (cases "fits pod node ?t nodes")
    case True
    have sub: "mset (vs @ ps) \<subseteq># mset (vs @ p # ps)" by simp
    have "\<forall>v \<in> set vs. \<exists>gone s. removed state n gone s \<and> \<not> fits pod node s nodes \<and> mset (vs @ ps) \<subseteq># add_mset v (mset gone)"
      using Cons.prems(3) subset_mset.order_trans[OF sub] by meson
    from Cons.IH[OF pb(1) True this] have ih: "\<exists>s. removed state n (reprieve pod node nodes n ?t vs ps) s \<and> fits pod node s nodes \<and>
             mset (reprieve pod node nodes n ?t vs ps) \<subseteq># mset (vs @ ps) \<and>
             (\<forall>v \<in> set (reprieve pod node nodes n ?t vs ps). \<exists>gone s. removed state n gone s \<and> \<not> fits pod node s nodes \<and>
                mset (reprieve pod node nodes n ?t vs ps) \<subseteq># add_mset v (mset gone))" .
    have "reprieve pod node nodes n trial vs (p # ps) = reprieve pod node nodes n ?t vs ps" using True by (simp add: Let_def)
    with ih subset_mset.order_trans[OF _ sub] show ?thesis by (metis (no_types, lifting))
  next
    case False
    have same: "trial\<lparr>cs_usage := (cs_usage trial)(n := usage_sub (usage_add (cs_usage trial n) p) p)\<rparr> = trial"
      by (simp add: pb(2))
    have "removed state n ((vs @ [p]) @ ps) trial" using Cons.prems(1) by simp
    moreover have "\<forall>v \<in> set (vs @ [p]). \<exists>gone s. removed state n gone s \<and> \<not> fits pod node s nodes \<and> mset ((vs @ [p]) @ ps) \<subseteq># add_mset v (mset gone)"
    proof
      fix v assume "v \<in> set (vs @ [p])"
      then consider "v = p" | "v \<in> set vs" by auto
      then show "\<exists>gone s. removed state n gone s \<and> \<not> fits pod node s nodes \<and> mset ((vs @ [p]) @ ps) \<subseteq># add_mset v (mset gone)"
      proof cases
        case 1
        have "mset ((vs @ [p]) @ ps) \<subseteq># add_mset v (mset (vs @ ps))" using 1 by simp
        with pb(1) False show ?thesis by blast
      next
        case 2
        with Cons.prems(3) show ?thesis by simp
      qed
    qed
    ultimately have ih: "\<exists>s. removed state n (reprieve pod node nodes n trial (vs @ [p]) ps) s \<and> fits pod node s nodes \<and>
             mset (reprieve pod node nodes n trial (vs @ [p]) ps) \<subseteq># mset ((vs @ [p]) @ ps) \<and>
             (\<forall>v \<in> set (reprieve pod node nodes n trial (vs @ [p]) ps). \<exists>gone s. removed state n gone s \<and> \<not> fits pod node s nodes \<and>
                mset (reprieve pod node nodes n trial (vs @ [p]) ps) \<subseteq># add_mset v (mset gone))"
      by (rule Cons.IH[OF _ Cons.prems(2)])
    have "reprieve pod node nodes n trial vs (p # ps) = reprieve pod node nodes n trial (vs @ [p]) ps"
      using False same by (simp add: Let_def)
    with ih show ?thesis by simp
  qed
qed

lemma mset_reprieve_order: "mset (reprieve_order pdbs ps) = mset ps"
  using multiset_partition[of "mset ps" "\<lambda>p. fst (violates p pdbs (\<lambda>_. 0))"]
  by (simp add: reprieve_order_def Let_def)

lemma lower_pods_sub: "mset (lower_pods pod n state) \<subseteq># mset (pods_on n state)"
proof -
  have "lower_pods pod n state = filter (\<lambda>p. pod_priority p < pod_priority pod \<and> is_null (jat p [''metadata'', ''deletionTimestamp'']) \<and> p_uid p \<noteq> p_uid pod) (pods_on n state)"
    unfolding lower_pods_def pods_on_def filter_map filter_filter comp_def case_prod_unfold
    by (intro arg_cong[of _ _ "map snd"] filter_cong) auto
  then show ?thesis by (simp add: multiset_filter_subset)
qed

lemma on_node_spec:
  assumes c: "on_node pod node state nodes pdbs = Some c" and acc: "accounted (cd_node c) state"
  shows "cd_node c = node_name_of node"
    and "mset (cd_victims c) \<subseteq># mset (lower_pods pod (cd_node c) state)"
    and "fits pod node (without state (cd_node c) (cd_victims c)) nodes"
    and "only_repelled pod \<Longrightarrow> v \<in> set (cd_victims c) \<Longrightarrow> \<not> fits pod node (without state (cd_node c) (remove1 v (cd_victims c))) nodes"
proof -
  let ?n = "cd_node c" let ?low = "lower_pods pod ?n state" let ?t = "without state ?n ?low"
  let ?vs = "cd_victims c" let ?o = "reprieve_order pdbs ?low"
  from c have name: "as_str (jat node [''metadata'', ''name'']) = Some ?n" and t: "fits pod node ?t nodes"
    and vs: "?vs = reprieve pod node nodes ?n ?t [] ?o"
    by (auto simp: on_node_def Let_def simp del: jat_Cons split: option.splits if_splits)
  from name show n: "?n = node_name_of node" by (simp add: node_name_of_def str_or_def del: jat_Cons)
  have "removed state ?n ([] @ ?o) ?t"
    using without_removed[OF acc lower_pods_sub] removed_mset[of ?o ?low] mset_reprieve_order by simp
  from reprieve_spec[OF n[symmetric] this t] obtain s where s: "removed state ?n ?vs s" "fits pod node s nodes"
    and sub: "mset ?vs \<subseteq># mset ?low"
    and needed: "\<And>v. v \<in> set ?vs \<Longrightarrow> \<exists>gone s. removed state ?n gone s \<and> \<not> fits pod node s nodes \<and> mset ?vs \<subseteq># add_mset v (mset gone)"
    by (auto simp: vs[symmetric] mset_reprieve_order)
  show "mset ?vs \<subseteq># mset ?low" by (rule sub)
  have on: "mset ?vs \<subseteq># mset (pods_on ?n state)" using sub lower_pods_sub by (rule subset_mset.order_trans)
  show "fits pod node (without state ?n ?vs) nodes"
    using fits_removed[OF without_removed[OF acc on] s(1) n[symmetric]] s(2) by simp
  assume o: "only_repelled pod" and v: "v \<in> set ?vs"
  from needed[OF v] obtain gone s' where g: "removed state ?n gone s'" "\<not> fits pod node s' nodes" "mset ?vs \<subseteq># add_mset v (mset gone)" by blast
  have "mset (remove1 v ?vs) \<subseteq># mset gone" using g(3) v by (simp add: subset_eq_diff_conv)
  moreover have "mset (remove1 v ?vs) \<subseteq># mset (pods_on ?n state)" using on by (metis diff_subset_eq_self mset_remove1 subset_mset.order_trans)
  ultimately show "\<not> fits pod node (without state ?n (remove1 v ?vs)) nodes"
    using fits_mono[OF g(1) without_removed[OF acc] _ n[symmetric] o] g(2) by blast
qed

text \<open>
  C12. The preemption a pod is given is sound, minimal and best. Every victim runs on the chosen node, has a
  lower priority than the pod, is not terminating already and is not the pod itself; once the victims
  are gone the pod passes every filter there, its slot included; if the pod is not attracted to other
  pods (no required pod affinity, no hard spread constraint), no single victim could have been spared;
  and no other node offers a preemption of a lower rank (budget violations, then highest victim
  priority, then their sum, then their number). The node's account must cover its pods and their uids
  must differ.
\<close>

theorem preemption_makes_room:
  assumes c: "select pod cands nodes state pdbs = Some c" and acc: "accounted (cd_node c) state"
  shows "\<exists>node \<in> set cands.
      cd_node c = node_name_of node \<and> on_node pod node state nodes pdbs = Some c \<and>
      (\<forall>v \<in> set (cd_victims c). (cd_node c, v) \<in> set (cs_placed state) \<and> pod_priority v < pod_priority pod \<and>
         is_null (jat v [''metadata'', ''deletionTimestamp'']) \<and> p_uid v \<noteq> p_uid pod) \<and>
      fits pod node (without state (cd_node c) (cd_victims c)) nodes \<and>
      (only_repelled pod \<longrightarrow> (\<forall>v \<in> set (cd_victims c). \<not> fits pod node (without state (cd_node c) (remove1 v (cd_victims c))) nodes)) \<and>
      (\<forall>other \<in> set cands. \<forall>c'. on_node pod other state nodes pdbs = Some c' \<longrightarrow> candidate_rank c \<le> candidate_rank c')"
proof -
  let ?cs = "List.map_filter (\<lambda>n. on_node pod n state nodes pdbs) cands"
  from c obtain rest where s: "sort_key candidate_rank ?cs = c # rest" by (auto simp: select_def split: if_splits list.splits)
  have set: "insert c (set rest) = set ?cs" using s by (metis list.simps(15) set_sort)
  then have "c \<in> set ?cs" by blast
  then obtain node where node: "node \<in> set cands" "on_node pod node state nodes pdbs = Some c" by (auto simp: map_filter_set)
  have best: "candidate_rank c \<le> candidate_rank c'" if "other \<in> set cands" "on_node pod other state nodes pdbs = Some c'" for other c'
  proof -
    have "c' \<in> insert c (set rest)" using that by (auto simp: set map_filter_set)
    moreover have "sorted (map candidate_rank (c # rest))" using s by (metis sorted_sort_key)
    ultimately show ?thesis by auto
  qed
  note spec = on_node_spec[OF node(2) acc]
  have "(cd_node c, v) \<in> set (cs_placed state) \<and> pod_priority v < pod_priority pod \<and>
         is_null (jat v [''metadata'', ''deletionTimestamp'']) \<and> p_uid v \<noteq> p_uid pod" if "v \<in> set (cd_victims c)" for v
  proof -
    have "v \<in> set (lower_pods pod (cd_node c) state)" using spec(2) that by (metis mset_subset_eqD set_mset_mset)
    then show ?thesis by (auto simp: lower_pods_def simp del: jat_Cons)
  qed
  with node spec best show ?thesis by blast
qed

definition demo_pod :: "string \<Rightarrow> int \<Rightarrow> json" where
  "demo_pod uid prio = JObj [(''metadata'', JObj [(''name'', JStr uid), (''uid'', JStr uid)]), (''spec'', JObj [(''priority'', JNum (NInt prio))])]"

definition demo_node :: json where
  "demo_node = JObj [(''metadata'', JObj [(''name'', JStr ''n'')]),
     (''status'', JObj [(''allocatable'', JObj [(''pods'', JStr ''1'')]),
                      (''conditions'', JArr [JObj [(''status'', JStr ''True''), (''type'', JStr ''Ready'')]])])]"

definition demo_state :: cluster_state where
  "demo_state = \<lparr>cs_usage = (\<lambda>n. if n = ''n'' then \<lparr>nu_cpu = 0, nu_mem = 0, nu_pods = 1\<rparr> else no_usage),
                 cs_placed = [(''n'', demo_pod ''low'' 0)]\<rparr>"

lemma demo_pod_simps:
  "pod_requests (demo_pod u p) = (0, 0)" "p_uid (demo_pod u p) = u" "required_terms (demo_pod u p) path = []"
  "pod_name_of (demo_pod u p) = u"
  by (simp_all add: demo_pod_def pod_requests_def requests_without_overhead_def containers_total_def Let_def ct_max_def held_by_status_def
      cpu_of_def mem_of_def p_uid_def str_or_def required_terms_def pod_name_of_def)

lemma demo_filters: "run_filters (demo_pod u p) demo_node used s nodes = Pass"
  by (simp add: run_filters_def resource_fit_filter_def demo_pod_simps pod_affinity_filter_def spread_filter_def)
    (simp add: demo_pod_def demo_node_def node_ready_filter_def unschedulable_filter_def taint_toleration_filter_def
      node_selector_filter_def node_affinity_filter_def node_name_filter_def str_or_def)

lemma demo_count: "pod_count_filter demo_node used = Pass \<longleftrightarrow> nu_pods used = 0"
proof -
  have "digits_val ''1'' = 1" by code_simp
  then show ?thesis
    by (simp add: pod_count_Pass pods_limit_def demo_node_def parse_uint_def trim_def is_space_def is_digit_def Let_def word_less_1)
qed

lemma demo_name: "node_name_of demo_node = ''n''"
  by (simp add: demo_node_def node_name_of_def str_or_def)

lemma demo_select: "select (demo_pod ''high'' 5) [demo_node] [demo_node] demo_state [] =
   Some \<lparr>cd_node = ''n'', cd_victims = [demo_pod ''low'' 0], cd_pdb_violations = 0\<rparr>"
proof -
  have p: "pod_priority (demo_pod ''low'' 0) = 0" "pod_priority (demo_pod ''high'' 5) = 5"
    "is_null (jat (demo_pod ''low'' 0) [''metadata'', ''deletionTimestamp''])" "may_preempt (demo_pod ''high'' 5)"
    "as_str (jat demo_node [''metadata'', ''name'']) = Some ''n''" "node_name_of demo_node = ''n''"
    by (simp_all add: demo_pod_def demo_node_def pod_priority_def may_preempt_def node_name_of_def str_or_def)
  have low: "lower_pods (demo_pod ''high'' 5) ''n'' demo_state = [demo_pod ''low'' 0]"
    by (simp add: lower_pods_def demo_state_def p demo_pod_simps del: jat_Cons)
  have v: "violates x [] t = (False, t)" for x t by (simp add: violates_def budgets_for_def)
  have t: "without demo_state ''n'' [demo_pod ''low'' 0] = \<lparr>cs_usage = (\<lambda>_. no_usage), cs_placed = []\<rparr>"
    by (auto simp: without_def demo_state_def usage_sub_def demo_pod_simps sat_sub_def no_usage_def)
  have f: "fits (demo_pod ''high'' 5) demo_node s nodes \<longleftrightarrow> nu_pods (cs_usage s ''n'') = 0" for s nodes
    by (simp add: fits_def demo_filters demo_count cs_used_def p)
  have "on_node (demo_pod ''high'' 5) demo_node demo_state [demo_node] [] = Some \<lparr>cd_node = ''n'', cd_victims = [demo_pod ''low'' 0], cd_pdb_violations = 0\<rparr>"
    by (simp add: on_node_def p low t f reprieve_order_def v Let_def usage_add_def demo_pod_simps no_usage_def del: jat_Cons)
  then show ?thesis by (simp add: select_def p map_filter_def)
qed

theorem preemption_makes_room_witness:
  "let pod = demo_pod ''high'' 5; c = \<lparr>cd_node = ''n'', cd_victims = [demo_pod ''low'' 0], cd_pdb_violations = 0\<rparr>
   in select pod [demo_node] [demo_node] demo_state [] = Some c \<and> accounted (cd_node c) demo_state \<and> only_repelled pod \<and>
      fits pod demo_node (without demo_state ''n'' [demo_pod ''low'' 0]) [demo_node] \<and> \<not> fits pod demo_node (without demo_state ''n'' []) [demo_node]"
proof -
  let ?c = "\<lparr>cd_node = ''n'', cd_victims = [demo_pod ''low'' 0], cd_pdb_violations = 0\<rparr>"
  have acc: "accounted (cd_node ?c) demo_state"
    by (simp add: accounted_def pods_on_def demo_state_def demo_pod_simps)
  have o: "only_repelled (demo_pod ''high'' 5)" by (simp add: only_repelled_def demo_pod_simps) (simp add: demo_pod_def)
  have "fits (demo_pod ''high'' 5) demo_node (without demo_state ''n'' [demo_pod ''low'' 0]) [demo_node] \<and>
        \<not> fits (demo_pod ''high'' 5) demo_node (without demo_state ''n'' []) [demo_node]"
    using preemption_makes_room[OF demo_select acc] o
    by (simp add: demo_name)
  with acc o demo_select show ?thesis by (simp add: Let_def)
qed

end
