(* ===== verification/Scheduler.thy ===== *)
theory Scheduler
  imports Preemption
begin

text \<open>
  The scheduler's bookkeeping and its decisions: \<^verbatim>\<open>pkg/scheduler/src/scheduler.rs\<close>. \<open>sched_state\<close> is
  \<^verbatim>\<open>SchedulingState\<close> (without the instants kept for metrics), its operations \<open>observe\<close>, \<open>reserve\<close>,
  \<open>reserve_target\<close> and \<open>snapshot\<close>; \<open>schedule_pod\<close>, \<open>preempt\<close>, \<open>schedule_virtual_machine\<close> and
  \<open>schedule_migration_target\<close> are the decisions over a snapshot. A map that is iterated is an
  association list with distinct keys. An assignment through an index that would panic gives \<open>None\<close>.
\<close>

section \<open>Keys and workloads\<close>

record obj_key =
  k_namespace :: string
  k_name :: string
  k_uid :: string

type_synonym schedule_key = "bool \<times> obj_key"

definition key_of :: "json \<Rightarrow> obj_key option" where
  "key_of object =
     (case (non_empty (as_str (jat object [''metadata'', ''name''])), non_empty (as_str (jat object [''metadata'', ''uid'']))) of
        (Some name, Some uid) \<Rightarrow>
          Some \<lparr>k_namespace = str_or [] (jat object [''metadata'', ''namespace'']), k_name = name, k_uid = uid\<rparr>
      | _ \<Rightarrow> None)"

definition gated :: "json \<Rightarrow> bool" where
  "gated pod \<longleftrightarrow> arr (jat pod [''spec'', ''schedulingGates'']) \<noteq> []"

definition pod_is_terminal :: "json \<Rightarrow> bool" where
  "pod_is_terminal object \<longleftrightarrow> as_str (jat object [''status'', ''phase'']) \<in> {Some ''Succeeded'', Some ''Failed''}"

definition pod_node_of :: "json \<Rightarrow> string option" where
  "pod_node_of object = non_empty (as_str (jat object [''spec'', ''nodeName'']))"

definition pending_workload :: "bool \<Rightarrow> json \<Rightarrow> bool" where
  "pending_workload vm object =
     (if \<not> is_null (jat object [''metadata'', ''deletionTimestamp'']) then False
      else if vm then \<not> vm_is_terminal object \<and> (vm_node_of object = None \<or> wants_migration_target object)
      else \<not> pod_is_terminal object \<and> pod_node_of object = None)"

definition placed_workload :: "bool \<Rightarrow> json \<Rightarrow> (string \<times> json) option" where
  "placed_workload vm object =
     (if vm then (if vm_is_terminal object then None else map_option (\<lambda>n. (n, scheduling_shim object)) (vm_node_of object))
      else (if pod_is_terminal object then None else map_option (\<lambda>n. (n, object)) (pod_node_of object)))"

definition migration_target :: "bool \<Rightarrow> json \<Rightarrow> (string \<times> json) option" where
  "migration_target vm object =
     (if \<not> vm \<or> vm_is_terminal object then None
      else
        (let state = jat object [''status'', ''migrationState'']
         in case non_empty (as_str (jidx state ''targetNode'')) of
              None \<Rightarrow> None
            | Some target \<Rightarrow>
                if non_empty (as_str (jidx state ''migrationUid'')) = None \<or> as_bool (jidx state ''failed'') = Some True \<or>
                   (as_bool (jidx state ''completed'') = Some True \<and> vm_node_of object = Some target)
                then None else Some (target, scheduling_shim object)))"

section \<open>The bookkeeping\<close>

record assumption =
  am_node :: string
  am_object :: json
  am_waiting :: bool

record sched_state =
  ss_pending :: "(schedule_key \<times> json) list"
  ss_placed :: "(schedule_key \<times> (string \<times> json)) list"
  ss_usage :: "string \<Rightarrow> node_usage"
  ss_assumptions :: "(schedule_key \<times> assumption) list"
  ss_targets :: "(schedule_key \<times> (string \<times> json)) list"
  ss_target_assumptions :: "(schedule_key \<times> (string \<times> json)) list"

definition ss_default :: sched_state where
  "ss_default = \<lparr>ss_pending = [], ss_placed = [], ss_usage = (\<lambda>_. no_usage), ss_assumptions = [], ss_targets = [], ss_target_assumptions = []\<rparr>"

definition slot :: "bool \<Rightarrow> u64" where
  "slot vm = (if vm then 0 else 1)"

definition charge :: "(string \<Rightarrow> node_usage) \<Rightarrow> bool \<Rightarrow> string \<Rightarrow> json \<Rightarrow> (string \<Rightarrow> node_usage)" where
  "charge usage vm node pod =
     (case pod_requests pod of (cpu, mem) \<Rightarrow>
        usage(node := \<lparr>nu_cpu = nu_cpu (usage node) + cpu, nu_mem = nu_mem (usage node) + mem, nu_pods = nu_pods (usage node) + slot vm\<rparr>))"

definition uncharge :: "(string \<Rightarrow> node_usage) \<Rightarrow> bool \<Rightarrow> string \<Rightarrow> json \<Rightarrow> (string \<Rightarrow> node_usage)" where
  "uncharge usage vm node pod =
     (case pod_requests pod of (cpu, mem) \<Rightarrow>
        usage(node := \<lparr>nu_cpu = nu_cpu (usage node) - cpu, nu_mem = nu_mem (usage node) - mem, nu_pods = nu_pods (usage node) - slot vm\<rparr>))"

definition drop_placed :: "schedule_key \<Rightarrow> sched_state \<Rightarrow> sched_state" where
  "drop_placed key s =
     (case map_of (ss_placed s) key of
        Some (node, pod) \<Rightarrow> s\<lparr>ss_placed := AList.delete key (ss_placed s), ss_usage := uncharge (ss_usage s) (fst key) node pod\<rparr>
      | None \<Rightarrow> s)"

definition drop_target :: "schedule_key \<Rightarrow> sched_state \<Rightarrow> sched_state" where
  "drop_target key s =
     (case map_of (ss_targets s) key of
        Some (node, pod) \<Rightarrow> s\<lparr>ss_targets := AList.delete key (ss_targets s), ss_usage := uncharge (ss_usage s) (fst key) node pod\<rparr>
      | None \<Rightarrow> s)"

definition ss_remove :: "schedule_key \<Rightarrow> sched_state \<Rightarrow> sched_state" where
  "ss_remove key s =
     drop_target key (drop_placed key
       (s\<lparr>ss_pending := AList.delete key (ss_pending s), ss_assumptions := AList.delete key (ss_assumptions s),
          ss_target_assumptions := AList.delete key (ss_target_assumptions s)\<rparr>))"

definition resource_version :: "json \<Rightarrow> json" where
  "resource_version object = jat object [''metadata'', ''resourceVersion'']"

text \<open>A later version of a pending object fences any delayed bind issued with the assumed one.\<close>

definition observe_pending :: "schedule_key \<Rightarrow> json \<Rightarrow> sched_state \<Rightarrow> sched_state" where
  "observe_pending key object s =
     (if pending_workload (fst key) object then
        (let s = s\<lparr>ss_pending := AList.update key object (ss_pending s)\<rparr>
         in case map_of (ss_assumptions s) key of
              Some a \<Rightarrow>
                if \<not> am_waiting a \<and> resource_version (am_object a) \<noteq> resource_version object
                then s\<lparr>ss_assumptions := AList.delete key (ss_assumptions s)\<rparr> else s
            | None \<Rightarrow> s)
      else s\<lparr>ss_assumptions := AList.delete key (ss_assumptions s)\<rparr>)"

definition observe_target :: "schedule_key \<Rightarrow> json \<Rightarrow> sched_state \<Rightarrow> sched_state" where
  "observe_target key object s =
     (let target = migration_target (fst key) object;
          s = (if target \<noteq> None \<or> \<not> wants_migration_target object
               then s\<lparr>ss_target_assumptions := AList.delete key (ss_target_assumptions s)\<rparr> else s)
      in case target of
           Some (node, shim) \<Rightarrow>
             s\<lparr>ss_usage := charge (ss_usage s) (fst key) node shim, ss_targets := AList.update key (node, shim) (ss_targets s)\<rparr>
         | None \<Rightarrow> s)"

definition observe_placed :: "schedule_key \<Rightarrow> json \<Rightarrow> sched_state \<Rightarrow> sched_state" where
  "observe_placed key object s =
     (case placed_workload (fst key) object of
        Some (node, pod) \<Rightarrow>
          s\<lparr>ss_usage := charge (ss_usage s) (fst key) node pod, ss_placed := AList.update key (node, pod) (ss_placed s)\<rparr>
      | None \<Rightarrow> s)"

definition observe_new :: "schedule_key \<Rightarrow> json \<Rightarrow> sched_state \<Rightarrow> sched_state" where
  "observe_new key object s =
     (let s = drop_placed key s;
          s = s\<lparr>ss_pending := AList.delete key (ss_pending s)\<rparr>
      in observe_placed key object (observe_target key object (drop_target key (observe_pending key object s))))"

definition observe :: "bool \<Rightarrow> json option \<Rightarrow> json option \<Rightarrow> sched_state \<Rightarrow> sched_state" where
  "observe vm old_obj new_obj s =
     (let s = (case Option.bind old_obj key_of of
                 Some key \<Rightarrow> if Option.bind new_obj key_of \<noteq> Some key then ss_remove (vm, key) s else s
               | None \<Rightarrow> s)
      in case new_obj of
           None \<Rightarrow> s
         | Some object \<Rightarrow> (case key_of object of None \<Rightarrow> s | Some key \<Rightarrow> observe_new (vm, key) object s))"

definition set_node_name :: "json \<Rightarrow> string \<Rightarrow> json option" where
  "set_node_name pod node = jset pod [''spec'', ''nodeName''] (JStr node)"

definition reserve :: "schedule_key \<Rightarrow> json \<Rightarrow> string \<Rightarrow> bool \<Rightarrow> sched_state \<Rightarrow> sched_state" where
  "reserve key object node waiting s =
     s\<lparr>ss_assumptions := AList.update key \<lparr>am_node = node, am_object = object, am_waiting = waiting\<rparr> (ss_assumptions s)\<rparr>"

definition reserve_target :: "schedule_key \<Rightarrow> json \<Rightarrow> string \<Rightarrow> sched_state \<Rightarrow> sched_state option" where
  "reserve_target key object node s =
     map_option (\<lambda>shim. s\<lparr>ss_target_assumptions := AList.update key (node, shim) (ss_target_assumptions s)\<rparr>)
       (set_node_name (scheduling_shim object) node)"

definition cs_charge :: "bool \<Rightarrow> string \<Rightarrow> json \<Rightarrow> cluster_state \<Rightarrow> cluster_state" where
  "cs_charge vm node pod c = \<lparr>cs_usage = charge (cs_usage c) vm node pod, cs_placed = cs_placed c @ [(node, pod)]\<rparr>"

fun charge_targets :: "schedule_key \<Rightarrow> sched_state \<Rightarrow> (schedule_key \<times> (string \<times> json)) list \<Rightarrow> cluster_state \<Rightarrow> cluster_state" where
  "charge_targets current s [] c = c"
| "charge_targets current s ((key, (node, shim)) # ts) c =
     charge_targets current s ts
       (if key = current \<or> map_of (ss_targets s) key \<noteq> None then c else cs_charge (fst key) node shim c)"

fun charge_assumptions :: "schedule_key \<Rightarrow> sched_state \<Rightarrow> (schedule_key \<times> assumption) list \<Rightarrow> cluster_state \<Rightarrow> cluster_state option" where
  "charge_assumptions current s [] c = Some c"
| "charge_assumptions current s ((key, a) # as) c =
     (if key = current \<or> map_of (ss_placed s) key \<noteq> None then charge_assumptions current s as c
      else
        (case set_node_name (if fst key then scheduling_shim (am_object a) else am_object a) (am_node a) of
           None \<Rightarrow> None
         | Some pod \<Rightarrow> charge_assumptions current s as (cs_charge (fst key) (am_node a) pod c)))"

definition holds_nomination :: "schedule_key \<Rightarrow> sched_state \<Rightarrow> schedule_key \<Rightarrow> json \<Rightarrow> string option" where
  "holds_nomination current s key pending =
     (if key = current \<or> fst key \<or> map_of (ss_assumptions s) key \<noteq> None then None
      else
        (case non_empty (as_str (jat pending [''status'', ''nominatedNodeName''])) of
           None \<Rightarrow> None
         | Some node \<Rightarrow>
             (case map_of (ss_pending s) current of
                Some mine \<Rightarrow> if pod_priority pending < pod_priority mine then None else Some node
              | None \<Rightarrow> Some node)))"

fun charge_nominated :: "schedule_key \<Rightarrow> sched_state \<Rightarrow> (schedule_key \<times> json) list \<Rightarrow> cluster_state \<Rightarrow> cluster_state option" where
  "charge_nominated current s [] c = Some c"
| "charge_nominated current s ((key, pending) # ps) c =
     (case holds_nomination current s key pending of
        None \<Rightarrow> charge_nominated current s ps c
      | Some node \<Rightarrow>
          (case set_node_name pending node of
             None \<Rightarrow> None
           | Some held \<Rightarrow> charge_nominated current s ps (cs_charge False node held c)))"

definition snapshot :: "schedule_key \<Rightarrow> sched_state \<Rightarrow> (cluster_state \<times> string option) option" where
  "snapshot current s =
     (let c0 = \<lparr>cs_usage = ss_usage s, cs_placed = map snd (ss_placed s) @ map snd (ss_targets s)\<rparr>;
          c1 = charge_targets current s (ss_target_assumptions s) c0
      in case charge_assumptions current s (ss_assumptions s) c1 of
           None \<Rightarrow> None
         | Some c2 \<Rightarrow>
             (case charge_nominated current s (ss_pending s) c2 of
                None \<Rightarrow> None
              | Some c3 \<Rightarrow> Some (c3, map_option am_node (map_of (ss_assumptions s) current))))"

section \<open>Placing a pod\<close>

text \<open>
  The outside world of one pass: the clock, the host name, the suffix of an event's name, and what the
  API answers to a list of disruption budgets, to the first and the second list of a namespace's
  migrations, and to a write (\<open>Inl\<close> an error).
\<close>

record sched_io =
  io_now_secs :: string
  io_now_micros :: string
  io_host :: string
  io_suffix :: string
  io_budgets :: "string + json"
  io_migrations :: "nat \<Rightarrow> string \<Rightarrow> string + json"
  io_patch_merge :: "string \<Rightarrow> json \<Rightarrow> string + unit"
  io_create :: "string \<Rightarrow> json \<Rightarrow> string + unit"

datatype api_write = Patch string json | PatchMerge string json | Create string json

definition COMPONENT :: string where "COMPONENT = ''default-scheduler''"

definition event :: "sched_io \<Rightarrow> json \<Rightarrow> string \<Rightarrow> string \<Rightarrow> string \<Rightarrow> string \<Rightarrow> json" where
  "event io pod etype reason action message =
     (let namespace = pod_namespace pod; name = pod_name_of pod
      in JObj [(''action'', JStr action),
               (''apiVersion'', JStr ''v1''),
               (''count'', JNum (NInt 1)),
               (''eventTime'', JStr (io_now_micros io)),
               (''firstTimestamp'', JStr (io_now_secs io)),
               (''involvedObject'', JObj [(''apiVersion'', JStr ''v1''), (''kind'', JStr ''Pod''), (''name'', JStr name),
                                        (''namespace'', JStr namespace), (''uid'', jat pod [''metadata'', ''uid''])]),
               (''kind'', JStr ''Event''),
               (''lastTimestamp'', JStr (io_now_secs io)),
               (''message'', JStr message),
               (''metadata'', JObj [(''name'', JStr (name @ ''.'' @ take 16 (io_suffix io))), (''namespace'', JStr namespace)]),
               (''reason'', JStr reason),
               (''reportingComponent'', JStr COMPONENT),
               (''reportingInstance'', JStr (io_host io)),
               (''source'', JObj [(''component'', JStr COMPONENT), (''host'', JStr (io_host io))]),
               (''type'', JStr etype)])"

definition scheduled_event :: "sched_io \<Rightarrow> json \<Rightarrow> string \<Rightarrow> json" where
  "scheduled_event io pod node =
     event io pod ''Normal'' ''Scheduled'' ''Binding''
       (''Successfully assigned '' @ pod_namespace pod @ ''/'' @ pod_name_of pod @ '' to '' @ node)"

definition failed_scheduling :: "sched_io \<Rightarrow> json \<Rightarrow> string \<Rightarrow> json" where
  "failed_scheduling io pod why = event io pod ''Warning'' ''FailedScheduling'' ''Scheduling'' why"

text \<open>Reasons counted, most common first, then by text.\<close>

definition count_reason :: "(string \<times> nat) list \<Rightarrow> string \<Rightarrow> (string \<times> nat) list" where
  "count_reason counts reason =
     (case map_of counts reason of Some n \<Rightarrow> AList.update reason (n + 1) counts | None \<Rightarrow> counts @ [(reason, 1)])"

fun join_with :: "string \<Rightarrow> string list \<Rightarrow> string" where
  "join_with sep [] = []"
| "join_with sep [x] = x"
| "join_with sep (x # y # xs) = x @ sep @ join_with sep (y # xs)"

definition unschedulable_message :: "nat \<Rightarrow> string list \<Rightarrow> string" where
  "unschedulable_message nodes refused =
     (if nodes = 0 then ''0/0 nodes are available: no nodes are registered.''
      else
        (let counts = sort_key (\<lambda>(r, n). (- int n, r)) (foldl count_reason [] refused);
             parts = map (\<lambda>(r, n). show_nat n @ '' '' @ r) counts
         in ''0/'' @ show_nat nodes @ '' nodes are available: '' @ join_with '', '' parts @ ''.''))"

definition eviction_path :: "json \<Rightarrow> string" where
  "eviction_path v = ''/api/v1/namespaces/'' @ pod_namespace v @ ''/pods/'' @ pod_name_of v @ ''/eviction''"

definition eviction_body :: "json \<Rightarrow> json" where
  "eviction_body v =
     JObj [(''apiVersion'', JStr ''policy/v1''),
           (''deleteOptions'', JObj [(''preconditions'', JObj [(''uid'', jat v [''metadata'', ''uid''])])]),
           (''kind'', JStr ''Eviction''),
           (''metadata'', JObj [(''name'', JStr (pod_name_of v)), (''namespace'', JStr (pod_namespace v))])]"

fun evict_all :: "sched_io \<Rightarrow> json \<Rightarrow> string \<Rightarrow> string \<Rightarrow> nat \<Rightarrow> json list \<Rightarrow> string \<times> api_write list" where
  "evict_all io pod why node evicted [] = (why @ '' Preemption: '' @ show_nat evicted @ '' pod(s) evicted on node '' @ node @ ''.'', [])"
| "evict_all io pod why node evicted (v # vs) =
     (let w = Create (eviction_path v) (eviction_body v)
      in case io_create io (eviction_path v) (eviction_body v) of
           Inr _ \<Rightarrow>
             (let ev = Create (''/api/v1/namespaces/'' @ pod_namespace v @ ''/events'')
                         (event io v ''Normal'' ''Preempted'' ''Preempting'' (''Preempted by pod '' @ p_uid pod @ '' on node '' @ node));
                  (message, ws) = evict_all io pod why node (evicted + 1) vs
              in (message, w # ev # ws))
         | Inl e \<Rightarrow>
             (why @ '' Preemption: evicting '' @ pod_namespace v @ ''/'' @ pod_name_of v @ '' on '' @ node @ '' was refused: '' @ e, [w]))"

definition preempt :: "sched_io \<Rightarrow> string \<Rightarrow> json \<Rightarrow> json list \<Rightarrow> cluster_state \<Rightarrow> volume_state \<Rightarrow> string \<Rightarrow> string \<times> api_write list" where
  "preempt io namespace pod nodes state volumes why =
     (if \<not> may_preempt pod then (why, [])
      else if waiting_for_victims pod state then (why @ '' Waiting for preempted pods to terminate.'', [])
      else if \<not> list_ex (\<lambda>(_, p). pod_priority p < pod_priority pod) (cs_placed state) then (why, [])
      else
        (let candidates = filter (\<lambda>n. filter_node pod namespace n volumes = Inr ()) nodes
         in case io_budgets io of
              Inl e \<Rightarrow> (why @ '' Preemption: cannot read PodDisruptionBudgets: '' @ e, [])
            | Inr l \<Rightarrow>
                (case select pod candidates nodes state (arr (jidx l ''items'')) of
                   None \<Rightarrow> (why @ '' Preemption: no lower-priority pods whose removal would make room.'', [])
                 | Some c \<Rightarrow>
                     (let path = ''/api/v1/namespaces/'' @ namespace @ ''/pods/'' @ pod_name_of pod @ ''/status'';
                          status = JObj [(''metadata'', JObj [(''uid'', jat pod [''metadata'', ''uid''])]),
                                         (''status'', JObj [(''nominatedNodeName'', JStr (cd_node c))])];
                          w = PatchMerge path status
                      in case io_patch_merge io path status of
                           Inl e \<Rightarrow> (why @ '' Preemption: could not nominate node '' @ cd_node c @ '': '' @ e, [w])
                         | Inr _ \<Rightarrow>
                             (let (message, ws) = evict_all io pod why (cd_node c) 0 (cd_victims c) in (message, w # ws))))))"

datatype placement =
    PlaceBind string string json
  | Unschedulable string
  | WaitingForVolumes string "(string \<times> json) list"

definition node_verdict :: "string \<Rightarrow> json \<Rightarrow> json list \<Rightarrow> cluster_state \<Rightarrow> volume_state \<Rightarrow> json \<Rightarrow> filter_result" where
  "node_verdict namespace pod nodes state volumes node =
     or_else (run_filters pod node (cs_used state node) state nodes)
     (or_else (pod_count_filter node (cs_used state node))
     (of_result (filter_node pod namespace node volumes)))"

fun failure :: "filter_result \<Rightarrow> string option" where
  "failure (Fail reason) = Some reason"
| "failure Pass = None"

text \<open>The stable sort by descending score puts the first node of the best score in front.\<close>

definition best_node :: "json \<Rightarrow> json list \<Rightarrow> cluster_state \<Rightarrow> json list \<Rightarrow> json" where
  "best_node pod nodes state feasible =
     hd (sort_key (\<lambda>node. - score_node pod node (cs_used state node) state nodes) feasible)"

fun claim_patches :: "string \<Rightarrow> string \<Rightarrow> volume_state \<Rightarrow> string list \<Rightarrow> string + (string \<times> json) list" where
  "claim_patches namespace chosen volumes [] = Inr []"
| "claim_patches namespace chosen volumes (claim # claims) =
     (let already = (case vs_claim volumes namespace claim of
                       Some c \<Rightarrow> str_or [] (jat c [''metadata'', ''annotations'', ANN_SELECTED_NODE]) | None \<Rightarrow> [])
      in if already = chosen then claim_patches namespace chosen volumes claims
         else
           (case vs_claim volumes namespace claim of
              None \<Rightarrow> Inl (''claim '' @ namespace @ ''/'' @ claim @ '' disappeared'')
            | Some c \<Rightarrow>
                (case claim_patches namespace chosen volumes claims of
                   Inl e \<Rightarrow> Inl e
                 | Inr ps \<Rightarrow>
                     Inr ((''/api/v1/namespaces/'' @ namespace @ ''/persistentvolumeclaims/'' @ claim,
                           JObj [(''metadata'', JObj [(''annotations'', JObj [(ANN_SELECTED_NODE, JStr chosen)]),
                                                   (''resourceVersion'', jat c [''metadata'', ''resourceVersion'']),
                                                   (''uid'', jat c [''metadata'', ''uid''])])]) # ps))))"

definition SCHEDULED_AT :: string where "SCHEDULED_AT = ''storm.io/scheduled-at''"

definition object_remove :: "json \<Rightarrow> string \<Rightarrow> json" where
  "object_remove v k = (case v of JObj m \<Rightarrow> JObj (bt_remove k m) | _ \<Rightarrow> v)"

definition bound_pod :: "sched_io \<Rightarrow> json \<Rightarrow> string \<Rightarrow> json option" where
  "bound_pod io pod chosen =
     Option.bind (set_node_name pod chosen) (\<lambda>p.
     Option.bind (if is_object (jat p [''metadata'', ''annotations'']) then Some p else jset p [''metadata'', ''annotations''] (JObj [])) (\<lambda>p.
     Option.bind (jset p [''metadata'', ''annotations'', SCHEDULED_AT] (JStr (io_now_micros io))) (\<lambda>p.
     Option.bind (jset p [''status'', ''phase''] (JStr ''Pending'')) (\<lambda>p.
     Option.bind (jset p [''status''] (object_remove (jidx p ''status'') ''nominatedNodeName'')) (\<lambda>p.
     jset p [''status'', ''conditions'']
       (JArr [JObj [(''lastTransitionTime'', JStr (io_now_secs io)), (''message'', JStr (''Bound to node '' @ chosen)),
                    (''reason'', JStr ''Scheduled''), (''status'', JStr ''True''), (''type'', JStr ''PodScheduled'')]]))))))"

definition schedule_pod ::
    "sched_io \<Rightarrow> string \<Rightarrow> json \<Rightarrow> json list \<Rightarrow> cluster_state \<Rightarrow> volume_state \<Rightarrow> schedule_key \<Rightarrow> sched_state \<Rightarrow>
     (sched_state \<times> api_write list \<times> (string + placement)) option" where
  "schedule_pod io namespace pod nodes state volumes key observed =
     (case as_str (jat pod [''metadata'', ''name'']) of
        None \<Rightarrow> Some (observed, [], Inl ''pod missing name'')
      | Some pod_name \<Rightarrow>
          (case rwop_conflict pod namespace volumes (cs_placed state) of
             Some reason \<Rightarrow> Some (observed, [], Inr (Unschedulable reason))
           | None \<Rightarrow>
               (let verdict = node_verdict namespace pod nodes state volumes;
                    refused = List.map_filter (\<lambda>n. failure (verdict n)) nodes;
                    feasible = filter (\<lambda>n. verdict n = Pass) nodes
                in if feasible = [] then
                     (case preempt io namespace pod nodes state volumes (unschedulable_message (length nodes) refused) of
                        (message, ws) \<Rightarrow> Some (observed, ws, Inr (Unschedulable message)))
                   else
                     (case as_str (jat (best_node pod nodes state feasible) [''metadata'', ''name'']) of
                        None \<Rightarrow> Some (observed, [], Inl ''node missing name'')
                      | Some chosen \<Rightarrow>
                          (let unbound = unbound_claims pod namespace volumes
                           in if unbound \<noteq> [] then
                                (case claim_patches namespace chosen volumes unbound of
                                   Inl e \<Rightarrow> Some (observed, [], Inl e)
                                 | Inr patches \<Rightarrow> Some (observed, [], Inr (WaitingForVolumes chosen patches)))
                              else
                                map_option
                                  (\<lambda>body. (reserve key pod chosen False observed, [],
                                           Inr (PlaceBind chosen (''/api/v1/namespaces/'' @ namespace @ ''/pods/'' @ pod_name) body)))
                                  (bound_pod io pod chosen))))))"

text \<open>
  A pass for a pod, as the loop runs it on the object the informer holds: nodes restricted to the one
  already assumed, the snapshot, the decision, and the reservation a claim write needs.
\<close>

definition place_pod ::
    "sched_io \<Rightarrow> json list \<Rightarrow> volume_state \<Rightarrow> schedule_key \<Rightarrow> json \<Rightarrow> sched_state \<Rightarrow>
     (sched_state \<times> api_write list \<times> (string + placement)) option" where
  "place_pod io nodes volumes key object observed =
     (case snapshot key observed of
        None \<Rightarrow> None
      | Some (state, assumed) \<Rightarrow>
          (let nodes = (case assumed of
                          Some node \<Rightarrow> filter (\<lambda>n. jat n [''metadata'', ''name''] = JStr node) nodes
                        | None \<Rightarrow> nodes)
           in case schedule_pod io (pod_namespace object) object nodes state volumes key observed of
                Some (observed, ws, Inr (WaitingForVolumes node patches)) \<Rightarrow>
                  Some (reserve key object node True observed, ws, Inr (WaitingForVolumes node patches))
              | r \<Rightarrow> r))"

text \<open>\<open>PodScheduled=False\<close> is written when it differs from what the pod says; its time moves when the status does.\<close>

definition report_pod_scheduled_false :: "sched_io \<Rightarrow> string \<Rightarrow> json \<Rightarrow> string \<Rightarrow> string \<Rightarrow> bool \<Rightarrow> api_write list" where
  "report_pod_scheduled_false io ns pod reason why with_event =
     (let current = find (\<lambda>c. jidx c ''type'' = JStr ''PodScheduled'') (arr (jat pod [''status'', ''conditions'']));
          is_false = (\<lambda>c. jidx c ''status'' = JStr ''False'');
          unchanged = (case current of
                         Some c \<Rightarrow> is_false c \<and> jidx c ''reason'' = JStr reason \<and> jidx c ''message'' = JStr why
                       | None \<Rightarrow> False);
          since = (case current of
                     Some c \<Rightarrow> if is_false c then str_or (io_now_secs io) (jidx c ''lastTransitionTime'') else io_now_secs io
                   | None \<Rightarrow> io_now_secs io)
      in if unchanged then []
         else
           Patch (''/api/v1/namespaces/'' @ ns @ ''/pods/'' @ pod_name_of pod @ ''/status'')
             (JObj [(''metadata'', JObj [(''uid'', jat pod [''metadata'', ''uid''])]),
                    (''status'', JObj [(''conditions'', JArr [JObj [
                       (''lastTransitionTime'', JStr since), (''message'', JStr why), (''reason'', JStr reason),
                       (''status'', JStr ''False''), (''type'', JStr ''PodScheduled'')]])])]) #
           (if with_event then [Create (''/api/v1/namespaces/'' @ ns @ ''/events'') (failed_scheduling io pod why)] else []))"

text \<open>
  A pass for a pod from the object the informer holds: only a pod that is pending and not gated is
  placed, and one that is not placed says why.
\<close>

definition pod_pass ::
    "sched_io \<Rightarrow> json list \<Rightarrow> volume_state \<Rightarrow> obj_key \<Rightarrow> json \<Rightarrow> sched_state \<Rightarrow>
     (sched_state \<times> api_write list \<times> placement option) option" where
  "pod_pass io nodes volumes key object observed =
     (let observed = observe False None (Some object) observed; ns = pod_namespace object
      in if \<not> pending_workload False object then Some (observed, [], None)
         else if gated object then
           Some (observed, report_pod_scheduled_false io ns object ''SchedulingGated''
                             ''Scheduling is blocked due to non-empty scheduling gates'' False, None)
         else
           map_option
             (\<lambda>(s, ws, r).
                case r of
                  Inl _ \<Rightarrow> (s, ws, None)
                | Inr (Unschedulable why) \<Rightarrow> (s, ws @ report_pod_scheduled_false io ns object ''Unschedulable'' why True, None)
                | Inr p \<Rightarrow> (s, ws, Some p))
             (place_pod io nodes volumes (False, key) object observed))"

section \<open>Placing a virtual machine\<close>

definition vmi_status_path :: "string \<Rightarrow> string \<Rightarrow> string" where
  "vmi_status_path namespace name =
     ''/apis/kubevirt.io/v1/namespaces/'' @ namespace @ ''/virtualmachineinstances/'' @ name @ ''/status''"

definition report_unschedulable :: "string \<Rightarrow> string \<Rightarrow> json \<Rightarrow> string \<Rightarrow> api_write list" where
  "report_unschedulable ns name vmi why =
     (let message = ''no node can run this VM: '' @ why
      in if as_str (jat vmi [''status'', ''message'']) = Some message \<and> as_str (jat vmi [''status'', ''reason'']) = Some ''Unschedulable''
         then []
         else [PatchMerge (vmi_status_path ns name)
                 (JObj [(''status'', JObj [(''message'', JStr message), (''phase'', JStr ''Pending''), (''reason'', JStr ''Unschedulable'')])])])"

definition identity_of :: "json \<Rightarrow> json" where
  "identity_of vmi = JObj [(''resourceVersion'', jat vmi [''metadata'', ''resourceVersion'']), (''uid'', jat vmi [''metadata'', ''uid''])]"

definition schedule_virtual_machine :: "json \<Rightarrow> json list \<Rightarrow> cluster_state \<Rightarrow> schedule_key \<Rightarrow> sched_state \<Rightarrow> sched_state \<times> api_write list" where
  "schedule_virtual_machine vmi nodes state key observed =
     (let name = pod_name_of vmi; ns = pod_namespace vmi
      in if name = [] then (observed, [])
         else
           (let shim = scheduling_shim vmi;
                verdict = (\<lambda>node. run_filters shim node (cs_used state node) state nodes);
                refused = List.map_filter (\<lambda>n. map_option (\<lambda>reason. str_or ''?'' (jat n [''metadata'', ''name'']) @ '': '' @ reason) (failure (verdict n))) nodes;
                feasible = filter (\<lambda>n. verdict n = Pass) nodes
            in if feasible = [] then
                 (observed, report_unschedulable ns name vmi (if refused = [] then ''no nodes are registered'' else join_with ''; '' refused))
               else
                 (let chosen = node_name_of (best_node shim nodes state feasible)
                  in if chosen = [] then (observed, [])
                     else
                       (let status = (if non_empty (as_str (jat vmi [''status'', ''phase''])) = None
                                      then [(''nodeName'', JStr chosen), (''phase'', JStr ''Pending'')] else [(''nodeName'', JStr chosen)]);
                            body = JObj [(''metadata'', identity_of vmi), (''status'', JObj status)]
                        in (reserve key vmi chosen False observed, [PatchMerge (vmi_status_path ns name) body])))))"

definition add_node_selector :: "json \<Rightarrow> json \<Rightarrow> json option" where
  "add_node_selector shim added =
     (case as_object added of
        None \<Rightarrow> Some shim
      | Some kvs \<Rightarrow>
          (let sel = entries (jat shim [''spec'', ''nodeSelector''])
           in jset shim [''spec'', ''nodeSelector'']
                (JObj (foldl (\<lambda>m (k, v). if map_of m k = None then bt_insert k v m else m) sel kvs))))"

definition better :: "(json \<times> int) option \<Rightarrow> int \<Rightarrow> bool" where
  "better best score = (case best of None \<Rightarrow> True | Some (_, b) \<Rightarrow> b < score)"

fun migration_search :: "json \<Rightarrow> string \<Rightarrow> json list \<Rightarrow> cluster_state \<Rightarrow> (json \<times> int) option \<Rightarrow> string list \<Rightarrow> json list \<Rightarrow> (json \<times> int) option \<times> string list" where
  "migration_search shim source nodes state best refused [] = (best, refused)"
| "migration_search shim source nodes state best refused (node # rest) =
     (let n = node_name_of node
      in if n = source then migration_search shim source nodes state best (refused @ [n @ '': the VM is already there'']) rest
         else
           (case run_filters shim node (cs_used state node) state nodes of
              Pass \<Rightarrow>
                (let score = score_node shim node (cs_used state node) state nodes
                 in migration_search shim source nodes state (if better best score then Some (node, score) else best) refused rest)
            | Fail reason \<Rightarrow> migration_search shim source nodes state best (refused @ [n @ '': '' @ reason]) rest))"

definition choose_migration_target :: "json \<Rightarrow> string \<Rightarrow> json list \<Rightarrow> cluster_state \<Rightarrow> string option \<times> string list" where
  "choose_migration_target shim source nodes state =
     (case migration_search shim source nodes state None [] nodes of
        (best, refused) \<Rightarrow> (non_empty (map_option (\<lambda>(n, _). node_name_of n) best), refused))"

definition migration :: "sched_io \<Rightarrow> nat \<Rightarrow> string \<Rightarrow> string \<Rightarrow> json option" where
  "migration io i ns uid =
     (if uid = [] then None
      else (case io_migrations io i ns of
              Inl _ \<Rightarrow> None
            | Inr l \<Rightarrow> find (\<lambda>m. as_str (jat m [''metadata'', ''uid'']) = Some uid) (arr (jidx l ''items''))))"

definition report_migration ::
    "sched_io \<Rightarrow> string \<Rightarrow> string \<Rightarrow> bool \<Rightarrow> string \<Rightarrow> (string \<Rightarrow> string option) \<Rightarrow> (string \<Rightarrow> string option) \<times> api_write list" where
  "report_migration io ns uid scheduled message reports =
     (if uid = [] \<or> reports uid = Some message \<or> (scheduled \<and> reports uid = None) then (reports, [])
      else
        (reports(uid := if scheduled then None else Some message),
         case Option.bind (migration io 1 ns uid) (\<lambda>m. as_str (jat m [''metadata'', ''name''])) of
           None \<Rightarrow> []
         | Some name \<Rightarrow>
             [PatchMerge (''/apis/kubevirt.io/v1/namespaces/'' @ ns @ ''/virtualmachineinstancemigrations/'' @ name @ ''/status'')
                (JObj [(''status'', JObj [(''conditions'', JArr [JObj [
                   (''lastTransitionTime'', JStr (io_now_secs io)), (''message'', JStr message),
                   (''reason'', JStr (if scheduled then ''Scheduled'' else ''Unschedulable'')),
                   (''status'', JStr (if scheduled then ''True'' else ''False'')), (''type'', JStr ''TargetScheduled'')]])])])]))"

definition schedule_migration_target ::
    "sched_io \<Rightarrow> json \<Rightarrow> json list \<Rightarrow> cluster_state \<Rightarrow> schedule_key \<Rightarrow> sched_state \<Rightarrow> (string \<Rightarrow> string option) \<Rightarrow>
     (sched_state \<times> (string \<Rightarrow> string option) \<times> api_write list) option" where
  "schedule_migration_target io vmi nodes state key observed reports =
     (let name = pod_name_of vmi; ns = pod_namespace vmi;
          source = (case vm_node_of vmi of Some n \<Rightarrow> n | None \<Rightarrow> []);
          uid = str_or [] (jat vmi [''status'', ''migrationState'', ''migrationUid'']);
          shim = scheduling_shim vmi
      in Option.bind (case migration io 0 ns uid of
                        Some m \<Rightarrow> add_node_selector shim (jat m [''spec'', ''addedNodeSelector''])
                      | None \<Rightarrow> Some shim) (\<lambda>shim.
         case choose_migration_target shim source nodes state of
           (None, refused) \<Rightarrow>
             (let why = (if refused = [] then ''no other node is registered'' else join_with ''; '' refused);
                  (reports', ws) = report_migration io ns uid False (''no node can take this migration: '' @ why) reports
              in Some (observed, reports', ws))
         | (Some chosen, _) \<Rightarrow>
             (let path = vmi_status_path ns name;
                  body = JObj [(''metadata'', identity_of vmi),
                               (''status'', JObj [(''migrationState'', JObj [(''targetNode'', JStr chosen)])])]
              in Option.bind (reserve_target key vmi chosen observed) (\<lambda>observed.
                 case io_patch_merge io path body of
                   Inr _ \<Rightarrow>
                     (let (reports', ws) = report_migration io ns uid True (''target node '' @ chosen) reports
                      in Some (observed, reports', PatchMerge path body # ws))
                 | Inl _ \<Rightarrow>
                     Some (observed\<lparr>ss_target_assumptions := AList.delete key (ss_target_assumptions observed)\<rparr>, reports,
                           [PatchMerge path body])))))"

section \<open>The queue's order\<close>

text \<open>Which of two queued workloads goes first: the higher priority, then the earlier creation time.\<close>

definition creation_ts :: "json \<Rightarrow> string" where
  "creation_ts pod = str_or [] (jat pod [''metadata'', ''creationTimestamp''])"

definition queue_rank :: "sched_state \<Rightarrow> schedule_key \<Rightarrow> int \<times> string option" where
  "queue_rank s key =
     (let p = map_of (ss_pending s) key
      in (- (case p of Some pod \<Rightarrow> pod_priority pod | None \<Rightarrow> 0), map_option creation_ts p))"

section \<open>What binding leaves alone\<close>

lemma pod_requests_cong:
  assumes "\<And>k. k \<in> {''resources'', ''containers'', ''initContainers'', ''overhead''} \<Longrightarrow> jat p [''spec'', k] = jat q [''spec'', k]"
    and "jat p [''status'', ''containerStatuses''] = jat q [''status'', ''containerStatuses'']"
  shows "pod_requests p = pod_requests q"
proof -
  have eq: "jidx (jidx p ''spec'') ''resources'' = jidx (jidx q ''spec'') ''resources''"
    "jidx (jidx p ''spec'') ''containers'' = jidx (jidx q ''spec'') ''containers''"
    "jidx (jidx p ''spec'') ''initContainers'' = jidx (jidx q ''spec'') ''initContainers''"
    "jidx (jidx p ''spec'') ''overhead'' = jidx (jidx q ''spec'') ''overhead''"
    "jidx (jidx p ''status'') ''containerStatuses'' = jidx (jidx q ''status'') ''containerStatuses''"
    using assms(1)[of "''resources''"] assms(1)[of "''containers''"] assms(1)[of "''initContainers''"] assms(1)[of "''overhead''"] assms(2) by simp_all
  have "containers_total p kind amount = containers_total q kind amount" for kind and amount :: "string \<Rightarrow> json \<Rightarrow> u64"
    by (simp add: containers_total_def eq)
  then have "requests_without_overhead p = requests_without_overhead q" by (simp add: requests_without_overhead_def Let_def eq)
  then show ?thesis by (simp add: pod_requests_def eq)
qed

lemma set_node_name_spec:
  assumes "set_node_name pod n = Some p"
  shows "pod_requests p = pod_requests pod" "jat p [''spec'', ''nodeName''] = JStr n"
    "d \<noteq> ''spec'' \<Longrightarrow> jidx p d = jidx pod d" "c \<noteq> ''nodeName'' \<Longrightarrow> jat p [''spec'', c] = jat pod [''spec'', c]"
proof -
  note s = jset_sub[OF assms[unfolded set_node_name_def]]
  show "jat p [''spec'', ''nodeName''] = JStr n" by (rule s(1))
  show "d \<noteq> ''spec'' \<Longrightarrow> jidx p d = jidx pod d" by (rule s(3))
  show "c \<noteq> ''nodeName'' \<Longrightarrow> jat p [''spec'', c] = jat pod [''spec'', c]" by (rule s(2))
  show "pod_requests p = pod_requests pod"
    by (rule pod_requests_cong) (use s(2) s(3)[of "''status''"] in auto)
qed

text \<open>An object that keeps its metadata's name, namespace, uid and version keeps its key and version.\<close>

definition same_identity :: "json \<Rightarrow> json \<Rightarrow> bool" where
  "same_identity p q \<longleftrightarrow>
     (\<forall>k \<in> {''name'', ''namespace'', ''uid'', ''resourceVersion''}. jat p [''metadata'', k] = jat q [''metadata'', k])"

lemma same_identity_spec: "same_identity p q \<Longrightarrow> key_of p = key_of q \<and> resource_version p = resource_version q"
  by (simp add: same_identity_def key_of_def resource_version_def split: option.splits)

lemma same_identity_other: "jset v (k # ks) x = Some w \<Longrightarrow> k \<noteq> ''metadata'' \<Longrightarrow> same_identity w v"
  using jset_other[of v k ks x w "''metadata''"] by (simp add: same_identity_def)

lemma same_identity_annotation: "jset v (''metadata'' # ''annotations'' # ks) x = Some w \<Longrightarrow> same_identity w v"
proof (cases v)
  case (JObj m)
  assume "jset v (''metadata'' # ''annotations'' # ks) x = Some w"
  then obtain y where y: "jset (jidx v ''metadata'') (''annotations'' # ks) x = Some y" "w = JObj (bt_insert ''metadata'' y m)"
    using JObj by (auto simp del: jset.simps simp: jset.simps(2)[of _ "''metadata''"])
  from jset_other[OF y(1)] y(2) show ?thesis by (simp add: same_identity_def bt_simps)
qed (auto simp: same_identity_def split: json.splits)

lemma same_identity_trans: "same_identity p q \<Longrightarrow> same_identity q r \<Longrightarrow> same_identity p r"
  by (simp add: same_identity_def)

lemma bound_pod_spec:
  assumes "bound_pod io pod n = Some body"
  shows "pod_requests body = pod_requests pod" "jat body [''spec'', ''nodeName''] = JStr n" "jat body [''status'', ''phase''] = JStr ''Pending''"
    "same_identity body pod"
proof -
  from assms obtain p1 p2 p3 p4 p5 where
    p: "set_node_name pod n = Some p1"
      "(if is_object (jat p1 [''metadata'', ''annotations'']) then Some p1 else jset p1 [''metadata'', ''annotations''] (JObj [])) = Some p2"
      "jset p2 [''metadata'', ''annotations'', SCHEDULED_AT] (JStr (io_now_micros io)) = Some p3"
      "jset p3 [''status'', ''phase''] (JStr ''Pending'') = Some p4"
      "jset p4 [''status''] (object_remove (jidx p4 ''status'') ''nominatedNodeName'') = Some p5"
    and b: "\<exists>x. jset p5 [''status'', ''conditions''] x = Some body"
    unfolding bound_pod_def Option.bind_eq_Some_conv by blast
  have p2: "p2 = p1 \<or> jset p1 [''metadata'', ''annotations''] (JObj []) = Some p2" using p(2) by (simp del: jset.simps jat_Cons split: if_splits)
  from b obtain x where b: "jset p5 [''status'', ''conditions''] x = Some body" ..
  note s4 = jset_sub[OF p(4)] and sb = jset_sub[OF b] and s1 = set_node_name_spec[OF p(1)]
  have st5: "jidx p5 ''status'' = object_remove (jidx p4 ''status'') ''nominatedNodeName''" using jset_jat[OF p(5)] by simp
  have keep: "jidx (object_remove v ''nominatedNodeName'') k = jidx v k" if "k \<noteq> ''nominatedNodeName''" for v k
    using that by (cases v) (auto simp: object_remove_def map_of_bt_remove)
  have o2: "k \<noteq> ''metadata'' \<Longrightarrow> jidx p2 k = jidx p1 k" for k using p2 jset_other by blast
  have o3: "k \<noteq> ''metadata'' \<Longrightarrow> jidx p3 k = jidx p1 k" for k using o2 jset_other[OF p(3)] by metis
  have sp: "jidx body ''spec'' = jidx p1 ''spec''" using o3[of "''spec''"] s4(3)[of "''spec''"] jset_other[OF p(5), of "''spec''"] sb(3)[of "''spec''"] by simp
  have st: "jat body [''status'', k] = jat p4 [''status'', k]" if "k \<notin> {''conditions'', ''nominatedNodeName''}" for k
    using that sb(2)[of k] st5 keep[of k] by simp
  show "jat body [''status'', ''phase''] = JStr ''Pending''" using st[of "''phase''"] s4(1) by simp
  show "jat body [''spec'', ''nodeName''] = JStr n" using sp s1(2) by simp
  have "jat body [''status'', ''containerStatuses''] = jat pod [''status'', ''containerStatuses'']"
    using st[of "''containerStatuses''"] s4(2)[of "''containerStatuses''"] o3[of "''status''"] s1(3)[of "''status''"] by simp
  then show "pod_requests body = pod_requests pod"
    by (intro pod_requests_cong) (use sp s1(4) in auto)
  have i: "same_identity p1 pod" using same_identity_other[OF p(1)[unfolded set_node_name_def]] by simp
  moreover have "same_identity p2 p1" using p2 same_identity_annotation by (auto simp: same_identity_def)
  moreover have "same_identity p3 p2" using p(3) by (rule same_identity_annotation)
  moreover have "same_identity p4 p3" "same_identity p5 p4" "same_identity body p5"
    using same_identity_other[OF p(4)] same_identity_other[OF p(5)] same_identity_other[OF b] by simp_all
  ultimately show "same_identity body pod" by (meson same_identity_trans)
qed

section \<open>The account is exact\<close>

fun usage_of :: "(schedule_key \<times> (string \<times> json)) list \<Rightarrow> string \<Rightarrow> node_usage" where
  "usage_of [] = (\<lambda>_. no_usage)"
| "usage_of ((key, (node, pod)) # xs) = charge (usage_of xs) (fst key) node pod"

lemma charge_commute: "charge (charge u vm n p) vm' n' p' = charge (charge u vm' n' p') vm n p"
  by (cases "n = n'") (auto simp: charge_def fun_upd_twist ac_simps split: prod.splits)

lemma uncharge_charge [simp]: "uncharge (charge u vm n p) vm n p = u"
  by (auto simp: charge_def uncharge_def split: prod.splits)

lemma usage_of_middle: "usage_of (xs @ (k, (n, p)) # ys) = charge (usage_of (xs @ ys)) (fst k) n p"
  by (induction xs rule: usage_of.induct) (simp_all add: charge_commute)

lemma usage_of_delete:
  "distinct (map fst xs) \<Longrightarrow> map_of xs k = Some (n, p) \<Longrightarrow>
   usage_of (xs @ ys) = charge (usage_of (AList.delete k xs @ ys)) (fst k) n p"
proof (induction xs rule: usage_of.induct)
  case (2 key node pod xs)
  show ?case
  proof (cases "key = k")
    case True
    with 2 have "AList.delete k xs = xs" by simp
    with True 2 show ?thesis by simp
  next
    case False
    with 2 show ?thesis by (simp add: charge_commute)
  qed
qed simp

lemma update_new: "k \<notin> fst ` set xs \<Longrightarrow> AList.update k v xs = xs @ [(k, v)]"
  by (induction xs) auto

definition acct :: "sched_state \<Rightarrow> bool" where
  "acct s \<longleftrightarrow> distinct (map fst (ss_placed s)) \<and> distinct (map fst (ss_targets s)) \<and> ss_usage s = usage_of (ss_placed s @ ss_targets s)"

lemma usage_of_swap: "usage_of (xs @ ys) = usage_of (ys @ xs)"
  by (induction xs rule: usage_of.induct) (simp_all add: usage_of_middle)

lemma acct_drop_placed: "acct s \<Longrightarrow> acct (drop_placed k s)"
  by (auto simp: acct_def drop_placed_def usage_of_delete distinct_delete split: option.splits)

lemma acct_drop_target: "acct s \<Longrightarrow> acct (drop_target k s)"
proof (cases "map_of (ss_targets s) k")
  case (Some e)
  obtain n p where e: "e = (n, p)" by force
  assume a: "acct s"
  then have "usage_of (ss_placed s @ ss_targets s) = charge (usage_of (ss_placed s @ AList.delete k (ss_targets s))) (fst k) n p"
    using usage_of_delete[of "ss_targets s" k n p "ss_placed s"] Some e usage_of_swap by (metis acct_def)
  with a Some e show ?thesis by (simp add: acct_def drop_target_def distinct_delete)
qed (simp add: drop_target_def)

lemma drop_placed_fresh: "k \<notin> fst ` set (ss_placed (drop_placed k s))"
  by (auto simp: drop_placed_def map_of_eq_None_iff split: option.splits simp flip: set_map simp: delete_keys)

lemma drop_target_fresh: "k \<notin> fst ` set (ss_targets (drop_target k s))"
  by (auto simp: drop_target_def map_of_eq_None_iff split: option.splits simp flip: set_map simp: delete_keys)

lemma observe_pending_frame [simp]:
  "ss_placed (observe_pending k o' s) = ss_placed s" "ss_targets (observe_pending k o' s) = ss_targets s" "ss_usage (observe_pending k o' s) = ss_usage s"
  "ss_target_assumptions (observe_pending k o' s) = ss_target_assumptions s"
  by (auto simp: observe_pending_def Let_def split: option.splits)

lemma drop_target_frame [simp]:
  "ss_placed (drop_target k s) = ss_placed s" "ss_pending (drop_target k s) = ss_pending s" "ss_assumptions (drop_target k s) = ss_assumptions s"
  "ss_target_assumptions (drop_target k s) = ss_target_assumptions s"
  by (auto simp: drop_target_def split: option.splits)

lemma drop_placed_frame [simp]:
  "ss_targets (drop_placed k s) = ss_targets s" "ss_pending (drop_placed k s) = ss_pending s" "ss_assumptions (drop_placed k s) = ss_assumptions s"
  "ss_target_assumptions (drop_placed k s) = ss_target_assumptions s"
  by (auto simp: drop_placed_def split: option.splits)

lemma observe_target_frame [simp]:
  "ss_placed (observe_target k o' s) = ss_placed s" "ss_pending (observe_target k o' s) = ss_pending s" "ss_assumptions (observe_target k o' s) = ss_assumptions s"
  by (auto simp: observe_target_def Let_def split: option.splits)

lemma observe_placed_frame [simp]:
  "ss_targets (observe_placed k o' s) = ss_targets s" "ss_pending (observe_placed k o' s) = ss_pending s" "ss_assumptions (observe_placed k o' s) = ss_assumptions s"
  "ss_target_assumptions (observe_placed k o' s) = ss_target_assumptions s"
  by (auto simp: observe_placed_def split: option.splits)

lemma acct_observe_pending: "acct s \<Longrightarrow> acct (observe_pending k o' s)"
  by (simp add: acct_def)

lemma acct_observe_target: "acct s \<Longrightarrow> k \<notin> fst ` set (ss_targets s) \<Longrightarrow> acct (observe_target k o' s)"
  using usage_of_middle[of "ss_placed s @ ss_targets s" k _ _ "[]"]
  by (auto simp: acct_def observe_target_def Let_def update_new split: option.splits)

lemma acct_observe_placed: "acct s \<Longrightarrow> k \<notin> fst ` set (ss_placed s) \<Longrightarrow> acct (observe_placed k o' s)"
  by (auto simp: acct_def observe_placed_def update_new usage_of_middle split: option.splits)

lemma acct_observe_new: "acct s \<Longrightarrow> acct (observe_new k o' s)"
proof -
  assume "acct s"
  then have 1: "acct (drop_placed k s)" by (rule acct_drop_placed)
  define t where "t = (drop_placed k s)\<lparr>ss_pending := AList.delete k (ss_pending (drop_placed k s))\<rparr>"
  have t: "acct t" "ss_placed t = ss_placed (drop_placed k s)" using 1 by (simp_all add: t_def acct_def)
  have "acct (drop_target k (observe_pending k o' t))" using t by (intro acct_drop_target acct_observe_pending)
  then have "acct (observe_target k o' (drop_target k (observe_pending k o' t)))" by (rule acct_observe_target[OF _ drop_target_fresh])
  then show "acct (observe_new k o' s)" unfolding observe_new_def Let_def t_def[symmetric]
    by (rule acct_observe_placed) (simp add: t drop_placed_fresh)
qed

lemma acct_remove: "acct s \<Longrightarrow> acct (ss_remove k s)"
  unfolding ss_remove_def by (intro acct_drop_target acct_drop_placed) (simp add: acct_def)

lemma acct_observe: "acct s \<Longrightarrow> acct (observe vm old_obj new_obj s)"
  by (auto simp: observe_def Let_def intro: acct_observe_new acct_remove split: option.splits)

lemma acct_default: "acct ss_default"
  by (simp add: acct_def ss_default_def)

section \<open>What an observation changes\<close>

lemma map_of_drop_placed: "map_of (ss_placed (drop_placed k s)) = (map_of (ss_placed s))(k := None)"
  by (auto simp: drop_placed_def delete_conv' fun_upd_idem split: option.splits)

lemma map_of_delete_if: "map_of (AList.delete k xs) = (map_of xs)(k := None)"
  by (rule delete_conv')

definition keeps_assumption :: "bool \<Rightarrow> json \<Rightarrow> assumption \<Rightarrow> bool" where
  "keeps_assumption vm object a \<longleftrightarrow>
     pending_workload vm object \<and> (am_waiting a \<or> resource_version (am_object a) = resource_version object)"

lemma observe_new_placed: "map_of (ss_placed (observe_new k object s)) = (map_of (ss_placed s))(k := placed_workload (fst k) object)"
  by (cases "placed_workload (fst k) object")
    (auto simp: observe_new_def Let_def observe_placed_def update_conv' map_of_drop_placed)

lemma observe_new_pending:
  "map_of (ss_pending (observe_new k object s)) = (map_of (ss_pending s))(k := if pending_workload (fst k) object then Some object else None)"
  by (auto simp: observe_new_def Let_def observe_pending_def update_conv' map_of_delete_if split: option.splits)

lemma observe_new_assumptions:
  "map_of (ss_assumptions (observe_new k object s)) =
     (map_of (ss_assumptions s))(k := (case map_of (ss_assumptions s) k of
        Some a \<Rightarrow> if keeps_assumption (fst k) object a then Some a else None | None \<Rightarrow> None))"
  by (rule ext) (auto simp: observe_new_def Let_def observe_pending_def keeps_assumption_def map_of_delete_if split: option.splits)

lemma remove_lookups:
  "map_of (ss_placed (ss_remove k s)) = (map_of (ss_placed s))(k := None)"
  "map_of (ss_pending (ss_remove k s)) = (map_of (ss_pending s))(k := None)"
  "map_of (ss_assumptions (ss_remove k s)) = (map_of (ss_assumptions s))(k := None)"
  by (simp_all add: ss_remove_def map_of_drop_placed map_of_delete_if)

text \<open>The lists stand for maps: their keys are distinct.\<close>

definition maps_ok :: "sched_state \<Rightarrow> bool" where
  "maps_ok s \<longleftrightarrow> distinct (map fst (ss_pending s)) \<and> distinct (map fst (ss_assumptions s))"

lemma maps_ok_observe_new: "maps_ok s \<Longrightarrow> maps_ok (observe_new k object s)"
  by (auto simp: maps_ok_def observe_new_def Let_def observe_pending_def distinct_delete distinct_update split: option.splits)

lemma maps_ok_remove: "maps_ok s \<Longrightarrow> maps_ok (ss_remove k s)"
  by (simp add: maps_ok_def ss_remove_def distinct_delete)

lemma maps_ok_reserve: "maps_ok s \<Longrightarrow> maps_ok (reserve k object n w s)"
  by (simp add: maps_ok_def reserve_def distinct_update)

section \<open>What a snapshot charges\<close>

definition assumed_entry :: "(schedule_key \<times> assumption) list \<Rightarrow> schedule_key \<times> string \<times> json \<Rightarrow> bool" where
  "assumed_entry as e \<longleftrightarrow>
     (\<exists>a. (fst e, a) \<in> set as \<and> fst (snd e) = am_node a \<and> (\<not> fst (fst e) \<longrightarrow> pod_requests (snd (snd e)) = pod_requests (am_object a)))"

definition nominated_entry :: "schedule_key \<Rightarrow> sched_state \<Rightarrow> (schedule_key \<times> json) list \<Rightarrow> schedule_key \<times> string \<times> json \<Rightarrow> bool" where
  "nominated_entry cur s qs e \<longleftrightarrow>
     (\<exists>q. (fst e, q) \<in> set qs \<and> holds_nomination cur s (fst e) q = Some (fst (snd e)) \<and> pod_requests (snd (snd e)) = pod_requests q)"

lemma entry_Cons: "assumed_entry as e \<Longrightarrow> assumed_entry (x # as) e" "nominated_entry cur s qs e \<Longrightarrow> nominated_entry cur s (y # qs) e"
  unfolding assumed_entry_def nominated_entry_def by (meson list.set_intros(2))+

lemma charge_assumptions_spec:
  "charge_assumptions cur s as c = Some c' \<Longrightarrow> cs_usage c = usage_of base \<Longrightarrow>
   \<exists>ps. cs_usage c' = usage_of (ps @ base) \<and>
        map fst ps = rev (map fst (filter (\<lambda>e. fst e \<noteq> cur \<and> map_of (ss_placed s) (fst e) = None) as)) \<and>
        (\<forall>e \<in> set ps. assumed_entry as e)"
proof (induction cur s as c arbitrary: base rule: charge_assumptions.induct)
  case (1 cur s c)
  then show ?case by (intro exI[of _ "[]"]) simp
next
  case (2 cur s key a as c)
  show ?case
  proof (cases "key = cur \<or> map_of (ss_placed s) key \<noteq> None")
    case True
    then have "charge_assumptions cur s as c = Some c'" using "2.prems"(1) by (auto split: if_splits)
    from "2.IH"(1)[OF True this "2.prems"(2)] obtain ps where
      ps: "cs_usage c' = usage_of (ps @ base)"
      "map fst ps = rev (map fst (filter (\<lambda>e. fst e \<noteq> cur \<and> map_of (ss_placed s) (fst e) = None) as))" "\<forall>e \<in> set ps. assumed_entry as e" by blast
    from True have "\<not> (key \<noteq> cur \<and> map_of (ss_placed s) key = None)" by blast
    with ps show ?thesis by (intro exI[of _ ps]) (simp add: entry_Cons(1) del: de_Morgan_conj)
  next
    case False
    then obtain pod where pod: "set_node_name (if fst key then scheduling_shim (am_object a) else am_object a) (am_node a) = Some pod"
      and rest: "charge_assumptions cur s as (cs_charge (fst key) (am_node a) pod c) = Some c'"
      using "2.prems"(1) by (auto split: option.splits)
    have "cs_usage (cs_charge (fst key) (am_node a) pod c) = usage_of ((key, (am_node a, pod)) # base)"
      using "2.prems"(2) by (simp add: cs_charge_def)
    from "2.IH"(2)[OF False pod rest this] obtain ps where
      ps: "cs_usage c' = usage_of (ps @ (key, (am_node a, pod)) # base)"
      "map fst ps = rev (map fst (filter (\<lambda>e. fst e \<noteq> cur \<and> map_of (ss_placed s) (fst e) = None) as))" "\<forall>e \<in> set ps. assumed_entry as e" by blast
    have "assumed_entry ((key, a) # as) (key, (am_node a, pod))" using set_node_name_spec(1)[OF pod] by (auto simp: assumed_entry_def)
    with ps False show ?thesis by (intro exI[of _ "ps @ [(key, (am_node a, pod))]"]) (simp add: entry_Cons(1))
  qed
qed

lemma charge_nominated_spec:
  "charge_nominated cur s qs c = Some c' \<Longrightarrow> cs_usage c = usage_of base \<Longrightarrow>
   \<exists>ps. cs_usage c' = usage_of (ps @ base) \<and>
        map fst ps = rev (map fst (filter (\<lambda>e. holds_nomination cur s (fst e) (snd e) \<noteq> None) qs)) \<and>
        (\<forall>e \<in> set ps. nominated_entry cur s qs e)"
proof (induction cur s qs c arbitrary: base rule: charge_nominated.induct)
  case (1 cur s c)
  then show ?case by (intro exI[of _ "[]"]) simp
next
  case (2 cur s key q qs c)
  show ?case
  proof (cases "holds_nomination cur s key q")
    case None
    then have "charge_nominated cur s qs c = Some c'" using "2.prems"(1) by simp
    from "2.IH"(1)[OF None this "2.prems"(2)] obtain ps where
      ps: "cs_usage c' = usage_of (ps @ base)"
      "map fst ps = rev (map fst (filter (\<lambda>e. holds_nomination cur s (fst e) (snd e) \<noteq> None) qs))" "\<forall>e \<in> set ps. nominated_entry cur s qs e" by blast
    with None show ?thesis by (intro exI[of _ ps]) (simp add: entry_Cons(2) del: not_None_eq)
  next
    case (Some n)
    then obtain pod where pod: "set_node_name q n = Some pod"
      and rest: "charge_nominated cur s qs (cs_charge False n pod c) = Some c'"
      using "2.prems"(1) by (auto split: option.splits)
    have f: "fst key = False" using Some by (auto simp: holds_nomination_def split: if_splits)
    have "cs_usage (cs_charge False n pod c) = usage_of ((key, (n, pod)) # base)"
      using "2.prems"(2) f by (simp add: cs_charge_def)
    from "2.IH"(2)[OF Some pod rest this] obtain ps where
      ps: "cs_usage c' = usage_of (ps @ (key, (n, pod)) # base)"
      "map fst ps = rev (map fst (filter (\<lambda>e. holds_nomination cur s (fst e) (snd e) \<noteq> None) qs))" "\<forall>e \<in> set ps. nominated_entry cur s qs e" by blast
    have "nominated_entry cur s ((key, q) # qs) (key, (n, pod))" using set_node_name_spec(1)[OF pod] Some by (auto simp: nominated_entry_def)
    with ps Some show ?thesis by (intro exI[of _ "ps @ [(key, (n, pod))]"]) (simp add: entry_Cons(2))
  qed
qed

definition pods_only :: "sched_state \<Rightarrow> bool" where
  "pods_only s \<longleftrightarrow> ss_targets s = [] \<and> ss_target_assumptions s = [] \<and>
     (\<forall>k. map_of (ss_placed s) k \<noteq> None \<or> map_of (ss_assumptions s) k \<noteq> None \<or> map_of (ss_pending s) k \<noteq> None \<longrightarrow> \<not> fst k)"

lemma pods_onlyD:
  assumes "pods_only s"
  shows "map_of (ss_placed s) k = Some x \<Longrightarrow> \<not> fst k" "map_of (ss_assumptions s) k = Some a \<Longrightarrow> \<not> fst k" "map_of (ss_pending s) k = Some q \<Longrightarrow> \<not> fst k"
  using assms unfolding pods_only_def by (metis option.distinct(1))+

lemma snapshot_spec:
  assumes snap: "snapshot cur s = Some (c, assumed)" and ok: "acct s" "maps_ok s" "pods_only s"
    and dis: "\<And>k. map_of (ss_pending s) k \<noteq> None \<Longrightarrow> map_of (ss_placed s) k = None"
  shows "assumed = map_option am_node (map_of (ss_assumptions s) cur)"
    and "\<exists>ch. cs_usage c = usage_of ch \<and> distinct (map fst ch) \<and>
      (\<forall>e \<in> set ch. \<not> fst (fst e) \<and>
         (map_of (ss_placed s) (fst e) = Some (snd e) \<or>
          (\<exists>a. map_of (ss_assumptions s) (fst e) = Some a \<and> pod_requests (snd (snd e)) = pod_requests (am_object a)) \<or>
          (\<exists>q. map_of (ss_pending s) (fst e) = Some q \<and> pod_requests (snd (snd e)) = pod_requests q))) \<and>
      (\<forall>k e. map_of (ss_placed s) k = Some e \<longrightarrow> (k, e) \<in> set ch) \<and>
      (\<forall>k a. k \<noteq> cur \<longrightarrow> map_of (ss_placed s) k = None \<longrightarrow> map_of (ss_assumptions s) k = Some a \<longrightarrow>
         (\<exists>p. (k, (am_node a, p)) \<in> set ch))"
proof -
  let ?c0 = "\<lparr>cs_usage = ss_usage s, cs_placed = map snd (ss_placed s) @ map snd (ss_targets s)\<rparr>"
  from ok have t: "ss_targets s = []" "ss_target_assumptions s = []" by (simp_all add: pods_only_def)
  from snap t obtain c2 where c2: "charge_assumptions cur s (ss_assumptions s) ?c0 = Some c2" "charge_nominated cur s (ss_pending s) c2 = Some c"
    and as: "assumed = map_option am_node (map_of (ss_assumptions s) cur)"
    by (auto simp: snapshot_def split: option.splits)
  show "assumed = map_option am_node (map_of (ss_assumptions s) cur)" by (rule as)
  have "cs_usage ?c0 = usage_of (ss_placed s)" using ok t by (simp add: acct_def)
  from charge_assumptions_spec[OF c2(1) this] obtain ps where ps: "cs_usage c2 = usage_of (ps @ ss_placed s)"
    "map fst ps = rev (map fst (filter (\<lambda>e. fst e \<noteq> cur \<and> map_of (ss_placed s) (fst e) = None) (ss_assumptions s)))"
    "\<forall>e \<in> set ps. assumed_entry (ss_assumptions s) e" by blast
  from charge_nominated_spec[OF c2(2) ps(1)] obtain qs where qs: "cs_usage c = usage_of (qs @ ps @ ss_placed s)"
    "map fst qs = rev (map fst (filter (\<lambda>e. holds_nomination cur s (fst e) (snd e) \<noteq> None) (ss_pending s)))"
    "\<forall>e \<in> set qs. nominated_entry cur s (ss_pending s) e" by blast
  have dp: "distinct (map fst (ss_placed s))" and dm: "distinct (map fst (ss_assumptions s))" "distinct (map fst (ss_pending s))"
    using ok by (simp_all add: acct_def maps_ok_def)
  have keys_ps: "fst ` set ps = {k. k \<noteq> cur \<and> map_of (ss_placed s) k = None \<and> k \<in> fst ` set (ss_assumptions s)}"
  proof -
    have "fst ` set ps = set (map fst ps)" by simp
    also have "\<dots> = fst ` {e \<in> set (ss_assumptions s). fst e \<noteq> cur \<and> map_of (ss_placed s) (fst e) = None}" unfolding ps(2) by simp
    finally show ?thesis by auto
  qed
  have keys_qs: "k \<in> fst ` set qs \<Longrightarrow> map_of (ss_assumptions s) k = None \<and> map_of (ss_pending s) k \<noteq> None" for k
  proof -
    assume "k \<in> fst ` set qs"
    then obtain e where "e \<in> set qs" "k = fst e" by blast
    with qs(3) obtain q where q: "(k, q) \<in> set (ss_pending s)" "holds_nomination cur s k q \<noteq> None" by (auto simp: nominated_entry_def)
    then show ?thesis using dm(2) by (auto simp: holds_nomination_def split: if_splits)
  qed
  have "distinct (map fst ps)" "distinct (map fst qs)" unfolding ps(2) qs(2) using dm by (simp_all add: distinct_map_filter)
  moreover have "k \<notin> fst ` set (ss_placed s)" if "k \<in> fst ` set ps" for k
    using that unfolding keys_ps by (simp add: map_of_eq_None_iff)
  then have "fst ` set ps \<inter> fst ` set (ss_placed s) = {}" by blast
  moreover have "k \<notin> fst ` set ps \<and> k \<notin> fst ` set (ss_placed s)" if "k \<in> fst ` set qs" for k
    using keys_qs[OF that] dis[of k] unfolding keys_ps by (simp add: map_of_eq_None_iff)
  then have "fst ` set qs \<inter> fst ` set ps = {}" "fst ` set qs \<inter> fst ` set (ss_placed s) = {}" by blast+
  ultimately have d: "distinct (map fst (qs @ ps @ ss_placed s))" using dp by (simp add: Int_Un_distrib)
  have ent: "\<not> fst (fst e) \<and>
         (map_of (ss_placed s) (fst e) = Some (snd e) \<or>
          (\<exists>a. map_of (ss_assumptions s) (fst e) = Some a \<and> pod_requests (snd (snd e)) = pod_requests (am_object a)) \<or>
          (\<exists>q. map_of (ss_pending s) (fst e) = Some q \<and> pod_requests (snd (snd e)) = pod_requests q))" if "e \<in> set (qs @ ps @ ss_placed s)" for e
  proof -
    from that consider "e \<in> set qs" | "e \<in> set ps" | "e \<in> set (ss_placed s)" by auto
    then show ?thesis
    proof cases
      case 1
      with qs(3) obtain q where "(fst e, q) \<in> set (ss_pending s)" "pod_requests (snd (snd e)) = pod_requests q" by (auto simp: nominated_entry_def)
      then have "map_of (ss_pending s) (fst e) = Some q" "pod_requests (snd (snd e)) = pod_requests q" using dm(2) by simp_all
      with pods_onlyD[OF ok(3)] show ?thesis by blast
    next
      case 2
      with ps(3) obtain a where a: "(fst e, a) \<in> set (ss_assumptions s)" "\<not> fst (fst e) \<longrightarrow> pod_requests (snd (snd e)) = pod_requests (am_object a)"
        by (auto simp: assumed_entry_def)
      then have "map_of (ss_assumptions s) (fst e) = Some a" using dm(1) by simp
      with pods_onlyD[OF ok(3)] a(2) show ?thesis by blast
    next
      case 3
      then have "map_of (ss_placed s) (fst e) = Some (snd e)" using dp by simp
      with pods_onlyD[OF ok(3)] show ?thesis by blast
    qed
  qed
  have asm: "\<exists>p. (k, (am_node a, p)) \<in> set ps" if "k \<noteq> cur" "map_of (ss_placed s) k = None" "map_of (ss_assumptions s) k = Some a" for k a
  proof -
    have "k \<in> fst ` set ps" unfolding keys_ps using that by (auto dest!: map_of_SomeD intro: rev_image_eqI)
    then obtain n p where e: "(k, (n, p)) \<in> set ps" by auto
    with ps(3) have "assumed_entry (ss_assumptions s) (k, (n, p))" by blast
    then obtain a' where "(k, a') \<in> set (ss_assumptions s)" "n = am_node a'" by (auto simp: assumed_entry_def)
    with dm(1) that(3) e show ?thesis by auto
  qed
  have asm': "\<forall>k a. k \<noteq> cur \<longrightarrow> map_of (ss_placed s) k = None \<longrightarrow> map_of (ss_assumptions s) k = Some a \<longrightarrow>
         (\<exists>p. (k, (am_node a, p)) \<in> set (qs @ ps @ ss_placed s))"
  proof (intro allI impI)
    fix k a assume "k \<noteq> cur" "map_of (ss_placed s) k = None" "map_of (ss_assumptions s) k = Some a"
    from asm[OF this] obtain p where "(k, (am_node a, p)) \<in> set ps" ..
    then show "\<exists>p. (k, (am_node a, p)) \<in> set (qs @ ps @ ss_placed s)" by (intro exI[of _ p]) simp
  qed
  have plc': "\<forall>k e. map_of (ss_placed s) k = Some e \<longrightarrow> (k, e) \<in> set (qs @ ps @ ss_placed s)"
  proof (intro allI impI)
    fix k e assume "map_of (ss_placed s) k = Some e"
    then have "(k, e) \<in> set (ss_placed s)" by (rule map_of_SomeD)
    then show "(k, e) \<in> set (qs @ ps @ ss_placed s)" by simp
  qed
  show "\<exists>ch. cs_usage c = usage_of ch \<and> distinct (map fst ch) \<and>
      (\<forall>e \<in> set ch. \<not> fst (fst e) \<and>
         (map_of (ss_placed s) (fst e) = Some (snd e) \<or>
          (\<exists>a. map_of (ss_assumptions s) (fst e) = Some a \<and> pod_requests (snd (snd e)) = pod_requests (am_object a)) \<or>
          (\<exists>q. map_of (ss_pending s) (fst e) = Some q \<and> pod_requests (snd (snd e)) = pod_requests q))) \<and>
      (\<forall>k e. map_of (ss_placed s) k = Some e \<longrightarrow> (k, e) \<in> set ch) \<and>
      (\<forall>k a. k \<noteq> cur \<longrightarrow> map_of (ss_placed s) k = None \<longrightarrow> map_of (ss_assumptions s) k = Some a \<longrightarrow>
         (\<exists>p. (k, (am_node a, p)) \<in> set ch))"
    by (rule exI[of _ "qs @ ps @ ss_placed s"], rule conjI[OF qs(1)], rule conjI[OF d], rule conjI, rule ballI, erule ent, rule conjI[OF plc' asm'])
qed

section \<open>What a pass decides\<close>

lemma best_node_feasible: "feasible \<noteq> [] \<Longrightarrow> best_node pod nodes state feasible \<in> set feasible"
  unfolding best_node_def by (metis hd_in_set set_empty set_sort)

text \<open>A bind chosen by a pass goes to a node that passed every filter over the snapshot, and to the assumed one if there is one.\<close>

definition chosen_well :: "json list \<Rightarrow> schedule_key \<Rightarrow> json \<Rightarrow> sched_state \<Rightarrow> string \<Rightarrow> bool" where
  "chosen_well nodes key object s n \<longleftrightarrow>
     (\<exists>c assumed node nodes'. snapshot key s = Some (c, assumed) \<and> (\<forall>m. assumed = Some m \<longrightarrow> n = m) \<and>
        node \<in> set nodes \<and> as_str (jat node [''metadata'', ''name'']) = Some n \<and>
        run_filters object node (cs_used c node) c nodes' = Pass \<and> pod_count_filter node (cs_used c node) = Pass)"

lemma schedule_pod_cases:
  assumes "schedule_pod io ns pod nodes state volumes key s = Some (s', ws, r)"
  shows "(\<exists>n path body. r = Inr (PlaceBind n path body) \<and> s' = reserve key pod n False s \<and> bound_pod io pod n = Some body \<and>
            (\<exists>node \<in> set nodes. as_str (jat node [''metadata'', ''name'']) = Some n \<and> node_verdict ns pod nodes state volumes node = Pass)) \<or>
         (\<exists>n patches. r = Inr (WaitingForVolumes n patches) \<and> s' = s \<and>
            (\<exists>node \<in> set nodes. as_str (jat node [''metadata'', ''name'']) = Some n \<and> node_verdict ns pod nodes state volumes node = Pass)) \<or>
         (s' = s \<and> (\<exists>e. r = Inl e) \<or> s' = s \<and> (\<exists>why. r = Inr (Unschedulable why)))"
proof -
  let ?f = "filter (\<lambda>n. node_verdict ns pod nodes state volumes n = Pass) nodes"
  have best: "best_node pod nodes state ?f \<in> set nodes \<and> node_verdict ns pod nodes state volumes (best_node pod nodes state ?f) = Pass" if "?f \<noteq> []"
    using best_node_feasible[OF that, of pod nodes state] by simp
  show ?thesis using assms best
    by (auto simp: schedule_pod_def Let_def simp del: jat_Cons filter_empty_conv split: option.splits prod.splits if_splits sum.splits)
qed

lemma place_pod_cases:
  assumes "place_pod io nodes volumes key object s = Some (s', ws, r)"
  shows "(\<exists>n path body. r = Inr (PlaceBind n path body) \<and> s' = reserve key object n False s \<and> bound_pod io object n = Some body \<and>
            chosen_well nodes key object s n) \<or>
         (\<exists>n patches. r = Inr (WaitingForVolumes n patches) \<and> s' = reserve key object n True s \<and> chosen_well nodes key object s n) \<or>
         s' = s \<and> (\<forall>p. r = Inr p \<longrightarrow> (\<exists>why. p = Unschedulable why))"
proof -
  from assms obtain c assumed where snap: "snapshot key s = Some (c, assumed)" by (auto simp: place_pod_def split: option.splits)
  define ns where "ns = (case assumed of Some m \<Rightarrow> filter (\<lambda>n. jat n [''metadata'', ''name''] = JStr m) nodes | None \<Rightarrow> nodes)"
  have well: "chosen_well nodes key object s n"
    if "\<exists>node \<in> set ns. as_str (jat node [''metadata'', ''name'']) = Some n \<and> node_verdict x object ns c volumes node = Pass" for n x
  proof -
    from that obtain node where node: "node \<in> set ns" "as_str (jat node [''metadata'', ''name'']) = Some n" "node_verdict x object ns c volumes node = Pass" by blast
    have "node \<in> set nodes" "\<forall>m. assumed = Some m \<longrightarrow> n = m" using node(1,2) by (auto simp: ns_def simp del: jat_Cons split: option.splits)
    with snap node show ?thesis unfolding chosen_well_def node_verdict_def or_else_Pass by blast
  qed
  from assms snap obtain s1 r1 where sp: "schedule_pod io (pod_namespace object) object ns c volumes key s = Some (s1, ws, r1)"
    and res: "(s', r) = (case r1 of Inr (WaitingForVolumes n ps) \<Rightarrow> (reserve key object n True s1, r1) | _ \<Rightarrow> (s1, r1))"
    unfolding ns_def by (auto simp: place_pod_def Let_def simp del: jat_Cons split: option.splits sum.splits placement.splits prod.splits)
  from schedule_pod_cases[OF sp] res show ?thesis
    by (elim disjE exE conjE) (auto dest!: well simp del: jat_Cons)
qed

lemma pod_pass_cases:
  assumes pass: "pod_pass io nodes volumes key object s = Some (s', ws, r)" and key: "key_of object = Some key"
  defines "s1 \<equiv> observe_new (False, key) object s"
  shows "s' = s1 \<and> r = None \<or>
         pending_workload False object \<and>
         (\<exists>n path body. r = Some (PlaceBind n path body) \<and> s' = reserve (False, key) object n False s1 \<and> bound_pod io object n = Some body \<and>
            chosen_well nodes (False, key) object s1 n) \<or>
         pending_workload False object \<and>
         (\<exists>n patches. r = Some (WaitingForVolumes n patches) \<and> s' = reserve (False, key) object n True s1 \<and> chosen_well nodes (False, key) object s1 n)"
proof -
  have o: "observe False None (Some object) s = s1" using key by (simp add: observe_def s1_def)
  consider "s' = s1 \<and> r = None" | x where "pending_workload False object" "place_pod io nodes volumes (False, key) object s1 = Some x"
      "(s', ws, r) = (case x of (s, ws, r) \<Rightarrow> case r of
                  Inl _ \<Rightarrow> (s, ws, None)
                | Inr (Unschedulable why) \<Rightarrow> (s, ws @ report_pod_scheduled_false io (pod_namespace object) object ''Unschedulable'' why True, None)
                | Inr p \<Rightarrow> (s, ws, Some p))"
    using pass unfolding pod_pass_def o Let_def by (auto split: if_splits)
  then show ?thesis
  proof cases
    case (2 x)
    obtain t us q where x: "x = (t, us, q)" by (metis prod_cases3)
    from place_pod_cases[OF 2(2)[unfolded x]] 2(1,3) x show ?thesis
      by (elim disjE exE conjE) (auto split: sum.splits placement.splits)
  qed simp
qed

end
