(* ===== verification/SchedRun.thy ===== *)
theory SchedRun
  imports Scheduler
begin

text \<open>
  A leader's term of the scheduler against the API server: pods are created, change, end and are
  deleted; the scheduler sees each pod's versions late and may skip some; its bind writes are answered
  late or never and may land long after they were sent. The steps are the critical sections of
  \<^verbatim>\<open>scheduling_loop\<close> and of the feed's callback in \<^verbatim>\<open>pkg/scheduler/src/scheduler.rs\<close>.
\<close>

section \<open>The system\<close>

text \<open>
  \<open>hist\<close> has every version of a pod the API server stored, the last one current; \<open>seen\<close> is the
  number of them the scheduler has seen, one more when it has seen the deletion. \<open>flight\<close> holds every
  bind write ever sent, with the position in the history of the version it was made from: a write
  whose answer was lost may still land. \<open>boot\<close> are the pods that existed when the term began.
\<close>

record sc_sys =
  hist :: "obj_key \<Rightarrow> json list"
  gone :: "obj_key set"
  seen :: "obj_key \<Rightarrow> nat"
  sst :: sched_state
  flight :: "(obj_key \<times> nat \<times> json) set"
  boot :: "obj_key set"

type_synonym node_caps = "u64 option \<times> u64 option \<times> nat option"

definition caps_of :: "json \<Rightarrow> node_caps" where
  "caps_of node = (alloc_cpu node, alloc_mem node, pods_limit node)"

text \<open>The nodes of a pass: named, and with the capacity the cluster's nodes have.\<close>

definition nodes_ok :: "(string \<Rightarrow> node_caps) \<Rightarrow> json list \<Rightarrow> bool" where
  "nodes_ok caps nodes \<longleftrightarrow> list_all (\<lambda>n. node_name_of n \<noteq> [] \<and> caps_of n = caps (node_name_of n)) nodes"

definition fresh_version :: "json list \<Rightarrow> json \<Rightarrow> bool" where
  "fresh_version h object \<longleftrightarrow> resource_version object \<notin> resource_version ` set h"

text \<open>What the API server stores of a body: its own version, the body's spec and status.\<close>

definition stored_as :: "json \<Rightarrow> json \<Rightarrow> bool" where
  "stored_as body object \<longleftrightarrow> key_of object = key_of body \<and> jidx object ''spec'' = jidx body ''spec'' \<and> jidx object ''status'' = jidx body ''status''"

definition bind_of :: "obj_key \<Rightarrow> nat \<Rightarrow> placement option \<Rightarrow> (obj_key \<times> nat \<times> json) set" where
  "bind_of k i r = (case r of Some (PlaceBind n path body) \<Rightarrow> {(k, i, body)} | _ \<Rightarrow> {})"

inductive sc_step :: "(string \<Rightarrow> node_caps) \<Rightarrow> sc_sys \<Rightarrow> sc_sys \<Rightarrow> bool" for caps where
  created: "hist s k = [] \<Longrightarrow> k \<notin> gone s \<Longrightarrow> key_of object = Some k \<Longrightarrow> pod_node_of object = None \<Longrightarrow>
    sc_step caps s (s\<lparr>hist := (hist s)(k := [object])\<rparr>)"
| updated: "hist s k \<noteq> [] \<Longrightarrow> k \<notin> gone s \<Longrightarrow> key_of object = Some k \<Longrightarrow> fresh_version (hist s k) object \<Longrightarrow>
    pod_node_of object = pod_node_of (last (hist s k)) \<Longrightarrow> pod_requests object = pod_requests (last (hist s k)) \<Longrightarrow>
    (pod_is_terminal (last (hist s k)) \<Longrightarrow> pod_is_terminal object) \<Longrightarrow>
    sc_step caps s (s\<lparr>hist := (hist s)(k := hist s k @ [object])\<rparr>)"
| deleted: "hist s k \<noteq> [] \<Longrightarrow> sc_step caps s (s\<lparr>gone := insert k (gone s)\<rparr>)"
| observed: "0 < j \<Longrightarrow> seen s k \<le> j \<Longrightarrow> j \<le> length (hist s k) \<Longrightarrow> old_obj = None \<or> Option.bind old_obj key_of = Some k \<Longrightarrow>
    sc_step caps s (s\<lparr>seen := (seen s)(k := j), sst := observe False old_obj (Some (hist s k ! (j - 1))) (sst s)\<rparr>)"
| observed_gone: "k \<in> gone s \<Longrightarrow> key_of object = Some k \<Longrightarrow>
    sc_step caps s (s\<lparr>seen := (seen s)(k := Suc (length (hist s k))), sst := observe False (Some object) None (sst s)\<rparr>)"
| pass: "(\<And>b. b \<in> boot s \<Longrightarrow> 0 < seen s b) \<Longrightarrow> nodes_ok caps nodes \<Longrightarrow>
    0 < j \<Longrightarrow> seen s k \<le> j \<Longrightarrow> j \<le> length (hist s k) \<Longrightarrow>
    pod_pass io nodes volumes k (hist s k ! (j - 1)) (sst s) = Some (st, ws, r) \<Longrightarrow>
    sc_step caps s (s\<lparr>seen := (seen s)(k := j), sst := st, flight := flight s \<union> bind_of k (j - 1) r\<rparr>)"
| landed: "(k, i, body) \<in> flight s \<Longrightarrow> k \<notin> gone s \<Longrightarrow> hist s k \<noteq> [] \<Longrightarrow>
    resource_version body = resource_version (last (hist s k)) \<Longrightarrow> stored_as body object \<Longrightarrow> fresh_version (hist s k) object \<Longrightarrow>
    sc_step caps s (s\<lparr>hist := (hist s)(k := hist s k @ [object])\<rparr>)"
| claims_failed: "(\<And>i body. (k, i, body) \<in> flight s \<Longrightarrow> Suc i \<noteq> seen s k) \<Longrightarrow>
    sc_step caps s (s\<lparr>sst := (sst s)\<lparr>ss_assumptions := AList.delete (False, k) (ss_assumptions (sst s))\<rparr>\<rparr>)"

section \<open>What is promised\<close>

text \<open>The pods the API server has on a node, and that they fit it.\<close>

definition bound_on :: "sc_sys \<Rightarrow> string \<Rightarrow> obj_key set" where
  "bound_on s n = {k. k \<notin> gone s \<and> hist s k \<noteq> [] \<and> \<not> pod_is_terminal (last (hist s k)) \<and> pod_node_of (last (hist s k)) = Some n}"

definition request :: "sc_sys \<Rightarrow> obj_key \<Rightarrow> u64 \<times> u64" where
  "request s k = pod_requests (last (hist s k))"

definition fits_in :: "node_caps \<Rightarrow> (obj_key \<Rightarrow> u64 \<times> u64) \<Rightarrow> obj_key set \<Rightarrow> bool" where
  "fits_in cap req K \<longleftrightarrow>
     (\<forall>c. fst cap = Some c \<longrightarrow> (\<Sum>k \<in> K. unat (fst (req k))) \<le> unat c) \<and>
     (\<forall>m. fst (snd cap) = Some m \<longrightarrow> (\<Sum>k \<in> K. unat (snd (req k))) \<le> unat m) \<and>
     (\<forall>l. snd (snd cap) = Some l \<longrightarrow> card K \<le> l)"

definition all_keys :: "sc_sys \<Rightarrow> obj_key set" where
  "all_keys s = {k. hist s k \<noteq> []}"

text \<open>The requests of all pods together, and their number, are below \<open>2 ^ 64\<close>.\<close>

definition small :: "sc_sys \<Rightarrow> bool" where
  "small s \<longleftrightarrow>
     (\<Sum>k \<in> all_keys s. unat (fst (request s k))) < 2 ^ 64 \<and>
     (\<Sum>k \<in> all_keys s. unat (snd (request s k))) < 2 ^ 64 \<and>
     card (all_keys s) < 2 ^ 64"

text \<open>A term begins with nothing seen and the nodes not overcommitted.\<close>

definition sc_init :: "(string \<Rightarrow> node_caps) \<Rightarrow> sc_sys \<Rightarrow> bool" where
  "sc_init caps s \<longleftrightarrow>
     finite (boot s) \<and> gone s = {} \<and> seen s = (\<lambda>_. 0) \<and> sst s = ss_default \<and> flight s = {} \<and>
     (\<forall>k. if k \<in> boot s then (\<exists>object. hist s k = [object] \<and> key_of object = Some k) else hist s k = []) \<and>
     (\<forall>n. fits_in (caps n) (request s) (bound_on s n))"

inductive sc_reach :: "(string \<Rightarrow> node_caps) \<Rightarrow> sc_sys \<Rightarrow> bool" for caps where
  init: "sc_init caps s \<Longrightarrow> sc_reach caps s"
| step: "sc_reach caps s \<Longrightarrow> sc_step caps s s' \<Longrightarrow> sc_reach caps s'"

section \<open>The invariant of one pod\<close>

definition hist_ok :: "obj_key \<Rightarrow> json list \<Rightarrow> bool" where
  "hist_ok k h \<longleftrightarrow>
     (\<forall>x \<in> set h. key_of x = Some k \<and> pod_requests x = pod_requests (last h)) \<and> distinct (map resource_version h) \<and>
     (\<forall>i j n. i \<le> j \<longrightarrow> j < length h \<longrightarrow> pod_node_of (h ! i) = Some n \<longrightarrow> pod_node_of (h ! j) = Some n) \<and>
     (\<forall>i j. i \<le> j \<longrightarrow> j < length h \<longrightarrow> pod_is_terminal (h ! i) \<longrightarrow> pod_is_terminal (h ! j))"

definition view_ok :: "json list \<Rightarrow> bool \<Rightarrow> nat \<Rightarrow> (string \<times> json) option \<Rightarrow> json option \<Rightarrow> assumption option \<Rightarrow> bool" where
  "view_ok h g sn pl pe am \<longleftrightarrow>
     (if 0 < sn \<and> sn \<le> length h
      then pl = placed_workload False (h ! (sn - 1)) \<and>
           pe = (if pending_workload False (h ! (sn - 1)) then Some (h ! (sn - 1)) else None) \<and>
           (\<forall>a. am = Some a \<longrightarrow> am_object a \<in> set h)
      else pl = None \<and> pe = None \<and> am = None \<and> (sn = 0 \<or> sn = Suc (length h) \<and> g))"

definition bind_ok :: "obj_key \<Rightarrow> json list \<Rightarrow> nat \<Rightarrow> assumption option \<Rightarrow> nat \<Rightarrow> json \<Rightarrow> bool" where
  "bind_ok k h sn am i body \<longleftrightarrow>
     i < length h \<and> i < sn \<and> resource_version body = resource_version (h ! i) \<and> pending_workload False (h ! i) \<and>
     \<not> pod_is_terminal body \<and> pod_requests body = pod_requests (last h) \<and> key_of body = Some k \<and>
     (\<exists>n. pod_node_of body = Some n \<and>
        (sn = Suc i \<longrightarrow> (\<exists>a. am = Some a \<and> am_node a = n \<and> (am_waiting a \<or> resource_version (am_object a) = resource_version (h ! i)))))"

definition bound_ok :: "json list \<Rightarrow> (nat \<times> json) set \<Rightarrow> bool \<Rightarrow> bool" where
  "bound_ok h fl b \<longleftrightarrow>
     (\<forall>i n. i < length h \<longrightarrow> pod_node_of (h ! i) = Some n \<longrightarrow>
        (b \<and> pod_node_of (h ! 0) = Some n) \<or>
        (\<exists>j body. (j, body) \<in> fl \<and> Suc j \<le> i \<and> pod_node_of body = Some n \<and> pod_node_of (h ! Suc j) = Some n))"

definition key_inv :: "obj_key \<Rightarrow> json list \<Rightarrow> bool \<Rightarrow> nat \<Rightarrow> (string \<times> json) option \<Rightarrow> json option \<Rightarrow> assumption option \<Rightarrow> (nat \<times> json) set \<Rightarrow> bool \<Rightarrow> bool" where
  "key_inv k h g sn pl pe am fl b \<longleftrightarrow>
     hist_ok k h \<and> view_ok h g sn pl pe am \<and> (\<forall>(i, body) \<in> fl. bind_ok k h sn am i body) \<and> bound_ok h fl b"

definition committed :: "json list \<Rightarrow> bool \<Rightarrow> (nat \<times> json) set \<Rightarrow> string \<Rightarrow> bool" where
  "committed h g fl n \<longleftrightarrow> \<not> g \<and> h \<noteq> [] \<and>
     (\<not> pod_is_terminal (last h) \<and> pod_node_of (last h) = Some n \<or> (\<exists>i body. (i, body) \<in> fl \<and> Suc i = length h \<and> pod_node_of body = Some n))"

definition flights :: "sc_sys \<Rightarrow> obj_key \<Rightarrow> (nat \<times> json) set" where
  "flights s k = {(i, body). (k, i, body) \<in> flight s}"

definition key_ok :: "sc_sys \<Rightarrow> obj_key \<Rightarrow> bool" where
  "key_ok s k \<longleftrightarrow>
     key_inv k (hist s k) (k \<in> gone s) (seen s k) (map_of (ss_placed (sst s)) (False, k)) (map_of (ss_pending (sst s)) (False, k))
       (map_of (ss_assumptions (sst s)) (False, k)) (flights s k) (k \<in> boot s)"

definition commit :: "sc_sys \<Rightarrow> string \<Rightarrow> obj_key set" where
  "commit s n = {k. committed (hist s k) (k \<in> gone s) (flights s k) n}"

definition books_ok :: "sched_state \<Rightarrow> bool" where
  "books_ok st \<longleftrightarrow> acct st \<and> maps_ok st \<and> pods_only st"

definition sc_inv :: "(string \<Rightarrow> node_caps) \<Rightarrow> sc_sys \<Rightarrow> bool" where
  "sc_inv caps s \<longleftrightarrow>
     (\<forall>k. key_ok s k) \<and> books_ok (sst s) \<and> finite (all_keys s) \<and> (\<forall>n. fits_in (caps n) (request s) (commit s n))"

section \<open>Steps of one pod\<close>

lemma hist_ok_append:
  assumes h: "hist_ok k h" "h \<noteq> []" and o: "key_of x = Some k" "pod_requests x = pod_requests (last h)" "fresh_version h x"
    and n: "\<And>n. pod_node_of (last h) = Some n \<Longrightarrow> pod_node_of x = Some n" and t: "pod_is_terminal (last h) \<Longrightarrow> pod_is_terminal x"
  shows "hist_ok k (h @ [x])"
proof -
  have l: "last h = h ! (length h - 1)" using h(2) by (rule last_conv_nth)
  have "pod_node_of ((h @ [x]) ! j) = Some m" if "i \<le> j" "j < length (h @ [x])" "pod_node_of ((h @ [x]) ! i) = Some m" for i j m
  proof (cases "j < length h")
    case True
    with that h(1) show ?thesis by (auto simp: hist_ok_def nth_append)
  next
    case False
    with that have j: "j = length h" by simp
    show ?thesis
    proof (cases "i < length h")
      case True
      then have "pod_node_of (h ! i) = Some m" "i \<le> length h - 1" "length h - 1 < length h" using that(3) h(2) by (auto simp: nth_append)
      then have "pod_node_of (last h) = Some m" using h(1) l unfolding hist_ok_def by metis
      then show ?thesis using n j by simp
    qed (use that j in \<open>simp add: nth_append\<close>)
  qed
  moreover have "pod_is_terminal ((h @ [x]) ! j)" if "i \<le> j" "j < length (h @ [x])" "pod_is_terminal ((h @ [x]) ! i)" for i j
  proof (cases "j < length h")
    case True
    with that h(1) show ?thesis by (auto simp: hist_ok_def nth_append)
  next
    case False
    with that have j: "j = length h" by simp
    show ?thesis
    proof (cases "i < length h")
      case True
      then have "pod_is_terminal (h ! i)" "i \<le> length h - 1" "length h - 1 < length h" using that(3) h(2) by (auto simp: nth_append)
      then have "pod_is_terminal (last h)" using h(1) l unfolding hist_ok_def by metis
      then show ?thesis using t j by simp
    qed (use that j in \<open>simp add: nth_append\<close>)
  qed
  ultimately show ?thesis using h(1) o by (simp add: hist_ok_def fresh_version_def)
qed

lemma hist_okD:
  assumes "hist_ok k h"
  shows "x \<in> set h \<Longrightarrow> key_of x = Some k" "x \<in> set h \<Longrightarrow> pod_requests x = pod_requests (last h)"
    "i \<le> j \<Longrightarrow> j < length h \<Longrightarrow> pod_node_of (h ! i) = Some n \<Longrightarrow> pod_node_of (h ! j) = Some n"
    "i \<le> j \<Longrightarrow> j < length h \<Longrightarrow> pod_is_terminal (h ! i) \<Longrightarrow> pod_is_terminal (h ! j)"
    "i < length h \<Longrightarrow> j < length h \<Longrightarrow> resource_version (h ! i) = resource_version (h ! j) \<Longrightarrow> i = j"
  using assms by (auto simp: hist_ok_def distinct_conv_nth)

lemma view_ok_append: "view_ok h g sn pl pe am \<Longrightarrow> \<not> g \<Longrightarrow> view_ok (h @ [x]) g sn pl pe am"
  by (auto simp: view_ok_def nth_append split: if_splits)

lemma bind_ok_append: "bind_ok k h sn am i body \<Longrightarrow> pod_requests x = pod_requests (last h) \<Longrightarrow> bind_ok k (h @ [x]) sn am i body"
  by (auto simp: bind_ok_def nth_append)

lemma bound_ok_append:
  assumes b: "bound_ok h fl b" "h \<noteq> []"
    and x: "\<And>n. pod_node_of x = Some n \<Longrightarrow> pod_node_of (last h) = Some n \<or> (\<exists>j body. (j, body) \<in> fl \<and> Suc j = length h \<and> pod_node_of body = Some n)"
  shows "bound_ok (h @ [x]) fl b"
  unfolding bound_ok_def
proof (intro allI impI)
  fix i n assume i: "i < length (h @ [x])" and n: "pod_node_of ((h @ [x]) ! i) = Some n"
  have old: "b \<and> pod_node_of ((h @ [x]) ! 0) = Some n \<or>
      (\<exists>j body. (j, body) \<in> fl \<and> Suc j \<le> i' \<and> pod_node_of body = Some n \<and> pod_node_of ((h @ [x]) ! Suc j) = Some n)"
    if "i' < length h" "pod_node_of (h ! i') = Some n" for i'
  proof -
    from b(1) that consider "b" "pod_node_of (h ! 0) = Some n" |
      j body where "(j, body) \<in> fl" "Suc j \<le> i'" "pod_node_of body = Some n" "pod_node_of (h ! Suc j) = Some n" unfolding bound_ok_def by metis
    then show ?thesis
    proof cases
      case 1
      with b(2) show ?thesis by (simp add: nth_append)
    next
      case 2
      with that have "pod_node_of ((h @ [x]) ! Suc j) = Some n" by (simp add: nth_append)
      with 2 show ?thesis by blast
    qed
  qed
  show "b \<and> pod_node_of ((h @ [x]) ! 0) = Some n \<or>
      (\<exists>j body. (j, body) \<in> fl \<and> Suc j \<le> i \<and> pod_node_of body = Some n \<and> pod_node_of ((h @ [x]) ! Suc j) = Some n)"
  proof (cases "i < length h")
    case True
    with n old[of i] show ?thesis by (simp add: nth_append)
  next
    case False
    with i have i: "i = length h" by simp
    with n have "pod_node_of x = Some n" by simp
    from x[OF this] consider "pod_node_of (last h) = Some n" | j body where "(j, body) \<in> fl" "Suc j = length h" "pod_node_of body = Some n" by blast
    then show ?thesis
    proof cases
      case 1
      then have l: "pod_node_of (h ! (length h - 1)) = Some n" "length h - 1 < length h" using b(2) by (simp_all add: last_conv_nth)
      from old[OF l(2,1)] i show ?thesis by (meson diff_le_self order_trans)
    next
      case 2
      then have "Suc j \<le> i" "pod_node_of ((h @ [x]) ! Suc j) = Some n" using i n by simp_all
      with 2 show ?thesis by blast
    qed
  qed
qed

text \<open>Appending a version keeps the pod's invariant and promises nothing new.\<close>

lemma key_inv_append:
  assumes inv: "key_inv k h g sn pl pe am fl b" and h: "h \<noteq> []" "\<not> g"
    and o: "key_of x = Some k" "pod_requests x = pod_requests (last h)" "fresh_version h x"
    and n: "\<And>n. pod_node_of (last h) = Some n \<Longrightarrow> pod_node_of x = Some n" and t: "pod_is_terminal (last h) \<Longrightarrow> pod_is_terminal x"
    and b: "\<And>n. pod_node_of x = Some n \<Longrightarrow> pod_node_of (last h) = Some n \<or> (\<exists>j body. (j, body) \<in> fl \<and> Suc j = length h \<and> pod_node_of body = Some n)"
  shows "key_inv k (h @ [x]) g sn pl pe am fl b" and "committed (h @ [x]) g fl n \<Longrightarrow> committed h g fl n"
proof -
  from inv have i: "hist_ok k h" "view_ok h g sn pl pe am" "\<forall>(i, body) \<in> fl. bind_ok k h sn am i body" "bound_ok h fl b" by (simp_all add: key_inv_def)
  show "key_inv k (h @ [x]) g sn pl pe am fl b"
    unfolding key_inv_def using hist_ok_append[OF i(1) h(1) o n t] view_ok_append[OF i(2) h(2)] bind_ok_append[OF _ o(2)] i(3)
      bound_ok_append[OF i(4) h(1) b] by blast
  assume c: "committed (h @ [x]) g fl n"
  have "\<not> ((j, body) \<in> fl \<and> Suc j = length (h @ [x]))" for j body using i(3) by (fastforce simp: bind_ok_def)
  then have "\<not> pod_is_terminal x" "pod_node_of x = Some n" using c unfolding committed_def by auto
  then show "committed h g fl n" using b[of n] t h unfolding committed_def by blast
qed

definition after_seen :: "json \<Rightarrow> assumption option \<Rightarrow> assumption option" where
  "after_seen x am = (case am of Some a \<Rightarrow> if keeps_assumption False x a then Some a else None | None \<Rightarrow> None)"

lemma key_inv_observe:
  assumes inv: "key_inv k h g sn pl pe am fl b" and j: "0 < j" "sn \<le> j" "j \<le> length h"
  defines "x \<equiv> h ! (j - 1)"
  shows "key_inv k h g j (placed_workload False x) (if pending_workload False x then Some x else None) (after_seen x am) fl b"
proof -
  from inv have i: "hist_ok k h" "view_ok h g sn pl pe am" "\<forall>(i, body) \<in> fl. bind_ok k h sn am i body" "bound_ok h fl b" by (simp_all add: key_inv_def)
  have "am_object a \<in> set h" if "am = Some a" for a using i(2) that j by (auto simp: view_ok_def split: if_splits)
  then have v: "view_ok h g j (placed_workload False x) (if pending_workload False x then Some x else None) (after_seen x am)"
    using j by (auto simp: view_ok_def x_def after_seen_def split: option.splits if_splits)
  have "bind_ok k h j (after_seen x am) i body" if "(i, body) \<in> fl" for i body
  proof -
    from i(3) that have f: "bind_ok k h sn am i body" by blast
    then obtain n where n: "pod_node_of body = Some n"
      "sn = Suc i \<Longrightarrow> (\<exists>a. am = Some a \<and> am_node a = n \<and> (am_waiting a \<or> resource_version (am_object a) = resource_version (h ! i)))"
      unfolding bind_ok_def by blast
    have "\<exists>a. after_seen x am = Some a \<and> am_node a = n \<and> (am_waiting a \<or> resource_version (am_object a) = resource_version (h ! i))" if e: "j = Suc i"
    proof -
      have sn: "sn = Suc i" using f e j(2) by (simp add: bind_ok_def)
      from n(2)[OF sn] obtain a where a: "am = Some a" "am_node a = n" "am_waiting a \<or> resource_version (am_object a) = resource_version (h ! i)" by blast
      have "keeps_assumption False x a" using a(3) f e by (auto simp: keeps_assumption_def bind_ok_def x_def)
      with a show ?thesis by (simp add: after_seen_def)
    qed
    moreover have "i < j" using f j(2) by (simp add: bind_ok_def)
    ultimately show ?thesis using f n(1) unfolding bind_ok_def by blast
  qed
  with i v show ?thesis by (auto simp: key_inv_def)
qed

lemma key_inv_remove: "key_inv k h g sn pl pe am fl b \<Longrightarrow> g \<Longrightarrow> key_inv k h g (Suc (length h)) None None None fl b"
proof -
  assume inv: "key_inv k h g sn pl pe am fl b" and g
  have "bind_ok k h sn am i body \<Longrightarrow> bind_ok k h (Suc (length h)) None i body" for i body by (auto simp: bind_ok_def)
  moreover have "view_ok h g (Suc (length h)) None None None" using \<open>g\<close> by (simp add: view_ok_def)
  ultimately show ?thesis using inv unfolding key_inv_def by blast
qed

text \<open>Reserving the node of the binds in flight for the version last seen.\<close>

lemma key_inv_reserve:
  assumes inv: "key_inv k h g j pl pe am fl b" and j: "0 < j" "j \<le> length h"
    and n: "\<And>a. am = Some a \<Longrightarrow> n = am_node a"
  shows "key_inv k h g j pl pe (Some \<lparr>am_node = n, am_object = h ! (j - 1), am_waiting = w\<rparr>) fl b"
proof -
  from inv have i: "hist_ok k h" "view_ok h g j pl pe am" "\<forall>(i, body) \<in> fl. bind_ok k h j am i body" "bound_ok h fl b" by (simp_all add: key_inv_def)
  have v: "view_ok h g j pl pe (Some \<lparr>am_node = n, am_object = h ! (j - 1), am_waiting = w\<rparr>)" using i(2) j by (auto simp: view_ok_def)
  have "bind_ok k h j (Some \<lparr>am_node = n, am_object = h ! (j - 1), am_waiting = w\<rparr>) i body" if "(i, body) \<in> fl" for i body
  proof -
    have f: "bind_ok k h j am i body" using i(3) that by blast
    then obtain m where m: "pod_node_of body = Some m" "j = Suc i \<longrightarrow> (\<exists>a. am = Some a \<and> am_node a = m)" unfolding bind_ok_def by blast
    with f n show ?thesis by (auto simp: bind_ok_def)
  qed
  with i v show ?thesis by (auto simp: key_inv_def)
qed

lemma key_inv_bind:
  assumes inv: "key_inv k h g j pl pe am fl b" and j: "0 < j" "j \<le> length h"
    and am: "am = Some a" "am_node a = n" "am_object a = h ! (j - 1)"
    and p: "pending_workload False (h ! (j - 1))" and body: "bound_pod io (h ! (j - 1)) n = Some body" and n: "n \<noteq> []"
  shows "key_inv k h g j pl pe am (insert (j - 1, body) fl) b" and "pod_node_of body = Some n"
proof -
  note spec = bound_pod_spec[OF body]
  from inv have i: "hist_ok k h" "view_ok h g j pl pe am" "\<forall>(i, body) \<in> fl. bind_ok k h j am i body" "bound_ok h fl b" by (simp_all add: key_inv_def)
  have x: "h ! (j - 1) \<in> set h" using j by simp
  show node: "pod_node_of body = Some n" using spec(2) n by (simp add: pod_node_of_def non_empty_def del: jat_Cons)
  have "\<not> pod_is_terminal body" using spec(3) by (simp add: pod_is_terminal_def del: jat_Cons)
  then have "bind_ok k h j am (j - 1) body"
    using j p am node spec(1) same_identity_spec[OF spec(4)] hist_okD(1,2)[OF i(1) x] by (simp add: bind_ok_def)
  moreover have "bound_ok h (insert (j - 1, body) fl) b" using i(4) unfolding bound_ok_def by blast
  ultimately show "key_inv k h g j pl pe am (insert (j - 1, body) fl) b" using i by (simp add: key_inv_def)
qed

section \<open>The books\<close>

lemma observe_version:
  "key_of x = Some k \<Longrightarrow> old_obj = None \<or> Option.bind old_obj key_of = Some k \<Longrightarrow> observe False old_obj (Some x) st = observe_new (False, k) x st"
  by (auto simp: observe_def split: option.splits)

lemma observe_deletion: "key_of x = Some k \<Longrightarrow> observe False (Some x) None st = ss_remove (False, k) st"
  by (simp add: observe_def)

lemma pods_only_observe_new: "pods_only st \<Longrightarrow> pods_only (observe_new (False, k) x st)"
proof -
  assume p: "pods_only st"
  have "migration_target False x = None" by (simp add: migration_target_def)
  then have "ss_targets (observe_new (False, k) x st) = [] \<and> ss_target_assumptions (observe_new (False, k) x st) = []"
    using p by (simp add: observe_new_def Let_def observe_target_def drop_target_def pods_only_def)
  with p show ?thesis
    unfolding pods_only_def observe_new_placed observe_new_assumptions observe_new_pending
    by (metis (no_types, lifting) fst_conv fun_upd_apply)
qed

lemma pods_only_remove: "pods_only st \<Longrightarrow> pods_only (ss_remove k st)"
proof -
  assume p: "pods_only st"
  then have "ss_targets (ss_remove k st) = [] \<and> ss_target_assumptions (ss_remove k st) = []"
    by (simp add: ss_remove_def drop_target_def pods_only_def)
  with p show ?thesis unfolding pods_only_def remove_lookups by (metis fun_upd_apply)
qed

lemma books_observe_new: "books_ok st \<Longrightarrow> books_ok (observe_new (False, k) x st)"
  by (simp add: books_ok_def acct_observe_new maps_ok_observe_new pods_only_observe_new)

lemma books_remove: "books_ok st \<Longrightarrow> books_ok (ss_remove k st)"
  by (simp add: books_ok_def acct_remove maps_ok_remove pods_only_remove)

lemma reserve_lookup [simp]:
  "map_of (ss_assumptions (reserve k x n w st)) = (map_of (ss_assumptions st))(k \<mapsto> \<lparr>am_node = n, am_object = x, am_waiting = w\<rparr>)"
  "ss_placed (reserve k x n w st) = ss_placed st" "ss_pending (reserve k x n w st) = ss_pending st"
  by (simp_all add: reserve_def update_conv')

lemma books_reserve: "books_ok st \<Longrightarrow> books_ok (reserve (False, k) x n w st)"
proof -
  assume b: "books_ok st"
  then have "acct (reserve (False, k) x n w st)" "maps_ok (reserve (False, k) x n w st)"
    by (simp_all add: books_ok_def acct_def maps_ok_reserve) (simp_all add: reserve_def)
  moreover have "ss_targets (reserve (False, k) x n w st) = ss_targets st" "ss_target_assumptions (reserve (False, k) x n w st) = ss_target_assumptions st"
    by (simp_all add: reserve_def)
  then have "pods_only (reserve (False, k) x n w st)"
    using b unfolding books_ok_def pods_only_def reserve_lookup by (metis fst_conv fun_upd_apply)
  ultimately show ?thesis by (simp add: books_ok_def)
qed

lemma books_drop_assumption: "books_ok st \<Longrightarrow> books_ok (st\<lparr>ss_assumptions := AList.delete k (ss_assumptions st)\<rparr>)"
proof -
  assume b: "books_ok st"
  let ?st = "st\<lparr>ss_assumptions := AList.delete k (ss_assumptions st)\<rparr>"
  have "acct ?st" "maps_ok ?st" using b by (simp_all add: books_ok_def acct_def maps_ok_def distinct_delete)
  moreover have "map_of (ss_assumptions ?st) = (map_of (ss_assumptions st))(k := None)" "ss_placed ?st = ss_placed st" "ss_pending ?st = ss_pending st"
    "ss_targets ?st = ss_targets st" "ss_target_assumptions ?st = ss_target_assumptions st"
    by (simp_all add: map_of_delete_if)
  then have "pods_only ?st" using b unfolding books_ok_def pods_only_def by (metis fun_upd_apply)
  ultimately show "books_ok ?st" by (simp add: books_ok_def)
qed

section \<open>What a node's account is worth\<close>

definition charged_on :: "(schedule_key \<times> (string \<times> json)) list \<Rightarrow> string \<Rightarrow> obj_key set" where
  "charged_on ch n = {k. \<exists>p. ((False, k), (n, p)) \<in> set ch}"

lemma charged_on_simps:
  "charged_on [] n = {}"
  "charged_on (((False, k), (m, p)) # ch) n = (if m = n then insert k (charged_on ch n) else charged_on ch n)"
  by (auto simp: charged_on_def)

lemma finite_charged_on [simp]: "finite (charged_on ch n)"
proof -
  have "charged_on ch n \<subseteq> snd ` fst ` set ch" by (force simp: charged_on_def)
  then show ?thesis by (rule finite_subset) simp
qed

lemma unat_plus64: "unat ((a :: u64) + b) = (unat a + unat b) mod 2 ^ 64"
  by (simp add: unat_word_ariths)

lemma usage_sums:
  assumes "distinct (map fst ch)" "\<forall>e \<in> set ch. \<not> fst (fst e) \<and> pod_requests (snd (snd e)) = req (snd (fst e))"
  shows "unat (nu_cpu (usage_of ch n)) = (\<Sum>k \<in> charged_on ch n. unat (fst (req k))) mod 2 ^ 64 \<and>
         unat (nu_mem (usage_of ch n)) = (\<Sum>k \<in> charged_on ch n. unat (snd (req k))) mod 2 ^ 64 \<and>
         unat (nu_pods (usage_of ch n)) = card (charged_on ch n) mod 2 ^ 64"
  using assms
proof (induction ch rule: usage_of.induct)
  case 1
  then show ?case by (simp add: charged_on_simps no_usage_def)
next
  case (2 key m p ch)
  obtain k where key: "key = (False, k)" using "2.prems"(2) by (cases key) auto
  have r: "pod_requests p = req k" using "2.prems"(2) key by simp
  obtain c d where cd: "req k = (c, d)" by force
  have ih: "unat (nu_cpu (usage_of ch n)) = (\<Sum>k \<in> charged_on ch n. unat (fst (req k))) mod 2 ^ 64"
      "unat (nu_mem (usage_of ch n)) = (\<Sum>k \<in> charged_on ch n. unat (snd (req k))) mod 2 ^ 64"
      "unat (nu_pods (usage_of ch n)) = card (charged_on ch n) mod 2 ^ 64"
    using 2 by simp_all
  show ?case
  proof (cases "m = n")
    case True
    have "k \<notin> charged_on ch n"
    proof
      assume "k \<in> charged_on ch n"
      then have "(False, k) \<in> fst ` set ch" by (force simp: charged_on_def)
      with "2.prems"(1) key show False by simp
    qed
    then show ?thesis using True key r cd ih
      by (simp add: charged_on_simps charge_def slot_def unat_plus64 mod_simps add.commute)
  next
    case False
    then show ?thesis using key r cd ih by (simp add: charged_on_simps charge_def)
  qed
qed

lemma pods_limit_lt: "pods_limit node = Some l \<Longrightarrow> l < 2 ^ 64"
proof -
  have "as_u64 v = Some l \<Longrightarrow> l < 2 ^ 64" for v by (cases v rule: as_u64.cases) (auto split: if_splits)
  then show "pods_limit node = Some l \<Longrightarrow> l < 2 ^ 64"
    by (auto simp: pods_limit_def parse_uint_def Let_def simp del: as_u64.simps split: json.splits if_splits)
qed

text \<open>A pod that passes the filters over an account that covers a node's promises fits beside them.\<close>

lemma fit_beside:
  assumes cov: "(\<Sum>x \<in> K. unat (fst (req x))) \<le> unat (nu_cpu used)" "(\<Sum>x \<in> K. unat (snd (req x))) \<le> unat (nu_mem used)" "card K \<le> unat (nu_pods used)"
    and old: "fits_in (caps_of node) req K" and fin: "finite K" "k \<notin> K" and req: "req k = pod_requests pod"
    and f: "resource_fit_filter pod node used = Pass" "pod_count_filter node used = Pass"
  shows "fits_in (caps_of node) req (insert k K)"
proof -
  obtain cpu mem where r: "pod_requests pod = (cpu, mem)" by force
  have add: "S + unat r \<le> unat a" if "r = 0 \<or> unat u + unat r \<le> unat a" "S \<le> unat u" "S \<le> unat a" for S and r u a :: u64
    using that by auto
  from f(1) r have c: "alloc_cpu node = Some a \<Longrightarrow> cpu = 0 \<or> unat (nu_cpu used) + unat cpu \<le> unat a"
    and m: "alloc_mem node = Some a \<Longrightarrow> mem = 0 \<or> unat (nu_mem used) + unat mem \<le> unat a" for a
    by (auto simp: resource_fit_Pass le_sat_sub)
  have "card K + 1 \<le> l" if "pods_limit node = Some l" for l
  proof -
    have "nu_pods used < of_nat l" using f(2) that by (simp add: pod_count_Pass)
    then have "unat (nu_pods used) < l" using pods_limit_lt[OF that] by (simp add: word_less_nat_alt unat_of_nat)
    with cov(3) show ?thesis by simp
  qed
  with old fin req r add[OF c cov(1)] add[OF m cov(2)] show ?thesis
    by (auto simp: fits_in_def caps_of_def add.commute)
qed

section \<open>The snapshot covers every promise\<close>

lemma promised:
  assumes inv: "key_inv k h g sn pl pe am fl b" and c: "committed h g fl n" and b: "b \<Longrightarrow> 0 < sn"
  shows "(\<exists>p. pl = Some (n, p)) \<or> (pl = None \<and> (\<exists>a. am = Some a \<and> am_node a = n))"
proof -
  from inv have i: "hist_ok k h" "view_ok h g sn pl pe am" "\<And>i body. (i, body) \<in> fl \<Longrightarrow> bind_ok k h sn am i body" "bound_ok h fl b"
    by (auto simp: key_inv_def)
  from c have h: "h \<noteq> []" "\<not> g" by (simp_all add: committed_def)
  have last: "last h = h ! (length h - 1)" "length h - 1 < length h" using h by (simp_all add: last_conv_nth)
  have view: "pl = placed_workload False (h ! (sn - 1))" "sn - 1 < length h" "sn - 1 \<le> length h - 1" if "0 < sn"
    using i(2) h that by (auto simp: view_ok_def split: if_splits)
  have seen_bind: "pl = None \<and> (\<exists>a. am = Some a \<and> am_node a = n)" if "(j, body) \<in> fl" "pod_node_of body = Some n" "sn = Suc j" for j body
  proof -
    from i(3)[OF that(1)] that(2,3) have "\<exists>a. am = Some a \<and> am_node a = n" "pending_workload False (h ! j)" by (auto simp: bind_ok_def)
    with view(1) that(3) show ?thesis by (auto simp: placed_workload_def pending_workload_def split: if_splits)
  qed
  from c consider "\<not> pod_is_terminal (last h)" "pod_node_of (last h) = Some n" | j body where "(j, body) \<in> fl" "Suc j = length h" "pod_node_of body = Some n"
    unfolding committed_def by blast
  then show ?thesis
  proof cases
    case 1
    from i(4) 1(2) last consider "b" "pod_node_of (h ! 0) = Some n" |
      j body where "(j, body) \<in> fl" "pod_node_of body = Some n" "pod_node_of (h ! Suc j) = Some n" unfolding bound_ok_def by metis
    moreover have "j < sn" if "(j, body) \<in> fl" for j body using i(3)[OF that] by (simp add: bind_ok_def)
    ultimately have pos: "0 < sn" using b by cases (simp, fastforce)
    note v = view[OF pos]
    have nt: "\<not> pod_is_terminal (h ! (sn - 1))" using hist_okD(4)[OF i(1) v(3) last(2)] 1(1) last(1) by auto
    show ?thesis
    proof (cases "pod_node_of (h ! (sn - 1))")
      case (Some m)
      then have "m = n" using hist_okD(3)[OF i(1) v(3) last(2)] 1(2) last(1) by auto
      with Some nt v(1) show ?thesis by (simp add: placed_workload_def)
    next
      case None
      from i(4) 1(2) last consider "pod_node_of (h ! 0) = Some n" |
        j body where "(j, body) \<in> fl" "pod_node_of body = Some n" "pod_node_of (h ! Suc j) = Some n" unfolding bound_ok_def by metis
      then show ?thesis
      proof cases
        case 1
        with hist_okD(3)[OF i(1) _ v(2)] None show ?thesis by fastforce
      next
        case 2
        have "\<not> Suc j \<le> sn - 1" using hist_okD(3)[OF i(1) _ v(2) 2(3)] None by auto
        moreover have "j < sn" using i(3)[OF 2(1)] by (simp add: bind_ok_def)
        ultimately have "sn = Suc j" by linarith
        with seen_bind 2 show ?thesis by blast
      qed
    qed
  next
    case 2
    have "j < sn" using i(3)[OF 2(1)] by (simp add: bind_ok_def)
    moreover have "sn \<le> length h" using i(2) h by (auto simp: view_ok_def split: if_splits)
    ultimately show ?thesis using seen_bind 2 by simp
  qed
qed

lemma key_view:
  assumes "key_ok s k"
  shows "map_of (ss_placed (sst s)) (False, k) = Some e \<Longrightarrow> snd e \<in> set (hist s k)"
    "map_of (ss_assumptions (sst s)) (False, k) = Some a \<Longrightarrow> am_object a \<in> set (hist s k)"
    "map_of (ss_pending (sst s)) (False, k) = Some q \<Longrightarrow> q \<in> set (hist s k) \<and> map_of (ss_placed (sst s)) (False, k) = None"
    "x \<in> set (hist s k) \<Longrightarrow> pod_requests x = request s k"
proof -
  let ?h = "hist s k" let ?x = "?h ! (seen s k - 1)"
  from assms have h: "hist_ok k ?h" and v: "view_ok ?h (k \<in> gone s) (seen s k) (map_of (ss_placed (sst s)) (False, k))
      (map_of (ss_pending (sst s)) (False, k)) (map_of (ss_assumptions (sst s)) (False, k))"
    by (simp_all add: key_ok_def key_inv_def)
  have x: "0 < seen s k \<and> seen s k \<le> length ?h \<Longrightarrow> ?x \<in> set ?h" by (auto intro: nth_mem)
  show "map_of (ss_placed (sst s)) (False, k) = Some e \<Longrightarrow> snd e \<in> set (hist s k)"
  proof -
    assume e: "map_of (ss_placed (sst s)) (False, k) = Some e"
    then have "0 < seen s k \<and> seen s k \<le> length ?h" "placed_workload False ?x = Some e" using v by (auto simp: view_ok_def split: if_splits)
    moreover from this(2) have "snd e = ?x" by (auto simp: placed_workload_def split: if_splits)
    ultimately show ?thesis using x by simp
  qed
  show "map_of (ss_assumptions (sst s)) (False, k) = Some a \<Longrightarrow> am_object a \<in> set (hist s k)"
    using v by (auto simp: view_ok_def split: if_splits)
  show "map_of (ss_pending (sst s)) (False, k) = Some q \<Longrightarrow> q \<in> set (hist s k) \<and> map_of (ss_placed (sst s)) (False, k) = None"
    using v x by (auto simp: view_ok_def placed_workload_def pending_workload_def split: if_splits)
  show "x \<in> set (hist s k) \<Longrightarrow> pod_requests x = request s k" using hist_okD(2)[OF h] by (simp add: request_def)
qed

lemma finite_commit: "sc_inv caps s \<Longrightarrow> commit s n \<subseteq> all_keys s \<and> finite (commit s n)"
  by (auto simp: sc_inv_def commit_def committed_def all_keys_def intro: finite_subset)

lemma snapshot_covers:
  assumes inv: "sc_inv caps s" and sm: "small s" and boot: "\<And>b. b \<in> boot s \<Longrightarrow> 0 < seen s b"
    and snap: "snapshot (False, k) (sst s) = Some (c, assumed)" and k: "k \<notin> commit s n"
  shows "(\<Sum>x \<in> commit s n. unat (fst (request s x))) \<le> unat (nu_cpu (cs_usage c n))"
    "(\<Sum>x \<in> commit s n. unat (snd (request s x))) \<le> unat (nu_mem (cs_usage c n))"
    "card (commit s n) \<le> unat (nu_pods (cs_usage c n))"
proof -
  from inv have ok: "\<And>k. key_ok s k" and bk: "acct (sst s)" "maps_ok (sst s)" "pods_only (sst s)" and fin: "finite (all_keys s)"
    by (simp_all add: sc_inv_def books_ok_def)
  have dis: "map_of (ss_placed (sst s)) x = None" if q: "map_of (ss_pending (sst s)) x \<noteq> None" for x
  proof -
    from q obtain y where y: "map_of (ss_pending (sst s)) x = Some y" by blast
    from pods_onlyD(3)[OF bk(3) y] obtain k' where "x = (False, k')" by (cases x) auto
    with y key_view(3)[OF ok, of k' y] show ?thesis by simp
  qed
  from snapshot_spec(2)[OF snap bk dis] obtain ch where ch: "cs_usage c = usage_of ch" "distinct (map fst ch)"
    "\<forall>e \<in> set ch. \<not> fst (fst e) \<and>
         (map_of (ss_placed (sst s)) (fst e) = Some (snd e) \<or>
          (\<exists>a. map_of (ss_assumptions (sst s)) (fst e) = Some a \<and> pod_requests (snd (snd e)) = pod_requests (am_object a)) \<or>
          (\<exists>q. map_of (ss_pending (sst s)) (fst e) = Some q \<and> pod_requests (snd (snd e)) = pod_requests q))"
    "\<And>k e. map_of (ss_placed (sst s)) k = Some e \<Longrightarrow> (k, e) \<in> set ch"
    "\<And>k' a. k' \<noteq> (False, k) \<Longrightarrow> map_of (ss_placed (sst s)) k' = None \<Longrightarrow> map_of (ss_assumptions (sst s)) k' = Some a \<Longrightarrow> \<exists>p. (k', (am_node a, p)) \<in> set ch"
    by blast
  have entry: "\<not> fst (fst e) \<and> pod_requests (snd (snd e)) = request s (snd (fst e)) \<and> hist s (snd (fst e)) \<noteq> []" if "e \<in> set ch" for e
  proof -
    from ch(3) that have f: "fst e = (False, snd (fst e))" by (metis prod.collapse)
    let ?k = "snd (fst e)"
    from ch(3) that f consider "map_of (ss_placed (sst s)) (False, ?k) = Some (snd e)" |
      a where "map_of (ss_assumptions (sst s)) (False, ?k) = Some a" "pod_requests (snd (snd e)) = pod_requests (am_object a)" |
      q where "map_of (ss_pending (sst s)) (False, ?k) = Some q" "pod_requests (snd (snd e)) = pod_requests q" by metis
    then obtain x where "x \<in> set (hist s ?k)" "pod_requests (snd (snd e)) = pod_requests x"
      by cases (use key_view[OF ok] in metis)+
    with key_view(4)[OF ok] ch(3) that show ?thesis by (metis empty_iff empty_set)
  qed
  have sub: "charged_on ch n \<subseteq> all_keys s" using entry by (fastforce simp: charged_on_def all_keys_def)
  have cov: "commit s n \<subseteq> charged_on ch n"
  proof
    fix x assume x: "x \<in> commit s n"
    then have ne: "(False, x) \<noteq> (False, k)" using k by auto
    from promised[OF ok[unfolded key_ok_def] _ boot] x
    have "(\<exists>p. map_of (ss_placed (sst s)) (False, x) = Some (n, p)) \<or>
      (map_of (ss_placed (sst s)) (False, x) = None \<and> (\<exists>a. map_of (ss_assumptions (sst s)) (False, x) = Some a \<and> am_node a = n))"
      by (simp add: commit_def)
    then show "x \<in> charged_on ch n" using ch(4) ch(5)[OF ne] unfolding charged_on_def by blast
  qed
  have sums: "(\<Sum>x \<in> charged_on ch n. f x) \<le> (\<Sum>x \<in> all_keys s. f x)" "(\<Sum>x \<in> commit s n. f x) \<le> (\<Sum>x \<in> charged_on ch n. f x)" for f :: "obj_key \<Rightarrow> nat"
    using sub cov fin by (auto intro: sum_mono2)
  have cards: "card (charged_on ch n) \<le> card (all_keys s)" "card (commit s n) \<le> card (charged_on ch n)"
    using sub cov fin by (auto intro: card_mono)
  have small: "(\<Sum>x \<in> charged_on ch n. unat (fst (request s x))) < 2 ^ 64" "(\<Sum>x \<in> charged_on ch n. unat (snd (request s x))) < 2 ^ 64"
    "card (charged_on ch n) < 2 ^ 64"
    using sm sums(1)[of "\<lambda>x. unat (fst (request s x))"] sums(1)[of "\<lambda>x. unat (snd (request s x))"] cards(1) unfolding small_def by linarith+
  from usage_sums[OF ch(2), of "request s" n] entry
  have u: "unat (nu_cpu (usage_of ch n)) = (\<Sum>x \<in> charged_on ch n. unat (fst (request s x))) mod 2 ^ 64"
    "unat (nu_mem (usage_of ch n)) = (\<Sum>x \<in> charged_on ch n. unat (snd (request s x))) mod 2 ^ 64"
    "unat (nu_pods (usage_of ch n)) = card (charged_on ch n) mod 2 ^ 64" by blast+
  show "(\<Sum>x \<in> commit s n. unat (fst (request s x))) \<le> unat (nu_cpu (cs_usage c n))"
    "(\<Sum>x \<in> commit s n. unat (snd (request s x))) \<le> unat (nu_mem (cs_usage c n))"
    "card (commit s n) \<le> unat (nu_pods (cs_usage c n))"
    unfolding ch(1) u using sums(2) cards(2) small by (simp_all add: mod_less)
qed

lemma pass_fits:
  assumes inv: "sc_inv caps s" and sm: "small s" and boot: "\<And>b. b \<in> boot s \<Longrightarrow> 0 < seen s b"
    and well: "chosen_well nodes (False, k) x (sst s) n" and nodes: "nodes_ok caps nodes" and x: "x \<in> set (hist s k)"
  shows "fits_in (caps n) (request s) (insert k (commit s n))"
proof (cases "k \<in> commit s n")
  case True
  then show ?thesis using inv by (simp add: sc_inv_def insert_absorb)
next
  case False
  from well obtain c assumed node ns where w: "snapshot (False, k) (sst s) = Some (c, assumed)" "node \<in> set nodes" "as_str (jat node [''metadata'', ''name'']) = Some n"
    "run_filters x node (cs_used c node) c ns = Pass" "pod_count_filter node (cs_used c node) = Pass" unfolding chosen_well_def by blast
  have name: "node_name_of node = n" using w(3) by (simp add: node_name_of_def str_or_def del: jat_Cons)
  then have caps: "caps_of node = caps n" using nodes w(2) by (auto simp: nodes_ok_def list_all_iff)
  have used: "cs_used c node = cs_usage c n" using name by (simp add: cs_used_def)
  from w(4) have fit: "resource_fit_filter x node (cs_usage c n) = Pass" unfolding used by (simp add: run_filters_def)
  have req: "request s k = pod_requests x" using key_view(4)[OF _ x] inv by (simp add: sc_inv_def)
  have "fits_in (caps_of node) (request s) (insert k (commit s n))"
    by (rule fit_beside[OF snapshot_covers[OF inv sm boot w(1) False] _ _ False req fit w(5)[unfolded used]])
      (use inv caps finite_commit[OF inv] in \<open>auto simp: sc_inv_def\<close>)
  then show ?thesis by (simp add: caps)
qed

section \<open>Every step keeps the invariant\<close>

lemma fits_in_mono:
  assumes f: "fits_in cap req K" and K: "K' \<subseteq> K" "finite K" and r: "\<And>k. k \<in> K' \<Longrightarrow> req' k = req k"
  shows "fits_in cap req' K'"
proof -
  have "(\<Sum>k \<in> K'. g (req' k)) \<le> (\<Sum>k \<in> K. g (req k))" for g :: "u64 \<times> u64 \<Rightarrow> nat"
    using sum_mono2[OF K(2,1), of "\<lambda>k. g (req k)"] r by simp
  from this[of "\<lambda>p. unat (fst p)"] this[of "\<lambda>p. unat (snd p)"] card_mono[OF K(2,1)] f show ?thesis
    unfolding fits_in_def by (meson order_trans)
qed

lemma sc_invD:
  assumes "sc_inv caps s"
  shows "key_ok s k" "books_ok (sst s)" "finite (all_keys s)" "fits_in (caps n) (request s) (commit s n)" "finite (commit s n)"
  using assms finite_commit[OF assms] by (simp_all add: sc_inv_def)

text \<open>A step that changes one pod, with its promises among the old ones.\<close>

lemma sc_invI:
  assumes inv: "sc_inv caps s" and k: "key_ok s' k" and others: "\<And>x. x \<noteq> k \<Longrightarrow> key_ok s' x" and bk: "books_ok (sst s')"
    and fin: "finite (all_keys s')" and c: "\<And>n. commit s' n \<subseteq> commit s n" and r: "\<And>n x. x \<in> commit s' n \<Longrightarrow> request s' x = request s x"
  shows "sc_inv caps s'"
proof -
  have "fits_in (caps n) (request s') (commit s' n)" for n
    by (rule fits_in_mono[OF sc_invD(4)[OF inv] c sc_invD(5)[OF inv]]) (rule r)
  moreover have "key_ok s' x" for x using k others by (cases "x = k") auto
  ultimately show ?thesis using bk fin by (simp add: sc_inv_def)
qed

lemma inv_init:
  assumes "sc_init caps s"
  shows "sc_inv caps s"
proof -
  from assms have i: "finite (boot s)" "gone s = {}" "seen s = (\<lambda>_. 0)" "sst s = ss_default" "flight s = {}"
    "\<And>k. if k \<in> boot s then (\<exists>object. hist s k = [object] \<and> key_of object = Some k) else hist s k = []"
    "\<And>n. fits_in (caps n) (request s) (bound_on s n)" unfolding sc_init_def by blast+
  have f: "flights s k = {}" for k using i(5) by (simp add: flights_def)
  have "key_ok s k" for k
    using i(6)[of k] by (auto simp: key_ok_def key_inv_def f i(2-4) ss_default_def view_ok_def hist_ok_def bound_ok_def split: if_splits)
  moreover have "books_ok (sst s)" using acct_default by (simp add: books_ok_def i(4)) (simp add: maps_ok_def pods_only_def ss_default_def)
  moreover have "all_keys s \<subseteq> boot s" using i(6) unfolding all_keys_def by (metis (mono_tags, lifting) mem_Collect_eq subsetI)
  then have "finite (all_keys s)" using i(1) finite_subset by blast
  moreover have "commit s n = bound_on s n" for n by (auto simp: commit_def committed_def bound_on_def f)
  ultimately show ?thesis using i(7) by (simp add: sc_inv_def)
qed

lemma inv_append:
  assumes inv: "sc_inv caps s" and h: "hist s k \<noteq> []" "k \<notin> gone s"
    and o: "key_of x = Some k" "pod_requests x = pod_requests (last (hist s k))" "fresh_version (hist s k) x"
    and n: "\<And>n. pod_node_of (last (hist s k)) = Some n \<Longrightarrow> pod_node_of x = Some n" and t: "pod_is_terminal (last (hist s k)) \<Longrightarrow> pod_is_terminal x"
    and b: "\<And>n. pod_node_of x = Some n \<Longrightarrow> pod_node_of (last (hist s k)) = Some n \<or>
             (\<exists>j body. (j, body) \<in> flights s k \<and> Suc j = length (hist s k) \<and> pod_node_of body = Some n)"
  shows "sc_inv caps (s\<lparr>hist := (hist s)(k := hist s k @ [x])\<rparr>)" (is "sc_inv caps ?s")
proof (rule sc_invI[OF inv, where k = k])
  have h': "k \<in> gone s \<longleftrightarrow> False" "\<not> (k \<in> gone s)" using h(2) by simp_all
  note ki = key_inv_append[OF sc_invD(1)[OF inv, of k, unfolded key_ok_def] h(1) h'(2) o n t b]
  show "key_ok ?s k" using ki(1) by (simp add: key_ok_def flights_def)
  show "key_ok ?s y" if "y \<noteq> k" for y using that sc_invD(1)[OF inv, of y] by (simp add: key_ok_def flights_def)
  show "books_ok (sst ?s)" using sc_invD(2)[OF inv] by simp
  have ak: "all_keys ?s = all_keys s" using h(1) by (auto simp: all_keys_def)
  show "finite (all_keys ?s)" using sc_invD(3)[OF inv] by (simp add: ak)
  have fl: "flights ?s y = flights s y" for y by (simp add: flights_def)
  show "commit ?s m \<subseteq> commit s m" for m
  proof
    fix y assume y: "y \<in> commit ?s m"
    show "y \<in> commit s m" using y ki(2)[of m] by (cases "y = k") (simp_all add: commit_def fl)
  qed
  show "request ?s y = request s y" for y using o(2) by (simp add: request_def)
qed

text \<open>A step that changes what the scheduler knows and leaves the API server and the writes alone.\<close>

lemma inv_local:
  assumes inv: "sc_inv caps s" and same: "hist s' = hist s" "gone s' = gone s" "flight s' = flight s" "boot s' = boot s"
    and k: "key_ok s' k" and others: "\<And>x. x \<noteq> k \<Longrightarrow> key_ok s' x" and bk: "books_ok (sst s')"
  shows "sc_inv caps s'"
proof (rule sc_invI[OF inv k others bk])
  show "finite (all_keys s')" using sc_invD(3)[OF inv] by (simp add: all_keys_def same)
  show "commit s' n \<subseteq> commit s n" for n by (simp add: commit_def flights_def same)
  show "request s' x = request s x" for x by (simp add: request_def same)
qed

lemma seen_lookups:
  "map_of (ss_placed (observe_new (False, k) x st)) (False, y) = (if y = k then placed_workload False x else map_of (ss_placed st) (False, y))"
  "map_of (ss_pending (observe_new (False, k) x st)) (False, y) =
     (if y = k then (if pending_workload False x then Some x else None) else map_of (ss_pending st) (False, y))"
  "map_of (ss_assumptions (observe_new (False, k) x st)) (False, y) =
     (if y = k then after_seen x (map_of (ss_assumptions st) (False, k)) else map_of (ss_assumptions st) (False, y))"
  by (simp_all add: observe_new_placed observe_new_pending observe_new_assumptions after_seen_def split: option.splits)

lemma inv_observed:
  assumes inv: "sc_inv caps s" and j: "0 < j" "seen s k \<le> j" "j \<le> length (hist s k)"
  defines "x \<equiv> hist s k ! (j - 1)"
  shows "sc_inv caps (s\<lparr>seen := (seen s)(k := j), sst := observe_new (False, k) x (sst s)\<rparr>)" (is "sc_inv caps ?s")
    and "key_of x = Some k"
proof -
  have "x \<in> set (hist s k)" using j by (simp add: x_def)
  then show "key_of x = Some k" using sc_invD(1)[OF inv, of k] by (auto simp: key_ok_def key_inv_def hist_ok_def)
  show "sc_inv caps ?s"
  proof (rule inv_local[OF inv, where k = k])
    show "key_ok ?s k"
      using key_inv_observe[OF sc_invD(1)[OF inv, of k, unfolded key_ok_def] j]
      unfolding key_ok_def flights_def x_def[symmetric] by (simp add: seen_lookups split del: if_split)
    show "key_ok ?s y" if "y \<noteq> k" for y
      using that sc_invD(1)[OF inv, of y] by (simp add: key_ok_def flights_def seen_lookups)
    show "books_ok (sst ?s)" using books_observe_new[OF sc_invD(2)[OF inv]] by simp
  qed simp_all
qed

lemma inv_observed_gone:
  assumes inv: "sc_inv caps s" and k: "k \<in> gone s"
  shows "sc_inv caps (s\<lparr>seen := (seen s)(k := Suc (length (hist s k))), sst := ss_remove (False, k) (sst s)\<rparr>)" (is "sc_inv caps ?s")
proof (rule inv_local[OF inv, where k = k])
  show "key_ok ?s k"
    using key_inv_remove[OF sc_invD(1)[OF inv, of k, unfolded key_ok_def] k] by (simp add: key_ok_def flights_def remove_lookups k)
  show "key_ok ?s y" if "y \<noteq> k" for y
    using that sc_invD(1)[OF inv, of y] by (simp add: key_ok_def flights_def remove_lookups)
  show "books_ok (sst ?s)" using books_remove[OF sc_invD(2)[OF inv]] by simp
qed simp_all

lemma inv_created:
  assumes inv: "sc_inv caps s" and h: "hist s k = []" "k \<notin> gone s" and x: "key_of x = Some k" "pod_node_of x = None"
  shows "sc_inv caps (s\<lparr>hist := (hist s)(k := [x])\<rparr>)" (is "sc_inv caps ?s")
proof (rule sc_invI[OF inv, where k = k])
  have i: "key_inv k [] False (seen s k) (map_of (ss_placed (sst s)) (False, k)) (map_of (ss_pending (sst s)) (False, k))
      (map_of (ss_assumptions (sst s)) (False, k)) (flights s k) (k \<in> boot s)"
    using sc_invD(1)[OF inv, of k] h by (simp add: key_ok_def)
  then have f: "flights s k = {}" by (auto simp: key_inv_def bind_ok_def)
  have fl: "flights ?s y = flights s y" for y by (simp add: flights_def)
  have "seen s k = 0 \<and> map_of (ss_placed (sst s)) (False, k) = None \<and> map_of (ss_pending (sst s)) (False, k) = None \<and>
      map_of (ss_assumptions (sst s)) (False, k) = None"
    using i by (cases "seen s k") (auto simp: key_inv_def view_ok_def)
  then show "key_ok ?s k" using x by (simp add: key_ok_def fl f key_inv_def hist_ok_def view_ok_def bound_ok_def)
  show "key_ok ?s y" if "y \<noteq> k" for y using that sc_invD(1)[OF inv, of y] by (simp add: key_ok_def fl)
  show "books_ok (sst ?s)" using sc_invD(2)[OF inv] by simp
  have "all_keys ?s = insert k (all_keys s)" by (auto simp: all_keys_def)
  then show "finite (all_keys ?s)" using sc_invD(3)[OF inv] by simp
  have c: "commit ?s n = commit s n" for n using x(2) h(1) by (auto simp: commit_def committed_def fl f)
  then show "commit ?s n \<subseteq> commit s n" for n by simp
  show "request ?s y = request s y" if "y \<in> commit ?s n" for y n
    using that h(1) unfolding c by (cases "y = k") (auto simp: request_def commit_def committed_def)
qed

lemma inv_deleted:
  assumes inv: "sc_inv caps s" and h: "hist s k \<noteq> []"
  shows "sc_inv caps (s\<lparr>gone := insert k (gone s)\<rparr>)" (is "sc_inv caps ?s")
proof (rule sc_invI[OF inv, where k = k])
  have fl: "flights ?s y = flights s y" for y by (simp add: flights_def)
  have "view_ok h g sn pl pe am \<Longrightarrow> view_ok h True sn pl pe am" for h g sn pl pe am by (auto simp: view_ok_def split: if_splits)
  then show "key_ok ?s k" using sc_invD(1)[OF inv, of k] by (auto simp: key_ok_def key_inv_def fl)
  show "key_ok ?s y" if "y \<noteq> k" for y using that sc_invD(1)[OF inv, of y] by (simp add: key_ok_def fl)
  show "books_ok (sst ?s)" using sc_invD(2)[OF inv] by simp
  show "finite (all_keys ?s)" using sc_invD(3)[OF inv] by (simp add: all_keys_def)
  show "commit ?s n \<subseteq> commit s n" for n by (auto simp: commit_def committed_def fl)
  show "request ?s y = request s y" for y by (simp add: request_def)
qed

lemma inv_landed:
  assumes inv: "sc_inv caps s" and f: "(k, i, body) \<in> flight s" and h: "k \<notin> gone s" "hist s k \<noteq> []"
    and v: "resource_version body = resource_version (last (hist s k))" and x: "stored_as body x" "fresh_version (hist s k) x"
  shows "sc_inv caps (s\<lparr>hist := (hist s)(k := hist s k @ [x])\<rparr>)"
proof -
  have mem: "(i, body) \<in> flights s k" using f by (simp add: flights_def)
  from sc_invD(1)[OF inv, of k] have hk: "hist_ok k (hist s k)" and all: "\<forall>(i, body) \<in> flights s k. bind_ok k (hist s k) (seen s k) (map_of (ss_assumptions (sst s)) (False, k)) i body"
    by (simp_all add: key_ok_def key_inv_def)
  from all mem have b: "bind_ok k (hist s k) (seen s k) (map_of (ss_assumptions (sst s)) (False, k)) i body" by blast
  have l: "last (hist s k) = hist s k ! (length (hist s k) - 1)" "length (hist s k) - 1 < length (hist s k)" using h(2) by (simp_all add: last_conv_nth)
  have "i < length (hist s k)" "resource_version (hist s k ! i) = resource_version (hist s k ! (length (hist s k) - 1))" using b v l by (simp_all add: bind_ok_def)
  then have i: "i = length (hist s k) - 1" using hist_okD(5)[OF hk _ l(2)] by blast
  then have p: "pending_workload False (last (hist s k))" using b l by (simp add: bind_ok_def)
  have sb: "pod_node_of x = pod_node_of body" "pod_is_terminal x = pod_is_terminal body" "pod_requests x = pod_requests body" "key_of x = key_of body"
    using x(1) by (auto simp: stored_as_def pod_node_of_def pod_is_terminal_def intro: pod_requests_cong)
  show ?thesis
  proof (rule inv_append[OF inv h(2,1)])
    show "key_of x = Some k" "pod_requests x = pod_requests (last (hist s k))" using sb b by (simp_all add: bind_ok_def)
    show "fresh_version (hist s k) x" by (rule x(2))
    show "pod_node_of (last (hist s k)) = Some n \<Longrightarrow> pod_node_of x = Some n" for n using p by (simp add: pending_workload_def split: if_splits)
    show "pod_is_terminal (last (hist s k)) \<Longrightarrow> pod_is_terminal x" using p by (simp add: pending_workload_def split: if_splits)
    show "pod_node_of (last (hist s k)) = Some n \<or> (\<exists>j body. (j, body) \<in> flights s k \<and> Suc j = length (hist s k) \<and> pod_node_of body = Some n)"
      if "pod_node_of x = Some n" for n
    proof -
      have "Suc i = length (hist s k)" using i h(2) by simp
      with mem that sb(1) show ?thesis by metis
    qed
  qed
qed

lemma inv_claims_failed:
  assumes inv: "sc_inv caps s" and f: "\<And>i body. (k, i, body) \<in> flight s \<Longrightarrow> Suc i \<noteq> seen s k"
  shows "sc_inv caps (s\<lparr>sst := (sst s)\<lparr>ss_assumptions := AList.delete (False, k) (ss_assumptions (sst s))\<rparr>\<rparr>)" (is "sc_inv caps ?s")
proof (rule inv_local[OF inv, where k = k])
  have fl: "flights ?s y = flights s y" for y by (simp add: flights_def)
  have f': "(i, body) \<in> flights s k \<Longrightarrow> Suc i \<noteq> seen s k" for i body using f by (simp add: flights_def)
  have b: "bind_ok k h sn am i body \<Longrightarrow> Suc i \<noteq> sn \<Longrightarrow> bind_ok k h sn None i body" for h sn am i body by (auto simp: bind_ok_def)
  have v: "view_ok h g sn pl pe am \<Longrightarrow> view_ok h g sn pl pe None" for h g sn pl pe am by (auto simp: view_ok_def split: if_splits)
  show "key_ok ?s k" using sc_invD(1)[OF inv, of k] b f' v unfolding key_ok_def key_inv_def fl
    by (auto simp: map_of_delete_if)
  show "key_ok ?s y" if "y \<noteq> k" for y using that sc_invD(1)[OF inv, of y] by (simp add: key_ok_def fl map_of_delete_if)
  show "books_ok (sst ?s)" using books_drop_assumption[OF sc_invD(2)[OF inv]] by simp
qed simp_all

lemma chosen_assumed: "chosen_well nodes key x st n \<Longrightarrow> map_of (ss_assumptions st) key = Some a \<Longrightarrow> n = am_node a"
  by (auto simp: chosen_well_def snapshot_def split: option.splits)

lemma inv_reserve:
  assumes inv: "sc_inv caps s" and j: "0 < seen s k" "seen s k \<le> length (hist s k)"
    and n: "\<And>a. map_of (ss_assumptions (sst s)) (False, k) = Some a \<Longrightarrow> n = am_node a"
  shows "sc_inv caps (s\<lparr>sst := reserve (False, k) (hist s k ! (seen s k - 1)) n w (sst s)\<rparr>)" (is "sc_inv caps ?s")
proof (rule inv_local[OF inv, where k = k])
  show "key_ok ?s k" using key_inv_reserve[OF sc_invD(1)[OF inv, of k, unfolded key_ok_def] j n] by (simp add: key_ok_def flights_def)
  show "key_ok ?s y" if "y \<noteq> k" for y using that sc_invD(1)[OF inv, of y] by (simp add: key_ok_def flights_def)
  show "books_ok (sst ?s)" using books_reserve[OF sc_invD(2)[OF inv]] by simp
qed simp_all

lemma inv_bind:
  assumes inv: "sc_inv caps s" and j: "0 < seen s k" "seen s k \<le> length (hist s k)"
    and am: "map_of (ss_assumptions (sst s)) (False, k) = Some a" "am_node a = n" "am_object a = hist s k ! (seen s k - 1)"
    and p: "pending_workload False (hist s k ! (seen s k - 1))" and body: "bound_pod io (hist s k ! (seen s k - 1)) n = Some body" and n: "n \<noteq> []"
    and fit: "fits_in (caps n) (request s) (insert k (commit s n))"
  shows "sc_inv caps (s\<lparr>flight := flight s \<union> {(k, seen s k - 1, body)}\<rparr>)" (is "sc_inv caps ?s")
proof -
  have flk: "flights ?s k = insert (seen s k - 1, body) (flights s k)" and fl: "y \<noteq> k \<Longrightarrow> flights ?s y = flights s y" for y by (auto simp: flights_def)
  note kb = key_inv_bind[OF sc_invD(1)[OF inv, of k, unfolded key_ok_def] j am p body n]
  have ok: "key_ok ?s y" for y
    using kb(1) sc_invD(1)[OF inv, of y] flk fl[of y] by (cases "y = k") (simp_all add: key_ok_def)
  have c: "commit ?s m \<subseteq> (if m = n then insert k (commit s n) else commit s m)" for m
  proof
    fix y assume y: "y \<in> commit ?s m"
    show "y \<in> (if m = n then insert k (commit s n) else commit s m)"
    proof (cases "y = k")
      case True
      with y flk kb(2) show ?thesis by (auto simp: commit_def committed_def)
    next
      case False
      with y fl[OF False] show ?thesis by (auto simp: commit_def)
    qed
  qed
  have r: "request ?s = request s" by (simp add: request_def fun_eq_iff)
  have "fits_in (caps m) (request ?s) (commit ?s m)" for m
  proof (cases "m = n")
    case True
    show ?thesis by (rule fits_in_mono[OF fit[folded True]]) (use c[of m] True sc_invD(5)[OF inv] r in auto)
  next
    case False
    show ?thesis by (rule fits_in_mono[OF sc_invD(4)[OF inv, of m]]) (use c[of m] False sc_invD(5)[OF inv] r in auto)
  qed
  moreover have "all_keys ?s = all_keys s" by (simp add: all_keys_def)
  ultimately show ?thesis using ok sc_invD(2,3)[OF inv] by (simp add: sc_inv_def)
qed

text \<open>
  That the scheduler knows what it knows does not depend on the nodes' capacity: the invariant also
  holds with nodes that have no limits, and then without a bound on the requests.
\<close>

abbreviation no_limits :: "string \<Rightarrow> node_caps" where
  "no_limits \<equiv> \<lambda>_. (None, None, None)"

lemma fits_no_limits [simp]: "fits_in (None, None, None) req K"
  by (simp add: fits_in_def)

lemma inv_pass:
  assumes inv: "sc_inv caps' s" and lim: "caps' = no_limits \<or> caps' = caps \<and> small s" and boot: "\<And>b. b \<in> boot s \<Longrightarrow> 0 < seen s b" and nodes: "nodes_ok caps nodes"
    and j: "0 < j" "seen s k \<le> j" "j \<le> length (hist s k)"
    and run: "pod_pass io nodes volumes k (hist s k ! (j - 1)) (sst s) = Some (st, ws, r)"
  shows "sc_inv caps' (s\<lparr>seen := (seen s)(k := j), sst := st, flight := flight s \<union> bind_of k (j - 1) r\<rparr>)"
proof -
  define x where "x = hist s k ! (j - 1)"
  define s1 where "s1 = s\<lparr>seen := (seen s)(k := j), sst := observe_new (False, k) x (sst s)\<rparr>"
  note o = inv_observed[OF inv j, folded x_def]
  have inv1: "sc_inv caps' s1" using o(1) by (simp add: s1_def)
  have f1: "hist s1 = hist s" "seen s1 k = j" "flight s1 = flight s" "sst s1 = observe_new (False, k) x (sst s)" by (simp_all add: s1_def)
  have sm1: "small s1" if "small s" using that by (simp add: small_def all_keys_def request_def s1_def)
  have boot1: "0 < seen s1 b" if "b \<in> boot s1" for b using boot that j by (simp add: s1_def)
  have x: "x \<in> set (hist s1 k)" "hist s1 k ! (seen s1 k - 1) = x" using j by (simp_all add: x_def f1)
  have j1: "0 < seen s1 k" "seen s1 k \<le> length (hist s1 k)" using j by (simp_all add: f1)
  have res: "sc_inv caps' (s1\<lparr>sst := reserve (False, k) x n w (sst s1)\<rparr>)" if "chosen_well nodes (False, k) x (sst s1) n" for n w
    using inv_reserve[OF inv1 j1 chosen_assumed[OF that]] x(2) by simp
  from pod_pass_cases[OF run[folded x_def] o(2)] consider
      "st = sst s1" "r = None" |
      n path body where "pending_workload False x" "r = Some (PlaceBind n path body)" "st = reserve (False, k) x n False (sst s1)"
        "bound_pod io x n = Some body" "chosen_well nodes (False, k) x (sst s1) n" |
      n patches where "r = Some (WaitingForVolumes n patches)" "st = reserve (False, k) x n True (sst s1)" "chosen_well nodes (False, k) x (sst s1) n"
    unfolding f1(4) by blast
  then show ?thesis
  proof cases
    case 1
    then show ?thesis using inv1 by (simp add: s1_def bind_of_def)
  next
    case 2
    define s2 where "s2 = s1\<lparr>sst := st\<rparr>"
    have inv2: "sc_inv caps' s2" using res[OF 2(5)] 2(3) by (simp add: s2_def)
    have n: "n \<noteq> []" using 2(5) nodes by (auto simp: chosen_well_def nodes_ok_def list_all_iff node_name_of_def str_or_def simp del: jat_Cons)
    have same: "hist s2 = hist s1" "seen s2 = seen s1" "request s2 = request s1" "commit s2 = commit s1"
      by (simp_all add: s2_def request_def commit_def flights_def fun_eq_iff)
    have am: "map_of (ss_assumptions (sst s2)) (False, k) = Some \<lparr>am_node = n, am_object = x, am_waiting = False\<rparr>" by (simp add: s2_def 2(3))
    have fit: "fits_in (caps' n) (request s2) (insert k (commit s2 n))"
      using lim
    proof
      assume "caps' = caps \<and> small s"
      then show ?thesis using pass_fits[of caps s1 nodes k x n] inv1 sm1 boot1 2(5) nodes x(1) by (simp only: same)
    qed simp
    have "sc_inv caps' (s2\<lparr>flight := flight s2 \<union> {(k, seen s2 k - 1, body)}\<rparr>)"
      by (rule inv_bind[OF inv2 _ _ am _ _ _ _ n fit]) (use j1 x(2) 2 in \<open>simp_all add: same\<close>)
    then show ?thesis using 2(2) f1(2) by (simp add: s2_def s1_def bind_of_def)
  next
    case 3
    then show ?thesis using res[OF 3(3), of True] by (simp add: s1_def bind_of_def)
  qed
qed

lemma keys_grow:
  assumes "sc_step caps s s'" "sc_inv caps' s"
  shows "all_keys s \<subseteq> all_keys s' \<and> (\<forall>k \<in> all_keys s. request s' k = request s k) \<and> finite (all_keys s')"
proof -
  have fin: "finite (all_keys s)" by (rule sc_invD(3)[OF assms(2)])
  have upd: "all_keys (s\<lparr>hist := (hist s)(k := h)\<rparr>) \<subseteq> insert k (all_keys s)" for k h by (auto simp: all_keys_def)
  from assms(1) show ?thesis
  proof cases
    case (created k object)
    have "all_keys s' = insert k (all_keys s)" using created by (auto simp: all_keys_def)
    with created fin show ?thesis by (auto simp: all_keys_def request_def)
  next
    case (updated k object)
    have "all_keys s' = all_keys s" using updated by (auto simp: all_keys_def)
    with updated fin show ?thesis by (auto simp: request_def)
  next
    case (landed k i body object)
    have ak: "all_keys s' = all_keys s" using landed by (auto simp: all_keys_def)
    have "bind_ok k (hist s k) (seen s k) (map_of (ss_assumptions (sst s)) (False, k)) i body"
      using sc_invD(1)[OF assms(2), of k] landed by (auto simp: key_ok_def key_inv_def flights_def)
    moreover have "pod_requests object = pod_requests body" using landed by (auto simp: stored_as_def intro: pod_requests_cong)
    ultimately have "request s' y = request s y" for y using landed by (simp add: request_def bind_ok_def)
    with ak fin show ?thesis by simp
  qed (use fin in \<open>simp_all add: all_keys_def request_def\<close>)
qed

lemma small_before:
  assumes "sc_step caps s s'" "sc_inv caps' s" "small s'"
  shows "small s"
proof -
  from keys_grow[OF assms(1,2)] have g: "all_keys s \<subseteq> all_keys s'" "\<And>k. k \<in> all_keys s \<Longrightarrow> request s' k = request s k" "finite (all_keys s')" by auto
  have "(\<Sum>k \<in> all_keys s. f (request s k)) \<le> (\<Sum>k \<in> all_keys s'. f (request s' k))" for f :: "u64 \<times> u64 \<Rightarrow> nat"
    using sum_mono2[OF g(3,1), of "\<lambda>k. f (request s' k)"] g(2) by simp
  from this[of "\<lambda>p. unat (fst p)"] this[of "\<lambda>p. unat (snd p)"] card_mono[OF g(3,1)] assms(3) show ?thesis
    unfolding small_def by linarith
qed

lemma inv_step:
  assumes step: "sc_step caps s s'" and inv: "sc_inv caps' s" and lim: "caps' = no_limits \<or> caps' = caps \<and> small s"
  shows "sc_inv caps' s'"
  using step
proof cases
  case (created k object)
  then show ?thesis using inv_created[OF inv] by simp
next
  case (updated k object)
  show ?thesis unfolding updated(1) by (rule inv_append[OF inv]) (use updated in auto)
next
  case (deleted k)
  then show ?thesis using inv_deleted[OF inv] by simp
next
  case (observed j k old_obj)
  note o = inv_observed[OF inv observed(2-4)]
  show ?thesis using o(1) observed(5) observe_version[OF o(2)] by (simp add: observed(1))
next
  case (observed_gone k object)
  then show ?thesis using inv_observed_gone[OF inv] observe_deletion by simp
next
  case (pass nodes j k io volumes st ws r)
  show ?thesis unfolding pass(1) by (rule inv_pass[OF inv lim pass(2-)])
next
  case (landed k i body object)
  then show ?thesis using inv_landed[OF inv] by simp
next
  case (claims_failed k)
  then show ?thesis using inv_claims_failed[OF inv, of k] by simp
qed


section \<open>A term in which a pod is bound\<close>

definition demo_io :: sched_io where
  "demo_io = \<lparr>io_now_secs = ''t'', io_now_micros = ''t'', io_host = ''h'', io_suffix = ''x'', io_budgets = Inl [],
              io_migrations = (\<lambda>_ _. Inl []), io_patch_merge = (\<lambda>_ _. Inl []), io_create = (\<lambda>_ _. Inl [])\<rparr>"

definition no_volumes :: volume_state where
  "no_volumes = \<lparr>vs_claims = (\<lambda>_. None), vs_volumes = (\<lambda>_. None), vs_classes = (\<lambda>_. None), vs_capacities = [], vs_capacity_tracking = []\<rparr>"

definition demo_key :: obj_key where
  "demo_key = \<lparr>k_namespace = [], k_name = ''a'', k_uid = ''a''\<rparr>"

abbreviation demo_a :: json where "demo_a \<equiv> demo_pod ''a'' 0"

definition demo_body :: json where
  "demo_body = the (bound_pod demo_io demo_a ''n'')"

definition demo_caps :: "string \<Rightarrow> node_caps" where
  "demo_caps n = (if n = ''n'' then caps_of demo_node else (None, None, None))"

lemma demo_bound: "bound_pod demo_io demo_a ''n'' = Some demo_body"
proof -
  have "bound_pod demo_io demo_a ''n'' \<noteq> None" by code_simp
  then show ?thesis by (simp add: demo_body_def)
qed

lemma demo_a_facts:
  "key_of demo_a = Some demo_key" "pod_node_of demo_a = None" "pending_workload False demo_a" "\<not> gated demo_a" "pod_claims demo_a = []"
  "as_str (jat demo_a [''metadata'', ''name'']) = Some ''a''" "resource_version demo_a = JNull" "\<not> pod_is_terminal demo_a"
  by (simp_all add: demo_pod_def key_of_def non_empty_def demo_key_def pod_node_of_def pending_workload_def pod_is_terminal_def gated_def pod_claims_def
      map_filter_def resource_version_def)

definition demo_st :: sched_state where
  "demo_st = observe_new (False, demo_key) demo_a ss_default"

lemma demo_st_fields:
  "ss_placed demo_st = []" "ss_targets demo_st = []" "ss_target_assumptions demo_st = []" "ss_assumptions demo_st = []"
  "ss_pending demo_st = [((False, demo_key), demo_a)]" "ss_usage demo_st = (\<lambda>_. no_usage)"
proof -
  have "placed_workload False demo_a = None" "migration_target False demo_a = None"
    using demo_a_facts(2) by (simp_all add: placed_workload_def migration_target_def)
  with demo_a_facts(3) show "ss_placed demo_st = []" "ss_targets demo_st = []" "ss_target_assumptions demo_st = []" "ss_assumptions demo_st = []"
    "ss_pending demo_st = [((False, demo_key), demo_a)]" "ss_usage demo_st = (\<lambda>_. no_usage)"
    by (simp_all add: demo_st_def observe_new_def Let_def drop_placed_def drop_target_def observe_pending_def observe_target_def observe_placed_def ss_default_def)
qed

lemma demo_snapshot: "snapshot (False, demo_key) demo_st = Some (\<lparr>cs_usage = (\<lambda>_. no_usage), cs_placed = []\<rparr>, None)"
  by (simp add: snapshot_def Let_def demo_st_fields holds_nomination_def)

lemma demo_schedule:
  "\<exists>path. schedule_pod demo_io (pod_namespace demo_a) demo_a [demo_node] \<lparr>cs_usage = (\<lambda>_. no_usage), cs_placed = []\<rparr> no_volumes (False, demo_key) demo_st =
     Some (reserve (False, demo_key) demo_a ''n'' False demo_st, [], Inr (PlaceBind ''n'' path demo_body))"
proof -
  let ?c = "\<lparr>cs_usage = (\<lambda>_. no_usage), cs_placed = []\<rparr>"
  have v: "node_verdict ns demo_a [demo_node] ?c no_volumes demo_node = Pass" for ns
    by (simp add: node_verdict_def demo_filters demo_count cs_used_def no_usage_def filter_node_def demo_a_facts)
  have name: "as_str (jat demo_node [''metadata'', ''name'']) = Some ''n''" by (simp add: demo_node_def)
  show ?thesis
    unfolding schedule_pod_def demo_a_facts(6) option.case rwop_conflict_def demo_a_facts(5) Let_def
    by (simp add: v best_node_def name unbound_claims_def demo_a_facts demo_bound del: jat_Cons)
qed

lemma demo_pass: "\<exists>ws path. pod_pass demo_io [demo_node] no_volumes demo_key demo_a ss_default =
    Some (reserve (False, demo_key) demo_a ''n'' False demo_st, ws, Some (PlaceBind ''n'' path demo_body))"
proof -
  have o: "observe False None (Some demo_a) ss_default = demo_st" using demo_a_facts(1) by (simp add: observe_def demo_st_def)
  from demo_schedule obtain path where
    "schedule_pod demo_io (pod_namespace demo_a) demo_a [demo_node] \<lparr>cs_usage = (\<lambda>_. no_usage), cs_placed = []\<rparr> no_volumes (False, demo_key) demo_st =
     Some (reserve (False, demo_key) demo_a ''n'' False demo_st, [], Inr (PlaceBind ''n'' path demo_body))" ..
  then have "place_pod demo_io [demo_node] no_volumes (False, demo_key) demo_a demo_st =
    Some (reserve (False, demo_key) demo_a ''n'' False demo_st, [], Inr (PlaceBind ''n'' path demo_body))"
    by (simp add: place_pod_def demo_snapshot)
  then show ?thesis by (simp add: pod_pass_def o Let_def demo_a_facts)
qed


section \<open>Where a pod is bound\<close>

lemma best_node_best:
  assumes "feasible \<noteq> []" "other \<in> set feasible"
  shows "score_node pod other (cs_used state other) state nodes \<le>
         score_node pod (best_node pod nodes state feasible) (cs_used state (best_node pod nodes state feasible)) state nodes"
proof -
  let ?f = "\<lambda>node. - score_node pod node (cs_used state node) state nodes"
  obtain b rest where s: "sort_key ?f feasible = b # rest" using assms(1) by (metis list.exhaust set_empty set_sort)
  have "sorted (map ?f (b # rest))" using s by (metis sorted_sort_key)
  moreover have "other \<in> set (b # rest)" using assms(2) s by (metis set_sort)
  ultimately have "?f b \<le> ?f other" by auto
  then show ?thesis by (simp add: best_node_def s)
qed

text \<open>
  C13. A pod is bound only when every claim it mounts is bound and no other pod holds one that only one pod
  may use; it goes to a node that passes every filter, the limit of pods and its volumes' included,
  and no node that passes scores higher; and the node is reserved for it before the write.
\<close>

theorem bound_to_best_node:
  assumes r: "schedule_pod io ns pod nodes state volumes key st = Some (st', ws, Inr (PlaceBind n path body))"
  shows "unbound_claims pod ns volumes = [] \<and> rwop_conflict pod ns volumes (cs_placed state) = None \<and>
         map_of (ss_assumptions st') key = Some \<lparr>am_node = n, am_object = pod, am_waiting = False\<rparr> \<and>
         (\<exists>node \<in> set nodes. as_str (jat node [''metadata'', ''name'']) = Some n \<and> node_verdict ns pod nodes state volumes node = Pass \<and>
            (\<forall>other \<in> set nodes. node_verdict ns pod nodes state volumes other = Pass \<longrightarrow>
               score_node pod other (cs_used state other) state nodes \<le> score_node pod node (cs_used state node) state nodes))"
proof -
  let ?f = "filter (\<lambda>n. node_verdict ns pod nodes state volumes n = Pass) nodes"
  let ?b = "best_node pod nodes state ?f"
  from r have f: "?f \<noteq> []" and b: "as_str (jat ?b [''metadata'', ''name'']) = Some n" and u: "unbound_claims pod ns volumes = []"
    and c: "rwop_conflict pod ns volumes (cs_placed state) = None" and st: "st' = reserve key pod n False st"
    by (auto simp: schedule_pod_def Let_def simp del: jat_Cons filter_empty_conv split: option.splits prod.splits if_splits sum.splits)
  have mem: "?b \<in> set nodes" "node_verdict ns pod nodes state volumes ?b = Pass" using best_node_feasible[OF f, of pod nodes state] by simp_all
  have best: "score_node pod other (cs_used state other) state nodes \<le> score_node pod ?b (cs_used state ?b) state nodes"
    if "other \<in> set nodes" "node_verdict ns pod nodes state volumes other = Pass" for other
    by (rule best_node_best[OF f]) (simp add: that)
  have "map_of (ss_assumptions st') key = Some \<lparr>am_node = n, am_object = pod, am_waiting = False\<rparr>" by (simp add: st)
  with u c mem b best show ?thesis by blast
qed

theorem bound_to_best_node_witness:
  "\<exists>st' path. schedule_pod demo_io (pod_namespace demo_a) demo_a [demo_node] \<lparr>cs_usage = (\<lambda>_. no_usage), cs_placed = []\<rparr> no_volumes (False, demo_key) demo_st =
     Some (st', [], Inr (PlaceBind ''n'' path demo_body)) \<and>
   map_of (ss_assumptions st') (False, demo_key) = Some \<lparr>am_node = ''n'', am_object = demo_a, am_waiting = False\<rparr>"
proof -
  from demo_schedule obtain path where d:
    "schedule_pod demo_io (pod_namespace demo_a) demo_a [demo_node] \<lparr>cs_usage = (\<lambda>_. no_usage), cs_placed = []\<rparr> no_volumes (False, demo_key) demo_st =
     Some (reserve (False, demo_key) demo_a ''n'' False demo_st, [], Inr (PlaceBind ''n'' path demo_body))" ..
  from bound_to_best_node[OF d] d show ?thesis by blast
qed

end
