(* ===== verification/WorkQueue.thy ===== *)
theory WorkQueue
  imports Prelude "HOL-Library.Multiset"
begin

text \<open>
  \<^verbatim>\<open>pkg/apimachinery/src/workqueue.rs\<close>: the deduplicating work queue every controller and the
  scheduler take their keys from. \<open>wq_state\<close> is what the mutex guards; each operation below
  is one critical section. \<^verbatim>\<open>Instant\<close>s are natural numbers, hash maps are partial functions,
  hash sets are sets whose iteration order is a parameter (\<open>iter\<close>), and every
  \<open>unwrap\<close>/\<open>expect\<close> is a \<open>None\<close>. The step relation \<open>wq_step\<close> interleaves
  the operations of any number of producers and workers; the guards alive (\<^verbatim>\<open>Work\<close>) are the
  multiset \<open>held\<close>.
\<close>

section \<open>State and operations\<close>

record entry =
  queued :: bool
  processing :: bool
  dirty :: bool
  deadline :: "nat option"

definition entry_default :: entry where
  "entry_default = \<lparr>queued = False, processing = False, dirty = False, deadline = None\<rparr>"

record 'k wq_state =
  ready :: "'k list"
  wq_entries :: "'k \<rightharpoonup> entry"
  deadlines :: "(nat, 'k set) btree"

definition wq_new :: "'k wq_state" where
  "wq_new = \<lparr>ready = [], wq_entries = Map.empty, deadlines = []\<rparr>"

definition entry_of :: "'k wq_state \<Rightarrow> 'k \<Rightarrow> entry" where
  "entry_of s k = (case wq_entries s k of Some e \<Rightarrow> e | None \<Rightarrow> entry_default)"

definition set_entry :: "'k \<Rightarrow> entry \<Rightarrow> 'k wq_state \<Rightarrow> 'k wq_state" where
  "set_entry k e s = s\<lparr>wq_entries := (wq_entries s)(k \<mapsto> e)\<rparr>"

definition wq_add :: "'k \<Rightarrow> 'k wq_state \<Rightarrow> 'k wq_state" where
  "wq_add k s =
     (let e = entry_of s k in
      if processing e then set_entry k (e\<lparr>dirty := True\<rparr>) s
      else if \<not> queued e then (set_entry k (e\<lparr>queued := True\<rparr>) s)\<lparr>ready := ready s @ [k]\<rparr>
      else set_entry k e s)"

definition remove_deadline :: "'k \<Rightarrow> nat \<Rightarrow> 'k wq_state \<Rightarrow> 'k wq_state" where
  "remove_deadline k w s =
     (case map_of (deadlines s) w of
        None \<Rightarrow> s
      | Some ks \<Rightarrow>
          (let ks' = ks - {k} in
           if ks' = {} then s\<lparr>deadlines := bt_remove w (deadlines s)\<rparr>
           else s\<lparr>deadlines := bt_insert w ks' (deadlines s)\<rparr>))"

definition wq_add_at :: "'k \<Rightarrow> nat \<Rightarrow> 'k wq_state \<Rightarrow> 'k wq_state" where
  "wq_add_at k d s =
     (let e = entry_of s k; old = deadline e in
      if (case old of Some w \<Rightarrow> w \<le> d | None \<Rightarrow> False) then set_entry k e s
      else
        (let s1 = set_entry k (e\<lparr>deadline := Some d\<rparr>) s;
             s2 = (case old of Some w \<Rightarrow> remove_deadline k w s1 | None \<Rightarrow> s1);
             ks = (case map_of (deadlines s2) d of Some ks \<Rightarrow> ks | None \<Rightarrow> {})
         in s2\<lparr>deadlines := bt_insert d (insert k ks) (deadlines s2)\<rparr>))"

definition wq_cancel_deadline :: "'k \<Rightarrow> 'k wq_state \<Rightarrow> 'k wq_state" where
  "wq_cancel_deadline k s =
     (case wq_entries s k of
        None \<Rightarrow> s
      | Some e \<Rightarrow>
          (let s1 = set_entry k (e\<lparr>deadline := None\<rparr>) s;
               s2 = (case deadline e of Some w \<Rightarrow> remove_deadline k w s1 | None \<Rightarrow> s1)
           in if \<not> queued e \<and> \<not> processing e
              then s2\<lparr>wq_entries := (wq_entries s2)(k := None)\<rparr> else s2))"

text \<open>The body of the loop over the keys due (\<open>get_mut(&key).unwrap()\<close> may panic).\<close>

definition fire :: "'k \<Rightarrow> 'k wq_state \<Rightarrow> 'k wq_state option" where
  "fire k s =
     (case wq_entries s k of
        None \<Rightarrow> None
      | Some e0 \<Rightarrow>
          (let e = e0\<lparr>deadline := None\<rparr> in
           Some (if processing e then set_entry k (e\<lparr>dirty := True\<rparr>) s
                 else if \<not> queued e then (set_entry k (e\<lparr>queued := True\<rparr>) s)\<lparr>ready := ready s @ [k]\<rparr>
                 else set_entry k e s)))"

fun fire_all :: "'k list \<Rightarrow> 'k wq_state \<Rightarrow> 'k wq_state option" where
  "fire_all [] s = Some s"
| "fire_all (k # ks) s = Option.bind (fire k s) (fire_all ks)"

fun expire_due :: "('k set \<Rightarrow> 'k list) \<Rightarrow> nat \<Rightarrow> (nat, 'k set) btree \<Rightarrow> 'k wq_state \<Rightarrow> 'k wq_state option" where
  "expire_due iter now [] s = Some (s\<lparr>deadlines := []\<rparr>)"
| "expire_due iter now ((w, ks) # ds) s =
     (if w \<le> now
      then Option.bind (fire_all (iter ks) (s\<lparr>deadlines := ds\<rparr>)) (expire_due iter now ds)
      else Some (s\<lparr>deadlines := (w, ks) # ds\<rparr>))"

definition expire :: "('k set \<Rightarrow> 'k list) \<Rightarrow> nat \<Rightarrow> 'k wq_state \<Rightarrow> 'k wq_state option" where
  "expire iter now s = expire_due iter now (deadlines s) s"

text \<open>
  One pass of \<^verbatim>\<open>next_selected\<close> under the lock, at time \<open>now\<close>: fire what is due, pick a
  ready key. \<open>Some (s', Some k)\<close> hands out \<open>k\<close>, \<open>Some (s', None)\<close> goes back to
  waiting, and \<open>None\<close> is a panic.
\<close>

definition next_selected ::
    "('k set \<Rightarrow> 'k list) \<Rightarrow> ('k list \<Rightarrow> nat option) \<Rightarrow> nat \<Rightarrow> 'k wq_state \<Rightarrow> ('k wq_state \<times> 'k option) option" where
  "next_selected iter select now s =
     Option.bind (expire iter now s) (\<lambda>s1.
       case select (ready s1) of
         None \<Rightarrow> Some (s1, None)
       | Some i \<Rightarrow>
           if i < length (ready s1) then
             (let k = ready s1 ! i in
              case wq_entries s1 k of
                None \<Rightarrow> None
              | Some e \<Rightarrow>
                  Some ((set_entry k (e\<lparr>queued := False, processing := True\<rparr>) s1)
                          \<lparr>ready := take i (ready s1) @ drop (Suc i) (ready s1)\<rparr>, Some k))
           else Some (s1, None))"

definition select_first :: "'k list \<Rightarrow> nat option" where
  "select_first r = (if r = [] then None else Some 0)"

text \<open>\<open>enumerate().min_by(compare)\<close>: the first of the least elements.\<close>

fun min_index :: "('k \<Rightarrow> 'k \<Rightarrow> bool) \<Rightarrow> 'k list \<Rightarrow> nat option" where
  "min_index lt [] = None"
| "min_index lt (x # xs) =
     (case min_index lt xs of
        None \<Rightarrow> Some 0
      | Some i \<Rightarrow> if lt (xs ! i) x then Some (Suc i) else Some 0)"

definition wq_next :: "('k set \<Rightarrow> 'k list) \<Rightarrow> nat \<Rightarrow> 'k wq_state \<Rightarrow> ('k wq_state \<times> 'k option) option" where
  "wq_next iter now s = next_selected iter select_first now s"

definition wq_next_by ::
    "('k set \<Rightarrow> 'k list) \<Rightarrow> ('k \<Rightarrow> 'k \<Rightarrow> bool) \<Rightarrow> nat \<Rightarrow> 'k wq_state \<Rightarrow> ('k wq_state \<times> 'k option) option" where
  "wq_next_by iter lt now s = next_selected iter (min_index lt) now s"

definition wq_done :: "'k \<Rightarrow> 'k wq_state \<Rightarrow> 'k wq_state option" where
  "wq_done k s =
     (case wq_entries s k of
        None \<Rightarrow> None
      | Some e0 \<Rightarrow>
          (let e = e0\<lparr>processing := False\<rparr> in
           Some (if dirty e
                 then (set_entry k (e\<lparr>dirty := False, queued := True\<rparr>) s)\<lparr>ready := ready s @ [k]\<rparr>
                 else if deadline e = None then s\<lparr>wq_entries := (wq_entries s)(k := None)\<rparr>
                 else set_entry k e s)))"

section \<open>The invariant\<close>

definition entry_ok :: "entry \<Rightarrow> bool" where
  "entry_ok e \<longleftrightarrow> \<not> (queued e \<and> processing e) \<and> (dirty e \<longrightarrow> processing e) \<and>
     (queued e \<or> processing e \<or> deadline e \<noteq> None)"

text \<open>The ready list holds exactly the keys marked queued, once each.\<close>

definition ready_ok :: "'k wq_state \<Rightarrow> bool" where
  "ready_ok s \<longleftrightarrow> distinct (ready s) \<and>
     (\<forall>k. k \<in> set (ready s) \<longleftrightarrow> queued (entry_of s k))"

text \<open>The keys filed under each deadline, as a relation between keys and times.\<close>

definition due_at :: "(nat, 'k set) btree \<Rightarrow> 'k \<Rightarrow> nat \<Rightarrow> bool" where
  "due_at ds k w \<longleftrightarrow> (\<exists>ks. map_of ds w = Some ks \<and> k \<in> ks)"

definition deadline_of :: "'k wq_state \<Rightarrow> 'k \<Rightarrow> nat option" where
  "deadline_of s k = deadline (entry_of s k)"

definition buckets_ok :: "(nat, 'k set) btree \<Rightarrow> bool" where
  "buckets_ok ds \<longleftrightarrow> bt_wf ds \<and> (\<forall>b \<in> set ds. snd b \<noteq> {} \<and> finite (snd b))"

text \<open>The index is the entries' deadlines, inverted, with no empty bucket.\<close>

definition deadlines_ok :: "'k wq_state \<Rightarrow> bool" where
  "deadlines_ok s \<longleftrightarrow> buckets_ok (deadlines s) \<and>
     (\<forall>k w. due_at (deadlines s) k w \<longleftrightarrow> deadline_of s k = Some w)"

definition entries_ok :: "'k wq_state \<Rightarrow> bool" where
  "entries_ok s \<longleftrightarrow> (\<forall>k e. wq_entries s k = Some e \<longrightarrow> entry_ok e)"

definition wq_inv :: "'k wq_state \<Rightarrow> bool" where
  "wq_inv s \<longleftrightarrow> entries_ok s \<and> ready_ok s \<and> deadlines_ok s"

text \<open>A hash set is iterated in some order, each element once.\<close>

definition iterates :: "('k set \<Rightarrow> 'k list) \<Rightarrow> bool" where
  "iterates iter \<longleftrightarrow> (\<forall>ks. finite ks \<longrightarrow> distinct (iter ks) \<and> set (iter ks) = ks)"

text \<open>An event is owed to \<open>k\<close>: it waits in the ready list, or its worker will put it back.\<close>

definition wq_pending :: "'k wq_state \<Rightarrow> 'k set" where
  "wq_pending s = {k. k \<in> set (ready s) \<or> dirty (entry_of s k)}"

definition wq_processing :: "'k wq_state \<Rightarrow> 'k set" where
  "wq_processing s = {k. processing (entry_of s k)}"

section \<open>Lemmas on the state\<close>

named_theorems wq_simps \<open>reading the queue's state after an update\<close>

lemma entry_of_set_entry [wq_simps, simp]:
  "entry_of (set_entry k e s) k' = (if k' = k then e else entry_of s k')"
  by (simp add: entry_of_def set_entry_def)

lemma entry_of_update [wq_simps, simp]:
  "entry_of (s\<lparr>ready := r\<rparr>) k = entry_of s k"
  "entry_of (s\<lparr>deadlines := d\<rparr>) k = entry_of s k"
  "entry_of (s\<lparr>wq_entries := (wq_entries s')(k' := None)\<rparr>) k = (if k = k' then entry_default else entry_of s' k)"
  by (simp_all add: entry_of_def)

lemma set_entry_fields [wq_simps, simp]:
  "ready (set_entry k e s) = ready s"
  "deadlines (set_entry k e s) = deadlines s"
  "wq_entries (set_entry k e s) = (wq_entries s)(k \<mapsto> e)"
  by (simp_all add: set_entry_def)

lemma entry_default_fields [wq_simps, simp]:
  "queued entry_default = False" "processing entry_default = False"
  "dirty entry_default = False" "deadline entry_default = None"
  by (simp_all add: entry_default_def)

lemma entry_of_Some [wq_simps]: "wq_entries s k = Some e \<Longrightarrow> entry_of s k = e"
  by (simp add: entry_of_def)

lemma remove_deadline_fields [wq_simps, simp]:
  "ready (remove_deadline k w s) = ready s"
  "wq_entries (remove_deadline k w s) = wq_entries s"
  "entry_of (remove_deadline k w s) k' = entry_of s k'"
  by (simp_all add: remove_deadline_def entry_of_def Let_def split: option.splits)

text \<open>Removing from and inserting into the deadline index act on its relation pointwise.\<close>

lemma remove_deadline_buckets:
  "buckets_ok (deadlines s) \<Longrightarrow> buckets_ok (deadlines (remove_deadline k w s))"
  by (fastforce simp: buckets_ok_def remove_deadline_def Let_def bt_simps set_bt_remove
      dest: set_bt_insert map_of_SomeD split: option.splits if_splits)

lemma remove_deadline_due:
  "due_at (deadlines (remove_deadline k w s)) k' w' \<longleftrightarrow> due_at (deadlines s) k' w' \<and> \<not> (k' = k \<and> w' = w)"
  by (auto simp: due_at_def remove_deadline_def Let_def bt_simps split: option.splits if_splits)

lemma insert_deadline_buckets:
  "buckets_ok ds \<Longrightarrow>
   buckets_ok (bt_insert d (insert k (case map_of ds d of Some ks \<Rightarrow> ks | None \<Rightarrow> {})) ds)"
  by (fastforce simp: buckets_ok_def bt_simps dest: set_bt_insert map_of_SomeD split: option.splits)

lemma insert_deadline_due:
  "due_at (bt_insert d (insert k (case map_of ds d of Some ks \<Rightarrow> ks | None \<Rightarrow> {})) ds) k' w' \<longleftrightarrow>
   due_at ds k' w' \<or> (k' = k \<and> w' = d)"
  by (auto simp: due_at_def bt_simps split: option.splits if_splits)

lemma due_at_Nil [simp]: "\<not> due_at [] k w"
  by (simp add: due_at_def)

lemma due_at_Cons:
  "bt_wf ((w, ks) # ds) \<Longrightarrow> due_at ((w, ks) # ds) k w' \<longleftrightarrow> (w' = w \<and> k \<in> ks) \<or> due_at ds k w'"
  by (force simp: due_at_def bt_wf_Cons dest: map_of_SomeD split: if_splits)

section \<open>Every operation keeps the invariant\<close>

lemmas wq_inv_defs = wq_inv_def entries_ok_def ready_ok_def deadlines_ok_def deadline_of_def

lemma wq_new_inv: "wq_inv wq_new"
  by (simp add: wq_inv_def entries_ok_def ready_ok_def deadlines_ok_def buckets_ok_def wq_new_def due_at_def deadline_of_def entry_of_def)

lemma wq_inv_entry: "wq_inv s \<Longrightarrow> wq_entries s k = Some e \<Longrightarrow> entry_ok e"
  by (auto simp: wq_inv_def entries_ok_def)

lemma entries_okD: "entries_ok s \<Longrightarrow> wq_entries s k = Some e \<Longrightarrow> entry_ok e"
  by (auto simp: entries_ok_def)

lemma entries_ok_set_entry [wq_simps]: "entries_ok s \<Longrightarrow> entry_ok e \<Longrightarrow> entries_ok (set_entry k e s)"
  by (auto simp: entries_ok_def)

lemma ready_ok_set_entry [wq_simps]:
  "ready_ok s \<Longrightarrow> queued e = queued (entry_of s k) \<Longrightarrow> ready_ok (set_entry k e s)"
  by (auto simp: ready_ok_def)

lemma ready_ok_enqueue [wq_simps]:
  "ready_ok s \<Longrightarrow> queued e \<Longrightarrow> \<not> queued (entry_of s k) \<Longrightarrow>
   ready_ok ((set_entry k e s)\<lparr>ready := ready s @ [k]\<rparr>)"
  by (auto simp: ready_ok_def)

lemma entries_ok_update [wq_simps, simp]:
  "entries_ok (s\<lparr>ready := r\<rparr>) = entries_ok s" "entries_ok (s\<lparr>deadlines := d\<rparr>) = entries_ok s"
  by (simp_all add: entries_ok_def)

text \<open>
  Changing one entry without touching its deadline, and queueing its key if and only if the
  entry became queued, keeps the invariant.
\<close>

lemma wq_inv_set_entry:
  assumes "wq_inv s" "entry_ok e" "deadline e = deadline_of s k" "queued e = queued (entry_of s k)"
  shows "wq_inv (set_entry k e s)"
  using assms by (auto simp: wq_inv_defs)

lemma wq_inv_enqueue:
  assumes "wq_inv s" "entry_ok e" "deadline e = deadline_of s k" "queued e" "\<not> queued (entry_of s k)"
  shows "wq_inv ((set_entry k e s)\<lparr>ready := ready s @ [k]\<rparr>)"
  using assms by (auto simp: wq_inv_defs)

lemma entry_ok_of: "wq_inv s \<Longrightarrow> queued (entry_of s k) \<or> processing (entry_of s k) \<or> deadline_of s k \<noteq> None \<Longrightarrow>
   entry_ok (entry_of s k)"
  by (auto simp: wq_inv_def entries_ok_def deadline_of_def entry_of_def split: option.splits)

lemma wq_inv_flags: "wq_inv s \<Longrightarrow> \<not> (queued (entry_of s k) \<and> processing (entry_of s k)) \<and>
   (dirty (entry_of s k) \<longrightarrow> processing (entry_of s k))"
  by (auto simp: wq_inv_def entries_ok_def entry_of_def entry_ok_def split: option.splits)

lemma wq_add_inv: "wq_inv s \<Longrightarrow> wq_inv (wq_add k s)"
proof -
  assume inv: "wq_inv s"
  let ?e = "entry_of s k"
  consider (p) "processing ?e" | (q) "\<not> processing ?e" "queued ?e" | (n) "\<not> processing ?e" "\<not> queued ?e"
    by blast
  then show ?thesis
  proof cases
    case p
    with inv show ?thesis using wq_inv_flags[OF inv, of k]
      by (simp add: wq_add_def Let_def wq_inv_set_entry entry_ok_def deadline_of_def)
  next
    case q
    with inv show ?thesis using entry_ok_of[OF inv, of k]
      by (simp add: wq_add_def Let_def wq_inv_set_entry deadline_of_def)
  next
    case n
    with inv show ?thesis using wq_inv_flags[OF inv, of k]
      by (simp add: wq_add_def Let_def wq_inv_enqueue entry_ok_def deadline_of_def)
  qed
qed

lemma wq_add_at_inv: "wq_inv s \<Longrightarrow> wq_inv (wq_add_at k d s)"
proof -
  assume inv: "wq_inv s"
  let ?e = "entry_of s k"
  have flags: "entry_ok (?e\<lparr>deadline := Some d\<rparr>)"
    using wq_inv_flags[OF inv, of k] by (simp add: entry_ok_def)
  show ?thesis
  proof (cases "deadline ?e")
    case None
    with inv flags show ?thesis
      by (auto simp: wq_add_at_def Let_def wq_inv_defs insert_deadline_buckets insert_deadline_due)
  next
    case (Some w)
    show ?thesis
    proof (cases "w \<le> d")
      case True
      with Some inv show ?thesis using entry_ok_of[OF inv, of k]
        by (simp add: wq_add_at_def Let_def wq_inv_set_entry deadline_of_def)
    next
      case False
      with Some inv flags show ?thesis
        by (auto simp: wq_add_at_def Let_def wq_inv_defs insert_deadline_buckets insert_deadline_due
            remove_deadline_buckets remove_deadline_due)
    qed
  qed
qed

lemma wq_cancel_deadline_inv: "wq_inv s \<Longrightarrow> wq_inv (wq_cancel_deadline k s)"
proof (cases "wq_entries s k")
  case None
  then show "wq_inv s \<Longrightarrow> wq_inv (wq_cancel_deadline k s)" by (simp add: wq_cancel_deadline_def)
next
  case (Some e)
  assume inv: "wq_inv s"
  have e: "entry_of s k = e" using Some by (rule entry_of_Some)
  have ok: "entry_ok e" using inv Some by (rule wq_inv_entry)
  show ?thesis
  proof (cases "deadline e")
    case None
    with inv Some e ok show ?thesis
      by (auto simp: wq_cancel_deadline_def Let_def wq_inv_defs entry_ok_def)
  next
    case (Some w)
    with inv \<open>wq_entries s k = Some e\<close> e ok show ?thesis
      by (auto simp: wq_cancel_deadline_def Let_def wq_inv_defs entry_ok_def
          remove_deadline_buckets remove_deadline_due)
  qed
qed

section \<open>Deadlines firing\<close>

text \<open>
  While the keys of a popped bucket are fired, the queue satisfies the invariant as if the
  keys still to come were filed under the popped deadline.
\<close>

definition push :: "nat \<Rightarrow> 'k set \<Rightarrow> (nat, 'k set) btree \<Rightarrow> (nat, 'k set) btree" where
  "push w K ds = (if K = {} then ds else (w, K) # ds)"

lemma buckets_ok_Cons:
  "buckets_ok ((w, K) # ds) \<longleftrightarrow> K \<noteq> {} \<and> finite K \<and> (\<forall>x \<in> set ds. w < fst x) \<and> buckets_ok ds"
  by (auto simp: buckets_ok_def bt_wf_Cons)

lemma push_buckets: "buckets_ok (push w (insert k K) ds) \<Longrightarrow> buckets_ok (push w K ds)"
  by (simp add: push_def buckets_ok_Cons)

lemma push_due:
  assumes "bt_wf ((w, K) # ds)"
  shows "due_at (push w K ds) k w' \<longleftrightarrow> (w' = w \<and> k \<in> K) \<or> due_at ds k w'"
  by (cases "K = {}") (simp_all add: push_def due_at_Cons assms)

text \<open>Firing a key, by the state of its entry.\<close>

lemma fire_cases:
  assumes "fire k s = Some s'"
  obtains (processing) e where "entry_of s k = e" "wq_entries s k = Some e" "processing e"
      "s' = set_entry k (e\<lparr>deadline := None, dirty := True\<rparr>) s"
    | (queued) e where "entry_of s k = e" "wq_entries s k = Some e" "\<not> processing e" "queued e"
      "s' = set_entry k (e\<lparr>deadline := None\<rparr>) s"
    | (idle) e where "entry_of s k = e" "wq_entries s k = Some e" "\<not> processing e" "\<not> queued e"
      "s' = (set_entry k (e\<lparr>deadline := None, queued := True\<rparr>) s)\<lparr>ready := ready s @ [k]\<rparr>"
proof (cases "wq_entries s k")
  case None
  with assms show ?thesis by (simp add: fire_def)
next
  case (Some e)
  have "entry_of s k = e" using Some by (rule entry_of_Some)
  note e = this Some
  consider "processing e" | "\<not> processing e" "queued e" | "\<not> processing e" "\<not> queued e"
    by blast
  then show ?thesis
  proof cases
    case 1
    with Some assms have "s' = set_entry k (e\<lparr>deadline := None, dirty := True\<rparr>) s"
      by (simp add: fire_def Let_def)
    with e 1 show ?thesis by (rule processing)
  next
    case 2
    with Some assms have "s' = set_entry k (e\<lparr>deadline := None\<rparr>) s"
      by (simp add: fire_def Let_def)
    with e 2 show ?thesis by (rule queued)
  next
    case 3
    with Some assms have "s' = (set_entry k (e\<lparr>deadline := None, queued := True\<rparr>) s)\<lparr>ready := ready s @ [k]\<rparr>"
      by (simp add: fire_def Let_def)
    with e 3 show ?thesis by (rule idle)
  qed
qed

lemma fire_fields:
  assumes "fire k s = Some s'"
  shows "deadlines s' = deadlines s" "wq_processing s' = wq_processing s"
    "deadline_of s' k' = (if k' = k then None else deadline_of s k')"
proof -
  show "deadlines s' = deadlines s" using assms by (cases rule: fire_cases) simp_all
  have "processing (entry_of s' x) = processing (entry_of s x)" for x
    using assms by (cases rule: fire_cases) simp_all
  then show "wq_processing s' = wq_processing s" by (simp add: wq_processing_def)
  show "deadline_of s' k' = (if k' = k then None else deadline_of s k')"
    using assms by (cases rule: fire_cases) (simp_all add: deadline_of_def)
qed

lemma fire_pending:
  assumes "ready_ok s" "fire k s = Some s'"
  shows "wq_pending s' = insert k (wq_pending s)"
proof -
  have "x \<in> wq_pending s' \<longleftrightarrow> x = k \<or> x \<in> wq_pending s" for x
    using assms(2)
  proof (cases rule: fire_cases)
    case (queued e)
    then have "k \<in> set (ready s)" using assms(1) by (simp add: ready_ok_def)
    with queued show ?thesis by (auto simp: wq_pending_def)
  qed (auto simp: wq_pending_def)
  then show ?thesis by blast
qed

lemma ready_ok_deadlines [wq_simps, simp]: "ready_ok (s\<lparr>deadlines := d\<rparr>) = ready_ok s"
  by (simp add: ready_ok_def)

lemma fire_ok:
  assumes "entries_ok s" "ready_ok s" "fire k s = Some s'"
  shows "entries_ok s' \<and> ready_ok s'"
  using assms(3)
proof (cases rule: fire_cases)
  case (processing e)
  then have "entry_ok (e\<lparr>deadline := None, dirty := True\<rparr>)"
    using entries_okD[OF assms(1), of k e] by (simp add: entry_ok_def)
  with processing assms show ?thesis by (simp add: wq_simps)
next
  case (queued e)
  then have "entry_ok (e\<lparr>deadline := None\<rparr>)"
    using entries_okD[OF assms(1), of k e] by (simp add: entry_ok_def)
  with queued assms show ?thesis by (simp add: wq_simps)
next
  case (idle e)
  then have "entry_ok (e\<lparr>deadline := None, queued := True\<rparr>)"
    using entries_okD[OF assms(1), of k e] by (simp add: entry_ok_def)
  with idle assms show ?thesis by (simp add: wq_simps)
qed

lemma fire_inv:
  assumes inv: "wq_inv (s\<lparr>deadlines := push w (insert k K) ds\<rparr>)" and "k \<notin> K"
  obtains s' where "fire k s = Some s'" "wq_inv (s'\<lparr>deadlines := push w K ds\<rparr>)"
proof -
  have b: "buckets_ok (push w (insert k K) ds)"
    and idx: "\<And>k' w'. due_at (push w (insert k K) ds) k' w' \<longleftrightarrow> deadline_of s k' = Some w'"
    using inv by (auto simp: wq_inv_def deadlines_ok_def deadline_of_def)
  have "buckets_ok ((w, insert k K) # ds)" using b by (simp add: push_def)
  then have wf: "bt_wf ((w, insert k K) # ds)" "bt_wf ((w, K) # ds)"
    by (auto simp: buckets_ok_Cons bt_wf_Cons buckets_ok_def)
  have d: "deadline_of s k = Some w"
    using push_due[OF wf(1), of k w] idx by simp
  have later: "w < w'" if "due_at ds k' w'" for k' w'
    using that wf by (force simp: due_at_def bt_wf_Cons dest: map_of_SomeD)
  have nod: "\<not> due_at ds k w'" for w'
    using push_due[OF wf(1), of k w'] idx[of k w'] d later[of k w'] by auto
  obtain e where e: "wq_entries s k = Some e"
    using d by (cases "wq_entries s k") (auto simp: deadline_of_def entry_of_def)
  then have eo: "entry_of s k = e" "entry_ok e"
    using inv by (auto simp: entry_of_Some wq_inv_def entries_ok_def)
  obtain s' where f: "fire k s = Some s'" by (simp add: fire_def e Let_def)
  have due: "due_at (push w K ds) k' w' \<longleftrightarrow> deadline_of s' k' = Some w'" for k' w'
    using push_due[OF wf(1), of k' w'] push_due[OF wf(2), of k' w'] idx[of k' w'] nod \<open>k \<notin> K\<close>
      fire_fields(3)[OF f, of k'] by auto
  have "deadlines_ok (s'\<lparr>deadlines := push w K ds\<rparr>)"
    using push_buckets[OF b] due by (simp add: deadlines_ok_def deadline_of_def)
  moreover have "entries_ok s' \<and> ready_ok s'"
    using fire_ok[OF _ _ f] inv by (simp add: wq_inv_def)
  ultimately have "wq_inv (s'\<lparr>deadlines := push w K ds\<rparr>)"
    by (simp add: wq_inv_def)
  with f show ?thesis by (rule that)
qed

lemma wq_sets_deadlines [wq_simps, simp]:
  "wq_pending (s\<lparr>deadlines := d\<rparr>) = wq_pending s" "wq_processing (s\<lparr>deadlines := d\<rparr>) = wq_processing s"
  "deadline_of (s\<lparr>deadlines := d\<rparr>) k = deadline_of s k"
  by (simp_all add: wq_pending_def wq_processing_def deadline_of_def)

lemma fire_all_inv:
  assumes "wq_inv (s\<lparr>deadlines := push w (set ks) ds\<rparr>)" "distinct ks"
  shows "\<exists>s'. fire_all ks s = Some s' \<and> wq_inv (s'\<lparr>deadlines := ds\<rparr>) \<and>
    wq_pending s' = wq_pending s \<union> set ks \<and> wq_processing s' = wq_processing s \<and>
    (\<forall>k. deadline_of s' k = (if k \<in> set ks then None else deadline_of s k))"
  using assms
proof (induction ks arbitrary: s)
  case Nil
  then show ?case by (simp add: push_def)
next
  case (Cons k ks)
  obtain t where t: "fire k s = Some t" "wq_inv (t\<lparr>deadlines := push w (set ks) ds\<rparr>)"
    using Cons.prems fire_inv[where s = s and w = w and k = k and K = "set ks" and ds = ds] by auto
  have "ready_ok s" using Cons.prems(1) by (simp add: wq_inv_def)
  note f = fire_pending[OF this t(1)] fire_fields[OF t(1)]
  obtain u where "fire_all ks t = Some u" "wq_inv (u\<lparr>deadlines := ds\<rparr>)"
    "wq_pending u = wq_pending t \<union> set ks" "wq_processing u = wq_processing t"
    "\<forall>k. deadline_of u k = (if k \<in> set ks then None else deadline_of t k)"
    using Cons.IH[OF t(2)] Cons.prems(2) by auto
  with t f show ?case by simp
qed

definition wq_due :: "nat \<Rightarrow> (nat, 'k set) btree \<Rightarrow> 'k set" where
  "wq_due now ds = {k. \<exists>w \<le> now. due_at ds k w}"

lemma expire_due_inv:
  assumes "wq_inv (s\<lparr>deadlines := ds\<rparr>)" "iterates iter"
  shows "\<exists>s'. expire_due iter now ds s = Some s' \<and> wq_inv s' \<and>
    wq_pending s' = wq_pending s \<union> wq_due now ds \<and> wq_processing s' = wq_processing s \<and>
    (\<forall>k. deadline_of s' k = (if k \<in> wq_due now ds then None else deadline_of s k))"
  using assms
proof (induction ds arbitrary: s)
  case Nil
  then show ?case by (simp add: wq_due_def)
next
  case (Cons b ds)
  obtain w ks where b: "b = (w, ks)" by (cases b)
  have bk: "buckets_ok ((w, ks) # ds)"
    using Cons.prems(1) by (simp add: b wq_inv_def deadlines_ok_def)
  then have wf: "bt_wf ((w, ks) # ds)" by (simp add: buckets_ok_def)
  have ks: "finite ks" "ks \<noteq> {}"
    using bk by (simp_all add: buckets_ok_Cons)
  have later: "w < w'" if "due_at ds k w'" for k w'
    using that wf by (force simp: due_at_def bt_wf_Cons dest: map_of_SomeD)
  show ?case
  proof (cases "w \<le> now")
    case True
    have it: "distinct (iter ks)" "set (iter ks) = ks"
      using Cons.prems(2) ks by (auto simp: iterates_def)
    have "wq_inv (s\<lparr>deadlines := ds, deadlines := push w (set (iter ks)) ds\<rparr>)"
      using Cons.prems(1) it ks by (simp add: b push_def)
    from fire_all_inv[OF this it(1)] obtain t where t:
      "fire_all (iter ks) (s\<lparr>deadlines := ds\<rparr>) = Some t" "wq_inv (t\<lparr>deadlines := ds\<rparr>)"
      "wq_pending t = wq_pending s \<union> ks" "wq_processing t = wq_processing s"
      "\<forall>k. deadline_of t k = (if k \<in> ks then None else deadline_of s k)"
      using it by auto
    have due: "wq_due now ((w, ks) # ds) = ks \<union> wq_due now ds"
      using True due_at_Cons[OF wf] by (auto simp: wq_due_def)
    from Cons.IH[OF t(2) Cons.prems(2)] obtain u where
      "expire_due iter now ds t = Some u" "wq_inv u"
      "wq_pending u = wq_pending t \<union> wq_due now ds" "wq_processing u = wq_processing t"
      "\<forall>k. deadline_of u k = (if k \<in> wq_due now ds then None else deadline_of t k)"
      by blast
    with t True due show ?thesis by (auto simp: b)
  next
    case False
    have "wq_due now ((w, ks) # ds) = {}"
      using False due_at_Cons[OF wf] later by (fastforce simp: wq_due_def)
    with False Cons.prems show ?thesis by (simp add: b)
  qed
qed

lemma expire_inv:
  assumes "wq_inv s" "iterates iter"
  obtains s' where "expire iter now s = Some s'" "wq_inv s'"
    "wq_pending s' = wq_pending s \<union> wq_due now (deadlines s)" "wq_processing s' = wq_processing s"
    "\<And>k. deadline_of s' k = (if k \<in> wq_due now (deadlines s) then None else deadline_of s k)"
  using expire_due_inv[where ds = "deadlines s" and s = s and iter = iter and now = now] assms by (auto simp: expire_def)

section \<open>Handing out and returning keys\<close>

lemma wq_pending_ready: "wq_inv s \<Longrightarrow> k \<in> wq_pending s \<longleftrightarrow> queued (entry_of s k) \<or> dirty (entry_of s k)"
  by (auto simp: wq_pending_def wq_inv_def ready_ok_def)

definition hand_out :: "nat \<Rightarrow> 'k wq_state \<Rightarrow> 'k wq_state" where
  "hand_out i s =
     (set_entry (ready s ! i) ((entry_of s (ready s ! i))\<lparr>queued := False, processing := True\<rparr>) s)
       \<lparr>ready := take i (ready s) @ drop (Suc i) (ready s)\<rparr>"

lemma hand_out_inv:
  assumes inv: "wq_inv s" and i: "i < length (ready s)"
  shows "wq_inv (hand_out i s)" "ready s ! i \<in> wq_pending s" "ready s ! i \<notin> wq_processing s"
    "wq_processing (hand_out i s) = insert (ready s ! i) (wq_processing s)"
    "wq_pending (hand_out i s) = wq_pending s - {ready s ! i}"
    "deadline_of (hand_out i s) k = deadline_of s k"
proof -
  let ?k = "ready s ! i" and ?r = "take i (ready s) @ drop (Suc i) (ready s)"
  have d: "distinct (ready s)" and r: "\<And>x. x \<in> set (ready s) \<longleftrightarrow> queued (entry_of s x)"
    using inv by (auto simp: wq_inv_def ready_ok_def)
  note rm = remove_nth_distinct[OF d i]
  have q: "queued (entry_of s ?k)" using r i nth_mem by blast
  have np: "\<not> processing (entry_of s ?k)" "\<not> dirty (entry_of s ?k)"
    using wq_inv_flags[OF inv, of ?k] q by auto
  show "?k \<in> wq_pending s" using i by (simp add: wq_pending_def)
  show "?k \<notin> wq_processing s" using np by (simp add: wq_processing_def)
  show "wq_processing (hand_out i s) = insert ?k (wq_processing s)"
    by (auto simp: wq_processing_def hand_out_def)
  show "wq_pending (hand_out i s) = wq_pending s - {?k}"
    using rm(1) np by (auto simp: wq_pending_def hand_out_def)
  show "deadline_of (hand_out i s) k = deadline_of s k"
    by (simp add: deadline_of_def hand_out_def)
  have "entry_ok ((entry_of s ?k)\<lparr>queued := False, processing := True\<rparr>)"
    by (simp add: entry_ok_def)
  then have "entries_ok (hand_out i s)"
    using inv by (simp add: hand_out_def wq_inv_def wq_simps)
  moreover have "ready_ok (hand_out i s)"
    using rm r by (auto simp: ready_ok_def hand_out_def)
  moreover have "deadlines_ok (hand_out i s)"
    using inv by (simp add: wq_inv_def deadlines_ok_def deadline_of_def hand_out_def)
  ultimately show "wq_inv (hand_out i s)" by (simp add: wq_inv_def)
qed

text \<open>
  \<^verbatim>\<open>next_selected\<close> never panics, keeps the invariant, and what it hands out was owed an event,
  was in no worker's hands, and is owed nothing more.
\<close>

lemma next_selected_inv:
  assumes "wq_inv s" "iterates iter"
  obtains (wait) s' where "next_selected iter select now s = Some (s', None)" "wq_inv s'"
      "wq_pending s' = wq_pending s \<union> wq_due now (deadlines s)" "wq_processing s' = wq_processing s"
      "\<not> (\<exists>i. select (ready s') = Some i \<and> i < length (ready s'))"
    | (hand) s' k where "next_selected iter select now s = Some (s', Some k)" "wq_inv s'"
      "k \<in> wq_pending s \<union> wq_due now (deadlines s)" "k \<notin> wq_processing s"
      "wq_pending s' = wq_pending s \<union> wq_due now (deadlines s) - {k}"
      "wq_processing s' = insert k (wq_processing s)"
proof -
  obtain s1 where s1: "expire iter now s = Some s1" "wq_inv s1"
    "wq_pending s1 = wq_pending s \<union> wq_due now (deadlines s)" "wq_processing s1 = wq_processing s"
    using expire_inv[OF assms] by metis
  show ?thesis
  proof (cases "\<exists>i. select (ready s1) = Some i \<and> i < length (ready s1)")
    case False
    then have "next_selected iter select now s = Some (s1, None)"
      using s1(1) by (auto simp: next_selected_def split: option.splits)
    then show ?thesis using wait s1 False by blast
  next
    case True
    then obtain i where i: "select (ready s1) = Some i" "i < length (ready s1)" by blast
    let ?k = "ready s1 ! i"
    note h = hand_out_inv[OF s1(2) i(2)]
    have "queued (entry_of s1 ?k)" using s1(2) nth_mem[OF i(2)] by (simp add: wq_inv_def ready_ok_def)
    then obtain e where e: "wq_entries s1 ?k = Some e" by (auto simp: entry_of_def split: option.splits)
    then have "next_selected iter select now s = Some (hand_out i s1, Some ?k)"
      using s1(1) i by (simp add: next_selected_def hand_out_def entry_of_Some Let_def)
    then show ?thesis using hand h s1 by force
  qed
qed

lemma wq_done_inv:
  assumes inv: "wq_inv s" and p: "k \<in> wq_processing s"
  obtains s' where "wq_done k s = Some s'" "wq_inv s'" "wq_pending s' = wq_pending s"
    "wq_processing s' = wq_processing s - {k}" "deadline_of s' = deadline_of s"
proof -
  have pk: "processing (entry_of s k)" using p by (simp add: wq_processing_def)
  then obtain e where e: "wq_entries s k = Some e" by (auto simp: entry_of_def split: option.splits)
  then have eo: "entry_of s k = e" by (rule entry_of_Some)
  have nq: "\<not> queued e" "processing e" using wq_inv_flags[OF inv, of k] pk eo by auto
  then have nr: "k \<notin> set (ready s)" using inv eo by (simp add: wq_inv_def ready_ok_def)
  consider (d) "dirty e" | (g) "\<not> dirty e" "deadline e = None" | (t) "\<not> dirty e" "deadline e \<noteq> None" by blast
  then show ?thesis
  proof cases
    case d
    let ?s = "(set_entry k (e\<lparr>processing := False, dirty := False, queued := True\<rparr>) s)\<lparr>ready := ready s @ [k]\<rparr>"
    have "wq_inv ?s" using inv nq eo by (simp add: wq_inv_enqueue entry_ok_def deadline_of_def)
    moreover have "wq_done k s = Some ?s" using d e by (simp add: wq_done_def Let_def)
    moreover have "wq_pending ?s = wq_pending s" "wq_processing ?s = wq_processing s - {k}" "deadline_of ?s = deadline_of s"
      using d eo by (auto simp: wq_pending_def wq_processing_def deadline_of_def)
    ultimately show ?thesis using that by blast
  next
    case g
    let ?s = "s\<lparr>wq_entries := (wq_entries s)(k := None)\<rparr>"
    have "wq_inv ?s" using inv nq eo g
      by (simp add: wq_inv_def entries_ok_def ready_ok_def deadlines_ok_def deadline_of_def)
    moreover have "wq_done k s = Some ?s" using g e by (simp add: wq_done_def Let_def)
    moreover have "wq_pending ?s = wq_pending s" "wq_processing ?s = wq_processing s - {k}" "deadline_of ?s = deadline_of s"
      using g eo by (auto simp: wq_pending_def wq_processing_def deadline_of_def)
    ultimately show ?thesis using that by blast
  next
    case t
    let ?s = "set_entry k (e\<lparr>processing := False\<rparr>) s"
    have "wq_inv ?s" using inv nq eo t by (simp add: wq_inv_set_entry entry_ok_def deadline_of_def)
    moreover have "wq_done k s = Some ?s" using t e by (auto simp: wq_done_def Let_def)
    moreover have "wq_pending ?s = wq_pending s" "wq_processing ?s = wq_processing s - {k}" "deadline_of ?s = deadline_of s"
      using t eo by (auto simp: wq_pending_def wq_processing_def deadline_of_def)
    ultimately show ?thesis using that by blast
  qed
qed

section \<open>What the producers' operations do to the owed and held keys\<close>

lemma wq_add_sets:
  assumes "wq_inv s"
  shows "wq_pending (wq_add k s) = insert k (wq_pending s)" "wq_processing (wq_add k s) = wq_processing s"
    "deadline_of (wq_add k s) = deadline_of s"
proof -
  have "queued (entry_of s k) \<longrightarrow> k \<in> set (ready s)"
    using assms by (simp add: wq_inv_def ready_ok_def)
  then show "wq_pending (wq_add k s) = insert k (wq_pending s)"
    by (auto simp: wq_pending_def wq_add_def Let_def)
  show "wq_processing (wq_add k s) = wq_processing s" "deadline_of (wq_add k s) = deadline_of s"
    by (auto simp: wq_processing_def wq_add_def deadline_of_def Let_def)
qed

text \<open>The earliest requested deadline is kept.\<close>

lemma wq_add_at_sets:
  "wq_pending (wq_add_at k d s) = wq_pending s" "wq_processing (wq_add_at k d s) = wq_processing s"
  "deadline_of (wq_add_at k d s) =
     (deadline_of s)(k := Some (case deadline_of s k of Some w \<Rightarrow> min w d | None \<Rightarrow> d))"
  by (auto simp: wq_pending_def wq_processing_def wq_add_at_def deadline_of_def Let_def fun_eq_iff
      split: option.splits)

lemma wq_cancel_deadline_sets:
  assumes "wq_inv s"
  shows "wq_pending (wq_cancel_deadline k s) = wq_pending s"
    "wq_processing (wq_cancel_deadline k s) = wq_processing s"
    "deadline_of (wq_cancel_deadline k s) = (deadline_of s)(k := None)"
proof -
  have f: "dirty (entry_of s k) \<longrightarrow> processing (entry_of s k)" using wq_inv_flags[OF assms, of k] by simp
  have same: "dirty (entry_of (wq_cancel_deadline k s) x) = dirty (entry_of s x)"
    "processing (entry_of (wq_cancel_deadline k s) x) = processing (entry_of s x)"
    "deadline (entry_of (wq_cancel_deadline k s) x) = (if x = k then None else deadline (entry_of s x))"
    "ready (wq_cancel_deadline k s) = ready s" for x
    using f by (auto simp: wq_cancel_deadline_def Let_def entry_of_Some entry_of_def split: option.splits)
  show "wq_pending (wq_cancel_deadline k s) = wq_pending s" by (simp add: wq_pending_def same)
  show "wq_processing (wq_cancel_deadline k s) = wq_processing s" by (simp add: wq_processing_def same)
  show "deadline_of (wq_cancel_deadline k s) = (deadline_of s)(k := None)"
    by (rule ext) (simp add: deadline_of_def same)
qed

section \<open>Producers and workers interleaved\<close>

record 'k wq_sys =
  wq :: "'k wq_state"
  held :: "'k multiset"

text \<open>
  One step of the whole system: any producer or worker runs one operation. A worker that gets
  a key holds a \<^verbatim>\<open>Work\<close> guard; dropping the guard (also when its task is cancelled) is
  \<open>step_done\<close>.
\<close>

inductive wq_step :: "('k set \<Rightarrow> 'k list) \<Rightarrow> 'k wq_sys \<Rightarrow> 'k wq_sys \<Rightarrow> bool" for iter where
  step_add: "wq_step iter s (s\<lparr>wq := wq_add k (wq s)\<rparr>)"
| step_add_at: "wq_step iter s (s\<lparr>wq := wq_add_at k d (wq s)\<rparr>)"
| step_cancel: "wq_step iter s (s\<lparr>wq := wq_cancel_deadline k (wq s)\<rparr>)"
| step_wait: "next_selected iter select now (wq s) = Some (q, None) \<Longrightarrow> wq_step iter s (s\<lparr>wq := q\<rparr>)"
| step_take: "next_selected iter select now (wq s) = Some (q, Some k) \<Longrightarrow>
    wq_step iter s \<lparr>wq = q, held = add_mset k (held s)\<rparr>"
| step_done: "k \<in># held s \<Longrightarrow> wq_done k (wq s) = Some q \<Longrightarrow>
    wq_step iter s \<lparr>wq = q, held = held s - {#k#}\<rparr>"

inductive wq_reachable :: "('k set \<Rightarrow> 'k list) \<Rightarrow> 'k wq_sys \<Rightarrow> bool" for iter where
  wq_start: "wq_reachable iter \<lparr>wq = wq_new, held = {#}\<rparr>"
| wq_next: "wq_reachable iter s \<Longrightarrow> wq_step iter s t \<Longrightarrow> wq_reachable iter t"

text \<open>The guards alive are exactly the keys marked processing, one guard each.\<close>

definition held_ok :: "'k wq_sys \<Rightarrow> bool" where
  "held_ok s \<longleftrightarrow> (\<forall>k. count (held s) k = (if k \<in> wq_processing (wq s) then 1 else 0))"

lemma held_ok_iff: "held_ok s \<Longrightarrow> k \<in># held s \<longleftrightarrow> k \<in> wq_processing (wq s)"
  by (auto simp: held_ok_def count_greater_zero_iff[symmetric] split: if_splits simp del: count_greater_zero_iff)

lemma wq_step_inv:
  assumes "wq_step iter s t" "iterates iter" "wq_inv (wq s)" "held_ok s"
  shows "wq_inv (wq t) \<and> held_ok t \<and>
    (\<forall>k \<in> wq_pending (wq s). k \<in> wq_pending (wq t) \<or> held t = add_mset k (held s))"
  using assms(1)
proof cases
  case (step_add k)
  with assms show ?thesis by (auto simp: wq_add_inv wq_add_sets held_ok_def)
next
  case (step_add_at k d)
  with assms show ?thesis by (auto simp: wq_add_at_inv wq_add_at_sets held_ok_def)
next
  case (step_cancel k)
  with assms show ?thesis by (auto simp: wq_cancel_deadline_inv wq_cancel_deadline_sets held_ok_def)
next
  case (step_wait select now q)
  from assms(3,2) show ?thesis
    by (cases rule: next_selected_inv[where select = select and now = now])
       (use step_wait assms(4) in \<open>auto simp: held_ok_def\<close>)
next
  case (step_take select now q k)
  from assms(3,2) show ?thesis
    by (cases rule: next_selected_inv[where select = select and now = now])
       (use step_take assms(4) in \<open>auto simp: held_ok_def\<close>)
next
  case (step_done k q)
  then have "k \<in> wq_processing (wq s)" using assms(4) by (simp add: held_ok_iff)
  then obtain q' where "wq_done k (wq s) = Some q'" "wq_inv q'" "wq_pending q' = wq_pending (wq s)"
    "wq_processing q' = wq_processing (wq s) - {k}"
    using wq_done_inv[OF assms(3)] by metis
  with step_done assms(4) show ?thesis by (auto simp: held_ok_def)
qed

lemma wq_reachable_inv:
  assumes "wq_reachable iter s" "iterates iter"
  shows "wq_inv (wq s) \<and> held_ok s"
  using assms
proof (induction rule: wq_reachable.induct)
  case wq_start
  have "wq_processing wq_new = {}" by (simp add: wq_processing_def entry_of_def wq_new_def)
  then show ?case by (simp add: wq_new_inv held_ok_def)
next
  case (wq_next s t)
  then show ?case using wq_step_inv by blast
qed

section \<open>The contract the queue's clients rely on\<close>

text \<open>
  What a worker may assume of its queue: an added key is owed a pass until it is handed out,
  deadlines are independent of that, the earliest deadline asked for is the one kept, and
  returning a key forgets neither.
\<close>

locale work_queue =
  fixes inv :: "'s \<Rightarrow> bool"
    and owed :: "'s \<Rightarrow> 'k set"
    and busy :: "'s \<Rightarrow> 'k set"
    and timer :: "'s \<Rightarrow> 'k \<Rightarrow> nat option"
    and add :: "'k \<Rightarrow> 's \<Rightarrow> 's"
    and add_at :: "'k \<Rightarrow> nat \<Rightarrow> 's \<Rightarrow> 's"
    and cancel :: "'k \<Rightarrow> 's \<Rightarrow> 's"
    and finish :: "'k \<Rightarrow> 's \<Rightarrow> 's option"
  assumes add_inv: "inv s \<Longrightarrow> inv (add k s)"
    and add_at_inv: "inv s \<Longrightarrow> inv (add_at k d s)"
    and cancel_inv: "inv s \<Longrightarrow> inv (cancel k s)"
    and add_owed: "inv s \<Longrightarrow> owed (add k s) = insert k (owed s)"
    and add_timer: "inv s \<Longrightarrow> timer (add k s) = timer s"
    and add_busy: "inv s \<Longrightarrow> busy (add k s) = busy s"
    and add_at_owed: "inv s \<Longrightarrow> owed (add_at k d s) = owed s"
    and add_at_timer: "inv s \<Longrightarrow> timer (add_at k d s) =
      (timer s)(k := Some (case timer s k of Some w \<Rightarrow> min w d | None \<Rightarrow> d))"
    and add_at_busy: "inv s \<Longrightarrow> busy (add_at k d s) = busy s"
    and cancel_owed: "inv s \<Longrightarrow> owed (cancel k s) = owed s"
    and cancel_timer: "inv s \<Longrightarrow> timer (cancel k s) = (timer s)(k := None)"
    and cancel_busy: "inv s \<Longrightarrow> busy (cancel k s) = busy s"
    and finish_ok: "inv s \<Longrightarrow> k \<in> busy s \<Longrightarrow>
      \<exists>s'. finish k s = Some s' \<and> inv s' \<and> owed s' = owed s \<and> busy s' = busy s - {k} \<and> timer s' = timer s"

interpretation wq: work_queue wq_inv wq_pending wq_processing deadline_of wq_add wq_add_at wq_cancel_deadline wq_done
  by unfold_locales
     (simp_all add: wq_add_inv wq_add_at_inv wq_cancel_deadline_inv wq_add_sets wq_add_at_sets
        wq_cancel_deadline_sets, metis wq_done_inv)

section \<open>Properties\<close>

text \<open>
  C17. In every state the interleaved operations of producers and workers can reach, whatever
  order hash sets are iterated in and whatever key each worker selects, the queue's data
  structure is consistent: the ready list holds exactly the queued keys once each, an entry
  is never queued and processing at once and only a processing entry is dirty, and the
  deadline index files exactly the keys whose entries carry a deadline, under that deadline.
\<close>

theorem wq_reachable_consistent:
  assumes "iterates iter" "wq_reachable iter s"
  shows "wq_inv (wq s)"
  using wq_reachable_inv[OF assms(2,1)] by simp

theorem wq_reachable_consistent_witness:
  "wq_inv (wq_add (1::nat) wq_new)"
proof -
  have it: "iterates (sorted_list_of_set :: nat set \<Rightarrow> nat list)" by (simp add: iterates_def)
  have "wq_reachable sorted_list_of_set (\<lparr>wq = wq_new, held = {#}\<rparr>\<lparr>wq := wq_add (1::nat) (wq \<lparr>wq = wq_new, held = {#}\<rparr>)\<rparr>)"
    by (rule wq_next[OF wq_start step_add])
  from wq_reachable_consistent[OF it this] show ?thesis by simp
qed

text \<open>
  C15. Mutual exclusion: no key is ever in the hands of two workers, and a key a worker holds
  is not in the ready list for another to take.
\<close>

theorem wq_one_worker_per_key:
  assumes "iterates iter" "wq_reachable iter s"
  shows "count (held s) k \<le> 1 \<and> (k \<in># held s \<longrightarrow> k \<notin> set (ready (wq s)))"
proof -
  have inv: "wq_inv (wq s)" "held_ok s" using wq_reachable_inv[OF assms(2,1)] by auto
  have "k \<notin> set (ready (wq s))" if "k \<in># held s"
    using that inv wq_inv_flags[OF inv(1), of k]
    by (auto simp: held_ok_iff wq_processing_def wq_inv_def ready_ok_def)
  then show ?thesis using inv(2) by (auto simp: held_ok_def)
qed

theorem wq_one_worker_per_key_witness:
  "\<exists>s. held s = {#(1::nat)#} \<and> wq_reachable sorted_list_of_set s \<and> count (held s) 1 \<le> 1"
proof -
  have it: "iterates (sorted_list_of_set :: nat set \<Rightarrow> nat list)" by (simp add: iterates_def)
  let ?s1 = "\<lparr>wq = wq_add 1 wq_new, held = {#}\<rparr> :: nat wq_sys"
  have r1: "wq_reachable sorted_list_of_set ?s1"
    using wq_next[OF wq_start step_add, of sorted_list_of_set "1::nat"] by simp
  let ?q = "hand_out 0 (wq_add (1::nat) wq_new)\<lparr>deadlines := []\<rparr>"
  have "next_selected sorted_list_of_set select_first 0 (wq ?s1) = Some (?q, Some 1)"
    by (simp add: next_selected_def select_first_def expire_def wq_add_def wq_new_def entry_of_def
        Let_def set_entry_def hand_out_def entry_default_def)
  from wq_next[OF r1 step_take[OF this]]
  have r2: "wq_reachable sorted_list_of_set \<lparr>wq = ?q, held = {#1#}\<rparr>" by simp
  from wq_one_worker_per_key[OF it r2, of 1] r2 show ?thesis by (intro exI[of _ "\<lparr>wq = ?q, held = {#1#}\<rparr>"]) simp
qed

text \<open>
  No operation panics: in every reachable state \<^verbatim>\<open>next\<close> (with any selection, at any time)
  finds the entries of all due and selected keys, and dropping any guard alive finds its
  entry.
\<close>

theorem wq_never_panics:
  assumes "iterates iter" "wq_reachable iter s"
  shows "next_selected iter select now (wq s) \<noteq> None \<and> (k \<in># held s \<longrightarrow> wq_done k (wq s) \<noteq> None)"
proof -
  have inv: "wq_inv (wq s)" "held_ok s" using wq_reachable_inv[OF assms(2,1)] by auto
  have "next_selected iter select now (wq s) \<noteq> None"
    by (rule next_selected_inv[OF inv(1) assms(1), of select now]) auto
  moreover have "wq_done k (wq s) \<noteq> None" if "k \<in># held s"
    using that wq.finish_ok[OF inv(1), of k] held_ok_iff[OF inv(2)] by auto
  ultimately show ?thesis by blast
qed

theorem wq_never_panics_witness:
  "next_selected sorted_list_of_set select_first 7 (wq_add_at (1::nat) 5 wq_new) \<noteq> None"
proof -
  have it: "iterates (sorted_list_of_set :: nat set \<Rightarrow> nat list)" by (simp add: iterates_def)
  have "wq_reachable sorted_list_of_set (\<lparr>wq = wq_new, held = {#}\<rparr>\<lparr>wq := wq_add_at (1::nat) 5 (wq \<lparr>wq = wq_new, held = {#}\<rparr>)\<rparr>)"
    by (rule wq_next[OF wq_start step_add_at])
  from wq_never_panics[OF it this] show ?thesis by simp
qed

text \<open>
  C16. No event is lost: once a key is owed a pass (it was added, or its deadline fired),
  every step leaves it owed until the step that hands it to a worker. In particular an event
  that arrives while a worker holds the key survives the worker's return.
\<close>

theorem wq_no_lost_event:
  assumes "iterates iter" "wq_reachable iter s" "wq_step iter s t" "k \<in> wq_pending (wq s)"
  shows "k \<in> wq_pending (wq t) \<or> held t = add_mset k (held s)"
proof -
  have inv: "wq_inv (wq s)" "held_ok s" using wq_reachable_inv[OF assms(2,1)] by auto
  show ?thesis using wq_step_inv[OF assms(3,1) inv] assms(4) by blast
qed

theorem wq_no_lost_event_witness:
  "(1::nat) \<in> wq_pending (wq_cancel_deadline 1 (wq_add 1 wq_new))"
proof -
  have it: "iterates (sorted_list_of_set :: nat set \<Rightarrow> nat list)" by (simp add: iterates_def)
  let ?s0 = "\<lparr>wq = wq_new, held = {#}\<rparr> :: nat wq_sys"
  let ?s1 = "?s0\<lparr>wq := wq_add 1 (wq ?s0)\<rparr>"
  have r1: "wq_reachable sorted_list_of_set ?s1" by (rule wq_next[OF wq_start step_add])
  have st: "wq_step sorted_list_of_set ?s1 (?s1\<lparr>wq := wq_cancel_deadline 1 (wq ?s1)\<rparr>)"
    by (rule step_cancel)
  have "1 \<in> wq_pending (wq ?s1)" by (simp add: wq_add_sets wq_new_inv)
  from wq_no_lost_event[OF it r1 st this] show ?thesis by simp
qed

end
