(* ===== verification/Reactor.thy ===== *)
theory Reactor
  imports WorkQueue
begin

text \<open>
  \<^verbatim>\<open>pkg/apimachinery/src/reactor.rs\<close>: a controller's worker, which runs passes over its own
  queue (the key type is \<open>unit\<close>), and the hub that shares one reflector per URL between
  workers. \<open>worker_run\<close> is \<^verbatim>\<open>Worker::run\<close>; it is written over the queue operations it
  calls, so that its lemma is proved once from the contract \<open>work_queue\<close>. The hub is a
  step relation: workers are created, observe URLs, are notified and are dropped, in any
  order. Times are milliseconds. A feed stands for its reflector task; the task-local scopes,
  the metrics and \<^verbatim>\<open>scope_object\<close> are not modelled.
\<close>

section \<open>A worker's pass\<close>

text \<open>\<open>WorkerState\<close>, over any queue type.\<close>

record 's worker_state =
  w_queue :: 's
  w_paths :: "string set"
  w_failed :: bool
  w_failures :: nat

text \<open>
  What happens while a pass runs: another task enqueues, the pass asks for a later pass
  (\<^verbatim>\<open>requeue_after\<close>, with the time it computes), or it reports an error (\<^verbatim>\<open>failed\<close>).
\<close>

datatype pass_event = Enqueue | RequeueAt nat | Failed

definition retry_millis :: "nat \<Rightarrow> nat" where
  "retry_millis failures = min (100 * 2 ^ min failures 8) 30000"

fun during ::
    "(unit \<Rightarrow> 's \<Rightarrow> 's) \<Rightarrow> (unit \<Rightarrow> nat \<Rightarrow> 's \<Rightarrow> 's) \<Rightarrow> pass_event list \<Rightarrow> 's worker_state \<Rightarrow> 's worker_state" where
  "during add add_at [] w = w"
| "during add add_at (Enqueue # es) w = during add add_at es (w\<lparr>w_queue := add () (w_queue w)\<rparr>)"
| "during add add_at (RequeueAt d # es) w = during add add_at es (w\<lparr>w_queue := add_at () d (w_queue w)\<rparr>)"
| "during add add_at (Failed # es) w = during add add_at es (w\<lparr>w_failed := True\<rparr>)"

definition worker_run_with ::
    "(unit \<Rightarrow> 's \<Rightarrow> 's) \<Rightarrow> (unit \<Rightarrow> nat \<Rightarrow> 's \<Rightarrow> 's) \<Rightarrow> (unit \<Rightarrow> 's \<Rightarrow> 's) \<Rightarrow>
     pass_event list \<Rightarrow> nat \<Rightarrow> 's worker_state \<Rightarrow> 's worker_state" where
  "worker_run_with add add_at cancel es now w =
     (let w1 = w\<lparr>w_queue := cancel () (w_queue w), w_failed := False\<rparr>;
          w2 = during add add_at es w1
      in if w_failed w2 then
           (let n = min (w_failures w2 + 1) (2 ^ 32 - 1)
            in w2\<lparr>w_failures := n, w_queue := add_at () (now + retry_millis n) (w_queue w2)\<rparr>)
         else w2\<lparr>w_failures := 0\<rparr>)"

definition worker_run ::
    "pass_event list \<Rightarrow> nat \<Rightarrow> unit wq_state worker_state \<Rightarrow> unit wq_state worker_state" where
  "worker_run = worker_run_with wq_add wq_add_at wq_cancel_deadline"

section \<open>The hub\<close>

text \<open>
  The live workers by id, the feeds (URL to the ids of its subscribers), and the counter
  ids are drawn from.
\<close>

record hub =
  feeds :: "string \<rightharpoonup> nat set"
  workers :: "nat \<rightharpoonup> unit wq_state worker_state"
  next_id :: nat

definition hub_default :: hub where
  "hub_default = \<lparr>feeds = Map.empty, workers = Map.empty, next_id = 1\<rparr>"

definition new_worker :: "unit wq_state worker_state" where
  "new_worker = \<lparr>w_queue = wq_add () wq_new, w_paths = {}, w_failed = False, w_failures = 0\<rparr>"

definition hub_worker :: "hub \<Rightarrow> hub" where
  "hub_worker h = h\<lparr>workers := (workers h)(next_id h \<mapsto> new_worker), next_id := (next_id h + 1) mod 2 ^ 64\<rparr>"

definition observe :: "nat \<Rightarrow> string \<Rightarrow> hub \<Rightarrow> hub" where
  "observe i url h =
     (case workers h i of
        None \<Rightarrow> h
      | Some w \<Rightarrow>
          if url \<in> w_paths w then h
          else h\<lparr>workers := (workers h)(i \<mapsto> w\<lparr>w_paths := insert url (w_paths w)\<rparr>),
                 feeds := (feeds h)(url \<mapsto> insert i (case feeds h url of None \<Rightarrow> {} | Some S \<Rightarrow> S))\<rparr>)"

definition add_to :: "unit wq_state worker_state \<Rightarrow> unit wq_state worker_state" where
  "add_to w = w\<lparr>w_queue := wq_add () (w_queue w)\<rparr>"

text \<open>The reflector's callback: every subscriber still alive is enqueued.\<close>

definition notify :: "string \<Rightarrow> hub \<Rightarrow> hub" where
  "notify url h =
     (case feeds h url of
        None \<Rightarrow> h
      | Some S \<Rightarrow> h\<lparr>workers := (\<lambda>i. if i \<in> S then map_option add_to (workers h i) else workers h i)\<rparr>)"

definition unsubscribe :: "nat \<Rightarrow> string set \<Rightarrow> (string \<rightharpoonup> nat set) \<Rightarrow> (string \<rightharpoonup> nat set)" where
  "unsubscribe i paths fs =
     (\<lambda>url. case fs url of
              None \<Rightarrow> None
            | Some S \<Rightarrow> if url \<in> paths then (if S - {i} = {} then None else Some (S - {i})) else Some S)"

definition drop_worker :: "nat \<Rightarrow> hub \<Rightarrow> hub" where
  "drop_worker i h =
     (case workers h i of
        None \<Rightarrow> h
      | Some w \<Rightarrow> h\<lparr>workers := (workers h)(i := None), feeds := unsubscribe i (w_paths w) (feeds h)\<rparr>)"

inductive hub_reachable :: "hub \<Rightarrow> bool" where
  hub_start: "hub_reachable hub_default"
| hub_new: "hub_reachable h \<Longrightarrow> next_id h + 1 < 2 ^ 64 \<Longrightarrow> hub_reachable (hub_worker h)"
| hub_observe: "hub_reachable h \<Longrightarrow> hub_reachable (observe i url h)"
| hub_notify: "hub_reachable h \<Longrightarrow> hub_reachable (notify url h)"
| hub_drop: "hub_reachable h \<Longrightarrow> hub_reachable (drop_worker i h)"
| hub_run: "hub_reachable h \<Longrightarrow> workers h i = Some w \<Longrightarrow>
    hub_reachable (h\<lparr>workers := (workers h)(i \<mapsto> worker_run es now w)\<rparr>)"
| hub_take: "hub_reachable h \<Longrightarrow> workers h i = Some w \<Longrightarrow> iterates iter \<Longrightarrow>
    wq_next iter now (w_queue w) = Some (q, k) \<Longrightarrow> hub_reachable (h\<lparr>workers := (workers h)(i \<mapsto> w\<lparr>w_queue := q\<rparr>)\<rparr>)"
| hub_done: "hub_reachable h \<Longrightarrow> workers h i = Some w \<Longrightarrow> () \<in> wq_processing (w_queue w) \<Longrightarrow>
    wq_done () (w_queue w) = Some q \<Longrightarrow> hub_reachable (h\<lparr>workers := (workers h)(i \<mapsto> w\<lparr>w_queue := q\<rparr>)\<rparr>)"

text \<open>
  A feed exists exactly for the URLs some live worker has observed, and its subscribers are
  those workers.
\<close>

definition observers :: "hub \<Rightarrow> string \<Rightarrow> nat set" where
  "observers h url = {i. \<exists>w. workers h i = Some w \<and> url \<in> w_paths w}"

definition hub_inv :: "hub \<Rightarrow> bool" where
  "hub_inv h \<longleftrightarrow>
     (\<forall>url. feeds h url = (if observers h url = {} then None else Some (observers h url))) \<and>
     (\<forall>i w. workers h i = Some w \<longrightarrow> wq_inv (w_queue w) \<and> i < next_id h)"

section \<open>The retry delay\<close>

lemma retry_millis_bounds: "0 < n \<Longrightarrow> 200 \<le> retry_millis n \<and> retry_millis n \<le> 25600"
proof -
  assume "0 < n"
  then have "(2::nat) ^ 1 \<le> 2 ^ min n 8" "(2::nat) ^ min n 8 \<le> 2 ^ 8"
    by (intro power_increasing; simp)+
  then show ?thesis by (simp add: retry_millis_def)
qed

section \<open>From the queue's contract\<close>

context work_queue
begin

lemma during_keeps:
  assumes "inv (w_queue w)"
  shows "inv (w_queue (during (\<lambda>_. add k) (\<lambda>_. add_at k) es w)) \<and>
    busy (w_queue (during (\<lambda>_. add k) (\<lambda>_. add_at k) es w)) = busy (w_queue w) \<and>
    owed (w_queue (during (\<lambda>_. add k) (\<lambda>_. add_at k) es w)) =
      owed (w_queue w) \<union> (if Enqueue \<in> set es then {k} else {}) \<and>
    w_failed (during (\<lambda>_. add k) (\<lambda>_. add_at k) es w) = (w_failed w \<or> Failed \<in> set es) \<and>
    w_paths (during (\<lambda>_. add k) (\<lambda>_. add_at k) es w) = w_paths w"
  using assms
  by (induction "\<lambda>_::unit. add k" "\<lambda>_::unit. add_at k" es w rule: during.induct)
     (auto simp: add_inv add_at_inv add_busy add_owed add_at_busy add_at_owed)

lemma run_keeps:
  assumes "inv (w_queue w)"
  shows "inv (w_queue (worker_run_with (\<lambda>_. add k) (\<lambda>_. add_at k) (\<lambda>_. cancel k) es now w)) \<and>
    w_paths (worker_run_with (\<lambda>_. add k) (\<lambda>_. add_at k) (\<lambda>_. cancel k) es now w) = w_paths w"
  using during_keeps[of "w\<lparr>w_queue := cancel k (w_queue w), w_failed := False\<rparr>" k es] assms
  by (simp add: worker_run_with_def Let_def add_at_inv cancel_inv)

text \<open>
  After a failed pass the key has a deadline no later than the retry delay, and still has it
  when the worker has returned the key.
\<close>

lemma failed_pass_retries:
  assumes "inv (w_queue w)" "k \<in> busy (w_queue w)" "Failed \<in> set es"
    and "w' = worker_run_with (\<lambda>_. add k) (\<lambda>_. add_at k) (\<lambda>_. cancel k) es now w"
  shows "0 < w_failures w' \<and> (\<exists>q d. finish k (w_queue w') = Some q \<and> inv q \<and> k \<notin> busy q \<and>
    timer q k = Some d \<and> d \<le> now + retry_millis (w_failures w') \<and>
    (Enqueue \<in> set es \<longrightarrow> k \<in> owed q))"
proof -
  let ?w1 = "w\<lparr>w_queue := cancel k (w_queue w), w_failed := False\<rparr>"
  let ?w2 = "during (\<lambda>_. add k) (\<lambda>_. add_at k) es ?w1"
  have w2: "inv (w_queue ?w2)" "w_failed ?w2" "k \<in> busy (w_queue ?w2)"
      "Enqueue \<in> set es \<longrightarrow> k \<in> owed (w_queue ?w2)"
    using during_keeps[of ?w1 k es] assms(1-3) by (simp_all add: cancel_inv cancel_busy)
  have n: "0 < w_failures w'" using w2(2) assms(4) by (simp add: worker_run_with_def Let_def)
  have q': "w_queue w' = add_at k (now + retry_millis (w_failures w')) (w_queue ?w2)"
    using w2(2) assms(4) by (simp add: worker_run_with_def Let_def)
  have i': "inv (w_queue w')" and b: "k \<in> busy (w_queue w')"
    and o: "Enqueue \<in> set es \<longrightarrow> k \<in> owed (w_queue w')"
    using w2 by (simp_all add: q' add_at_inv add_at_busy add_at_owed)
  have t: "\<exists>d. timer (w_queue w') k = Some d \<and> d \<le> now + retry_millis (w_failures w')"
    using w2(1) by (simp add: q' add_at_timer split: option.splits)
  from finish_ok[OF i' b] o t n show ?thesis by auto
qed

end

lemma worker_run_keeps:
  "wq_inv (w_queue w) \<Longrightarrow> wq_inv (w_queue (worker_run es now w)) \<and> w_paths (worker_run es now w) = w_paths w"
  using wq.run_keeps[of w "()" es now] by (simp add: worker_run_def)

section \<open>The hub's invariant\<close>

lemma hub_inv_queue:
  assumes "hub_inv h" "workers h i = Some w" "wq_inv (w_queue w')" "w_paths w' = w_paths w"
  shows "hub_inv (h\<lparr>workers := (workers h)(i \<mapsto> w')\<rparr>)"
proof -
  have "observers (h\<lparr>workers := (workers h)(i \<mapsto> w')\<rparr>) = observers h"
    using assms(2,4) by (auto simp: observers_def fun_eq_iff)
  with assms show ?thesis by (auto simp: hub_inv_def)
qed

lemma hub_worker_inv:
  assumes "hub_inv h" "next_id h + 1 < 2 ^ 64"
  shows "hub_inv (hub_worker h)"
proof -
  have none: "workers h (next_id h) = None"
    using assms(1) by (cases "workers h (next_id h)") (auto simp: hub_inv_def)
  have "observers (hub_worker h) = observers h"
    using none by (auto simp: observers_def hub_worker_def new_worker_def fun_eq_iff)
  with assms show ?thesis
    by (auto simp: hub_inv_def hub_worker_def new_worker_def wq_add_inv wq_new_inv less_SucI)
qed

lemma observe_inv: "hub_inv h \<Longrightarrow> hub_inv (observe i url h)"
proof (cases "workers h i")
  case (Some w)
  assume inv: "hub_inv h"
  show ?thesis
  proof (cases "url \<in> w_paths w")
    case False
    have obs: "observers (observe i url h) = (observers h)(url := insert i (observers h url))"
      using Some False by (auto simp: observers_def observe_def fun_eq_iff)
    have "feeds (observe i url h) u = (if observers (observe i url h) u = {} then None
        else Some (observers (observe i url h) u))" for u
      unfolding obs using inv Some False by (simp add: hub_inv_def observe_def)
    moreover have "wq_inv (w_queue v) \<and> j < next_id (observe i url h)"
      if "workers (observe i url h) j = Some v" for j v
      using that inv Some False by (auto simp: hub_inv_def observe_def split: if_splits)
    ultimately show ?thesis by (simp add: hub_inv_def)
  qed (use inv Some in \<open>simp add: observe_def\<close>)
qed (simp add: observe_def)

lemma notify_inv: "hub_inv h \<Longrightarrow> hub_inv (notify url h)"
proof (cases "feeds h url")
  case (Some S)
  assume inv: "hub_inv h"
  have "observers (notify url h) = observers h"
    using Some by (auto simp: observers_def notify_def add_to_def fun_eq_iff)
  with inv Some show ?thesis
    by (auto simp: hub_inv_def notify_def add_to_def wq_add_inv split: if_splits)
qed (simp add: notify_def)

lemma drop_worker_inv: "hub_inv h \<Longrightarrow> hub_inv (drop_worker i h)"
proof (cases "workers h i")
  case (Some w)
  assume inv: "hub_inv h"
  have obs: "observers (drop_worker i h) = (\<lambda>u. observers h u - {i})"
    using Some by (auto simp: observers_def drop_worker_def fun_eq_iff)
  have i: "i \<in> observers h u \<longleftrightarrow> u \<in> w_paths w" for u using Some by (auto simp: observers_def)
  have "feeds (drop_worker i h) u = (if observers h u - {i} = {} then None else Some (observers h u - {i}))" for u
    using inv Some i[of u] by (auto simp: drop_worker_def unsubscribe_def hub_inv_def)
  with inv Some obs show ?thesis by (auto simp: hub_inv_def drop_worker_def)
qed (simp add: drop_worker_def)

lemma hub_reachable_inv: "hub_reachable h \<Longrightarrow> hub_inv h"
proof (induction rule: hub_reachable.induct)
  case hub_start
  show ?case by (simp add: hub_inv_def hub_default_def observers_def)
next
  case (hub_run h i w es now)
  then have "wq_inv (w_queue w)" by (auto simp: hub_inv_def)
  with hub_run worker_run_keeps show ?case by (blast intro: hub_inv_queue)
next
  case (hub_take h i w iter now q k)
  then have inv: "wq_inv (w_queue w)" by (auto simp: hub_inv_def)
  have "wq_inv q"
    by (rule next_selected_inv[OF inv hub_take(3), of select_first now])
       (use hub_take(4) in \<open>auto simp: wq_next_def\<close>)
  with hub_take show ?case by (auto intro: hub_inv_queue)
next
  case (hub_done h i w q)
  then have inv: "wq_inv (w_queue w)" by (auto simp: hub_inv_def)
  with hub_done wq.finish_ok[OF inv hub_done(3)] show ?case by (auto intro: hub_inv_queue)
qed (simp_all add: hub_worker_inv observe_inv notify_inv drop_worker_inv)

section \<open>Properties\<close>

text \<open>
  C18. A pass that reported an error is always retried: after \<^verbatim>\<open>Worker::run\<close> of such a pass,
  returning the key does not panic and leaves a deadline at most 25.6 s (the longest retry
  delay) after the pass ended; and an event enqueued while the pass ran leaves the key owed
  another pass.
\<close>

theorem failed_pass_is_retried:
  assumes "wq_inv (w_queue w)" "() \<in> wq_processing (w_queue w)" "Failed \<in> set es"
  shows "\<exists>q d. wq_done () (w_queue (worker_run es now w)) = Some q \<and> wq_inv q \<and>
    () \<notin> wq_processing q \<and> deadline_of q () = Some d \<and> d \<le> now + 25600 \<and>
    (Enqueue \<in> set es \<longrightarrow> () \<in> wq_pending q)"
proof -
  have "worker_run es now w =
      worker_run_with (\<lambda>_. wq_add ()) (\<lambda>_. wq_add_at ()) (\<lambda>_. wq_cancel_deadline ()) es now w"
    by (simp add: worker_run_def)
  from wq.failed_pass_retries[OF assms this] retry_millis_bounds
  show ?thesis by (meson add_left_mono order_trans)
qed

theorem failed_pass_is_retried_witness:
  "let w = \<lparr>w_queue = hand_out 0 (wq_add () wq_new), w_paths = {}, w_failed = False, w_failures = 3\<rparr>
   in \<exists>q d. wq_done () (w_queue (worker_run [Enqueue, Failed] 1000 w)) = Some q \<and>
     deadline_of q () = Some d \<and> d \<le> 26600 \<and> () \<in> wq_pending q"
proof -
  let ?q = "hand_out 0 (wq_add () wq_new)"
  let ?w = "\<lparr>w_queue = ?q, w_paths = {}, w_failed = False, w_failures = 3\<rparr>"
  have r: "ready (wq_add () wq_new) = [()]"
    by (simp add: wq_add_def wq_new_def entry_of_def Let_def)
  have inv: "wq_inv ?q" "() \<in> wq_processing ?q"
    using hand_out_inv[OF wq_add_inv[OF wq_new_inv], of 0 "()"] r by auto
  have "wq_inv (w_queue ?w)" "() \<in> wq_processing (w_queue ?w)" "Failed \<in> set [Enqueue, Failed]"
    using inv by simp_all
  from failed_pass_is_retried[OF this, of 1000] show ?thesis by (auto simp: Let_def)
qed

text \<open>
  In every state the hub can reach (while fewer than \<open>2 ^ 64\<close> workers were created), a
  reflector runs exactly for the URLs that some live worker has observed, its subscribers are
  exactly those workers, and when it reports a change each of them is owed a pass while every
  other worker is left as it was.
\<close>

theorem hub_notifies_observers:
  assumes "hub_reachable h"
  shows "feeds h url = (if observers h url = {} then None else Some (observers h url)) \<and>
    (\<forall>i. case workers h i of
       None \<Rightarrow> workers (notify url h) i = None
     | Some w \<Rightarrow> if url \<in> w_paths w
         then (\<exists>w'. workers (notify url h) i = Some w' \<and> () \<in> wq_pending (w_queue w'))
         else workers (notify url h) i = Some w)"
proof -
  have inv: "hub_inv h" by (rule hub_reachable_inv[OF assms])
  then have f: "feeds h url = (if observers h url = {} then None else Some (observers h url))"
    by (simp add: hub_inv_def)
  have "case workers h i of
       None \<Rightarrow> workers (notify url h) i = None
     | Some w \<Rightarrow> if url \<in> w_paths w
         then (\<exists>w'. workers (notify url h) i = Some w' \<and> () \<in> wq_pending (w_queue w'))
         else workers (notify url h) i = Some w" for i
  proof (cases "workers h i")
    case (Some w)
    then have "wq_inv (w_queue w)" using inv by (simp add: hub_inv_def)
    moreover have "i \<in> observers h url \<longleftrightarrow> url \<in> w_paths w" using Some by (simp add: observers_def)
    ultimately show ?thesis
      using f Some by (auto simp: notify_def add_to_def wq_add_sets)
  qed (simp add: notify_def split: option.splits)
  with f show ?thesis by blast
qed

theorem hub_notifies_observers_witness:
  "let h = observe 1 ''/api/v1/pods'' (hub_worker hub_default)
   in observers h ''/api/v1/pods'' = {1} \<and> feeds h ''/api/v1/pods'' = Some {1}"
proof -
  let ?h = "observe 1 ''/api/v1/pods'' (hub_worker hub_default)"
  have "hub_reachable ?h"
    by (intro hub_observe hub_new hub_start) (simp add: hub_default_def)
  from hub_notifies_observers[OF this, of "''/api/v1/pods''"]
  show ?thesis
    by (simp add: Let_def observers_def observe_def hub_worker_def hub_default_def new_worker_def)
qed

end
