(* ===== verification/Lease.thy ===== *)
theory Lease
  imports Prelude
begin

text \<open>
  \<^verbatim>\<open>pkg/apimachinery/src/lease.rs\<close>: the gate every mutation of a leader passes, the loop that
  keeps a term renewed, and the local observation of a foreign lease. Instants and durations
  are milliseconds of the monotonic clock, read where the source reads it and passed as an
  argument. A panic (an \<^verbatim>\<open>unwrap\<close> of \<open>None\<close>) is \<open>None\<close>.
\<close>

section \<open>The write gate\<close>

definition RENEW_DEADLINE :: nat where
  "RENEW_DEADLINE = 10000"

definition RENEW_ATTEMPT :: nat where
  "RENEW_ATTEMPT = 5000"

datatype permission = Unrestricted | Follower | Leader nat

definition gate_close :: "permission \<Rightarrow> permission" where
  "gate_close g = Follower"

definition gate_start :: "nat \<Rightarrow> permission \<Rightarrow> permission" where
  "gate_start attempted g = Leader (attempted + RENEW_DEADLINE)"

definition gate_renew :: "nat \<Rightarrow> nat \<Rightarrow> permission \<Rightarrow> permission \<times> bool" where
  "gate_renew now attempted g =
     (case g of
        Leader expires \<Rightarrow>
          if now < expires then (Leader (max expires (attempted + RENEW_DEADLINE)), True)
          else (Follower, False)
      | _ \<Rightarrow> (Follower, False))"

definition remaining :: "nat \<Rightarrow> permission \<Rightarrow> nat option" where
  "remaining now g = (case g of Leader expires \<Rightarrow> Some (expires - now) | _ \<Rightarrow> None)"

datatype gate_error = DeadlineExpired | NoActiveTerm

definition budget :: "nat \<Rightarrow> permission \<Rightarrow> gate_error + nat" where
  "budget now g =
     (case g of
        Unrestricted \<Rightarrow> Inr 30000
      | Leader expires \<Rightarrow>
          (let r = expires - now in if r = 0 then Inl DeadlineExpired else Inr (min r 5000))
      | Follower \<Rightarrow> Inl NoActiveTerm)"

section \<open>Holding a term\<close>

text \<open>
  One iteration of \<open>hold\<close> sees a wake-up delay, the time the renewal would take, and its
  answer. The list gives the iterations in order; \<open>None\<close> means the list ended while the
  term was still held. The result is the time the loop ended at and the gate it left.
\<close>

fun hold :: "nat \<Rightarrow> nat \<Rightarrow> (nat \<times> nat \<times> bool) list \<Rightarrow> permission \<Rightarrow> (nat \<times> permission) option" where
  "hold retry now [] g =
     (case remaining now g of None \<Rightarrow> Some (now, gate_close g) | Some _ \<Rightarrow> None)"
| "hold retry now ((late, took, answer) # is) g =
     (case remaining now g of
        None \<Rightarrow> Some (now, gate_close g)
      | Some r \<Rightarrow>
          (let woke = now + min retry r + late in
           case remaining woke g of
             None \<Rightarrow> Some (woke, gate_close g)
           | Some r' \<Rightarrow>
               if r' = 0 then Some (woke, gate_close g)
               else
                 (let bound = min r' RENEW_ATTEMPT;
                      renewed = (answer \<and> took \<le> bound);
                      fin = woke + min took bound
                  in if renewed then
                       (case gate_renew fin woke g of
                          (g', ok) \<Rightarrow> if ok then hold retry fin is g' else Some (fin, gate_close g'))
                     else hold retry fin is g)))"

section \<open>Observing a foreign lease\<close>

record observation =
  obs_record :: "json option"
  observed_at :: "nat option"

definition obs_default :: observation where
  "obs_default = \<lparr>obs_record = None, observed_at = None\<rparr>"

definition expired :: "json \<Rightarrow> nat \<Rightarrow> nat \<Rightarrow> observation \<Rightarrow> (observation \<times> bool) option" where
  "expired spec duration now ob =
     (let ob' = (if obs_record ob \<noteq> Some spec
                 then ob\<lparr>obs_record := Some spec, observed_at := Some now\<rparr> else ob)
      in map_option (\<lambda>at. (ob', duration \<le> now - at)) (observed_at ob'))"

definition obs_ok :: "observation \<Rightarrow> bool" where
  "obs_ok ob \<longleftrightarrow> (obs_record ob = None \<longleftrightarrow> observed_at ob = None)"

lemma obs_default_ok [simp]: "obs_ok obs_default"
  by (simp add: obs_ok_def obs_default_def)

lemma expired_Some:
  assumes "expired spec duration now ob = Some (ob', b)"
  obtains at where "obs_record ob' = Some spec" "observed_at ob' = Some at" "b \<longleftrightarrow> duration \<le> now - at"
    "at = now \<or> (obs_record ob = Some spec \<and> observed_at ob = Some at)"
  using assms by (auto simp: expired_def Let_def split: if_splits)

lemma expired_total: "obs_ok ob \<Longrightarrow> \<exists>ob' b. expired spec duration now ob = Some (ob', b) \<and> obs_ok ob'"
  by (cases "observed_at ob") (auto simp: expired_def obs_ok_def Let_def)

lemma budget_ok: "\<not> isl (budget now g) \<longleftrightarrow> g = Unrestricted \<or> (\<exists>e. g = Leader e \<and> now < e)"
  by (cases g) (auto simp: budget_def Let_def)

section \<open>Properties\<close>

lemma hold_fails_aux:
  assumes "now \<le> e" "\<forall>(late, took, answer) \<in> set is. late = 0 \<and> \<not> answer" "0 < retry"
    and "e - now < retry * length is"
  shows "hold retry now is (Leader e) = Some (e, Follower)"
  using assms
proof (induction "is" arbitrary: now)
  case (Cons i "is")
  obtain took where i: "i = (0, took, False)" using Cons.prems(2) by (cases i) auto
  show ?case
  proof (cases "retry < e - now")
    case False
    then show ?thesis using Cons.prems(1) by (simp add: i remaining_def Let_def gate_close_def)
  next
    case True
    let ?woke = "now + retry"
    let ?fin = "?woke + min took (min (e - ?woke) RENEW_ATTEMPT)"
    have "hold retry ?fin is (Leader e) = Some (e, Follower)"
      using Cons.prems True by (intro Cons.IH) auto
    then show ?thesis using True by (auto simp: i remaining_def Let_def)
  qed
qed simp

text \<open>
  C21. A leader that cannot renew gives up at its deadline: if every renewal fails or hangs,
  \<open>hold\<close> with any positive retry period returns at exactly the instant its term expires
  (when its timers fire on time), with the gate closed, after at most as many iterations as
  retry periods fit into the term.
\<close>

theorem hold_gives_up_at_deadline:
  assumes "now \<le> e" "0 < retry" "e - now < retry * length is"
    and "\<forall>(late, took, answer) \<in> set is. late = 0 \<and> \<not> answer"
  shows "hold retry now is (Leader e) = Some (e, Follower)"
  using hold_fails_aux assms by blast

theorem hold_gives_up_at_deadline_witness:
  "hold 2000 1000 (replicate 6 (0, 9000, False)) (Leader 11000) = Some (11000, Follower)"
  by (rule hold_gives_up_at_deadline) simp_all

end
