(* ===== verification/ApiClient.thy ===== *)
theory ApiClient
  imports Prelude
begin

text \<open>
  \<^verbatim>\<open>pkg/controller-manager/src/runner.rs\<close>: \<^verbatim>\<open>ApiClient::create\<close>, which remembers a create
  whose outcome it does not know and resolves or repeats it before it creates anything else
  for the same owner. The HTTP exchange is an argument: what the GET of the object's own URL
  and the POST would answer. Cache acknowledgements and requeues are not modelled.
\<close>

section \<open>Creates with an unknown outcome\<close>

definition create_owner :: "json \<Rightarrow> string" where
  "create_owner body =
     (let owner_ref =
        (case as_array (jat body [''metadata'', ''ownerReferences'']) of
           None \<Rightarrow> None
         | Some refs \<Rightarrow>
             (case find (\<lambda>r. jidx r ''controller'' = JBool True) refs of
                Some r \<Rightarrow> Some r
              | None \<Rightarrow> (case refs of [] \<Rightarrow> None | r # _ \<Rightarrow> Some r)))
      in case Option.bind owner_ref (\<lambda>r. as_str (jidx r ''uid'')) of
           Some uid \<Rightarrow> uid
         | None \<Rightarrow> str_or [] (jat body [''spec'', ''claimRef'', ''uid'']))"

record pending_create =
  pc_path :: string
  pc_body :: json
  pc_owner :: string

type_synonym pending_creates = "string \<rightharpoonup> pending_create"

text \<open>
  A GET answers with a status (and a body that may not parse) or fails; a POST yields the
  created object, an HTTP error status, or no status (a closed write gate, a timeout, a broken
  connection, a body that does not parse).
\<close>

datatype get_answer = GetStatus nat "json option" | GetFailed

datatype post_answer = Created json | PostStatus nat | PostFailed

datatype create_error = NoName | Unresolved | Ambiguous | Rejected nat | Lost

record create_result =
  cr_pending :: pending_creates
  cr_posted :: "(string \<times> json) option"
  cr_result :: "create_error + json"

fun post_result :: "post_answer \<Rightarrow> create_error + json" where
  "post_result (Created v) = Inr v"
| "post_result (PostStatus s) = Inl (Rejected s)"
| "post_result PostFailed = Inl Lost"

fun definitive :: "bool \<Rightarrow> create_error + json \<Rightarrow> bool" where
  "definitive had_previous (Inr v) = True"
| "definitive had_previous (Inl (Rejected s)) =
     (400 \<le> s \<and> s < 500 \<and> (s \<noteq> 409 \<or> \<not> had_previous) \<and> s \<noteq> 408 \<and> s \<noteq> 429)"
| "definitive had_previous (Inl _) = False"

definition create_group :: "string \<Rightarrow> json \<Rightarrow> string" where
  "create_group path body =
     path @ ''/'' @ (if create_owner body = [] then str_or [] (jat body [''metadata'', ''name''])
                     else create_owner body)"

text \<open>The POST, and forgetting the entry once the outcome is known.\<close>

definition finish_create ::
    "string \<Rightarrow> bool \<Rightarrow> pending_create \<Rightarrow> pending_creates \<Rightarrow> (string \<Rightarrow> json \<Rightarrow> post_answer) \<Rightarrow> create_result" where
  "finish_create grp had_previous pc pend post =
     (let result = post_result (post (pc_path pc) (pc_body pc))
      in \<lparr>cr_pending = (if definitive had_previous result then pend(grp := None) else pend),
          cr_posted = Some (pc_path pc, pc_body pc), cr_result = result\<rparr>)"

definition create ::
    "string \<Rightarrow> json \<Rightarrow> (string \<Rightarrow> get_answer) \<Rightarrow> (string \<Rightarrow> json \<Rightarrow> post_answer) \<Rightarrow> pending_creates \<Rightarrow> create_result" where
  "create path body get post pend =
     (case as_str (jat body [''metadata'', ''name'']) of
        None \<Rightarrow> \<lparr>cr_pending = pend, cr_posted = None, cr_result = Inl NoName\<rparr>
      | Some name \<Rightarrow>
          (let grp = create_group path body;
               pc = (case pend grp of
                       Some p \<Rightarrow> p
                     | None \<Rightarrow> \<lparr>pc_path = path, pc_body = body, pc_owner = create_owner body\<rparr>);
               pend1 = pend(grp \<mapsto> pc);
               stop = (\<lambda>e. \<lparr>cr_pending = pend1, cr_posted = None, cr_result = Inl e\<rparr>)
           in if pend grp = None then finish_create grp False pc pend1 post
              else
                (case get (pc_path pc @ ''/'' @ str_or [] (jat (pc_body pc) [''metadata'', ''name''])) of
                   GetFailed \<Rightarrow> stop Unresolved
                 | GetStatus st v \<Rightarrow>
                     if 200 \<le> st \<and> st < 300 then
                       (case v of
                          None \<Rightarrow> stop Unresolved
                        | Some existing \<Rightarrow>
                            if create_owner existing \<noteq> pc_owner pc then stop Ambiguous
                            else \<lparr>cr_pending = pend1(grp := None), cr_posted = None, cr_result = Inr existing\<rparr>)
                     else if st \<noteq> 404 then stop Unresolved
                     else finish_create grp True pc pend1 post)))"

definition forget_creates :: "string \<Rightarrow> pending_creates \<Rightarrow> pending_creates" where
  "forget_creates owner pend =
     (\<lambda>g. case pend g of Some p \<Rightarrow> if pc_owner p \<noteq> owner then Some p else None | None \<Rightarrow> None)"

text \<open>A run of creates, each with its own body and answers: the POSTs it sent, in order.\<close>

type_synonym create_call = "json \<times> (string \<Rightarrow> get_answer) \<times> (string \<Rightarrow> json \<Rightarrow> post_answer)"

fun create_run :: "string \<Rightarrow> create_call list \<Rightarrow> pending_creates \<Rightarrow> (string \<times> json) list \<times> pending_creates" where
  "create_run path [] pend = ([], pend)"
| "create_run path ((body, get, post) # cs) pend =
     (let r = create path body get post pend;
          (ps, pend') = create_run path cs (cr_pending r)
      in ((case cr_posted r of Some p \<Rightarrow> [p] | None \<Rightarrow> []) @ ps, pend'))"

text \<open>The entry that stays in the map while the outcome of each call is unknown.\<close>

fun unknown_throughout :: "string \<Rightarrow> string \<Rightarrow> create_call list \<Rightarrow> pending_creates \<Rightarrow> bool" where
  "unknown_throughout grp path [] pend = True"
| "unknown_throughout grp path ((body, get, post) # cs) pend =
     (let r = create path body get post pend
      in cr_pending r grp \<noteq> None \<and> unknown_throughout grp path cs (cr_pending r))"

section \<open>Lemmas\<close>

lemma create_pending:
  assumes "pend (create_group path body) = Some p"
  shows "cr_pending (create path body get post pend) (create_group path body) \<in> {None, Some p}"
    "cr_posted (create path body get post pend) \<in> {None, Some (pc_path p, pc_body p)}"
  using assms
  by (auto simp: create_def finish_create_def Let_def split: option.splits get_answer.splits)

lemma create_first:
  assumes "pend (create_group path body) = None"
  shows "cr_pending (create path body get post pend) (create_group path body)
      \<in> {None, Some \<lparr>pc_path = path, pc_body = body, pc_owner = create_owner body\<rparr>}"
    "cr_posted (create path body get post pend) \<in> {None, Some (path, body)}"
  using assms by (auto simp: create_def finish_create_def Let_def split: option.splits)

lemma create_run_same:
  assumes "\<forall>c \<in> set cs. create_group path (fst c) = grp" "pend grp = Some p"
    and "unknown_throughout grp path cs pend"
  shows "set (fst (create_run path cs pend)) \<subseteq> {(pc_path p, pc_body p)}"
  using assms
proof (induction cs arbitrary: pend)
  case (Cons c cs)
  obtain body get post where c: "c = (body, get, post)" by (cases c)
  let ?r = "create path body get post pend"
  have g: "create_group path body = grp" using Cons.prems(1) by (simp add: c)
  have p: "cr_pending ?r grp = Some p"
    using create_pending(1)[of pend path body p get post] Cons.prems(2,3) g by (auto simp: c Let_def)
  have "set (fst (create_run path cs (cr_pending ?r))) \<subseteq> {(pc_path p, pc_body p)}"
    using Cons.prems p by (intro Cons.IH) (auto simp: c Let_def)
  with create_pending(2)[of pend path body p get post] Cons.prems(2) g show ?case
    by (auto simp: c Let_def split: prod.splits option.splits)
qed simp

section \<open>Properties\<close>

text \<open>
  C20. While the outcome of a create is unknown no second child is made: however often the
  controller then calls \<open>create\<close> for the same owner, with whatever freshly named bodies,
  every POST sent repeats the path and body of the first.
\<close>

theorem unknown_create_is_repeated:
  assumes "\<forall>c \<in> set cs. create_group path (fst c) = create_group path body"
    and "pend (create_group path body) = None"
    and "unknown_throughout (create_group path body) path ((body, get, post) # cs) pend"
  shows "set (fst (create_run path ((body, get, post) # cs) pend)) \<subseteq> {(path, body)}"
proof -
  let ?r = "create path body get post pend"
  let ?p = "\<lparr>pc_path = path, pc_body = body, pc_owner = create_owner body\<rparr>"
  have p: "cr_pending ?r (create_group path body) = Some ?p"
    using create_first(1)[of pend path body get post] assms(2,3) by (auto simp: Let_def)
  have "set (fst (create_run path cs (cr_pending ?r))) \<subseteq> {(path, body)}"
    using create_run_same[where pend = "cr_pending ?r", OF assms(1) p] assms(3) by (simp add: Let_def)
  with create_first(2)[of pend path body get post] assms(2) show ?thesis
    by (auto simp: Let_def split: prod.splits option.splits)
qed

definition child :: "string \<Rightarrow> json" where
  "child name = JObj [(''metadata'', JObj [(''name'', JStr name),
     (''ownerReferences'', JArr [JObj [(''controller'', JBool True), (''uid'', JStr ''u1'')]])])]"

theorem unknown_create_is_repeated_witness:
  "fst (create_run ''/pods'' [(child ''a'', \<lambda>_. GetFailed, \<lambda>_ _. PostFailed),
      (child ''b'', \<lambda>_. GetStatus 404 None, \<lambda>_ _. PostStatus 409)] Map.empty) = [(''/pods'', child ''a''), (''/pods'', child ''a'')] \<and>
   set (fst (create_run ''/pods'' [(child ''a'', \<lambda>_. GetFailed, \<lambda>_ _. PostFailed),
      (child ''b'', \<lambda>_. GetStatus 404 None, \<lambda>_ _. PostStatus 409)] Map.empty)) \<subseteq> {(''/pods'', child ''a'')}"
proof (rule conjI)
  show "set (fst (create_run ''/pods'' [(child ''a'', \<lambda>_. GetFailed, \<lambda>_ _. PostFailed),
      (child ''b'', \<lambda>_. GetStatus 404 None, \<lambda>_ _. PostStatus 409)] Map.empty)) \<subseteq> {(''/pods'', child ''a'')}"
    by (rule unknown_create_is_repeated)
       (simp_all add: create_def finish_create_def create_group_def create_owner_def child_def Let_def)
qed (simp add: create_def finish_create_def create_group_def create_owner_def child_def Let_def)

end
