(* ===== verification/Election.thy ===== *)
theory Election
  imports Lease ApiClient
begin

text \<open>
  \<^verbatim>\<open>pkg/scheduler/src/leaderelection.rs\<close> and the identical
  \<^verbatim>\<open>pkg/controller-manager/src/leaderelection.rs\<close>: one attempt to acquire or renew the lease,
  split at its two requests (\<open>try_acquire\<close> is the code between the answer of the GET and
  the write), and the protocol the candidates run against the API server, as a step relation
  in which requests are delayed, lost, or land after their sender stopped waiting. What the
  API server promises is a compare-and-set on the resource version. The theory also models
  the controller manager's own \<^verbatim>\<open>ApiClient::create\<close>, which the election goes through.
\<close>

section \<open>One attempt\<close>

definition LEASE_DURATION_SECS :: int where
  "LEASE_DURATION_SECS = 15"

text \<open>The answer of a GET: 404, any other failure, or a parsed body.\<close>

datatype response = NotFound | Failure | Body json

datatype lease_request = CreateLease json | UpdateLease json

definition lease_spec :: "string \<Rightarrow> string \<Rightarrow> string \<Rightarrow> int \<Rightarrow> json" where
  "lease_spec holder acquire renew transitions =
     JObj [(''acquireTime'', JStr acquire),
           (''holderIdentity'', JStr holder),
           (''leaseDurationSeconds'', JNum (NInt LEASE_DURATION_SECS)),
           (''leaseTransitions'', JNum (NInt transitions)),
           (''renewTime'', JStr renew)]"

definition lease_body :: "(string \<times> json) list \<Rightarrow> json \<Rightarrow> json" where
  "lease_body metadata spec =
     JObj [(''apiVersion'', JStr ''coordination.k8s.io/v1''), (''kind'', JStr ''Lease''),
           (''metadata'', JObj metadata), (''spec'', spec)]"

definition try_acquire ::
    "string \<Rightarrow> string \<Rightarrow> string \<Rightarrow> string \<Rightarrow> nat \<Rightarrow> response \<Rightarrow> observation \<Rightarrow>
     (observation \<times> lease_request option) option" where
  "try_acquire name namespace identity now_micro now resp ob =
     (case resp of
        Failure \<Rightarrow> Some (ob, None)
      | NotFound \<Rightarrow>
          Some (ob, Some (CreateLease (lease_body
            [(''name'', JStr name), (''namespace'', JStr namespace)]
            (lease_spec identity now_micro now_micro 0))))
      | Body lease \<Rightarrow>
          if jidx lease ''kind'' \<noteq> JStr ''Lease'' \<or>
             (case as_str (jat lease [''metadata'', ''resourceVersion'']) of None \<Rightarrow> True | Some v \<Rightarrow> v = [])
          then Some (ob, None)
          else
            (let spec = jidx lease ''spec'';
                 holder = str_or [] (jidx spec ''holderIdentity'');
                 lease_dur = (case as_i64 (jidx spec ''leaseDurationSeconds'') of
                                Some d \<Rightarrow> d | None \<Rightarrow> LEASE_DURATION_SECS);
                 transitions = (case as_i64 (jidx spec ''leaseTransitions'') of Some t \<Rightarrow> t | None \<Rightarrow> 0);
                 acquire_time = str_or now_micro (jidx spec ''acquireTime'');
                 rv = str_or [] (jat lease [''metadata'', ''resourceVersion'']);
                 held_by_us = (holder = identity)
             in if lease_dur \<le> 0 then Some (ob, None)
                else Option.bind (expired spec (nat lease_dur * 1000) now ob) (\<lambda>(ob', exp).
                  if \<not> held_by_us \<and> holder \<noteq> [] \<and> \<not> exp then Some (ob', None)
                  else
                    (let (new_acquire, new_transitions) =
                           (if held_by_us then (acquire_time, transitions)
                            else (now_micro, sat_add_i64 transitions 1))
                     in Some (ob', Some (UpdateLease (lease_body
                          [(''name'', JStr name), (''namespace'', JStr namespace),
                           (''resourceVersion'', JStr rv)]
                          (lease_spec identity new_acquire now_micro new_transitions))))))))"

text \<open>The write's answer: a \<^verbatim>\<open>Lease\<close> is a win, a \<^verbatim>\<open>Status\<close> or an error is not.\<close>

definition won :: "json option \<Rightarrow> bool" where
  "won answer = (case answer of Some v \<Rightarrow> jidx v ''kind'' = JStr ''Lease'' | None \<Rightarrow> False)"

definition try_acquire_or_renew ::
    "string \<Rightarrow> string \<Rightarrow> string \<Rightarrow> string \<Rightarrow> nat \<Rightarrow> response \<Rightarrow> (lease_request \<Rightarrow> json option) \<Rightarrow>
     observation \<Rightarrow> (observation \<times> bool) option" where
  "try_acquire_or_renew name namespace identity now_micro now resp write ob =
     Option.bind (try_acquire name namespace identity now_micro now resp ob) (\<lambda>(ob', req).
       Some (ob', case req of None \<Rightarrow> False | Some r \<Rightarrow> won (write r)))"

section \<open>The candidates and the server\<close>

text \<open>
  A candidate is between attempts, waiting for the GET of the attempt that started at the
  given time, holding its answer, waiting for its write, or about to receive a win.
\<close>

datatype phase = Idle | Reading nat | Got nat response | Sent nat json | Won nat

record candidate =
  phase :: phase
  gate :: permission
  obs :: observation

record 'p flight =
  sender :: 'p
  attempt :: nat
  request :: lease_request

text \<open>
  The lease is its resource version and its spec. The fields \<open>writer\<close>, \<open>written_at\<close>,
  \<open>landed\<close> and \<open>sent\<close> record history and no step reads them, but for the freshness of
  \<open>sent\<close> below.
\<close>

record 'p election =
  clock :: nat
  lease :: "(nat \<times> json) option"
  next_rv :: nat
  candidates :: "'p \<Rightarrow> candidate"
  net :: "'p flight list"
  writer :: "'p option"
  written_at :: nat
  landed :: "json set"
  sent :: "json set"

fun request_spec :: "lease_request \<Rightarrow> json" where
  "request_spec (CreateLease b) = jidx b ''spec''"
| "request_spec (UpdateLease b) = jidx b ''spec''"

text \<open>What a GET may answer, and when a write succeeds.\<close>

definition serves :: "(nat \<times> json) option \<Rightarrow> response \<Rightarrow> bool" where
  "serves l resp =
     (case resp of
        NotFound \<Rightarrow> l = None
      | Failure \<Rightarrow> True
      | Body b \<Rightarrow> (case l of None \<Rightarrow> False | Some (n, s) \<Rightarrow>
          jidx b ''spec'' = s \<and> jat b [''metadata'', ''resourceVersion''] = JStr (show_nat n)))"

fun accepts :: "(nat \<times> json) option \<Rightarrow> lease_request \<Rightarrow> bool" where
  "accepts l (CreateLease b) \<longleftrightarrow> l = None"
| "accepts l (UpdateLease b) \<longleftrightarrow>
     (\<exists>n s. l = Some (n, s) \<and> jat b [''metadata'', ''resourceVersion''] = JStr (show_nat n))"

definition set_cand :: "'p \<Rightarrow> candidate \<Rightarrow> 'p election \<Rightarrow> 'p election" where
  "set_cand p c s = s\<lparr>candidates := (candidates s)(p := c)\<rparr>"

text \<open>A win starts a term for a candidate that is acquiring and renews it for one that holds it.\<close>

definition reply_gate :: "nat \<Rightarrow> nat \<Rightarrow> permission \<Rightarrow> permission" where
  "reply_gate now attempted g =
     (case g of Leader _ \<Rightarrow> fst (gate_renew now attempted g) | _ \<Rightarrow> gate_start attempted g)"

text \<open>
  Steps, for candidates with the given identities. Each write carries a spec no earlier write
  carried (its renew time is the wall clock in microseconds). \<open>e_give_up\<close> is a timeout, an
  error, or an answer that is not a win; the write itself may still land. \<open>e_close\<close> is the
  end of \<open>hold\<close>.
\<close>

inductive election_step ::
    "('p \<Rightarrow> string) \<Rightarrow> string \<Rightarrow> string \<Rightarrow> 'p election \<Rightarrow> 'p election \<Rightarrow> bool"
  for ids name namespace where
  e_tick: "election_step ids name namespace s (s\<lparr>clock := clock s + d\<rparr>)"
| e_begin: "phase (candidates s p) = Idle \<Longrightarrow>
    election_step ids name namespace s (set_cand p ((candidates s p)\<lparr>phase := Reading (clock s)\<rparr>) s)"
| e_read: "phase (candidates s p) = Reading a \<Longrightarrow> serves (lease s) resp \<Longrightarrow>
    election_step ids name namespace s (set_cand p ((candidates s p)\<lparr>phase := Got a resp\<rparr>) s)"
| e_stay: "phase (candidates s p) = Got a resp \<Longrightarrow>
    try_acquire name namespace (ids p) micro (clock s) resp (obs (candidates s p)) = Some (ob, None) \<Longrightarrow>
    election_step ids name namespace s (set_cand p ((candidates s p)\<lparr>phase := Idle, obs := ob\<rparr>) s)"
| e_send: "phase (candidates s p) = Got a resp \<Longrightarrow>
    try_acquire name namespace (ids p) micro (clock s) resp (obs (candidates s p)) = Some (ob, Some r) \<Longrightarrow>
    request_spec r \<notin> sent s \<Longrightarrow>
    election_step ids name namespace s
      ((set_cand p ((candidates s p)\<lparr>phase := Sent a (request_spec r), obs := ob\<rparr>) s)
         \<lparr>net := \<lparr>sender = p, attempt = a, request = r\<rparr> # net s, sent := insert (request_spec r) (sent s)\<rparr>)"
| e_land: "net s = xs @ f # ys \<Longrightarrow> accepts (lease s) (request f) \<Longrightarrow> p = sender f \<Longrightarrow>
    spec = request_spec (request f) \<Longrightarrow>
    election_step ids name namespace s
      ((set_cand p (if phase (candidates s p) = Sent (attempt f) spec
                    then (candidates s p)\<lparr>phase := Won (attempt f)\<rparr> else candidates s p) s)
         \<lparr>lease := Some (next_rv s, spec), next_rv := next_rv s + 1, net := xs @ ys,
          writer := Some p, written_at := clock s, landed := insert spec (landed s)\<rparr>)"
| e_drop: "net s = xs @ f # ys \<Longrightarrow> election_step ids name namespace s (s\<lparr>net := xs @ ys\<rparr>)"
| e_give_up: "election_step ids name namespace s (set_cand p ((candidates s p)\<lparr>phase := Idle\<rparr>) s)"
| e_reply: "phase (candidates s p) = Won a \<Longrightarrow>
    election_step ids name namespace s
      (set_cand p ((candidates s p)\<lparr>phase := Idle, gate := reply_gate (clock s) a (gate (candidates s p))\<rparr>) s)"
| e_close: "phase (candidates s p) = Idle \<Longrightarrow>
    election_step ids name namespace s (set_cand p ((candidates s p)\<lparr>gate := gate_close (gate (candidates s p))\<rparr>) s)"

text \<open>
  Candidates start with a closed gate and nothing observed; a lease written before, by
  whomever, may exist.
\<close>

definition election_start :: "'p election \<Rightarrow> bool" where
  "election_start s \<longleftrightarrow>
     candidates s = (\<lambda>_. \<lparr>phase = Idle, gate = Follower, obs = obs_default\<rparr>) \<and>
     net s = [] \<and> writer s = None \<and> written_at s \<le> clock s \<and>
     landed s = snd ` set_option (lease s) \<and> sent s = landed s \<and>
     (\<forall>l. lease s = Some l \<longrightarrow> fst l < next_rv s)"

inductive election_reachable :: "('p \<Rightarrow> string) \<Rightarrow> string \<Rightarrow> string \<Rightarrow> 'p election \<Rightarrow> bool"
  for ids name namespace where
  el_start: "election_start s \<Longrightarrow> election_reachable ids name namespace s"
| el_step: "election_reachable ids name namespace s \<Longrightarrow> election_step ids name namespace s t \<Longrightarrow>
    election_reachable ids name namespace t"

definition leading :: "'p election \<Rightarrow> 'p \<Rightarrow> bool" where
  "leading s p \<longleftrightarrow> \<not> isl (budget (clock s) (gate (candidates s p)))"

section \<open>The invariant\<close>

text \<open>Where a candidate's term ends, or will end when the win on its way to it arrives.\<close>

definition term_ends :: "candidate \<Rightarrow> nat set" where
  "term_ends c = {e. gate c = Leader e} \<union> {a + RENEW_DEADLINE | a. phase c = Won a}"

text \<open>
  Every term ends within the renewal deadline of the last write, and the terms of all but
  the last writer have ended.
\<close>

definition terms_ok :: "'p election \<Rightarrow> 'p \<Rightarrow> candidate \<Rightarrow> bool" where
  "terms_ok s p c \<longleftrightarrow> gate c \<noteq> Unrestricted \<and>
     (\<forall>e \<in> term_ends c. e \<le> written_at s + RENEW_DEADLINE \<and> (writer s \<noteq> Some p \<longrightarrow> e \<le> clock s))"

definition obs_inv :: "'p election \<Rightarrow> observation \<Rightarrow> bool" where
  "obs_inv s ob \<longleftrightarrow> obs_ok ob \<and>
     (\<forall>S at. obs_record ob = Some S \<longrightarrow> observed_at ob = Some at \<longrightarrow>
        S \<in> landed s \<and> (\<forall>n. lease s = Some (n, S) \<longrightarrow> written_at s \<le> at))"

text \<open>A body that was read: if its version is still the lease's, so is its spec.\<close>

definition body_ok :: "'p election \<Rightarrow> json \<Rightarrow> bool" where
  "body_ok s b \<longleftrightarrow> jidx b ''spec'' \<in> landed s \<and>
     (\<exists>m < next_rv s. jat b [''metadata'', ''resourceVersion''] = JStr (show_nat m) \<and>
        (\<forall>S. lease s = Some (m, S) \<longrightarrow> S = jidx b ''spec''))"

fun phase_ok :: "'p election \<Rightarrow> phase \<Rightarrow> bool" where
  "phase_ok s (Reading a) = (a \<le> clock s)"
| "phase_ok s (Got a resp) = (a \<le> clock s \<and> (\<forall>b. resp = Body b \<longrightarrow> body_ok s b))"
| "phase_ok s _ = True"

definition cand_ok :: "'p election \<Rightarrow> 'p \<Rightarrow> candidate \<Rightarrow> bool" where
  "cand_ok s p c \<longleftrightarrow> terms_ok s p c \<and> obs_inv s (obs c) \<and> phase_ok s (phase c)"

text \<open>No other term is running once a takeover may land.\<close>

definition may_write :: "'p election \<Rightarrow> 'p \<Rightarrow> bool" where
  "may_write s p \<longleftrightarrow> writer s = None \<or> writer s = Some p \<or> written_at s + 15000 \<le> clock s"

fun request_ok :: "'p election \<Rightarrow> 'p \<Rightarrow> lease_request \<Rightarrow> bool" where
  "request_ok s p (CreateLease b) = True"
| "request_ok s p (UpdateLease b) =
     (\<exists>m < next_rv s. jat b [''metadata'', ''resourceVersion''] = JStr (show_nat m) \<and>
        (\<forall>S. lease s = Some (m, S) \<longrightarrow> may_write s p))"

definition written_by :: "string \<Rightarrow> json \<Rightarrow> bool" where
  "written_by i S \<longleftrightarrow> jidx S ''holderIdentity'' = JStr i \<and>
     jidx S ''leaseDurationSeconds'' = JNum (NInt LEASE_DURATION_SECS)"

definition flight_ok :: "('p \<Rightarrow> string) \<Rightarrow> 'p election \<Rightarrow> 'p flight \<Rightarrow> bool" where
  "flight_ok ids s f \<longleftrightarrow> attempt f \<le> clock s \<and> request_ok s (sender f) (request f) \<and>
     written_by (ids (sender f)) (request_spec (request f)) \<and>
     request_spec (request f) \<in> sent s - landed s"

definition server_ok :: "('p \<Rightarrow> string) \<Rightarrow> 'p election \<Rightarrow> bool" where
  "server_ok ids s \<longleftrightarrow> written_at s \<le> clock s \<and> landed s \<subseteq> sent s \<and>
     (\<forall>n S. lease s = Some (n, S) \<longrightarrow> n < next_rv s \<and> S \<in> landed s) \<and>
     (\<forall>p. writer s = Some p \<longrightarrow> (\<exists>n S. lease s = Some (n, S) \<and> written_by (ids p) S)) \<and>
     distinct (map (request_spec \<circ> request) (net s))"

definition election_inv :: "('p \<Rightarrow> string) \<Rightarrow> 'p election \<Rightarrow> bool" where
  "election_inv ids s \<longleftrightarrow> server_ok ids s \<and> (\<forall>f \<in> set (net s). flight_ok ids s f) \<and>
     (\<forall>p. cand_ok s p (candidates s p))"

lemma election_inv_start: "election_start s \<Longrightarrow> election_inv ids s"
  by (auto simp: election_start_def election_inv_def server_ok_def cand_ok_def terms_ok_def
      term_ends_def obs_inv_def obs_default_def obs_ok_def)

text \<open>A step of one candidate leaves what the others and the server know.\<close>

lemma set_cand_fields [simp]:
  "clock (set_cand p c s) = clock s" "lease (set_cand p c s) = lease s"
  "next_rv (set_cand p c s) = next_rv s" "net (set_cand p c s) = net s"
  "writer (set_cand p c s) = writer s" "written_at (set_cand p c s) = written_at s"
  "landed (set_cand p c s) = landed s" "sent (set_cand p c s) = sent s"
  "candidates (set_cand p c s) = (candidates s)(p := c)"
  by (simp_all add: set_cand_def)

lemma body_ok_cong:
  "landed s = landed t \<Longrightarrow> next_rv s = next_rv t \<Longrightarrow> lease s = lease t \<Longrightarrow> body_ok s b = body_ok t b"
  by (simp add: body_ok_def)

lemma phase_ok_cong:
  "landed s = landed t \<Longrightarrow> next_rv s = next_rv t \<Longrightarrow> lease s = lease t \<Longrightarrow> clock s = clock t \<Longrightarrow>
   phase_ok s x = phase_ok t x"
  by (cases x) (auto simp: body_ok_cong[of s t])

lemma request_ok_cong:
  "next_rv s = next_rv t \<Longrightarrow> lease s = lease t \<Longrightarrow> writer s = writer t \<Longrightarrow>
   written_at s = written_at t \<Longrightarrow> clock s = clock t \<Longrightarrow> request_ok s p r = request_ok t p r"
  by (cases r) (auto simp: may_write_def)

lemma cand_ok_cong:
  "landed s = landed t \<Longrightarrow> next_rv s = next_rv t \<Longrightarrow> lease s = lease t \<Longrightarrow> clock s = clock t \<Longrightarrow>
   writer s = writer t \<Longrightarrow> written_at s = written_at t \<Longrightarrow> cand_ok s p c = cand_ok t p c"
  by (auto simp: cand_ok_def terms_ok_def obs_inv_def phase_ok_cong[of s t])

lemma flight_ok_cong:
  "landed s = landed t \<Longrightarrow> next_rv s = next_rv t \<Longrightarrow> lease s = lease t \<Longrightarrow> clock s = clock t \<Longrightarrow>
   writer s = writer t \<Longrightarrow> written_at s = written_at t \<Longrightarrow> sent s \<subseteq> sent t \<Longrightarrow>
   flight_ok ids s f \<Longrightarrow> flight_ok ids t f"
  using request_ok_cong[of s t "sender f" "request f"] by (auto simp: flight_ok_def)

lemma election_inv_set_cand:
  assumes "election_inv ids s" "cand_ok s p c"
  shows "election_inv ids (set_cand p c s)"
proof -
  have "cand_ok (set_cand p c s) q d = cand_ok s q d" for q d by (rule cand_ok_cong) simp_all
  moreover have "flight_ok ids s f \<Longrightarrow> flight_ok ids (set_cand p c s) f" for f
    by (rule flight_ok_cong[of s]) simp_all
  ultimately show ?thesis using assms by (auto simp: election_inv_def server_ok_def)
qed

lemma cand_ok_tick: "cand_ok s p c \<Longrightarrow> cand_ok (s\<lparr>clock := clock s + d\<rparr>) p c"
  by (cases "phase c") (auto simp: cand_ok_def terms_ok_def obs_inv_def body_ok_def)

lemma request_ok_tick: "request_ok s p r \<Longrightarrow> request_ok (s\<lparr>clock := clock s + d\<rparr>) p r"
  by (cases r) (auto simp: may_write_def)

lemma election_inv_tick: "election_inv ids s \<Longrightarrow> election_inv ids (s\<lparr>clock := clock s + d\<rparr>)"
  by (auto simp: election_inv_def server_ok_def cand_ok_tick flight_ok_def request_ok_tick)

section \<open>What an attempt decides\<close>

lemma lease_spec_written_by [simp]: "written_by i (lease_spec i a r t)"
  by (simp add: written_by_def lease_spec_def)

lemma lease_body_fields [simp]:
  "jidx (lease_body m S) ''spec'' = S" "jidx (lease_body m S) ''metadata'' = JObj m"
  by (simp_all add: lease_body_def)

lemma try_acquire_written_by:
  "try_acquire name namespace i micro now resp ob = Some (ob', Some r) \<Longrightarrow> written_by i (request_spec r)"
  by (auto simp: try_acquire_def Let_def split: response.splits if_splits bind_splits prod.splits)

text \<open>
  A write over a lease that was read: it names the version read, and the lease was the
  candidate's own, free, or seen unchanged for the whole duration it names.
\<close>

lemma try_acquire_update:
  assumes "try_acquire name namespace i micro now (Body b) ob = Some (ob', Some r)"
  obtains b' exp where "r = UpdateLease b'"
    "jat b' [''metadata'', ''resourceVersion''] = jat b [''metadata'', ''resourceVersion'']"
    "expired (jidx b ''spec'') (nat (case as_i64 (jidx (jidx b ''spec'') ''leaseDurationSeconds'') of
        Some d \<Rightarrow> d | None \<Rightarrow> LEASE_DURATION_SECS) * 1000) now ob = Some (ob', exp)"
    "str_or [] (jidx (jidx b ''spec'') ''holderIdentity'') \<in> {i, []} \<or> exp"
proof -
  let ?sp = "jidx b ''spec''"
  let ?d = "case as_i64 (jidx ?sp ''leaseDurationSeconds'') of Some d \<Rightarrow> d | None \<Rightarrow> LEASE_DURATION_SECS"
  have rv: "\<exists>v. jat b [''metadata'', ''resourceVersion''] = JStr v"
    using assms by (auto simp: try_acquire_def as_str_Some split: if_splits option.splits)
  have "\<exists>exp S. expired ?sp (nat ?d * 1000) now ob = Some (ob', exp) \<and>
      (str_or [] (jidx ?sp ''holderIdentity'') \<in> {i, []} \<or> exp) \<and>
      r = UpdateLease (lease_body [(''name'', JStr name), (''namespace'', JStr namespace),
        (''resourceVersion'', JStr (str_or [] (jat b [''metadata'', ''resourceVersion''])))] S)"
    using assms
    by (auto simp: try_acquire_def Let_def bind_eq_Some_conv simp del: jat_Cons split: if_splits)
  with rv show ?thesis by (auto intro: that)
qed

lemma try_acquire_obs:
  assumes "try_acquire name namespace i micro now resp ob = Some (ob', req)"
  shows "ob' = ob \<or> (\<exists>b d e. resp = Body b \<and> expired (jidx b ''spec'') d now ob = Some (ob', e))"
  using assms
  by (auto simp: try_acquire_def Let_def split: response.splits if_splits bind_splits prod.splits)

lemma obs_inv_expired:
  assumes "obs_inv s ob" "body_ok s b" "written_at s \<le> clock s"
    and "expired (jidx b ''spec'') d (clock s) ob = Some (ob', e)"
  shows "obs_inv s ob'"
  using assms(4)
proof (cases rule: expired_Some)
  case (1 at)
  with assms(1-3) show ?thesis by (auto simp: obs_inv_def obs_ok_def body_ok_def)
qed

lemma obs_inv_try_acquire:
  assumes "election_inv ids s" "phase (candidates s p) = Got a resp"
    and "try_acquire name namespace i micro (clock s) resp (obs (candidates s p)) = Some (ob', req)"
  shows "obs_inv s ob'"
proof -
  have c: "cand_ok s p (candidates s p)" "written_at s \<le> clock s"
    using assms(1) by (auto simp: election_inv_def server_ok_def)
  from try_acquire_obs[OF assms(3)] show ?thesis
  proof (elim disjE exE conjE)
    fix b d e assume "resp = Body b" "expired (jidx b ''spec'') d (clock s) (obs (candidates s p)) = Some (ob', e)"
    with c assms(2) show ?thesis by (auto simp: cand_ok_def intro: obs_inv_expired)
  qed (use c in \<open>simp add: cand_ok_def\<close>)
qed

text \<open>The identities tell candidates apart, and an empty one is nobody's.\<close>

definition ids_ok :: "('p \<Rightarrow> string) \<Rightarrow> bool" where
  "ids_ok ids \<longleftrightarrow> inj ids \<and> (\<forall>p. ids p \<noteq> [])"

lemma may_write_takeover:
  assumes ids: "ids_ok ids" and sv: "server_ok ids s" and ob: "obs_inv s ob" and b: "body_ok s b"
    and acq: "try_acquire name namespace (ids p) micro (clock s) (Body b) ob = Some (ob', Some r)"
  shows "request_ok s p r"
  using acq
proof (cases rule: try_acquire_update)
  case (1 b' exp)
  let ?sp = "jidx b ''spec''"
  obtain m where m: "m < next_rv s" "jat b [''metadata'', ''resourceVersion''] = JStr (show_nat m)"
    "\<And>S. lease s = Some (m, S) \<Longrightarrow> S = ?sp" using b by (auto simp: body_ok_def)
  have "may_write s p" if l: "lease s = Some (m, S)" for S
  proof (cases "writer s")
    case (Some q)
    then have wb: "written_by (ids q) ?sp" using sv l m(3) by (force simp: server_ok_def)
    then have h: "str_or [] (jidx ?sp ''holderIdentity'') = ids q" by (simp add: written_by_def)
    show ?thesis
    proof (cases "q = p")
      case False
      with 1(4) h ids have exp by (auto simp: ids_ok_def inj_def)
      from 1(3) show ?thesis
      proof (cases rule: expired_Some)
        case e: (1 at)
        have "15000 \<le> clock s - at"
          using e(3) \<open>exp\<close> wb by (simp add: written_by_def LEASE_DURATION_SECS_def)
        moreover have "written_at s \<le> at"
          using e(4) ob l m(3) \<open>15000 \<le> clock s - at\<close> by (auto simp: obs_inv_def)
        ultimately have "written_at s + 15000 \<le> clock s" by linarith
        then show ?thesis by (simp add: may_write_def)
      qed
    qed (simp add: Some may_write_def)
  qed (simp add: may_write_def)
  with 1(1,2) m show ?thesis by auto
qed

section \<open>Every step keeps the invariant\<close>

lemma election_inv_cand: "election_inv ids s \<Longrightarrow> cand_ok s p (candidates s p)"
  by (simp add: election_inv_def)

lemma inv_begin:
  assumes "election_inv ids s" "phase (candidates s p) = Idle"
  shows "election_inv ids (set_cand p ((candidates s p)\<lparr>phase := Reading (clock s)\<rparr>) s)"
  using election_inv_cand[OF assms(1), of p] assms(2)
  by (intro election_inv_set_cand[OF assms(1)]) (auto simp: cand_ok_def terms_ok_def term_ends_def)

lemma serves_body_ok: "server_ok ids s \<Longrightarrow> serves (lease s) (Body b) \<Longrightarrow> body_ok s b"
  by (auto simp: serves_def server_ok_def body_ok_def split: option.splits)

lemma inv_read:
  assumes "election_inv ids s" "phase (candidates s p) = Reading a" "serves (lease s) resp"
  shows "election_inv ids (set_cand p ((candidates s p)\<lparr>phase := Got a resp\<rparr>) s)"
  using election_inv_cand[OF assms(1), of p] assms serves_body_ok[of ids s]
  by (intro election_inv_set_cand[OF assms(1)])
     (auto simp: cand_ok_def terms_ok_def term_ends_def election_inv_def)

lemma inv_idle:
  assumes "election_inv ids s" "obs_inv s ob"
  shows "election_inv ids (set_cand p ((candidates s p)\<lparr>phase := Idle, obs := ob\<rparr>) s)"
  using election_inv_cand[OF assms(1), of p] assms(2)
  by (intro election_inv_set_cand[OF assms(1)]) (auto simp: cand_ok_def terms_ok_def term_ends_def)

lemma inv_give_up:
  assumes "election_inv ids s"
  shows "election_inv ids (set_cand p ((candidates s p)\<lparr>phase := Idle\<rparr>) s)"
  using election_inv_cand[OF assms(1), of p]
  by (intro election_inv_set_cand[OF assms(1)]) (auto simp: cand_ok_def terms_ok_def term_ends_def)

lemma inv_close:
  assumes "election_inv ids s" "phase (candidates s p) = Idle"
  shows "election_inv ids (set_cand p ((candidates s p)\<lparr>gate := gate_close (gate (candidates s p))\<rparr>) s)"
  using election_inv_cand[OF assms(1), of p] assms(2)
  by (intro election_inv_set_cand[OF assms(1)])
     (auto simp: cand_ok_def terms_ok_def term_ends_def gate_close_def)

lemma reply_gate_ends:
  assumes "reply_gate now a g = Leader e" "g \<noteq> Unrestricted"
  shows "e = a + RENEW_DEADLINE \<or> g = Leader e"
  using assms by (auto simp: reply_gate_def gate_renew_def gate_start_def max_def split: permission.splits if_splits)

lemma inv_reply:
  assumes "election_inv ids s" "phase (candidates s p) = Won a"
  shows "election_inv ids
    (set_cand p ((candidates s p)\<lparr>phase := Idle, gate := reply_gate (clock s) a (gate (candidates s p))\<rparr>) s)"
proof (rule election_inv_set_cand[OF assms(1)])
  let ?c = "candidates s p"
  let ?c' = "?c\<lparr>phase := Idle, gate := reply_gate (clock s) a (gate ?c)\<rparr>"
  have c: "cand_ok s p ?c" by (rule election_inv_cand[OF assms(1)])
  then have u: "gate ?c \<noteq> Unrestricted" by (simp add: cand_ok_def terms_ok_def)
  have "term_ends ?c' \<subseteq> term_ends ?c"
    using reply_gate_ends[OF _ u] assms(2) by (auto simp: term_ends_def)
  moreover have "gate ?c' \<noteq> Unrestricted"
    by (auto simp: reply_gate_def gate_renew_def gate_start_def split: permission.splits)
  ultimately show "cand_ok s p ?c'" using c by (auto simp: cand_ok_def terms_ok_def)
qed

lemma inv_drop:
  assumes "election_inv ids s" "net s = xs @ f # ys"
  shows "election_inv ids (s\<lparr>net := xs @ ys\<rparr>)"
proof -
  have "flight_ok ids s g \<Longrightarrow> flight_ok ids (s\<lparr>net := xs @ ys\<rparr>) g" for g
    by (rule flight_ok_cong[of s]) simp_all
  moreover have "cand_ok (s\<lparr>net := xs @ ys\<rparr>) q d = cand_ok s q d" for q d by (rule cand_ok_cong) simp_all
  ultimately show ?thesis using assms by (auto simp: election_inv_def server_ok_def)
qed

lemma inv_send:
  assumes inv: "election_inv ids s" and ids: "ids_ok ids" and ph: "phase (candidates s p) = Got a resp"
    and acq: "try_acquire name namespace (ids p) micro (clock s) resp (obs (candidates s p)) = Some (ob, Some r)"
    and new: "request_spec r \<notin> sent s"
  shows "election_inv ids
    ((set_cand p ((candidates s p)\<lparr>phase := Sent a (request_spec r), obs := ob\<rparr>) s)
       \<lparr>net := \<lparr>sender = p, attempt = a, request = r\<rparr> # net s, sent := insert (request_spec r) (sent s)\<rparr>)"
    (is "election_inv ids ?t")
proof -
  let ?f = "\<lparr>sender = p, attempt = a, request = r\<rparr>"
  have sv: "server_ok ids s" and c: "cand_ok s p (candidates s p)" using inv by (auto simp: election_inv_def)
  have cand: "cand_ok ?t q d = cand_ok s q d" for q d by (rule cand_ok_cong) simp_all
  have old: "flight_ok ids s g \<Longrightarrow> flight_ok ids ?t g" for g by (rule flight_ok_cong[of s]) auto
  have "request_ok s p r"
  proof (cases resp)
    case (Body b)
    with c ph acq show ?thesis by (auto simp: cand_ok_def intro: may_write_takeover[OF ids sv])
  qed (use acq in \<open>auto simp: try_acquire_def\<close>)
  then have "request_ok ?t p r" by (subst request_ok_cong[of _ s]) simp_all
  moreover have "a \<le> clock s" using c ph by (simp add: cand_ok_def)
  ultimately have f: "flight_ok ids ?t ?f"
    using new sv try_acquire_written_by[OF acq] by (auto simp: flight_ok_def server_ok_def)
  have "cand_ok s p ((candidates s p)\<lparr>phase := Sent a (request_spec r), obs := ob\<rparr>)"
    using c obs_inv_try_acquire[OF inv ph acq] by (auto simp: cand_ok_def terms_ok_def term_ends_def)
  moreover have "request_spec r \<notin> (request_spec \<circ> request) ` set (net s)"
    using inv new by (auto simp: election_inv_def flight_ok_def)
  ultimately show ?thesis
    using inv old f by (auto simp: election_inv_def cand server_ok_def)
qed

text \<open>
  A write that lands: everybody else's term has ended, and no candidate has seen the new
  spec or the new version yet.
\<close>

lemma accepts_may_write:
  assumes "server_ok ids s" "request_ok s p r" "accepts (lease s) r"
  shows "may_write s p"
proof (cases r)
  case (CreateLease b)
  then show ?thesis using assms(1,3) by (cases "writer s") (auto simp: server_ok_def may_write_def)
next
  case (UpdateLease b)
  then show ?thesis using assms(2,3) by (auto simp: show_nat_inj)
qed

lemma inv_land:
  assumes inv: "election_inv ids s" and net: "net s = xs @ f # ys" and acc: "accepts (lease s) (request f)"
    and p: "p = sender f" and spec: "spec = request_spec (request f)"
    and t: "t = (set_cand p (if phase (candidates s p) = Sent (attempt f) spec
                  then (candidates s p)\<lparr>phase := Won (attempt f)\<rparr> else candidates s p) s)
       \<lparr>lease := Some (next_rv s, spec), next_rv := next_rv s + 1, net := xs @ ys,
        writer := Some p, written_at := clock s, landed := insert spec (landed s)\<rparr>"
  shows "election_inv ids t"
proof -
  have tf [simp]: "clock t = clock s" "lease t = Some (next_rv s, spec)" "next_rv t = next_rv s + 1"
    "net t = xs @ ys" "writer t = Some p" "written_at t = clock s" "landed t = insert spec (landed s)"
    "sent t = sent s"
    "candidates t = (candidates s)(p := if phase (candidates s p) = Sent (attempt f) spec
                  then (candidates s p)\<lparr>phase := Won (attempt f)\<rparr> else candidates s p)"
    by (simp_all add: t)
  have sv: "server_ok ids s" and f: "flight_ok ids s f" using inv net by (auto simp: election_inv_def)
  have mw: "may_write s p" using accepts_may_write[OF sv _ acc, of p] f p by (simp add: flight_ok_def)
  have terms: "terms_ok t q c" if "terms_ok s q c" for q c
    unfolding terms_ok_def
  proof (intro conjI ballI)
    show "gate c \<noteq> Unrestricted" using that by (simp add: terms_ok_def)
    fix e assume "e \<in> term_ends c"
    then have "e \<le> written_at s + RENEW_DEADLINE" "writer s \<noteq> Some q \<longrightarrow> e \<le> clock s"
      using that by (auto simp: terms_ok_def)
    with sv mw show "e \<le> written_at t + RENEW_DEADLINE" "writer t \<noteq> Some q \<longrightarrow> e \<le> clock t"
      by (auto simp: server_ok_def may_write_def RENEW_DEADLINE_def)
  qed
  have obs: "obs_inv t ob" if "obs_inv s ob" for ob
    using that f spec by (auto simp: obs_inv_def flight_ok_def)
  have body: "body_ok t b" if "body_ok s b" for b using that by (auto simp: body_ok_def show_nat_inj)
  have ph: "phase_ok t x" if "phase_ok s x" for x using that body by (cases x) auto
  have cand: "cand_ok t q (candidates s q)" for q
    using election_inv_cand[OF inv, of q] by (auto simp: cand_ok_def terms obs ph)
  have "cand_ok t p ((candidates s p)\<lparr>phase := Won (attempt f)\<rparr>)"
    if "phase (candidates s p) = Sent (attempt f) spec"
    using cand[of p] f that by (auto simp: cand_ok_def terms_ok_def term_ends_def flight_ok_def)
  then have cands: "cand_ok t q (candidates t q)" for q using cand[of q] by auto
  have req: "request_ok t q r" if "request_ok s q r" for q r
    using that by (cases r) (auto simp: show_nat_inj)
  have ne: "request_spec (request g) \<noteq> spec" if "g \<in> set xs \<union> set ys" for g
    using sv net spec that by (auto simp: server_ok_def image_iff)
  have "flight_ok ids t g" if "g \<in> set xs \<union> set ys" for g
    using inv net that ne[OF that] req by (auto simp: election_inv_def flight_ok_def)
  moreover have "server_ok ids t"
    using sv net spec f p by (auto simp: server_ok_def flight_ok_def)
  ultimately show ?thesis using cands by (auto simp: election_inv_def)
qed

lemma election_step_inv:
  assumes "election_step ids name namespace s t" "ids_ok ids" "election_inv ids s"
  shows "election_inv ids t"
  using assms(1)
proof cases
  case (e_stay p a resp micro ob)
  then show ?thesis using inv_idle[OF assms(3) obs_inv_try_acquire[OF assms(3)]] by simp
next
  case (e_send p a resp micro ob r)
  then show ?thesis using inv_send[OF assms(3,2)] by blast
next
  case (e_land xs f ys p spec)
  then show ?thesis using inv_land[OF assms(3)] by blast
qed (use assms(3) in \<open>simp_all only: election_inv_tick inv_begin inv_read inv_drop
    inv_give_up inv_reply inv_close\<close>)

lemma election_reachable_inv:
  assumes "election_reachable ids name namespace s" "ids_ok ids"
  shows "election_inv ids s"
  using assms by (induction rule: election_reachable.induct) (auto intro: election_inv_start election_step_inv)

text \<open>The writes of an attempt through the controller manager's client, as far as creates go.\<close>

definition create_write ::
    "(string \<Rightarrow> get_answer) \<Rightarrow> (string \<Rightarrow> json \<Rightarrow> post_answer) \<Rightarrow> pending_creates \<Rightarrow> string \<Rightarrow> lease_request \<Rightarrow> json option" where
  "create_write get post pend path r =
     (case r of
        CreateLease b \<Rightarrow> (case cr_result (create path b get post pend) of Inr v \<Rightarrow> Some v | Inl _ \<Rightarrow> None)
      | UpdateLease b \<Rightarrow> None)"

section \<open>Properties\<close>

text \<open>
  C1. There is never more than one leader. In every state the candidates can reach, with
  requests delayed, lost or landing after their sender stopped waiting, at most one candidate
  passes its write gate, provided the identities are distinct and not empty. (A takeover
  waits out the 15 s lease from when it observed the last write, and that write's term ended
  10 s after its attempt began.)
\<close>

theorem election_mutual_exclusion:
  assumes "ids_ok ids" "election_reachable ids name namespace s" "leading s p" "leading s q"
  shows "p = q"
proof -
  have inv: "election_inv ids s" by (rule election_reachable_inv[OF assms(2,1)])
  have "writer s = Some r" if lead: "leading s r" for r
  proof -
    have t: "terms_ok s r (candidates s r)"
      using election_inv_cand[OF inv, of r] by (simp add: cand_ok_def)
    then obtain e where e: "gate (candidates s r) = Leader e" "clock s < e"
      using lead by (auto simp: leading_def budget_ok terms_ok_def)
    then have "e \<in> term_ends (candidates s r)" by (simp add: term_ends_def)
    with t e(2) show ?thesis by (force simp: terms_ok_def)
  qed
  from this[OF assms(3)] this[OF assms(4)] show ?thesis by simp
qed

definition demo_ids :: "bool \<Rightarrow> string" where
  "demo_ids b = (if b then ''a'' else ''b'')"

definition demo_start :: "bool election" where
  "demo_start = \<lparr>clock = 0, lease = None, next_rv = 1,
     candidates = (\<lambda>_. \<lparr>phase = Idle, gate = Follower, obs = obs_default\<rparr>), net = [],
     writer = None, written_at = 0, landed = {}, sent = {}\<rparr>"

lemma demo_leads: "\<exists>s. election_reachable demo_ids ''n'' ''ns'' s \<and> leading s True"
proof -
  let ?R = "election_reachable demo_ids ''n'' ''ns''"
  let ?S = "election_step demo_ids ''n'' ''ns''"
  have r0: "?R demo_start" by (intro el_start) (simp add: election_start_def demo_start_def)
  define s1 where "s1 = set_cand True ((candidates demo_start True)\<lparr>phase := Reading (clock demo_start)\<rparr>) demo_start"
  have r1: "?R s1" unfolding s1_def by (intro el_step[OF r0] e_begin) (simp add: demo_start_def)
  define s2 where "s2 = set_cand True ((candidates s1 True)\<lparr>phase := Got 0 NotFound\<rparr>) s1"
  have r2: "?R s2" unfolding s2_def
    by (intro el_step[OF r1] e_read) (simp_all add: s1_def serves_def demo_start_def)
  let ?b = "lease_body [(''name'', JStr ''n''), (''namespace'', JStr ''ns'')] (lease_spec ''a'' ''t'' ''t'' 0)"
  let ?r = "CreateLease ?b"
  define s3 where "s3 = (set_cand True ((candidates s2 True)\<lparr>phase := Sent 0 (request_spec ?r), obs := obs_default\<rparr>) s2)
         \<lparr>net := \<lparr>sender = True, attempt = 0, request = ?r\<rparr> # net s2, sent := insert (request_spec ?r) (sent s2)\<rparr>"
  have r3: "?R s3" unfolding s3_def
    by (intro el_step[OF r2] e_send[where resp = NotFound and micro = "''t''"])
       (simp_all add: s2_def s1_def demo_start_def try_acquire_def demo_ids_def)
  let ?f = "\<lparr>sender = True, attempt = 0, request = ?r\<rparr>"
  have n3: "net s3 = [] @ ?f # []" by (simp add: s3_def s2_def s1_def demo_start_def)
  have l3: "accepts (lease s3) (request ?f)" by (simp add: s3_def s2_def s1_def demo_start_def)
  obtain s4 where s4: "?S s3 s4" "phase (candidates s4 True) = Won 0" "clock s4 = 0"
      "gate (candidates s4 True) = Follower"
    using e_land[OF n3 l3 refl refl, of demo_ids "''n''" "''ns''"]
    by (rule that) (simp_all add: s3_def s2_def s1_def demo_start_def)
  have r4: "?R s4" by (rule el_step[OF r3 s4(1)])
  let ?s5 = "set_cand True ((candidates s4 True)\<lparr>phase := Idle, gate := reply_gate (clock s4) 0 (gate (candidates s4 True))\<rparr>) s4"
  have "?R ?s5" by (rule el_step[OF r4 e_reply[OF s4(2)]])
  moreover have "leading ?s5 True"
    using s4 by (simp add: leading_def reply_gate_def gate_start_def budget_def RENEW_DEADLINE_def)
  ultimately show ?thesis by blast
qed

theorem election_mutual_exclusion_witness:
  "\<exists>s. election_reachable demo_ids ''n'' ''ns'' s \<and> leading s True \<and> \<not> leading s False"
proof -
  obtain s where s: "election_reachable demo_ids ''n'' ''ns'' s" "leading s True" using demo_leads by blast
  have "ids_ok demo_ids" by (auto simp: ids_ok_def demo_ids_def inj_def)
  from election_mutual_exclusion[OF this s(1) s(2), of False] s show ?thesis by auto
qed

text \<open>
  C19. The controller manager's election goes through its own \<^verbatim>\<open>ApiClient::create\<close>, and that
  breaks the rule above: if an earlier attempt to create the lease had no definite outcome,
  and another candidate creates the lease between this candidate's GET (404) and its create,
  the create answers with the other candidate's lease and the attempt counts it as a win,
  whoever holds it and however recently it was renewed.
\<close>

theorem cm_create_wins_foreign_lease:
  assumes "pend (path @ ''/'' @ name) = Some pc" "pc_owner pc = []"
    and "get (pc_path pc @ ''/'' @ str_or [] (jat (pc_body pc) [''metadata'', ''name''])) =
      GetStatus 200 (Some (lease_body [(''name'', JStr name), (''resourceVersion'', JStr rv)]
        (lease_spec other acquired renewed n)))"
  shows "try_acquire_or_renew name namespace me micro now NotFound (create_write get post pend path) ob =
    Some (ob, True)"
proof -
  have o1: "create_owner (lease_body [(''name'', JStr name), (''namespace'', JStr namespace)]
      (lease_spec me micro micro 0)) = []"
    by (simp add: create_owner_def lease_spec_def)
  have o2: "create_owner (lease_body [(''name'', JStr name), (''resourceVersion'', JStr rv)]
      (lease_spec other acquired renewed n)) = []"
    by (simp add: create_owner_def lease_spec_def)
  show ?thesis
    using assms o1 o2
    by (simp add: try_acquire_or_renew_def try_acquire_def create_write_def create_def create_group_def Let_def won_def
        lease_body_def)
qed

theorem cm_create_wins_foreign_lease_witness:
  "let pc = \<lparr>pc_path = ''/leases'', pc_body = lease_body [(''name'', JStr ''kcm'')] (lease_spec ''me'' ''t0'' ''t0'' 0), pc_owner = []\<rparr>;
       get = (\<lambda>_. GetStatus 200 (Some (lease_body [(''name'', JStr ''kcm''), (''resourceVersion'', JStr ''7'')]
               (lease_spec ''other'' ''t1'' ''t1'' 0))))
   in try_acquire_or_renew ''kcm'' ''kube-system'' ''me'' ''t2'' 5 NotFound
        (create_write get (\<lambda>_ _. PostFailed) [''/leases/kcm'' \<mapsto> pc] ''/leases'') obs_default = Some (obs_default, True)"
  unfolding Let_def by (rule cm_create_wins_foreign_lease, simp, simp_all)

end
