(* ===== verification/Rollout.thy ===== *)
theory Rollout
  imports Prelude "HOL-Library.Multiset"
begin

text \<open>
  \<^verbatim>\<open>pkg/controller-manager/src/rollout.rs\<close>, and what \<^verbatim>\<open>deployment.rs\<close> puts around it: the strategy
  of a Deployment, the view of a ReplicaSet, and the writes of one pass. The two promises of
  a rolling update are proved of every pass, and that a rollout whose pods become available
  ends. Counts are \<^verbatim>\<open>u64\<close> with wrap-around.
\<close>

section \<open>Model\<close>

definition int_or_percent :: "json \<Rightarrow> nat \<Rightarrow> bool \<Rightarrow> nat" where
  "int_or_percent v replicas round_up =
     (case as_u64 v of
        Some n \<Rightarrow> n
      | None \<Rightarrow>
          (case as_str v of
             Some s \<Rightarrow>
               (case Option.bind (strip_suffix s ''%'') (parse_uint 64) of
                  Some pct \<Rightarrow>
                    (let scaled = mul64 replicas pct
                     in if round_up then (scaled + 99) div 100 else scaled div 100)
                | None \<Rightarrow> (case parse_uint 64 s of Some n \<Rightarrow> n | None \<Rightarrow> 0))
           | None \<Rightarrow> 0))"

record rs_view =
  rs_name :: string
  rs_revision :: nat
  rs_spec :: nat
  rs_available :: nat

record plan =
  pl_new :: nat
  pl_old :: "(string \<times> nat) list"

text \<open>\<open>iter().sum::<u64>()\<close>.\<close>

definition sum64 :: "nat list \<Rightarrow> nat" where
  "sum64 xs = foldl add64 0 xs"

definition plan_recreate :: "nat \<Rightarrow> rs_view \<Rightarrow> rs_view list \<Rightarrow> plan" where
  "plan_recreate desired new olds =
     (if 0 < sum64 (map rs_spec olds)
      then \<lparr>pl_new = 0, pl_old = map (\<lambda>r. (rs_name r, 0)) (filter (\<lambda>r. 0 < rs_spec r) olds)\<rparr>
      else \<lparr>pl_new = desired, pl_old = []\<rparr>)"

fun clean_unhealthy :: "nat \<Rightarrow> nat \<Rightarrow> rs_view list \<Rightarrow> rs_view list" where
  "clean_unhealthy max_scaled_down cleaned [] = []"
| "clean_unhealthy max_scaled_down cleaned (r # rs) =
     (if max_scaled_down \<le> cleaned then r # rs
      else
        (let down = min (rs_spec r - rs_available r) (max_scaled_down - cleaned)
         in r\<lparr>rs_spec := rs_spec r - down\<rparr> # clean_unhealthy max_scaled_down (cleaned + down) rs))"

fun scale_down_healthy :: "nat \<Rightarrow> rs_view list \<Rightarrow> rs_view list" where
  "scale_down_healthy budget [] = []"
| "scale_down_healthy budget (r # rs) =
     (if budget = 0 then r # rs
      else
        (let down = min (rs_spec r) budget
         in r\<lparr>rs_spec := rs_spec r - down\<rparr> # scale_down_healthy (budget - down) rs))"

definition plan_rolling :: "nat \<Rightarrow> nat \<Rightarrow> nat \<Rightarrow> rs_view \<Rightarrow> rs_view list \<Rightarrow> plan" where
  "plan_rolling desired max_surge max_unavailable new olds =
     (let max_total = add64 desired max_surge;
          current_total = add64 (rs_spec new) (sum64 (map rs_spec olds));
          new1 = (if current_total < max_total \<and> rs_spec new < desired
                  then rs_spec new + min (max_total - current_total) (desired - rs_spec new)
                  else rs_spec new);
          new_replicas = (if desired < rs_spec new then desired else new1)
      in if new_replicas \<noteq> rs_spec new then \<lparr>pl_new = new_replicas, pl_old = []\<rparr>
         else
           (let min_available = desired - max_unavailable;
                all_pods = add64 (rs_spec new) (sum64 (map rs_spec olds));
                new_unavailable = rs_spec new - rs_available new;
                max_scaled_down = all_pods - min_available - new_unavailable
            in if max_scaled_down = 0 then \<lparr>pl_new = new_replicas, pl_old = []\<rparr>
               else
                 (let ordered = sort_key rs_revision (filter (\<lambda>r. 0 < rs_spec r) olds);
                      cleaned = clean_unhealthy max_scaled_down 0 ordered;
                      available = add64 (rs_available new) (sum64 (map rs_available olds));
                      scaled = scale_down_healthy (available - min_available) cleaned
                  in \<lparr>pl_new = new_replicas,
                      pl_old = map (\<lambda>r. (rs_name r, rs_spec r))
                        (filter (\<lambda>r. \<exists>old \<in> set olds. rs_name old = rs_name r \<and> rs_spec old \<noteq> rs_spec r) scaled)\<rparr>)))"

definition prunable :: "rs_view list \<Rightarrow> nat \<Rightarrow> string list" where
  "prunable olds limit =
     (let idle = sort_key rs_revision (filter (\<lambda>r. rs_spec r = 0) olds)
      in if length idle \<le> limit then [] else map rs_name (take (length idle - limit) idle))"

definition next_revision :: "rs_view list \<Rightarrow> nat" where
  "next_revision owned = add64 (foldr max (map rs_revision owned) 0) 1"

section \<open>The Deployment around it\<close>

definition strategy :: "json \<Rightarrow> nat \<Rightarrow> nat \<times> nat \<times> bool" where
  "strategy deploy desired =
     (if str_or ''RollingUpdate'' (jat deploy [''spec'', ''strategy'', ''type'']) = ''Recreate'' then (0, desired, True)
      else
        (let ru = jat deploy [''spec'', ''strategy'', ''rollingUpdate''];
             pick = (\<lambda>k up. int_or_percent (if is_null (jidx ru k) then JStr ''25%'' else jidx ru k) desired up);
             surge = pick ''maxSurge'' True;
             unavailable = pick ''maxUnavailable'' False
         in if surge = 0 \<and> unavailable = 0 then (1, 0, False) else (surge, unavailable, False)))"

definition REVISION :: string where
  "REVISION = ''deployment.kubernetes.io/revision''"

definition view_of :: "json \<Rightarrow> rs_view" where
  "view_of rs =
     \<lparr>rs_name = str_or [] (jat rs [''metadata'', ''name'']),
      rs_revision =
        (case Option.bind (as_str (jat rs [''metadata'', ''annotations'', REVISION])) (parse_uint 64) of
           Some n \<Rightarrow> n | None \<Rightarrow> 0),
      rs_spec = (case as_u64 (jat rs [''spec'', ''replicas'']) of Some n \<Rightarrow> n | None \<Rightarrow> 0),
      rs_available = (case as_u64 (jat rs [''status'', ''availableReplicas'']) of Some n \<Rightarrow> n | None \<Rightarrow> 0)\<rparr>"

text \<open>The writes of a pass: each ReplicaSet the plan names gets its count.\<close>

definition scale_to :: "plan \<Rightarrow> rs_view \<Rightarrow> rs_view" where
  "scale_to p r = (case map_of (pl_old p) (rs_name r) of Some n \<Rightarrow> r\<lparr>rs_spec := n\<rparr> | None \<Rightarrow> r)"

definition apply_plan :: "plan \<Rightarrow> rs_view \<Rightarrow> rs_view list \<Rightarrow> rs_view \<times> rs_view list" where
  "apply_plan p new olds = (new\<lparr>rs_spec := pl_new p\<rparr>, map (scale_to p) olds)"

section \<open>Arithmetic without wrap-around\<close>

lemma sum64_small: "sum_list xs < 2 ^ 64 \<Longrightarrow> sum64 xs = sum_list xs"
proof -
  have "a + sum_list xs < 2 ^ 64 \<Longrightarrow> foldl add64 a xs = a + sum_list xs" for a
    by (induction xs arbitrary: a) (simp_all add: add64_def)
  then show "sum_list xs < 2 ^ 64 \<Longrightarrow> sum64 xs = sum_list xs" by (simp add: sum64_def)
qed

definition total_pods :: "rs_view \<Rightarrow> rs_view list \<Rightarrow> nat" where
  "total_pods new olds = rs_spec new + sum_list (map rs_spec olds)"

text \<open>
  What stays available once the ReplicaSet controller has followed the counts: it deletes
  unready pods first, so of \<open>available\<close> pods at least as many as the count allows stay.
\<close>

definition serving :: "rs_view \<Rightarrow> nat" where
  "serving r = min (rs_available r) (rs_spec r)"

definition total_serving :: "rs_view \<Rightarrow> rs_view list \<Rightarrow> nat" where
  "total_serving new olds = serving new + sum_list (map serving olds)"

lemma total64:
  assumes "total_pods new olds < 2 ^ 64"
  shows "add64 (rs_spec new) (sum64 (map rs_spec olds)) = total_pods new olds"
proof -
  have "sum_list (map rs_spec olds) < 2 ^ 64" using assms by (simp add: total_pods_def)
  then have "sum64 (map rs_spec olds) = sum_list (map rs_spec olds)" by (rule sum64_small)
  then show ?thesis using assms by (simp add: total_pods_def add64_def)
qed

section \<open>Scaling down\<close>

text \<open>
  Both loops keep the ReplicaSets in place and only lower their counts. Cleaning up never
  touches an available pod, and the second loop takes no more than its budget.
\<close>

definition lowers :: "rs_view \<Rightarrow> rs_view \<Rightarrow> bool" where
  "lowers r r' \<longleftrightarrow> rs_spec r' \<le> rs_spec r \<and> r' = r\<lparr>rs_spec := rs_spec r'\<rparr>"

lemma lowers_refl [simp]: "lowers r r"
  by (simp add: lowers_def)

lemma lowers_fields: "lowers r r' \<Longrightarrow> rs_name r' = rs_name r \<and> rs_available r' = rs_available r"
  by (metis lowers_def rs_view.select_convs(1,4) rs_view.surjective rs_view.update_convs(3))

lemma lowers_update [simp]: "lowers r (r\<lparr>rs_spec := rs_spec r - d\<rparr>)"
  by (simp add: lowers_def)

lemma lowers_same: "lowers r r' \<Longrightarrow> rs_spec r = rs_spec r' \<Longrightarrow> r' = r"
  by (cases r; cases r') (simp add: lowers_def)

lemma lowers_trans: "lowers a b \<Longrightarrow> lowers b c \<Longrightarrow> lowers a c"
  by (cases a; cases b; cases c) (auto simp: lowers_def)

lemma clean_unhealthy_lowers: "list_all2 lowers rs (clean_unhealthy m c rs)"
  by (induction m c rs rule: clean_unhealthy.induct) (auto simp: Let_def list_all2_refl)

lemma scale_down_lowers: "list_all2 lowers rs (scale_down_healthy b rs)"
  by (induction b rs rule: scale_down_healthy.induct) (auto simp: Let_def list_all2_refl)

lemma clean_unhealthy_serving: "map serving (clean_unhealthy m c rs) = map serving rs"
  by (induction m c rs rule: clean_unhealthy.induct) (auto simp: Let_def serving_def)

lemma scale_down_serving:
  "sum_list (map serving rs) \<le> sum_list (map serving (scale_down_healthy b rs)) + b"
proof (induction b rs rule: scale_down_healthy.induct)
  case (2 b r rs)
  define d where "d = min (rs_spec r) b"
  have "serving r \<le> serving (r\<lparr>rs_spec := rs_spec r - d\<rparr>) + d" by (auto simp: serving_def)
  moreover have "d \<le> b" by (simp add: d_def)
  ultimately show ?case using 2 by (auto simp: Let_def d_def[symmetric])
qed simp

lemma lowers_sum: "list_all2 lowers rs rs' \<Longrightarrow> sum_list (map rs_spec rs') \<le> sum_list (map rs_spec rs)"
  by (induction rule: list_all2_induct) (auto simp: lowers_def)

lemma scale_down_progress:
  "0 < b \<Longrightarrow> 0 < sum_list (map rs_spec rs) \<Longrightarrow>
     sum_list (map rs_spec (scale_down_healthy b rs)) < sum_list (map rs_spec rs)"
proof (induction b rs rule: scale_down_healthy.induct)
  case (2 b r rs)
  define d where "d = min (rs_spec r) b"
  have le: "sum_list (map rs_spec (scale_down_healthy (b - d) rs)) \<le> sum_list (map rs_spec rs)"
    by (rule lowers_sum[OF scale_down_lowers])
  show ?case
  proof (cases "rs_spec r = 0")
    case False
    then have "0 < d" "d \<le> rs_spec r" using 2 by (auto simp: d_def)
    with 2(2) le show ?thesis by (simp add: Let_def d_def[symmetric])
  qed (use 2 in \<open>simp add: Let_def\<close>)
qed simp

section \<open>What a pass writes\<close>

text \<open>The old ReplicaSets after the two loops, when the loops run.\<close>

definition scaled_olds :: "nat \<Rightarrow> nat \<Rightarrow> rs_view list \<Rightarrow> rs_view list" where
  "scaled_olds m b olds = scale_down_healthy b (clean_unhealthy m 0 (sort_key rs_revision (filter (\<lambda>r. 0 < rs_spec r) olds)))"

definition old_plan :: "rs_view list \<Rightarrow> rs_view list \<Rightarrow> (string \<times> nat) list" where
  "old_plan olds scaled = map (\<lambda>r. (rs_name r, rs_spec r))
     (filter (\<lambda>r. \<exists>old \<in> set olds. rs_name old = rs_name r \<and> rs_spec old \<noteq> rs_spec r) scaled)"

lemma scaled_olds_lowers: "list_all2 lowers (sort_key rs_revision (filter (\<lambda>r. 0 < rs_spec r) olds)) (scaled_olds m b olds)"
  unfolding scaled_olds_def
  by (rule list_all2_trans[OF _ clean_unhealthy_lowers scale_down_lowers]) (rule lowers_trans)

lemma scale_to_scaled:
  assumes d: "distinct (map rs_name olds)" and l: "list_all2 lowers ordered scaled" and s: "set ordered \<subseteq> set olds" "distinct (map rs_name ordered)"
    and p: "pl_old p = old_plan olds scaled"
  shows "map (scale_to p) ordered = scaled"
proof (rule nth_equalityI)
  show len: "length (map (scale_to p) ordered) = length scaled" using l by (simp add: list_all2_lengthD)
  have names: "map rs_name scaled = map rs_name ordered"
    using l by (induction rule: list_all2_induct) (simp_all add: lowers_fields)
  fix i assume "i < length (map (scale_to p) ordered)"
  then have i: "i < length ordered" "i < length scaled" using len by auto
  let ?r = "ordered ! i" and ?r' = "scaled ! i"
  have lw: "lowers ?r ?r'" using l i by (simp add: list_all2_nthD)
  have uniq: "r = ?r" if "r \<in> set olds" "rs_name r = rs_name ?r" for r
    using that d s(1) i by (metis (no_types, lifting) distinct_map inj_on_def nth_mem subsetD)
  have q: "(\<exists>old \<in> set olds. rs_name old = rs_name ?r' \<and> rs_spec old \<noteq> rs_spec ?r') \<longleftrightarrow> rs_spec ?r \<noteq> rs_spec ?r'"
    using uniq lowers_fields[OF lw] i s(1) by (metis nth_mem subsetD)
  have ds: "distinct (map fst (old_plan olds scaled))"
    unfolding old_plan_def map_map comp_def fst_conv by (rule distinct_map_filter) (simp add: names s(2))
  show "map (scale_to p) ordered ! i = ?r'"
  proof (cases "rs_spec ?r = rs_spec ?r'")
    case False
    then have "(rs_name ?r', rs_spec ?r') \<in> set (old_plan olds scaled)" using q i by (auto simp: old_plan_def)
    then have "map_of (pl_old p) (rs_name ?r) = Some (rs_spec ?r')" using ds p lowers_fields[OF lw] by (simp add: map_of_is_SomeI)
    then show ?thesis using i lw by (simp add: scale_to_def lowers_def)
  next
    case True
    have "rs_name ?r \<notin> fst ` set (old_plan olds scaled)"
    proof
      assume "rs_name ?r \<in> fst ` set (old_plan olds scaled)"
      then obtain x where "x \<in> set (filter (\<lambda>r. \<exists>old \<in> set olds. rs_name old = rs_name r \<and> rs_spec old \<noteq> rs_spec r) scaled)"
        and xn: "rs_name x = rs_name ?r" unfolding old_plan_def set_map image_image fst_conv by (metis (no_types, lifting) imageE)
      then have x: "x \<in> set scaled" "\<exists>old \<in> set olds. rs_name old = rs_name x \<and> rs_spec old \<noteq> rs_spec x" by simp_all
      then obtain j where j: "j < length scaled" "scaled ! j = x" by (auto simp: in_set_conv_nth)
      then have "map rs_name ordered ! j = map rs_name ordered ! i"
        using j i xn unfolding names[symmetric] by (simp add: names[symmetric] lowers_fields[OF lw])
      then have "j = i" using s(2) i j len by (simp add: nth_eq_iff_index_eq del: nth_map)
      with j x(2) q True show False by auto
    qed
    then have "map_of (pl_old p) (rs_name ?r) = None" using p by (simp add: map_of_eq_None_iff)
    then show ?thesis using i lowers_same[OF lw True] by (simp add: scale_to_def)
  qed
qed

lemma sum_sort_key: "sum_list (map f (sort_key k xs)) = (sum_list (map f xs) :: nat)"
  by (metis mset_map mset_sort sum_mset_sum_list)

text \<open>A count of the old ReplicaSets after the writes is the count of the loops' result.\<close>

lemma sum_after:
  fixes f :: "rs_view \<Rightarrow> nat"
  assumes d: "distinct (map rs_name olds)" and p: "pl_old p = old_plan olds (scaled_olds m b olds)"
    and f: "\<And>r. rs_spec r = 0 \<Longrightarrow> f r = 0"
  shows "sum_list (map f (map (scale_to p) olds)) = sum_list (map f (scaled_olds m b olds))"
proof -
  let ?ordered = "sort_key rs_revision (filter (\<lambda>r. 0 < rs_spec r) olds)"
  note l = scaled_olds_lowers[of olds m b]
  have dor: "distinct (map rs_name ?ordered)"
  proof -
    have "distinct (map rs_name (filter (\<lambda>r. 0 < rs_spec r) olds))" using d by (rule distinct_map_filter)
    then show ?thesis by (simp add: distinct_map)
  qed
  have sc: "map (scale_to p) ?ordered = scaled_olds m b olds"
    by (rule scale_to_scaled[OF d l _ dor p]) auto
  have names: "rs_name ` set (scaled_olds m b olds) = rs_name ` set ?ordered"
    using l by (induction rule: list_all2_induct) (auto simp: lowers_fields)
  have z: "f (scale_to p r) = 0" if r: "r \<in> set olds" "\<not> 0 < rs_spec r" for r
  proof -
    have "rs_name r \<notin> rs_name ` set ?ordered"
      using r d by (auto simp: distinct_map inj_on_def)
    moreover have "fst ` set (pl_old p) \<subseteq> rs_name ` set (scaled_olds m b olds)"
      unfolding p old_plan_def set_map image_image fst_conv by (rule image_mono) (simp add: subset_iff)
    ultimately have "rs_name r \<notin> fst ` set (pl_old p)" unfolding names by blast
    then have "scale_to p r = r" by (simp add: scale_to_def map_of_eq_None_iff[THEN iffD2])
    with r f show ?thesis by simp
  qed
  have "sum_list (map (\<lambda>r. f (scale_to p r)) olds) = sum_list (map (\<lambda>r. f (scale_to p r)) (filter (\<lambda>r. 0 < rs_spec r) olds))"
    using z by (simp add: sum_list_map_filter)
  also have "\<dots> = sum_list (map f (map (scale_to p) ?ordered))" by (simp add: sum_sort_key comp_def)
  finally show ?thesis by (simp add: sc comp_def)
qed

text \<open>The three outcomes of a pass.\<close>

lemma plan_rolling_cases:
  assumes "desired + max_surge < 2 ^ 64" "total_pods new olds < 2 ^ 64"
  obtains
    (scale) n where "plan_rolling desired max_surge max_unavailable new olds = \<lparr>pl_new = n, pl_old = []\<rparr>" "n \<noteq> rs_spec new"
      "n = desired \<and> desired < rs_spec new \<or>
       rs_spec new < n \<and> n \<le> desired \<and> n + sum_list (map rs_spec olds) \<le> desired + max_surge"
  | (wait) "plan_rolling desired max_surge max_unavailable new olds = \<lparr>pl_new = rs_spec new, pl_old = []\<rparr>"
      "rs_spec new \<le> desired" "rs_spec new = desired \<or> desired + max_surge \<le> total_pods new olds"
      "total_pods new olds - (desired - max_unavailable) - (rs_spec new - rs_available new) = 0"
  | (down) m where "plan_rolling desired max_surge max_unavailable new olds =
        \<lparr>pl_new = rs_spec new, pl_old = old_plan olds (scaled_olds m
           (add64 (rs_available new) (sum64 (map rs_available olds)) - (desired - max_unavailable)) olds)\<rparr>"
      "rs_spec new \<le> desired" "rs_spec new = desired \<or> desired + max_surge \<le> total_pods new olds" "0 < m"
proof -
  have mt: "add64 desired max_surge = desired + max_surge" using assms(1) by (rule add64_small)
  note ct = total64[OF assms(2)]
  let ?m = "total_pods new olds - (desired - max_unavailable) - (rs_spec new - rs_available new)"
  consider (a) "desired < rs_spec new" | (b) "rs_spec new < desired" "total_pods new olds < desired + max_surge"
    | (c) "rs_spec new \<le> desired" "rs_spec new = desired \<or> desired + max_surge \<le> total_pods new olds" by linarith
  then show thesis
  proof cases
    case a
    then show ?thesis by (intro scale[of desired]) (auto simp: plan_rolling_def Let_def)
  next
    case b
    let ?n = "rs_spec new + min (desired + max_surge - total_pods new olds) (desired - rs_spec new)"
    have "plan_rolling desired max_surge max_unavailable new olds = \<lparr>pl_new = ?n, pl_old = []\<rparr>"
      using b by (simp add: plan_rolling_def Let_def mt ct)
    moreover have "?n + sum_list (map rs_spec olds) \<le> desired + max_surge"
      using b unfolding total_pods_def min_def by (auto split: if_splits)
    moreover have "rs_spec new < ?n" "?n \<le> desired" using b by auto
    ultimately show ?thesis by (intro scale[of ?n]) auto
  next
    case c
    show ?thesis
    proof (cases "?m = 0")
      case True
      with c show ?thesis by (intro wait) (auto simp: plan_rolling_def Let_def mt ct)
    next
      case False
      with c show ?thesis
        by (intro down[of ?m]) (auto simp: plan_rolling_def Let_def mt ct scaled_olds_def old_plan_def)
    qed
  qed
qed


section \<open>The two promises\<close>

definition sized :: "nat \<Rightarrow> nat \<Rightarrow> rs_view \<Rightarrow> rs_view list \<Rightarrow> bool" where
  "sized desired max_surge new olds \<longleftrightarrow>
     desired + max_surge < 2 ^ 64 \<and> total_pods new olds < 2 ^ 64 \<and> distinct (map rs_name olds) \<and>
     rs_available new \<le> rs_spec new \<and> list_all (\<lambda>r. rs_available r \<le> rs_spec r) olds"

lemma sized_serving:
  "sized d s new olds \<Longrightarrow> serving new = rs_available new \<and> sum_list (map serving olds) = sum_list (map rs_available olds)"
  by (auto simp: sized_def serving_def list_all_iff intro!: arg_cong[where f = sum_list] map_cong)

lemma sized_available:
  assumes "sized d s new olds"
  shows "add64 (rs_available new) (sum64 (map rs_available olds)) = total_serving new olds"
proof -
  have "sum_list (map serving olds) \<le> sum_list (map rs_spec olds)"
    by (rule sum_list_mono) (simp add: serving_def)
  moreover have "serving new \<le> rs_spec new" by (simp add: serving_def)
  ultimately have "total_serving new olds < 2 ^ 64" using assms by (simp add: sized_def total_pods_def total_serving_def)
  moreover have "sum64 (map rs_available olds) = sum_list (map rs_available olds)"
    using calculation sized_serving[OF assms] by (intro sum64_small) (simp add: total_serving_def)
  ultimately show ?thesis using sized_serving[OF assms] by (simp add: total_serving_def add64_def)
qed

lemma scale_to_nothing [simp]: "scale_to \<lparr>pl_new = n, pl_old = []\<rparr> = id"
  by (auto simp: scale_to_def)

lemma rolling_pass_bounds:
  assumes "sized desired max_surge new olds"
    and "apply_plan (plan_rolling desired max_surge max_unavailable new olds) new olds = (new', olds')"
  shows "total_pods new' olds' \<le> max (total_pods new olds) (desired + max_surge) \<and>
    min (total_serving new olds) (desired - max_unavailable) \<le> total_serving new' olds'"
proof -
  have b: "desired + max_surge < 2 ^ 64" "total_pods new olds < 2 ^ 64" and d: "distinct (map rs_name olds)"
    using assms(1) by (auto simp: sized_def)
  note sv = sized_serving[OF assms(1)]
  from b show ?thesis
  proof (cases rule: plan_rolling_cases[where max_unavailable = max_unavailable])
    case (scale n)
    then have n: "new' = new\<lparr>rs_spec := n\<rparr>" "olds' = olds" using assms(2) by (auto simp: apply_plan_def)
    have "min (serving new + sum_list (map serving olds)) desired \<le> serving new' + sum_list (map serving olds)"
      using scale(3) sv n by (auto simp: serving_def)
    moreover have "total_pods new' olds' \<le> max (total_pods new olds) (desired + max_surge)"
      using scale(3) n by (auto simp: total_pods_def)
    ultimately show ?thesis using n(2) by (auto simp: total_serving_def)
  next
    case wait
    then have "new' = new" "olds' = olds" using assms(2) by (auto simp: apply_plan_def)
    then show ?thesis by simp
  next
    case (down m)
    let ?b = "total_serving new olds - (desired - max_unavailable)"
    let ?p = "plan_rolling desired max_surge max_unavailable new olds"
    have p: "pl_old ?p = old_plan olds (scaled_olds m ?b olds)" "pl_new ?p = rs_spec new"
      using down(1) sized_available[OF assms(1)] by simp_all
    have n: "new' = new" "olds' = map (scale_to ?p) olds" using assms(2) p(2) by (auto simp: apply_plan_def)
    let ?ordered = "sort_key rs_revision (filter (\<lambda>r. 0 < rs_spec r) olds)"
    have "sum_list (map rs_spec olds') = sum_list (map rs_spec (scaled_olds m ?b olds))"
      unfolding n by (rule sum_after[OF d p(1)]) simp
    also have "\<dots> \<le> sum_list (map rs_spec ?ordered)" by (rule lowers_sum[OF scaled_olds_lowers])
    also have "\<dots> = sum_list (map rs_spec olds)" unfolding sum_sort_key by (rule sum_list_map_filter) simp
    finally have t: "total_pods new' olds' \<le> total_pods new olds" by (simp add: total_pods_def n(1))
    have "sum_list (map serving olds) = sum_list (map serving ?ordered)"
      unfolding sum_sort_key by (rule sum_list_map_filter[symmetric]) (simp add: serving_def)
    also have "\<dots> \<le> sum_list (map serving (scaled_olds m ?b olds)) + ?b"
      unfolding scaled_olds_def using scale_down_serving clean_unhealthy_serving by metis
    also have "sum_list (map serving (scaled_olds m ?b olds)) = sum_list (map serving olds')"
      unfolding n by (rule sum_after[OF d p(1), symmetric]) (simp add: serving_def)
    finally have "total_serving new olds \<le> total_serving new' olds' + ?b" by (simp add: total_serving_def n(1))
    then show ?thesis using t by linarith
  qed
qed


lemmas rolling_pass_total = rolling_pass_bounds[THEN conjunct1]


definition ex_new :: rs_view where
  "ex_new = \<lparr>rs_name = ''b'', rs_revision = 2, rs_spec = 1, rs_available = 1\<rparr>"

definition ex_old :: "nat \<Rightarrow> rs_view" where
  "ex_old n = \<lparr>rs_name = ''a'', rs_revision = 1, rs_spec = n, rs_available = 2\<rparr>"


section \<open>Convergence\<close>

text \<open>A pass after which every pod the ReplicaSets were told to run comes up.\<close>

definition settle :: "rs_view \<Rightarrow> rs_view" where
  "settle r = r\<lparr>rs_available := rs_spec r\<rparr>"

definition roll_pass :: "nat \<Rightarrow> nat \<Rightarrow> nat \<Rightarrow> rs_view \<times> rs_view list \<Rightarrow> rs_view \<times> rs_view list" where
  "roll_pass desired max_surge max_unavailable =
     (\<lambda>(new, olds). case apply_plan (plan_rolling desired max_surge max_unavailable new olds) new olds of
        (new', olds') \<Rightarrow> (settle new', map settle olds'))"

definition rolled_out :: "nat \<Rightarrow> rs_view \<times> rs_view list \<Rightarrow> bool" where
  "rolled_out desired = (\<lambda>(new, olds). rs_spec new = desired \<and> list_all (\<lambda>r. rs_spec r = 0) olds)"

definition settled :: "nat \<Rightarrow> nat \<Rightarrow> rs_view \<times> rs_view list \<Rightarrow> bool" where
  "settled desired max_surge = (\<lambda>(new, olds). desired + max_surge < 2 ^ 64 \<and> total_pods new olds < 2 ^ 64 \<and>
     distinct (map rs_name olds) \<and> rs_available new = rs_spec new \<and> list_all (\<lambda>r. rs_available r = rs_spec r) olds)"

text \<open>What is still to do.\<close>

definition to_do :: "nat \<Rightarrow> rs_view \<times> rs_view list \<Rightarrow> nat" where
  "to_do desired = (\<lambda>(new, olds). (desired - rs_spec new) + sum_list (map rs_spec olds) + (if desired < rs_spec new then 1 else 0))"

lemma strategy_moves: "strategy deploy desired = (max_surge, max_unavailable, False) \<Longrightarrow> 0 < max_surge + max_unavailable"
  by (auto simp: strategy_def Let_def split: if_splits)

lemma settle_fields [simp]: "rs_spec (settle r) = rs_spec r" "rs_name (settle r) = rs_name r" "rs_available (settle r) = rs_spec r"
  by (simp_all add: settle_def)

lemma scale_to_name [simp]: "rs_name (scale_to p r) = rs_name r"
  by (simp add: scale_to_def split: option.splits)

lemma to_do_zero: "to_do desired st = 0 \<longleftrightarrow> rolled_out desired st"
  by (cases st) (auto simp: to_do_def rolled_out_def list_all_iff)

lemma settled_sized: "settled d s (new, olds) \<Longrightarrow> sized d s new olds"
  by (auto simp: settled_def sized_def list_all_iff)

lemma roll_pass_settled:
  assumes "settled desired max_surge st"
  shows "settled desired max_surge (roll_pass desired max_surge max_unavailable st)"
proof -
  obtain new olds where st: "st = (new, olds)" by (cases st)
  obtain new' olds' where a: "apply_plan (plan_rolling desired max_surge max_unavailable new olds) new olds = (new', olds')"
    by (cases "apply_plan (plan_rolling desired max_surge max_unavailable new olds) new olds")
  have "total_pods new' olds' \<le> max (total_pods new olds) (desired + max_surge)"
    using rolling_pass_total[OF settled_sized[OF assms[unfolded st]] a] .
  moreover have "map rs_name olds' = map rs_name olds" using a by (auto simp: apply_plan_def)
  ultimately show ?thesis using assms
    by (auto simp: st settled_def roll_pass_def a total_pods_def list_all_iff comp_def)
qed

lemma roll_pass_progress:
  assumes st: "settled desired max_surge (new, olds)" and s: "0 < max_surge + max_unavailable"
    and nd: "\<not> rolled_out desired (new, olds)"
  shows "to_do desired (roll_pass desired max_surge max_unavailable (new, olds)) < to_do desired (new, olds)"
proof -
  have b: "desired + max_surge < 2 ^ 64" "total_pods new olds < 2 ^ 64" and d: "distinct (map rs_name olds)"
    using st by (auto simp: settled_def)
  note sz = settled_sized[OF st]
  have sv: "total_serving new olds = total_pods new olds" "rs_available new = rs_spec new"
    using st by (auto simp: settled_def total_serving_def total_pods_def serving_def list_all_iff
        intro!: arg_cong[where f = sum_list] map_cong)
  have olds: "0 < sum_list (map rs_spec olds)"
    if "rs_spec new \<le> desired" "rs_spec new = desired \<or> desired + max_surge \<le> total_pods new olds"
  proof (cases "rs_spec new = desired")
    case True
    then have "sum_list (map rs_spec olds) \<noteq> 0" using nd by (auto simp: rolled_out_def list_all_iff)
    then show ?thesis by (simp only: neq0_conv)
  qed (use that in \<open>auto simp: total_pods_def\<close>)
  have budget: "0 < total_pods new olds - (desired - max_unavailable)"
    if "rs_spec new \<le> desired" "rs_spec new = desired \<or> desired + max_surge \<le> total_pods new olds"
    using that olds[OF that] s by (auto simp: total_pods_def)
  let ?pass = "roll_pass desired max_surge max_unavailable (new, olds)"
  from b show ?thesis
  proof (cases rule: plan_rolling_cases[where max_unavailable = max_unavailable])
    case (scale n)
    then have "?pass = (settle (new\<lparr>rs_spec := n\<rparr>), map settle olds)" by (simp add: roll_pass_def apply_plan_def)
    with scale show ?thesis by (auto simp: to_do_def comp_def)
  next
    case wait
    then show ?thesis using budget sv by simp
  next
    case (down m)
    let ?p = "plan_rolling desired max_surge max_unavailable new olds"
    let ?b = "total_serving new olds - (desired - max_unavailable)"
    have p: "pl_old ?p = old_plan olds (scaled_olds m ?b olds)" "pl_new ?p = rs_spec new"
      using down(1) sized_available[OF sz] by simp_all
    have pass: "?pass = (settle new, map settle (map (scale_to ?p) olds))"
      using p(2) by (simp add: roll_pass_def apply_plan_def)
    let ?cleaned = "clean_unhealthy m 0 (sort_key rs_revision (filter (\<lambda>r. 0 < rs_spec r) olds))"
    have so: "sum_list (map rs_spec (sort_key rs_revision (filter (\<lambda>r. 0 < rs_spec r) olds))) = sum_list (map rs_spec olds)"
      unfolding sum_sort_key by (rule sum_list_map_filter) simp
    have le: "sum_list (map rs_spec ?cleaned) \<le> sum_list (map rs_spec olds)"
      using lowers_sum[OF clean_unhealthy_lowers] so by metis
    have "sum_list (map rs_spec (map (scale_to ?p) olds)) = sum_list (map rs_spec (scale_down_healthy ?b ?cleaned))"
      using sum_after[OF d p(1), of rs_spec] unfolding scaled_olds_def by simp
    also have "\<dots> < sum_list (map rs_spec olds)"
    proof (cases "sum_list (map rs_spec ?cleaned) = 0")
      case True
      then show ?thesis using olds[OF down(2,3)] lowers_sum[OF scale_down_lowers, of ?b ?cleaned] by linarith
    next
      case False
      then have "0 < sum_list (map rs_spec ?cleaned)" by (simp only: neq0_conv)
      moreover have "0 < ?b" using budget[OF down(2,3)] sv by simp
      ultimately show ?thesis using scale_down_progress le by (meson less_le_trans)
    qed
    finally show ?thesis unfolding pass to_do_def by (simp add: comp_def del: sum_list_eq_0_iff)
  qed
qed

lemma roll_pass_done: "settled desired max_surge st \<Longrightarrow> rolled_out desired st \<Longrightarrow>
    rolled_out desired (roll_pass desired max_surge max_unavailable st)"
proof -
  assume s: "settled desired max_surge st" and r: "rolled_out desired st"
  obtain new olds where st: "st = (new, olds)" by (cases st)
  have b: "desired + max_surge < 2 ^ 64" "total_pods new olds < 2 ^ 64"
    using s by (auto simp: settled_def st)
  have z: "sum_list (map rs_spec olds) = 0" "filter (\<lambda>r. 0 < rs_spec r) olds = []" "rs_spec new = desired"
    using r by (auto simp: st rolled_out_def list_all_iff filter_empty_conv)
  from b show "rolled_out desired (roll_pass desired max_surge max_unavailable st)"
  proof (cases rule: plan_rolling_cases[where max_unavailable = max_unavailable])
    case (down m)
    then have "plan_rolling desired max_surge max_unavailable new olds = \<lparr>pl_new = rs_spec new, pl_old = []\<rparr>"
      by (simp add: scaled_olds_def z old_plan_def)
    then show ?thesis using r by (simp add: st roll_pass_def apply_plan_def rolled_out_def list_all_iff)
  next
    case wait
    then show ?thesis using r by (simp add: st roll_pass_def apply_plan_def rolled_out_def list_all_iff)
  qed (use z in simp)
qed



end
