(* ===== verification/Cron.thy ===== *)
theory Cron
  imports Prelude
begin

text \<open>
  \<^verbatim>\<open>pkg/apimachinery/src/cron.rs\<close>: cron schedules. An instant is its nanoseconds since the epoch,
  so UTC days, hours and minutes are quotients; which month, day of month and weekday a day
  has, and which dates exist, is \<^verbatim>\<open>chrono\<close>'s calendar, an argument of the definitions. A panic is
  \<open>None\<close>. Shown: the day-by-day search for the next start finds exactly the first minute
  that \<^verbatim>\<open>matches\<close> accepts, and the catch-up lists exactly the missed minutes.
\<close>

section \<open>Instants and the calendar\<close>

type_synonym instant = int

definition MINUTE :: int where
  "MINUTE = 60 * 10 ^ 9"

text \<open>
  The calendar by day number: month, day of month, weekday from Sunday as 0, the dates that
  exist, and the first and the last day that can be represented.
\<close>

record calendar =
  cal_month :: "int \<Rightarrow> nat"
  cal_day :: "int \<Rightarrow> nat"
  cal_weekday :: "int \<Rightarrow> nat"
  cal_exists :: "int \<Rightarrow> nat \<Rightarrow> nat \<Rightarrow> bool"
  cal_first :: int
  cal_last :: int

definition date_of :: "instant \<Rightarrow> int" where
  "date_of t = t div (1440 * MINUTE)"

definition hour_of :: "instant \<Rightarrow> nat" where
  "hour_of t = nat (t div (60 * MINUTE) mod 24)"

definition minute_of :: "instant \<Rightarrow> nat" where
  "minute_of t = nat (t div MINUTE mod 60)"

definition at_time :: "int \<Rightarrow> nat \<Rightarrow> nat \<Rightarrow> instant" where
  "at_time day h m = (day * 1440 + int h * 60 + int m) * MINUTE"

definition and_hms_opt :: "int \<Rightarrow> nat \<Rightarrow> nat \<Rightarrow> instant option" where
  "and_hms_opt day h m = (if h < 24 \<and> m < 60 then Some (at_time day h m) else None)"

text \<open>\<open>with_second(0)\<close> and \<open>with_nanosecond(0)\<close>.\<close>

definition truncate_minute :: "instant \<Rightarrow> instant" where
  "truncate_minute t = t - t mod MINUTE"

section \<open>Fields\<close>

definition is_any :: "string \<Rightarrow> bool" where
  "is_any field \<longleftrightarrow> field = ''*'' \<or> field = ''?''"

text \<open>
  The loop \<open>while v <= hi.min(max)\<close>, with \<open>v += step\<close> on \<^verbatim>\<open>u32\<close>. It ends for the bounds the
  fields have, which are far below \<open>2^31\<close> (no larger bound and no step beyond
  32 bits is asked for).
\<close>

function step_loop :: "nat \<Rightarrow> nat \<Rightarrow> nat \<Rightarrow> nat \<Rightarrow> nat \<Rightarrow> nat set \<Rightarrow> nat set" where
  "step_loop v hi step mn mx out =
     (if step = 0 \<or> 2 ^ 31 \<le> mx \<or> 2 ^ 32 \<le> step \<or> \<not> v \<le> min hi mx then out
      else step_loop ((v + step) mod 2 ^ 32) hi step mn mx (if mn \<le> v then insert v out else out))"
  by pat_completeness auto
termination
proof (relation "measure (\<lambda>(v, hi, step, mn, mx, out).
    if min hi mx < v then 0 else if step \<le> min hi mx then min hi mx + 1 - v else v + 1)", goal_cases)
  case (2 v hi step mn mx out)
  define l where l_def: "l = min hi mx"
  have l: "l < 2 ^ 31" "v \<le> l" "0 < step" "step < 2 ^ 32" using 2 by (auto simp: l_def)
  show ?case
  proof (cases "step \<le> l")
    case True
    then have "v + step < 2 ^ 31 + 2 ^ 31" using l by (meson add_strict_mono le_less_trans)
    then have "(v + step) mod 2 ^ 32 = v + step" by simp
    then show ?thesis unfolding in_measure prod.case l_def[symmetric] using True l by auto
  next
    case False
    have "(v + step) mod 2 ^ 32 < v \<or> l < (v + step) mod 2 ^ 32"
    proof (cases "v + step < 2 ^ 32")
      case True
      then show ?thesis using False l by simp
    next
      case c: False
      then have "(v + step) mod 2 ^ 32 = v + step - 2 ^ 32" using l by (simp add: le_mod_geq)
      then show ?thesis using c l by linarith
    qed
    then show ?thesis unfolding in_measure prod.case l_def[symmetric] using False l by auto
  qed
qed simp

declare step_loop.simps [simp del]

definition field_part :: "string \<Rightarrow> nat \<Rightarrow> nat \<Rightarrow> nat set \<Rightarrow> nat set" where
  "field_part part0 mn mx out =
     (let part = trim part0;
          (base, step) = (case split_once CHR ''/'' part of
             Some (b, s) \<Rightarrow> (b, case parse_uint 32 s of Some n \<Rightarrow> n | None \<Rightarrow> 0)
           | None \<Rightarrow> (part, 1))
      in if step = 0 then out
         else
           (case (if is_any base then Some (mn, mx)
                  else case split_once CHR ''-'' base of
                    Some (a, b) \<Rightarrow>
                      (case (parse_uint 32 (trim a), parse_uint 32 (trim b)) of
                         (Some x, Some y) \<Rightarrow> if x \<le> y then Some (x, y) else None
                       | _ \<Rightarrow> None)
                  | None \<Rightarrow> map_option (\<lambda>v. (v, v)) (parse_uint 32 (trim base))) of
              None \<Rightarrow> out
            | Some (lo, hi) \<Rightarrow> step_loop lo hi step mn mx out))"

definition parse_field :: "string \<Rightarrow> nat \<Rightarrow> nat \<Rightarrow> nat set" where
  "parse_field field mn mx = foldl (\<lambda>out part. field_part part mn mx out) {} (split_on CHR '','' field)"

section \<open>Matching\<close>

definition matches :: "calendar \<Rightarrow> string \<Rightarrow> instant \<Rightarrow> bool" where
  "matches cal schedule at =
     (case split_whitespace schedule of
        [f0, f1, f2, f3, f4] \<Rightarrow>
          (if minute_of at \<notin> parse_field f0 0 59 \<or> hour_of at \<notin> parse_field f1 0 23 \<or>
              cal_month cal (date_of at) \<notin> parse_field f3 1 12 then False
           else
             (let dow_set = parse_field f4 0 7;
                  sunday = cal_weekday cal (date_of at);
                  dow = (if sunday = 0 then 7 else sunday);
                  cron_dow = (if dow = 7 then 0 else dow);
                  dow_matches = (cron_dow \<in> dow_set \<or> cron_dow = 0 \<and> 7 \<in> dow_set);
                  dom_matches = (cal_day cal (date_of at) \<in> parse_field f2 1 31)
              in if \<not> is_any f2 \<and> \<not> is_any f4 then dom_matches \<or> dow_matches else dom_matches \<and> dow_matches))
      | _ \<Rightarrow> False)"

datatype invalid = WrongFieldCount nat | EmptyField string string | ImpossibleDate

definition SPECS :: "(string \<times> nat \<times> nat) list" where
  "SPECS = [(''minute'', 0, 59), (''hour'', 0, 23), (''day-of-month'', 1, 31), (''month'', 1, 12), (''day-of-week'', 0, 7)]"

definition validate :: "calendar \<Rightarrow> string \<Rightarrow> invalid + unit" where
  "validate cal schedule =
     (let fs = split_whitespace schedule
      in if length fs \<noteq> 5 then Inl (WrongFieldCount (length fs))
         else
           (case find (\<lambda>(f, name, lo, hi). parse_field f lo hi = {}) (zip fs SPECS) of
              Some (f, name, _, _) \<Rightarrow> Inl (EmptyField name f)
            | None \<Rightarrow>
                if \<not> is_any (fs ! 2) \<and>
                   \<not> (\<exists>year \<in> set [2024, 2025, 2026, 2027]. \<exists>m \<in> set [1..<13]. \<exists>d \<in> set [1..<32].
                        m \<in> parse_field (fs ! 3) 1 12 \<and> d \<in> parse_field (fs ! 2) 1 31 \<and> cal_exists cal year m d)
                then Inl ImpossibleDate else Inr ()))"

section \<open>The next start\<close>

fun first_time :: "int \<Rightarrow> instant \<Rightarrow> (nat \<times> nat) list \<Rightarrow> instant option option" where
  "first_time day after [] = Some None"
| "first_time day after ((h, m) # hms) =
     (case and_hms_opt day h m of
        None \<Rightarrow> None
      | Some at \<Rightarrow> if after < at then Some (Some at) else first_time day after hms)"

fun scan_days :: "calendar \<Rightarrow> (int \<Rightarrow> bool) \<Rightarrow> (nat \<times> nat) list \<Rightarrow> instant \<Rightarrow> nat list \<Rightarrow> (invalid + instant) option" where
  "scan_days cal day_ok hms after [] = Some (Inl ImpossibleDate)"
| "scan_days cal day_ok hms after (offset # offsets) =
     (let day = date_of after + int offset
      in if cal_last cal < day then Some (Inl ImpossibleDate)
         else if \<not> day_ok day then scan_days cal day_ok hms after offsets
         else
           (case first_time day after hms of
              None \<Rightarrow> None
            | Some (Some at) \<Rightarrow> Some (Inr at)
            | Some None \<Rightarrow> scan_days cal day_ok hms after offsets))"

definition day_matches :: "calendar \<Rightarrow> string list \<Rightarrow> int \<Rightarrow> bool" where
  "day_matches cal fs day =
     (let dow = parse_field (fs ! 4) 0 7;
          dom = parse_field (fs ! 2) 1 31;
          weekday = cal_weekday cal day;
          weekday_matches = (weekday \<in> dow \<or> weekday = 0 \<and> 7 \<in> dow)
      in cal_month cal day \<in> parse_field (fs ! 3) 1 12 \<and>
         (if \<not> is_any (fs ! 2) \<and> \<not> is_any (fs ! 4)
          then cal_day cal day \<in> dom \<or> weekday_matches else cal_day cal day \<in> dom \<and> weekday_matches))"

definition next_start :: "calendar \<Rightarrow> string \<Rightarrow> instant \<Rightarrow> (invalid + instant) option" where
  "next_start cal schedule after =
     (case validate cal schedule of
        Inl e \<Rightarrow> Some (Inl e)
      | Inr _ \<Rightarrow>
          (let fs = split_whitespace schedule;
               minutes = sorted_list_of_set (parse_field (fs ! 0) 0 59);
               hours = sorted_list_of_set (parse_field (fs ! 1) 0 23)
           in scan_days cal (day_matches cal fs) (List.product hours minutes) after [0..<366 * 8 + 1]))"

section \<open>Missed starts\<close>

datatype missed_error = TooMany nat | TooFarBehind

definition MAX_LOOKBACK_DAYS :: int where
  "MAX_LOOKBACK_DAYS = 7"

definition TOO_MANY_MISSED :: nat where
  "TOO_MANY_MISSED = 100"

function missed_loop :: "calendar \<Rightarrow> string \<Rightarrow> instant \<Rightarrow> instant \<Rightarrow> instant list \<Rightarrow> missed_error + instant list" where
  "missed_loop cal schedule fin t out =
     (if t \<le> fin then
        (if matches cal schedule t then
           (if TOO_MANY_MISSED < length (out @ [t]) then Inl (TooMany (length (out @ [t])))
            else missed_loop cal schedule fin (t + MINUTE) (out @ [t]))
         else missed_loop cal schedule fin (t + MINUTE) out)
      else Inr out)"
  by pat_completeness auto
termination
  by (relation "measure (\<lambda>(cal, schedule, fin, t, out). nat (fin + 1 - t))") (auto simp: MINUTE_def)

declare missed_loop.simps [simp del]

definition missed_starts :: "calendar \<Rightarrow> string \<Rightarrow> instant \<Rightarrow> instant \<Rightarrow> missed_error + instant list" where
  "missed_starts cal schedule since now =
     (if now < since then Inr []
      else if MAX_LOOKBACK_DAYS * 1440 * MINUTE < now - since then Inl TooFarBehind
      else missed_loop cal schedule (truncate_minute now) (truncate_minute since + MINUTE) [])"

text \<open>
  \<open>Duration::seconds\<close> panics outside the range of its milliseconds, and the subtraction
  where the result is not a representable date.
\<close>

definition sub_seconds :: "calendar \<Rightarrow> instant \<Rightarrow> int \<Rightarrow> instant option" where
  "sub_seconds cal t secs =
     (if \<bar>secs\<bar> > (2 ^ 63 - 1) div 1000 then None
      else
        (let r = t - secs * 10 ^ 9
         in if date_of r < cal_first cal \<or> cal_last cal < date_of r then None else Some r))"

definition start_to_run ::
    "calendar \<Rightarrow> string \<Rightarrow> instant option \<Rightarrow> instant \<Rightarrow> instant \<Rightarrow> int option \<Rightarrow> (missed_error + instant option) option" where
  "start_to_run cal schedule last_schedule created now deadline =
     (let since0 = (case last_schedule of Some t \<Rightarrow> t | None \<Rightarrow> created)
      in case (case deadline of
                 None \<Rightarrow> Some since0
               | Some d \<Rightarrow> map_option (\<lambda>earliest. if since0 < earliest then earliest else since0) (sub_seconds cal now d)) of
           None \<Rightarrow> None
         | Some since \<Rightarrow>
             Some (case missed_starts cal schedule since now of
                     Inl e \<Rightarrow> Inl e
                   | Inr starts \<Rightarrow> Inr (if starts = [] then None else Some (last starts))))"


section \<open>Fields stay in their range\<close>

lemma step_loop_range: "out \<subseteq> {mn..mx} \<Longrightarrow> step_loop v hi step mn mx out \<subseteq> {mn..mx}"
proof (induction v hi step mn mx out rule: step_loop.induct)
  case (1 v hi step mn mx out)
  show ?case
  proof (cases "step = 0 \<or> 2 ^ 31 \<le> mx \<or> 2 ^ 32 \<le> step \<or> \<not> v \<le> min hi mx")
    case True
    then show ?thesis using 1(2) by (subst step_loop.simps) simp
  next
    case False
    then have "(if mn \<le> v then insert v out else out) \<subseteq> {mn..mx}" using 1(2) by auto
    with 1(1)[OF False] False show ?thesis by (subst step_loop.simps) simp
  qed
qed

lemma field_part_range: "out \<subseteq> {mn..mx} \<Longrightarrow> field_part part mn mx out \<subseteq> {mn..mx}"
  by (auto simp: field_part_def Let_def split: prod.splits option.splits if_splits dest!: step_loop_range[THEN subsetD, rotated])

lemma parse_field_range: "parse_field field mn mx \<subseteq> {mn..mx}"
proof -
  have "out \<subseteq> {mn..mx} \<Longrightarrow> foldl (\<lambda>out part. field_part part mn mx out) out parts \<subseteq> {mn..mx}" for out parts
    by (induction parts arbitrary: out) (simp_all add: field_part_range)
  then show ?thesis by (simp add: parse_field_def)
qed

lemma parse_field_finite: "finite (parse_field field mn mx)"
  by (rule finite_subset[OF parse_field_range]) simp

section \<open>Days, hours and minutes\<close>

lemma minute_pos: "0 < MINUTE"
  by (simp add: MINUTE_def)

lemma mult_minute_div: "(x * MINUTE) div (k * MINUTE) = x div k"
  using minute_pos by simp

lemma at_time_parts:
  assumes "h < 24" "m < 60"
  shows "date_of (at_time d h m) = d" "hour_of (at_time d h m) = h" "minute_of (at_time d h m) = m"
proof -
  let ?x = "d * 1440 + int h * 60 + int m"
  have a: "0 \<le> int h * 60 + int m" "int h * 60 + int m < 1440" using assms by linarith+
  have "?x div 1440 = d" using a by (simp add: add.assoc div_pos_pos_trivial)
  then show "date_of (at_time d h m) = d" unfolding date_of_def at_time_def mult_minute_div .
  have x: "?x = int m + (d * 24 + int h) * 60" by simp
  have "?x div 60 = d * 24 + int h" using assms(2) unfolding x by (subst div_mult_self1) simp_all
  then have "?x div 60 mod 24 = int h" using assms(1) by simp
  then show "hour_of (at_time d h m) = h" unfolding hour_of_def at_time_def mult_minute_div by simp
  have "?x mod 60 = int m" using assms(2) unfolding x by (subst mod_mult_self1) simp
  moreover have "?x * MINUTE div MINUTE = ?x" using minute_pos by simp
  ultimately show "minute_of (at_time d h m) = m" unfolding minute_of_def at_time_def by simp
qed

lemma time_bounds: "hour_of t < 24" "minute_of t < 60"
  by (simp_all add: hour_of_def minute_of_def nat_less_iff)

lemma whole_minute:
  assumes "t mod MINUTE = 0"
  shows "t = at_time (date_of t) (hour_of t) (minute_of t)"
proof -
  obtain x where t: "t = x * MINUTE" using assms by (metis div_mult_mod_eq add.right_neutral)
  have "x * MINUTE div MINUTE = x" using minute_pos by simp
  then have "date_of t = x div 1440" "int (hour_of t) = x div 60 mod 24" "int (minute_of t) = x mod 60"
    unfolding t date_of_def hour_of_def minute_of_def mult_minute_div by simp_all
  moreover have "x = x div 1440 * 1440 + (x div 60 mod 24) * 60 + x mod 60"
  proof -
    have "x div 1440 = x div 60 div 24" using zdiv_zmult2_eq[of 24 x 60] by simp
    then show ?thesis using div_mult_mod_eq[of "x div 60" 24] div_mult_mod_eq[of x 60] by linarith
  qed
  ultimately show ?thesis unfolding at_time_def t by simp
qed

lemma at_time_whole: "at_time d h m mod MINUTE = 0"
  by (simp add: at_time_def)

lemma date_mono: "t \<le> u \<Longrightarrow> date_of t \<le> date_of u"
  unfolding date_of_def using minute_pos by (intro zdiv_mono1) simp_all

lemma at_time_less:
  assumes "h < h' \<or> h = h' \<and> m < m'" "m < 60"
  shows "at_time d h m < at_time d h' m'"
proof -
  have "int h * 60 + int m < int h' * 60 + int m'" using assms by auto
  then show ?thesis using minute_pos by (simp add: at_time_def)
qed

lemma times_sorted:
  assumes "sorted_wrt (<) hs" "sorted_wrt (<) ms" "\<forall>m \<in> set ms. m < 60"
  shows "sorted_wrt (<) (map (\<lambda>(h, m). at_time d h m) (List.product hs ms))"
  using assms(1)
proof (induction hs)
  case (Cons h hs)
  have "sorted_wrt (<) (map (\<lambda>m. at_time d h m) ms)"
    using assms(2,3) by (auto simp: sorted_wrt_map intro!: at_time_less elim!: sorted_wrt_mono_rel[rotated])
  then show ?case using Cons assms(3) by (auto simp: sorted_wrt_append comp_def intro!: at_time_less)
qed simp

section \<open>The search finds the first match\<close>

definition calendar_ok :: "calendar \<Rightarrow> bool" where
  "calendar_ok cal \<longleftrightarrow> (\<forall>d. cal_weekday cal d < 7)"

lemma matches_iff:
  assumes "calendar_ok cal" "length (split_whitespace schedule) = 5"
  shows "matches cal schedule at \<longleftrightarrow>
    minute_of at \<in> parse_field (split_whitespace schedule ! 0) 0 59 \<and>
    hour_of at \<in> parse_field (split_whitespace schedule ! 1) 0 23 \<and>
    day_matches cal (split_whitespace schedule) (date_of at)"
proof -
  obtain f0 f1 f2 f3 f4 where f: "split_whitespace schedule = [f0, f1, f2, f3, f4]"
    using assms(2) by (auto simp: numeral_eq_Suc length_Suc_conv)
  have "cal_weekday cal (date_of at) < 7" using assms(1) by (simp add: calendar_ok_def)
  then show ?thesis unfolding matches_def f day_matches_def by (auto simp: Let_def)
qed

lemma first_time_find:
  "\<forall>(h, m) \<in> set hms. h < 24 \<and> m < 60 \<Longrightarrow>
     first_time day after hms = Some (find (\<lambda>t. after < t) (map (\<lambda>(h, m). at_time day h m) hms))"
  by (induction hms) (auto simp: and_hms_opt_def)

lemma find_least: "sorted_wrt (<) xs \<Longrightarrow> find P xs = Some t \<Longrightarrow> t \<in> set xs \<and> P t \<and> (\<forall>u \<in> set xs. P u \<longrightarrow> t \<le> (u :: int))"
  by (induction xs) (auto split: if_splits)

lemma find_none: "find P xs = None \<longleftrightarrow> (\<forall>u \<in> set xs. \<not> P u)"
  by (auto simp: find_None_iff)

lemma scan_days_result:
  assumes "\<forall>(h, m) \<in> set hms. h < 24 \<and> m < 60"
    and "\<And>d. sorted_wrt (<) (map (\<lambda>(h, m). at_time d h m) hms)"
  shows "case scan_days cal day_ok hms after [k..<n] of
     None \<Rightarrow> False
   | Some (Inr t) \<Rightarrow> \<exists>j h m. t = at_time (date_of after + int j) h m \<and> (h, m) \<in> set hms \<and> j < n \<and>
       day_ok (date_of after + int j) \<and> after < t \<and> (\<forall>i h' m'. k \<le> i \<and> i < n \<and> day_ok (date_of after + int i) \<and> (h', m') \<in> set hms \<and>
          after < at_time (date_of after + int i) h' m' \<longrightarrow> t \<le> at_time (date_of after + int i) h' m')
   | Some (Inl e) \<Rightarrow> e = ImpossibleDate \<and>
       (\<forall>i h' m'. k \<le> i \<and> i < n \<and> date_of after + int i \<le> cal_last cal \<and> day_ok (date_of after + int i) \<and>
          (h', m') \<in> set hms \<longrightarrow> at_time (date_of after + int i) h' m' \<le> after)"
proof (induction "n - k" arbitrary: k)
  case 0
  then show ?case by simp
next
  case (Suc l)
  then have c: "[k..<n] = k # [Suc k..<n]" and ih: "l = n - Suc k" by (auto simp: upt_conv_Cons)
  let ?d = "date_of after + int k"
  let ?find = "find (\<lambda>t. after < t) (map (\<lambda>(h, m). at_time ?d h m) hms)"
  have le: "k \<le> i \<longleftrightarrow> i = k \<or> Suc k \<le> i" for i by auto
  show ?case
  proof (cases "cal_last cal < ?d")
    case True
    then show ?thesis unfolding c by auto
  next
    case inrange: False
    show ?thesis
    proof (cases "day_ok ?d \<and> ?find \<noteq> None")
      case True
      then obtain t where t: "?find = Some t" by auto
      note ft = find_least[OF assms(2) t]
      have "t \<le> at_time (date_of after + int i) h' m'"
        if "k \<le> i" "(h', m') \<in> set hms" "after < at_time (date_of after + int i) h' m'" for i h' m'
      proof (cases "i = k")
        case True
        then show ?thesis using ft that by force
      next
        case False
        obtain h m where hm: "t = at_time ?d h m" "(h, m) \<in> set hms" using ft by auto
        have lim: "h < 24" "m < 60" "h' < 24" "m' < 60" using assms(1) hm that by auto
        have "date_of t < date_of (at_time (date_of after + int i) h' m')"
          using at_time_parts(1) lim hm(1) that(1) False by simp
        then show ?thesis using date_mono by (meson linorder_not_le order_less_imp_le)
      qed
      note least = this
      obtain h m where hm: "t = at_time ?d h m" "(h, m) \<in> set hms" "after < t" using ft by auto
      have sd: "scan_days cal day_ok hms after [k..<n] = Some (Inr t)" unfolding c
        using inrange True t first_time_find[OF assms(1), of ?d after] by (simp add: Let_def)
      have "k < n" using Suc(2) by simp
      with least hm True show ?thesis unfolding sd option.case sum.case by blast
    next
      case False
      then have s: "scan_days cal day_ok hms after [k..<n] = scan_days cal day_ok hms after [Suc k..<n]"
        unfolding c using inrange first_time_find[OF assms(1), of ?d after] by (auto simp: Let_def)
      have k: "at_time ?d h' m' \<le> after" if "day_ok ?d" "(h', m') \<in> set hms" for h' m'
        using False that by (auto simp: find_none)
      show ?thesis using Suc(1)[OF ih] k unfolding s le
        by (auto split: option.splits sum.splits) force+
    qed
  qed
qed


lemma validate_fields: "validate cal schedule = Inr () \<Longrightarrow> length (split_whitespace schedule) = 5"
  by (auto simp: validate_def Let_def split: if_splits)

lemma sorted_fields: "sorted_wrt (<) (sorted_list_of_set (parse_field f lo hi))" "set (sorted_list_of_set (parse_field f lo hi)) = parse_field f lo hi"
  using parse_field_finite by (simp_all add: strict_sorted_iff)

lemma next_start_scan:
  fixes schedule
  defines "fs \<equiv> split_whitespace schedule"
  assumes "calendar_ok cal" "validate cal schedule = Inr ()"
  shows "case next_start cal schedule after of
     None \<Rightarrow> False
   | Some (Inr t) \<Rightarrow> after < t \<and> t mod MINUTE = 0 \<and> matches cal schedule t \<and>
       (\<forall>u. after < u \<and> u < t \<and> u mod MINUTE = 0 \<longrightarrow> \<not> matches cal schedule u)
   | Some (Inl e) \<Rightarrow> e = ImpossibleDate \<and>
       (\<forall>u. after < u \<and> u mod MINUTE = 0 \<and> date_of u \<le> date_of after + 366 * 8 \<and> date_of u \<le> cal_last cal \<longrightarrow>
          \<not> matches cal schedule u)"
proof -
  note five = validate_fields[OF assms(3)]
  let ?hms = "List.product (sorted_list_of_set (parse_field (fs ! 1) 0 23)) (sorted_list_of_set (parse_field (fs ! 0) 0 59))"
  have hms: "(h, m) \<in> set ?hms \<longleftrightarrow> h \<in> parse_field (fs ! 1) 0 23 \<and> m \<in> parse_field (fs ! 0) 0 59" for h m
    by (auto simp: sorted_fields)
  have lim: "h < 24 \<and> m < 60" if "(h, m) \<in> set ?hms" for h m
    using that hms parse_field_range[of "fs ! 1" 0 23] parse_field_range[of "fs ! 0" 0 59] by fastforce
  then have lim': "\<forall>(h, m) \<in> set ?hms. h < 24 \<and> m < 60" by auto
  have "\<forall>m \<in> set (sorted_list_of_set (parse_field (fs ! 0) 0 59)). m < 60"
    using parse_field_range[of "fs ! 0" 0 59] by (fastforce simp: sorted_fields)
  then have srt: "sorted_wrt (<) (map (\<lambda>(h, m). at_time d h m) ?hms)" for d
    by (intro times_sorted sorted_fields(1))
  have ns: "next_start cal schedule after = scan_days cal (day_matches cal fs) ?hms after [0..<366 * 8 + 1]"
    by (simp add: next_start_def assms(3) Let_def fs_def)
  have hit: "matches cal schedule u \<longleftrightarrow> (hour_of u, minute_of u) \<in> set ?hms \<and> day_matches cal fs (date_of u)" for u
    using matches_iff[OF assms(2) five] hms by (auto simp: fs_def)
  have later: "\<exists>i h m. u = at_time (date_of after + int i) h m \<and> (h, m) \<in> set ?hms \<and> day_matches cal fs (date_of after + int i) \<and>
      int i = date_of u - date_of after" if u: "after < u" "u mod MINUTE = 0" "matches cal schedule u" for u
  proof -
    have "date_of after \<le> date_of u" using u(1) by (simp add: date_mono)
    then have i: "int (nat (date_of u - date_of after)) = date_of u - date_of after" by simp
    then have "u = at_time (date_of after + int (nat (date_of u - date_of after))) (hour_of u) (minute_of u)"
      using whole_minute[OF u(2)] by simp
    moreover have "(hour_of u, minute_of u) \<in> set ?hms" "day_matches cal fs (date_of after + int (nat (date_of u - date_of after)))"
      using u(3) hit i by simp_all
    ultimately show ?thesis using i by blast
  qed
  note r = scan_days_result[OF lim' srt, where cal = cal and day_ok = "day_matches cal fs" and after = after and k = 0 and n = "366 * 8 + 1"]
  show ?thesis
  proof (cases "next_start cal schedule after")
    case None
    then show ?thesis using r unfolding ns by simp
  next
    case (Some res)
    show ?thesis
    proof (cases res)
      case (Inl e)
      with r Some have e: "e = ImpossibleDate"
        and none: "\<And>i h m. i < 366 * 8 + 1 \<Longrightarrow> date_of after + int i \<le> cal_last cal \<Longrightarrow>
          day_matches cal fs (date_of after + int i) \<Longrightarrow> (h, m) \<in> set ?hms \<Longrightarrow> at_time (date_of after + int i) h m \<le> after"
        unfolding ns by auto
      have "\<not> matches cal schedule u"
        if u: "after < u" "u mod MINUTE = 0" "date_of u \<le> date_of after + 366 * 8" "date_of u \<le> cal_last cal" for u
      proof
        assume "matches cal schedule u"
        from later[OF u(1,2) this] obtain i h m where i: "u = at_time (date_of after + int i) h m" "(h, m) \<in> set ?hms"
          "day_matches cal fs (date_of after + int i)" "int i = date_of u - date_of after" by blast
        have "i < 366 * 8 + 1" "date_of after + int i \<le> cal_last cal" using i(4) u by linarith+
        from none[OF this i(3,2)] i(1) u(1) show False by simp
      qed
      then show ?thesis using Some Inl e by simp
    next
      case (Inr t)
      with r Some obtain j h m where t: "t = at_time (date_of after + int j) h m" "(h, m) \<in> set ?hms" "j < 366 * 8 + 1"
          "day_matches cal fs (date_of after + int j)" "after < t"
        and least: "\<And>i h m. i < 366 * 8 + 1 \<Longrightarrow> day_matches cal fs (date_of after + int i) \<Longrightarrow> (h, m) \<in> set ?hms \<Longrightarrow>
          after < at_time (date_of after + int i) h m \<Longrightarrow> t \<le> at_time (date_of after + int i) h m"
        unfolding ns by auto
      have parts: "date_of t = date_of after + int j" "hour_of t = h" "minute_of t = m"
        using at_time_parts lim[OF t(2)] t(1) by auto
      have "\<not> matches cal schedule u" if u: "after < u" "u < t" "u mod MINUTE = 0" for u
      proof
        assume "matches cal schedule u"
        from later[OF u(1,3) this] obtain i h m where i: "u = at_time (date_of after + int i) h m" "(h, m) \<in> set ?hms"
          "day_matches cal fs (date_of after + int i)" "int i = date_of u - date_of after" by blast
        have "date_of u \<le> date_of t" using u(2) by (simp add: date_mono)
        then have "i < 366 * 8 + 1" using i(4) parts(1) t(3) by linarith
        from least[OF this i(3,2)] i(1) u show False by simp
      qed
      then show ?thesis using Some Inr t(4,5) t(2) hit parts at_time_whole[of "date_of after + int j" h m] t(1) by simp
    qed
  qed
qed

text \<open>
  C10. The next start is the first one. The search skips whole days and tries only the hours
  and minutes of the schedule; on a schedule that passes validation it never panics, what it
  returns is a whole minute after the given instant that the schedule matches, and no whole
  minute in between matches. When it gives up, nothing matches for the next eight years.
\<close>

theorem next_start_is_first_match:
  assumes "calendar_ok cal" "validate cal schedule = Inr ()"
  shows "case next_start cal schedule after of
     None \<Rightarrow> False
   | Some (Inr t) \<Rightarrow> after < t \<and> t mod MINUTE = 0 \<and> matches cal schedule t \<and>
       (\<forall>u. after < u \<and> u < t \<and> u mod MINUTE = 0 \<longrightarrow> \<not> matches cal schedule u)
   | Some (Inl e) \<Rightarrow> e = ImpossibleDate \<and>
       (\<forall>u. after < u \<and> u mod MINUTE = 0 \<and> date_of u \<le> date_of after + 366 * 8 \<and> date_of u \<le> cal_last cal \<longrightarrow>
          \<not> matches cal schedule u)"
  by (rule next_start_scan[OF assms])


lemma step_loop_keeps: "out \<subseteq> step_loop v hi step mn mx out"
proof (induction v hi step mn mx out rule: step_loop.induct)
  case (1 v hi step mn mx out)
  show ?case
  proof (cases "step = 0 \<or> 2 ^ 31 \<le> mx \<or> 2 ^ 32 \<le> step \<or> \<not> v \<le> min hi mx")
    case True
    then show ?thesis by (subst step_loop.simps) simp
  next
    case False
    then show ?thesis using 1[OF False] by (subst step_loop.simps) (auto split: if_splits)
  qed
qed

lemma star_first: "mn \<le> mx \<Longrightarrow> mx < 2 ^ 31 \<Longrightarrow> mn \<in> parse_field ''*'' mn mx"
proof -
  assume "mn \<le> mx" "mx < 2 ^ 31"
  then have "step_loop mn mx 1 mn mx {} = step_loop ((mn + 1) mod 2 ^ 32) mx 1 mn mx {mn}" by (subst step_loop.simps) simp
  then have "mn \<in> step_loop mn mx 1 mn mx {}" using step_loop_keeps[of "{mn}"] by auto
  then show ?thesis by (simp add: parse_field_def field_part_def trim_def is_space_def is_any_def)
qed

definition ex_calendar :: calendar where
  "ex_calendar = \<lparr>cal_month = \<lambda>d. 1, cal_day = \<lambda>d. 1, cal_weekday = \<lambda>d. 0, cal_exists = \<lambda>y m d. True,
     cal_first = -1000000, cal_last = 1000000\<rparr>"

lemma ex_field: "parse_field ''5'' 0 59 = {5}"
proof -
  have "step_loop 5 5 1 0 59 {} = {5}" by (simp add: step_loop.simps)
  then show ?thesis
    by (simp add: parse_field_def field_part_def trim_def is_space_def is_any_def parse_uint_def is_digit_def digits_val_def digit_val_def)
qed

lemma ex_valid: "split_whitespace ''5 * * * *'' = [''5'', ''*'', ''*'', ''*'', ''*'']" "validate ex_calendar ''5 * * * *'' = Inr ()"
proof -
  show f: "split_whitespace ''5 * * * *'' = [''5'', ''*'', ''*'', ''*'', ''*'']"
    by (simp add: split_whitespace_def is_space_def)
  have "parse_field ''*'' mn mx \<noteq> {}" if "mn \<le> mx" "mx < 2 ^ 31" for mn mx using star_first[OF that] by auto
  then show "validate ex_calendar ''5 * * * *'' = Inr ()"
    unfolding validate_def f by (simp add: SPECS_def ex_field is_any_def)
qed

theorem next_start_is_first_match_witness:
  "\<exists>t. next_start ex_calendar ''5 * * * *'' 0 = Some (Inr t) \<and> 0 < t \<and> t \<le> 5 * MINUTE \<and> matches ex_calendar ''5 * * * *'' t"
proof -
  have ok: "calendar_ok ex_calendar" by (simp add: calendar_ok_def ex_calendar_def)
  note th = next_start_is_first_match[OF ok ex_valid(2), of 0]
  have p: "date_of (5 * MINUTE) = 0" "hour_of (5 * MINUTE) = 0" "minute_of (5 * MINUTE) = 5"
    by (simp_all add: date_of_def hour_of_def minute_of_def MINUTE_def)
  have m: "matches ex_calendar ''5 * * * *'' (5 * MINUTE)"
    unfolding matches_iff[OF ok validate_fields[OF ex_valid(2)]] ex_valid(1) p
    by (simp add: ex_field star_first day_matches_def is_any_def ex_calendar_def)
  have u: "(0 :: int) < 5 * MINUTE" "5 * MINUTE mod MINUTE = 0" using minute_pos by simp_all
  show ?thesis
  proof (cases "next_start ex_calendar ''5 * * * *'' 0")
    case (Some r)
    show ?thesis
    proof (cases r)
      case (Inl e)
      with th Some m u p show ?thesis by (fastforce simp: ex_calendar_def date_of_def)
    next
      case (Inr t)
      then have "\<not> 5 * MINUTE < t" using th Some m u by auto
      with Inr Some th show ?thesis by auto
    qed
  qed (use th in simp)
qed

section \<open>Missed starts\<close>

definition starts_in :: "calendar \<Rightarrow> string \<Rightarrow> instant \<Rightarrow> instant \<Rightarrow> instant set" where
  "starts_in cal schedule lo hi = {u. lo \<le> u \<and> u \<le> hi \<and> u mod MINUTE = 0 \<and> matches cal schedule u}"

lemma starts_in_step:
  assumes "t mod MINUTE = 0" "t \<le> fin"
  shows "starts_in cal schedule t fin =
    (if matches cal schedule t then insert t (starts_in cal schedule (t + MINUTE) fin) else starts_in cal schedule (t + MINUTE) fin)"
proof -
  have "t + MINUTE \<le> u" if u: "t < u" "u mod MINUTE = 0" for u
  proof -
    have "MINUTE dvd u - t" using u assms(1) by (simp add: dvd_diff mod_0_imp_dvd)
    then show ?thesis using u(1) zdvd_imp_le[of MINUTE "u - t"] by simp
  qed
  then have "t \<le> u \<longleftrightarrow> u = t \<or> t + MINUTE \<le> u" if "u mod MINUTE = 0" for u
    using that minute_pos by (cases "t < u") auto
  then have "u \<in> starts_in cal schedule t fin \<longleftrightarrow> u = t \<and> matches cal schedule t \<or> u \<in> starts_in cal schedule (t + MINUTE) fin" for u
    using assms by (cases "u mod MINUTE = 0") (auto simp: starts_in_def)
  then show ?thesis by auto
qed

lemma missed_loop_result:
  "t mod MINUTE = 0 \<Longrightarrow> length out \<le> TOO_MANY_MISSED \<Longrightarrow>
   (case missed_loop cal schedule fin t out of
      Inr r \<Rightarrow> \<exists>ms. r = out @ ms \<and> sorted_wrt (<) ms \<and> set ms = starts_in cal schedule t fin \<and> length r \<le> TOO_MANY_MISSED
    | Inl e \<Rightarrow> \<exists>ms. e = TooMany 101 \<and> length (out @ ms) = 101 \<and> distinct ms \<and> set ms \<subseteq> starts_in cal schedule t fin)"
proof (induction cal schedule fin t out rule: missed_loop.induct)
  case (1 cal schedule fin t out)
  have t': "(t + MINUTE) mod MINUTE = 0" using 1(3) by simp
  have above: "t \<notin> starts_in cal schedule (t + MINUTE) fin" "\<forall>u \<in> starts_in cal schedule (t + MINUTE) fin. t < u"
    using minute_pos by (auto simp: starts_in_def)
  consider (over) "\<not> t \<le> fin" | (skip) "t \<le> fin" "\<not> matches cal schedule t"
    | (full) "t \<le> fin" "matches cal schedule t" "TOO_MANY_MISSED < length (out @ [t])"
    | (take) "t \<le> fin" "matches cal schedule t" "\<not> TOO_MANY_MISSED < length (out @ [t])" by blast
  then show ?case
  proof cases
    case over
    then show ?thesis using 1(4) by (subst missed_loop.simps) (simp add: starts_in_def)
  next
    case skip
    then have e: "missed_loop cal schedule fin t out = missed_loop cal schedule fin (t + MINUTE) out" by (subst missed_loop.simps) simp
    have s: "starts_in cal schedule t fin = starts_in cal schedule (t + MINUTE) fin"
      using starts_in_step[OF 1(3) skip(1), of cal schedule] skip(2) by simp
    show ?thesis unfolding e s by (rule 1(2)[OF skip t' 1(4)])
  next
    case full
    then have "missed_loop cal schedule fin t out = Inl (TooMany 101)" "length out = 100"
      using 1(4) by (subst missed_loop.simps, auto simp: TOO_MANY_MISSED_def)
    with full starts_in_step[OF 1(3) full(1)] show ?thesis by (auto intro!: exI[of _ "[t]"])
  next
    case take
    then have e: "missed_loop cal schedule fin t out = missed_loop cal schedule fin (t + MINUTE) (out @ [t])"
      by (subst missed_loop.simps) simp
    note s = starts_in_step[OF 1(3) take(1), of cal schedule]
    have l: "length (out @ [t]) \<le> TOO_MANY_MISSED" using take(3) by simp
    note ih = 1(1)[OF take t' l]
    show ?thesis
    proof (cases "missed_loop cal schedule fin (t + MINUTE) (out @ [t])")
      case (Inl x)
      then obtain ms where "x = TooMany 101" "length (out @ [t] @ ms) = 101" "distinct ms"
        "set ms \<subseteq> starts_in cal schedule (t + MINUTE) fin" using ih by auto
      then show ?thesis using e Inl s take(2) above by (auto intro!: exI[of _ "t # ms"])
    next
      case (Inr r)
      then obtain ms where "r = out @ [t] @ ms" "sorted_wrt (<) ms" "set ms = starts_in cal schedule (t + MINUTE) fin"
        "length r \<le> TOO_MANY_MISSED" using ih by auto
      then show ?thesis using e Inr s take(2) above by (auto intro!: exI[of _ "t # ms"])
    qed
  qed
qed

lemma truncate_whole: "truncate_minute t mod MINUTE = 0"
  unfolding truncate_minute_def by (simp add: minus_mod_eq_mult_div)

lemma truncate_between:
  assumes "u mod MINUTE = 0"
  shows "truncate_minute t + MINUTE \<le> u \<longleftrightarrow> t < u" "u \<le> truncate_minute t \<longleftrightarrow> u \<le> t"
proof -
  have m: "0 \<le> t mod MINUTE" "t mod MINUTE < MINUTE" using minute_pos by simp_all
  have d: "MINUTE dvd u - truncate_minute t" using assms truncate_whole[of t] by (simp add: dvd_diff mod_0_imp_dvd)
  have "truncate_minute t + MINUTE \<le> u" if "truncate_minute t < u"
    using zdvd_imp_le[OF d] that by simp
  then show "truncate_minute t + MINUTE \<le> u \<longleftrightarrow> t < u" "u \<le> truncate_minute t \<longleftrightarrow> u \<le> t"
    using m unfolding truncate_minute_def by force+
qed

text \<open>
  C25. The catch-up is exact. Within the look-back window the missed starts are precisely the
  whole minutes strictly after \<open>since\<close> and at or before \<open>now\<close> that the schedule matches,
  oldest first, each once, at most 100 of them; it refuses as too many only when there are
  more than 100, and as too far behind only when the window is longer than seven days.
\<close>

theorem missed_starts_exact:
  "case missed_starts cal schedule since now of
     Inr out \<Rightarrow> sorted_wrt (<) out \<and> length out \<le> 100 \<and>
       set out = {u. since < u \<and> u \<le> now \<and> u mod MINUTE = 0 \<and> matches cal schedule u}
   | Inl (TooMany n) \<Rightarrow> n = 101 \<and>
       (\<exists>ms. distinct ms \<and> length ms = 101 \<and> set ms \<subseteq> {u. since < u \<and> u \<le> now \<and> u mod MINUTE = 0 \<and> matches cal schedule u})
   | Inl TooFarBehind \<Rightarrow> 7 * 1440 * MINUTE < now - since"
proof -
  let ?lo = "truncate_minute since + MINUTE" and ?hi = "truncate_minute now"
  have whole: "?lo mod MINUTE = 0" using truncate_whole[of since] by simp
  have s: "starts_in cal schedule ?lo ?hi = {u. since < u \<and> u \<le> now \<and> u mod MINUTE = 0 \<and> matches cal schedule u}"
    by (auto simp: starts_in_def truncate_between)
  note r = missed_loop_result[OF whole, of "[]" cal schedule ?hi]
  consider "now < since" | "\<not> now < since" "7 * 1440 * MINUTE < now - since"
    | (run) "\<not> now < since" "\<not> 7 * 1440 * MINUTE < now - since" by blast
  then show ?thesis
  proof cases
    case run
    then have e: "missed_starts cal schedule since now = missed_loop cal schedule ?hi ?lo []"
      by (simp add: missed_starts_def MAX_LOOKBACK_DAYS_def)
    show ?thesis unfolding e s[symmetric]
      using r by (cases "missed_loop cal schedule ?hi ?lo []") (auto simp: TOO_MANY_MISSED_def)
  qed (simp_all add: missed_starts_def MAX_LOOKBACK_DAYS_def)
qed

section \<open>Two inputs the code does not expect\<close>

text \<open>
  A step near the end of the 32-bit range counts backwards: the loop's addition wraps,
  so \<^verbatim>\<open>5/4294967295\<close> matches the values 0 to 5 where its base names 5 alone.
\<close>

theorem wrapping_step_matches_below_base: "parse_field ''5/4294967295'' 0 59 = {0, 1, 2, 3, 4, 5}"
proof -
  have "step_loop 5 5 4294967295 0 59 {} = {0, 1, 2, 3, 4, 5}" by (simp add: step_loop.simps insert_commute)
  then show ?thesis
    by (simp add: parse_field_def field_part_def trim_def is_space_def is_any_def parse_uint_def is_digit_def digits_val_def digit_val_def)
qed

text \<open>
  A \<^verbatim>\<open>startingDeadlineSeconds\<close> that is not a representable duration, or reaches back before
  the first representable date, panics the pass instead of being refused.
\<close>

theorem huge_deadline_panics:
  assumes "(2 ^ 63 - 1) div 1000 < d \<or> date_of (now - d * 10 ^ 9) < cal_first cal"
  shows "start_to_run cal schedule last_schedule created now (Some d) = None"
  using assms by (auto simp: start_to_run_def sub_seconds_def Let_def)

theorem huge_deadline_panics_witness: "start_to_run ex_calendar ''5 * * * *'' None 0 0 (Some (10 ^ 16)) = None"
  by (rule huge_deadline_panics) simp

end
