(* ===== verification/Generation.thy ===== *)
theory Generation
  imports Prelude
begin

text \<open>
  \<^verbatim>\<open>pkg/apiserver/src/generation.rs\<close>: \<open>metadata.generation\<close> of built-in objects. A panic of an
  index expression is \<open>None\<close>; the counter is \<^verbatim>\<open>i64\<close> with wrap-around. The subresource the
  request goes through is an argument.
\<close>

datatype tracks = Spec | SpecAndAnnotations | Webhooks | PodSpec

definition SPEC_RESOURCES :: "string list" where
  "SPEC_RESOURCES =
    [''replicasets'', ''statefulsets'', ''daemonsets'', ''replicationcontrollers'', ''jobs'', ''cronjobs'',
     ''poddisruptionbudgets'', ''networkpolicies'', ''ingresses'', ''customresourcedefinitions'',
     ''validatingadmissionpolicies'', ''validatingadmissionpolicybindings'',
     ''mutatingadmissionpolicies'', ''mutatingadmissionpolicybindings'', ''flowschemas'',
     ''prioritylevelconfigurations'', ''deviceclasses'', ''resourceslices'']"

definition tracks_of :: "string \<Rightarrow> tracks option" where
  "tracks_of resource =
     (if resource = ''pods'' then Some PodSpec
      else if resource = ''deployments'' then Some SpecAndAnnotations
      else if resource = ''mutatingwebhookconfigurations'' \<or> resource = ''validatingwebhookconfigurations'' then Some Webhooks
      else if resource \<in> set SPEC_RESOURCES then Some Spec
      else None)"

definition resource_of :: "string \<Rightarrow> string option" where
  "resource_of key =
     (case strip_prefix key ''/registry/'' of
        None \<Rightarrow> None
      | Some rest \<Rightarrow>
          (let seg = hd (split_on CHR ''/'' rest)
           in if seg \<noteq> [] \<and> CHR ''.'' \<notin> set seg then Some seg else None))"

definition on_create :: "string \<Rightarrow> json \<Rightarrow> json" where
  "on_create resource obj =
     (case tracks_of resource of
        None \<Rightarrow> obj
      | Some _ \<Rightarrow>
          (case obj of
             JObj m \<Rightarrow>
               (case map_of m ''metadata'' of
                  Some (JObj meta) \<Rightarrow> JObj (bt_insert ''metadata'' (JObj (bt_insert ''generation'' (JNum (NInt 1)) meta)) m)
                | _ \<Rightarrow> obj)
           | _ \<Rightarrow> obj))"

definition without_node :: "json \<Rightarrow> json" where
  "without_node v =
     (case jget v ''spec'' of
        Some (JObj m) \<Rightarrow> JObj (bt_remove ''nodeName'' m)
      | Some s \<Rightarrow> s
      | None \<Rightarrow> JNull)"

fun changed :: "tracks \<Rightarrow> json \<Rightarrow> json \<Rightarrow> bool" where
  "changed Spec stored obj = (jget stored ''spec'' \<noteq> jget obj ''spec'')"
| "changed SpecAndAnnotations stored obj =
     (jget stored ''spec'' \<noteq> jget obj ''spec'' \<or>
      jget (jidx stored ''metadata'') ''annotations'' \<noteq> jget (jidx obj ''metadata'') ''annotations'')"
| "changed Webhooks stored obj = (jget stored ''webhooks'' \<noteq> jget obj ''webhooks'')"
| "changed PodSpec stored obj = (without_node stored \<noteq> without_node obj)"

definition add_i64 :: "int \<Rightarrow> int \<Rightarrow> int" where
  "add_i64 a b = (a + b + 2 ^ 63) mod 2 ^ 64 - 2 ^ 63"

text \<open>\<open>obj["metadata"].as_object_mut().map(|m| m.remove("generation"))\<close>.\<close>

definition remove_generation :: "json \<Rightarrow> json option" where
  "remove_generation obj =
     (case jtouch obj [''metadata''] of
        None \<Rightarrow> None
      | Some o1 \<Rightarrow>
          (case jidx o1 ''metadata'' of
             JObj meta \<Rightarrow> jset o1 [''metadata''] (JObj (bt_remove ''generation'' meta))
           | _ \<Rightarrow> Some o1))"

definition on_update_through :: "string option \<Rightarrow> string \<Rightarrow> json \<Rightarrow> json \<Rightarrow> json option" where
  "on_update_through subresource key stored obj =
     (case resource_of key of
        None \<Rightarrow> Some obj
      | Some resource \<Rightarrow>
          if subresource = Some ''status'' then
            (case jat stored [''metadata'', ''generation''] of
               JNull \<Rightarrow> remove_generation obj
             | g \<Rightarrow> jset obj [''metadata'', ''generation''] g)
          else if \<not> (case jget obj ''metadata'' of Some m \<Rightarrow> is_object m | None \<Rightarrow> False) then Some obj
          else
            (let old = (case as_i64 (jat stored [''metadata'', ''generation'']) of
                          Some g \<Rightarrow> if 0 < g then Some g else None | None \<Rightarrow> None);
                 generation =
                   (case tracks_of resource of
                      Some t \<Rightarrow>
                        (let base = (case old of Some g \<Rightarrow> g | None \<Rightarrow> 1)
                         in Some (if changed t stored obj then add_i64 base 1 else base))
                    | None \<Rightarrow> old)
             in case generation of
                  None \<Rightarrow> remove_generation obj
                | Some g \<Rightarrow>
                    (let deleting = is_null (jat stored [''metadata'', ''deletionTimestamp'']) \<and>
                                    is_string (jat obj [''metadata'', ''deletionTimestamp''])
                     in jset obj [''metadata'', ''generation'']
                          (JNum (NInt (if deleting then add_i64 g 1 else g))))))"

section \<open>Applying it twice\<close>

lemma bt_insert_idem: "bt_insert k v (bt_insert k v m) = bt_insert k v m"
  by (induction m) auto

lemma bt_insert_same: "bt_wf m \<Longrightarrow> map_of m k = Some v \<Longrightarrow> bt_insert k v m = m"
  by (rule bt_ext) (auto simp: bt_simps)

lemma bt_remove_idem: "bt_remove k (bt_remove k m) = bt_remove k m"
  by (simp add: bt_remove_def)

lemma bt_insert_over: "bt_insert k v (bt_insert k w m) = bt_insert k v m"
  by (induction m) auto

lemma jset_idem: "jset v ks x = Some v' \<Longrightarrow> jset v' ks x = Some v'"
proof (induction v ks x arbitrary: v' rule: jset.induct)
  case (2 v k ks x)
  show ?case
  proof (cases v)
    case JNull
    then obtain c where "jset JNull ks x = Some c" "v' = JObj [(k, c)]" using 2(3) by auto
    then show ?thesis using 2(1)[OF JNull] by simp
  next
    case (JObj m)
    then obtain c where c: "jset (jidx v k) ks x = Some c" "v' = JObj (bt_insert k c m)" using 2(3) by auto
    then show ?thesis using 2(2)[OF JObj] by (simp add: bt_simps bt_insert_idem)
  qed (use 2(3) in auto)
qed simp

lemma jset_meta: "jset obj [''metadata'', ''generation''] x = Some obj' \<Longrightarrow>
    jget obj ''metadata'' = Some (JObj meta) \<Longrightarrow>
    \<exists>m. obj = JObj m \<and> obj' = JObj (bt_insert ''metadata'' (JObj (bt_insert ''generation'' x meta)) m)"
  by (cases obj) auto

lemma changed_meta: "changed t stored (JObj (bt_insert ''metadata'' (JObj (bt_insert ''generation'' x meta)) m)) \<longleftrightarrow>
    changed t stored (JObj m)" if "map_of m ''metadata'' = Some (JObj meta)"
  using that by (cases t) (simp_all add: bt_simps without_node_def)

lemma jtouch_idem: "jtouch v ks = Some v' \<Longrightarrow> jtouch v' ks = Some v'"
  unfolding jtouch_def using jset_idem jset_jat by metis

lemma remove_generation_idem:
  assumes "remove_generation obj = Some o1"
  shows "remove_generation o1 = Some o1"
proof -
  obtain o0 where o0: "jtouch obj [''metadata''] = Some o0" using assms by (auto simp: remove_generation_def split: option.splits)
  show ?thesis
  proof (cases "\<exists>meta. jidx o0 ''metadata'' = JObj meta")
    case True
    then obtain meta where meta: "jidx o0 ''metadata'' = JObj meta" by blast
    then have s: "jset o0 [''metadata''] (JObj (bt_remove ''generation'' meta)) = Some o1"
      using assms o0 by (simp add: remove_generation_def)
    have at: "jidx o1 ''metadata'' = JObj (bt_remove ''generation'' meta)" using jset_jat[OF s] by simp
    have "jtouch o1 [''metadata''] = Some o1" using jset_idem[OF s] at by (simp add: jtouch_def del: jset.simps)
    then show ?thesis using at jset_idem[OF s] by (simp add: remove_generation_def bt_remove_idem del: jset.simps)
  next
    case False
    have r: "remove_generation v = Some o0" if "jtouch v [''metadata''] = Some o0" for v
      using that False by (auto simp: remove_generation_def split: json.splits)
    then have "o1 = o0" using assms o0 by simp
    then show ?thesis using r[OF jtouch_idem[OF o0]] by simp
  qed
qed

lemma remove_generation_meta:
  assumes "remove_generation (JObj m) = Some o1" "map_of m ''metadata'' = Some (JObj meta)"
  shows "\<exists>m1 meta1. o1 = JObj m1 \<and> map_of m1 ''metadata'' = Some (JObj meta1)"
  using assms by (auto simp: remove_generation_def jtouch_def bt_simps)

text \<open>
  Keeping the generation is idempotent: the write paths apply it before and after the
  admission webhooks, and the second application to what the first one produced changes
  nothing, for every kind, through every subresource, whether or not the write changes the
  object or starts its deletion.
\<close>

theorem generation_update_idempotent:
  assumes "on_update_through subresource key stored obj = Some obj1"
  shows "on_update_through subresource key stored obj1 = Some obj1"
proof (cases "resource_of key")
  case None
  then show ?thesis using assms by (simp add: on_update_through_def)
next
  case r: (Some resource)
  show ?thesis
  proof (cases "subresource = Some ''status''")
    case True
    have u: "on_update_through subresource key stored v =
        (case jat stored [''metadata'', ''generation''] of JNull \<Rightarrow> remove_generation v | g \<Rightarrow> jset v [''metadata'', ''generation''] g)" for v
      by (simp add: on_update_through_def r True del: jat_Cons jset.simps)
    show ?thesis
    proof (cases "jat stored [''metadata'', ''generation''] = JNull")
      case True
      then show ?thesis using assms remove_generation_idem unfolding u by (simp del: jat_Cons)
    next
      case False
      then have e: "on_update_through subresource key stored v = jset v [''metadata'', ''generation''] (jat stored [''metadata'', ''generation''])" for v
        unfolding u by (simp split: json.splits del: jat_Cons jset.simps)
      show ?thesis using jset_idem[OF assms[unfolded e]] unfolding e .
    qed
  next
    case ns: False
    show ?thesis
    proof (cases "\<exists>m meta. obj = JObj m \<and> map_of m ''metadata'' = Some (JObj meta)")
      case False
      then have "\<not> (case jget obj ''metadata'' of Some m \<Rightarrow> is_object m | None \<Rightarrow> False)"
        by (cases obj) (auto simp: is_object_iff split: option.splits)
      then show ?thesis using assms r ns by (simp add: on_update_through_def)
    next
      case True
      then obtain m meta where m: "obj = JObj m" "map_of m ''metadata'' = Some (JObj meta)" by blast
      define old where "old = (case as_i64 (jat stored [''metadata'', ''generation'']) of Some g \<Rightarrow> if 0 < g then Some g else None | None \<Rightarrow> None)"
      define gen where "gen v = (case tracks_of resource of
          Some t \<Rightarrow> (let base = (case old of Some g \<Rightarrow> g | None \<Rightarrow> 1) in Some (if changed t stored v then add_i64 base 1 else base))
        | None \<Rightarrow> old)" for v
      define del where "del v \<longleftrightarrow> is_null (jat stored [''metadata'', ''deletionTimestamp'']) \<and>
          is_string (jat v [''metadata'', ''deletionTimestamp''])" for v
      have u: "on_update_through subresource key stored (JObj n) =
          (case gen (JObj n) of
             None \<Rightarrow> remove_generation (JObj n)
           | Some g \<Rightarrow> jset (JObj n) [''metadata'', ''generation''] (JNum (NInt (if del (JObj n) then add_i64 g 1 else g))))"
        if "map_of n ''metadata'' = Some (JObj mt)" for n mt
        unfolding old_def gen_def del_def using that r ns by (simp add: on_update_through_def Let_def del: jat_Cons jset.simps)
      show ?thesis
      proof (cases "gen obj")
        case None
        then have g: "gen v = None" for v by (simp add: gen_def Let_def split: option.splits)
        have o1: "remove_generation obj = Some obj1" using assms u[OF m(2)] None m(1) by simp
        then obtain m1 meta1 where "obj1 = JObj m1" "map_of m1 ''metadata'' = Some (JObj meta1)"
          using remove_generation_meta m by blast
        then show ?thesis using u g remove_generation_idem[OF o1] by simp
      next
        case (Some g)
        let ?x = "JNum (NInt (if del obj then add_i64 g 1 else g))"
        have s: "jset obj [''metadata'', ''generation''] ?x = Some obj1" using assms u[OF m(2)] Some m(1) by simp
        then have o1: "obj1 = JObj (bt_insert ''metadata'' (JObj (bt_insert ''generation'' ?x meta)) m)"
          using jset_meta[OF s, of meta] m by simp
        have "gen obj1 = gen obj" unfolding gen_def o1 m(1) using changed_meta[OF m(2)] by (simp split: option.splits)
        moreover have "del obj1 = del obj" using m by (simp add: del_def o1 bt_simps)
        ultimately show ?thesis
          using u[of "bt_insert ''metadata'' (JObj (bt_insert ''generation'' ?x meta)) m" "bt_insert ''generation'' ?x meta"]
            jset_idem[OF s] Some o1 by (simp add: bt_simps del: jset.simps)
      qed
    qed
  qed
qed

theorem generation_update_idempotent_witness:
  "let stored = JObj [(''metadata'', JObj [(''generation'', JNum (NInt 4))]), (''spec'', JObj [(''replicas'', JNum (NInt 1))])];
       obj1 = JObj [(''metadata'', JObj [(''generation'', JNum (NInt 5))]), (''spec'', JObj [(''replicas'', JNum (NInt 2))])]
   in on_update_through None ''/registry/deployments/a/b'' stored obj1 = Some obj1"
  unfolding Let_def
proof (rule generation_update_idempotent)
  have r: "resource_of ''/registry/deployments/a/b'' = Some ''deployments''"
    using strip_prefix_append[of "''/registry/''" "''deployments/a/b''"] by (simp add: resource_of_def)
  show "on_update_through None ''/registry/deployments/a/b''
      (JObj [(''metadata'', JObj [(''generation'', JNum (NInt 4))]), (''spec'', JObj [(''replicas'', JNum (NInt 1))])])
      (JObj [(''metadata'', JObj []), (''spec'', JObj [(''replicas'', JNum (NInt 2))])]) =
    Some (JObj [(''metadata'', JObj [(''generation'', JNum (NInt 5))]), (''spec'', JObj [(''replicas'', JNum (NInt 2))])])"
    by (simp add: on_update_through_def r tracks_of_def add_i64_def)
qed

end
