(* ===== verification/Backoff.thy ===== *)
theory Backoff
  imports Prelude
begin

text \<open>
  \<^verbatim>\<open>pkg/controller-manager/src/backoff.rs\<close>: the window a workload controller waits before it replaces a
  failed pod. Instants are milliseconds; seconds are \<^verbatim>\<open>u64\<close> and failures \<^verbatim>\<open>u32\<close>.
\<close>

record entry =
  bo_failures :: nat
  bo_next :: "nat option"
  bo_counted :: "string set"

record create_backoff =
  cb_base :: nat
  cb_max :: nat
  cb_inner :: "string \<rightharpoonup> entry"

definition DEFAULT_BASE_SECS :: nat where
  "DEFAULT_BASE_SECS = 10"

definition DEFAULT_MAX_SECS :: nat where
  "DEFAULT_MAX_SECS = 300"

text \<open>Durations in milliseconds: \<open>as_secs\<close> drops the rest.\<close>

definition with_params :: "nat \<Rightarrow> nat \<Rightarrow> create_backoff" where
  "with_params base_ms max_ms =
     \<lparr>cb_base = max (base_ms div 1000) 1, cb_max = max (max_ms div 1000) 1, cb_inner = Map.empty\<rparr>"

definition backoff_new :: create_backoff where
  "backoff_new = with_params (DEFAULT_BASE_SECS * 1000) (DEFAULT_MAX_SECS * 1000)"

text \<open>\<open>checked_shl\<close> refuses a shift of 64 or more, and otherwise drops the bits shifted out.\<close>

definition checked_shl :: "nat \<Rightarrow> nat \<Rightarrow> nat option" where
  "checked_shl a n = (if n < 64 then Some (a * 2 ^ n mod 2 ^ 64) else None)"

definition backoff_delay :: "create_backoff \<Rightarrow> nat \<Rightarrow> nat" where
  "backoff_delay b failures =
     (let shift = min (failures - 1) 32
      in min (case checked_shl (cb_base b) shift of Some s \<Rightarrow> s | None \<Rightarrow> 2 ^ 64 - 1) (cb_max b))"

definition observe_failures :: "create_backoff \<Rightarrow> string \<Rightarrow> string list \<Rightarrow> nat \<Rightarrow> create_backoff \<times> bool" where
  "observe_failures b key failed now =
     (if failed = [] then
        (case cb_inner b key of
           Some e \<Rightarrow> (b\<lparr>cb_inner := (cb_inner b)(key \<mapsto> e\<lparr>bo_counted := {}\<rparr>)\<rparr>, False)
         | None \<Rightarrow> (b, False))
      else
        (let e = (case cb_inner b key of Some e \<Rightarrow> e | None \<Rightarrow> \<lparr>bo_failures = 0, bo_next = None, bo_counted = {}\<rparr>);
             fresh = filter (\<lambda>uid. uid \<notin> bo_counted e) failed;
             failures = min (bo_failures e + length fresh) (2 ^ 32 - 1);
             e' = \<lparr>bo_failures = failures,
                   bo_next = (if fresh \<noteq> [] then Some (now + 1000 * backoff_delay b failures) else bo_next e),
                   bo_counted = set failed\<rparr>
         in (b\<lparr>cb_inner := (cb_inner b)(key \<mapsto> e')\<rparr>, fresh \<noteq> [])))"

definition clear :: "create_backoff \<Rightarrow> string \<Rightarrow> create_backoff" where
  "clear b key =
     (case cb_inner b key of
        None \<Rightarrow> b
      | Some e \<Rightarrow>
          if bo_counted e = {} then b\<lparr>cb_inner := (cb_inner b)(key := None)\<rparr>
          else b\<lparr>cb_inner := (cb_inner b)(key \<mapsto> e\<lparr>bo_failures := 0, bo_next := None\<rparr>)\<rparr>)"

text \<open>Whether a create is allowed, and the requeue asked for where it is not.\<close>

definition allowed :: "create_backoff \<Rightarrow> string \<Rightarrow> nat \<Rightarrow> bool \<times> nat option" where
  "allowed b key now =
     (case cb_inner b key of
        Some e \<Rightarrow>
          (case bo_next e of
             Some nxt \<Rightarrow> if now < nxt then (False, Some (nxt - now)) else (True, None)
           | None \<Rightarrow> (True, None))
      | None \<Rightarrow> (True, None))"

section \<open>Properties\<close>

lemma backoff_delay_exact:
  assumes "cb_base b < 2 ^ 32" "0 < n"
  shows "backoff_delay b n = min (cb_base b * 2 ^ min (n - 1) 32) (cb_max b)"
proof -
  have "cb_base b * 2 ^ min (n - 1) 32 < 2 ^ 32 * 2 ^ 32"
    using assms(1) by (intro mult_less_le_imp_less power_increasing) auto
  moreover have "min (n - 1) 32 < (64 :: nat)" by simp
  ultimately show ?thesis by (simp add: backoff_delay_def checked_shl_def Let_def)
qed

text \<open>Passes at the given times that all see the same failed pods.\<close>

definition passes :: "create_backoff \<Rightarrow> string \<Rightarrow> string list \<Rightarrow> nat list \<Rightarrow> create_backoff" where
  "passes b key failed ts = foldl (\<lambda>b t. fst (observe_failures b key failed t)) b ts"

lemma observe_again:
  assumes "failed \<noteq> []" "cb_inner b key = Some e" "bo_counted e = set failed" "bo_failures e < 2 ^ 32"
  shows "observe_failures b key failed t = (b, False)"
proof -
  have "filter (\<lambda>uid. uid \<notin> bo_counted e) failed = []" using assms(3) by (simp add: filter_empty_conv)
  moreover have "min (bo_failures e) (2 ^ 32 - 1) = bo_failures e" using assms(4) by simp
  moreover have "b\<lparr>cb_inner := (cb_inner b)(key \<mapsto> e)\<rparr> = b" using assms(2) by (cases b) auto
  moreover have e: "\<lparr>bo_failures = bo_failures e, bo_next = bo_next e, bo_counted = set failed\<rparr> = e" using assms(3) by (cases e) simp
  ultimately show ?thesis using assms by (simp add: observe_failures_def Let_def e)
qed

definition failures_of :: "create_backoff \<Rightarrow> string \<Rightarrow> nat" where
  "failures_of b key = (case cb_inner b key of Some e \<Rightarrow> bo_failures e | None \<Rightarrow> 0)"

text \<open>
  A failed pod that is kept postpones its replacement once. After a pass first counts
  the failed pods, any number of later passes that still see the same pods leave the window
  where it was: creation opens exactly when the delay after that first pass is over, a refused
  create asks to be looked at again exactly then, and the delay is the base doubled for each
  failure after the first, at most the maximum.
\<close>

theorem kept_failed_pod_counts_once:
  assumes "observe_failures b key failed t0 = (b1, True)" "cb_base b < 2 ^ 32"
  shows "let delay = min (cb_base b * 2 ^ min (failures_of b1 key - 1) 32) (cb_max b)
    in snd (observe_failures (passes b1 key failed ts) key failed t) = False \<and>
       allowed (passes b1 key failed ts) key now =
         (if now < t0 + 1000 * delay then (False, Some (t0 + 1000 * delay - now)) else (True, None))"
proof -
  let ?e = "case cb_inner b key of Some e \<Rightarrow> e | None \<Rightarrow> \<lparr>bo_failures = 0, bo_next = None, bo_counted = {}\<rparr>"
  let ?fresh = "filter (\<lambda>uid. uid \<notin> bo_counted ?e) failed"
  let ?n = "min (bo_failures ?e + length ?fresh) (2 ^ 32 - 1)"
  let ?e' = "\<lparr>bo_failures = ?n, bo_next = Some (t0 + 1000 * backoff_delay b ?n), bo_counted = set failed\<rparr>"
  have ne: "failed \<noteq> []" using assms by (auto simp: observe_failures_def split: option.splits if_splits)
  have e: "cb_inner b1 key = Some ?e'" using assms ne by (auto simp: observe_failures_def Let_def)
  have "?fresh \<noteq> []" using assms ne by (auto simp: observe_failures_def Let_def)
  then have pos: "0 < ?n" by simp
  have n: "bo_failures ?e' < 2 ^ 32" unfolding entry.select_convs by (rule le_less_trans[OF min.cobounded2]) simp
  have again: "observe_failures b1 key failed u = (b1, False)" for u
    by (rule observe_again[OF ne e _ n]) simp
  have p: "passes b1 key failed ts = b1"
    unfolding passes_def by (induction ts) (simp_all add: again)
  have f: "failures_of b1 key = ?n" unfolding failures_of_def e by simp
  have "allowed b1 key now = (if now < t0 + 1000 * backoff_delay b ?n
      then (False, Some (t0 + 1000 * backoff_delay b ?n - now)) else (True, None))"
    using e by (simp add: allowed_def)
  then show ?thesis unfolding p f Let_def backoff_delay_exact[OF assms(2) pos] using again by simp
qed

theorem kept_failed_pod_counts_once_witness:
  "allowed (passes (fst (observe_failures backoff_new ''rs'' [''p1''] 0)) ''rs'' [''p1''] [5, 9]) ''rs'' 9999 = (False, Some 1)"
proof -
  have o: "observe_failures backoff_new ''rs'' [''p1''] 0 = (fst (observe_failures backoff_new ''rs'' [''p1''] 0), True)"
    by (simp add: observe_failures_def backoff_new_def with_params_def Let_def)
  have f: "failures_of (fst (observe_failures backoff_new ''rs'' [''p1''] 0)) ''rs'' = 1"
    by (simp add: failures_of_def observe_failures_def backoff_new_def with_params_def Let_def)
  have c: "cb_base backoff_new = 10" "cb_max backoff_new = 300"
    by (simp_all add: backoff_new_def with_params_def DEFAULT_BASE_SECS_def DEFAULT_MAX_SECS_def)
  from kept_failed_pod_counts_once[OF o, of "[5, 9]" 11 9999] show ?thesis unfolding f c by simp
qed

end
