(* ===== verification/Spec2Isabelle.thy ===== *)
theory Spec2Isabelle
  imports WatchRun Admission ServiceRun SchedRun Reactor Election Quantity Storage Rollout Cron Selector Taint Generation Backoff
begin

text \<open>
  A verification development for rustkube, a Kubernetes control plane written in Rust.

  \<^bold>\<open>The program.\<close> An API server (\<^verbatim>\<open>src/pkg/apiserver\<close>) stores objects, JSON values without typed
  structs, in an etcd (\<^verbatim>\<open>src/pkg/storage\<close>) and serves reads, writes and watches of them. A
  controller manager (\<^verbatim>\<open>src/pkg/controller-manager\<close>) and a scheduler (\<^verbatim>\<open>src/pkg/scheduler\<close>) watch
  objects and write others; any number of each may run, and a lease elects the one that
  acts. What all of them share is in \<^verbatim>\<open>src/pkg/apimachinery\<close>. A write travels from a handler
  through authorization, admission and the storage layer to the etcd adapter, which makes it a
  compare-and-set on the revision that last wrote the key; the etcd's history comes back through
  the watch cache to every watching client; a controller's events go through a work queue to its
  worker.

  \<^bold>\<open>How it is modelled.\<close> A definition stands for one function, method or type of the source, or for
  one part of a long function, and is named after it; a function of the source that shares its
  name with another has its component's prefix. JSON values, maps, strings and fixed-width
  arithmetic are in \<open>Prelude\<close>. Errors are the left of a sum; a panic is \<open>None\<close> or, in a program
  over the datastore, \<open>PPanic\<close>. Code that is not in the repository is an argument: the etcd server, the
  calendar of \<^verbatim>\<open>chrono\<close>, \<^verbatim>\<open>serde_json\<close>'s parser and printer, HTTP exchanges, clocks and random
  numbers. What is relied on of it is a locale (\<open>etcd\<close>, from the etcd API's documentation) or a
  hypothesis, and an instance in the development satisfies it. Code that runs concurrently is an
  \<open>inductive\<close> step relation whose steps are the atomic sections of the source, and its theorems are
  about all reachable states.

  \<^bold>\<open>The theories.\<close>
  \<^item> \<open>WorkQueue\<close> (\<^verbatim>\<open>apimachinery/src/workqueue.rs\<close>): the queue's record and critical sections, and
    \<open>wq_step\<close>, the interleavings of producers and workers. A key has one worker at a time, an
    event that arrives during a pass is followed by a pass, nothing panics. The contract
    \<open>work_queue\<close> is what \<open>Reactor\<close> (\<^verbatim>\<open>reactor.rs\<close>) builds on: a failed pass is retried, and the hub
    notifies every observer of a URL.
  \<^item> \<open>Lease\<close> (\<^verbatim>\<open>lease.rs\<close>), \<open>ApiClient\<close> (\<^verbatim>\<open>controller-manager/src/runner.rs\<close>) and \<open>Election\<close>
    (both \<^verbatim>\<open>leaderelection.rs\<close>): attempts, terms and the write gate, run by any number of candidates
    with delayed and lost requests. Two candidates never both pass the gate; a term that cannot
    be renewed ends by its deadline; a create with an unknown outcome is resolved before another.
  \<^item> \<open>F64\<close> and \<open>Quantity\<close> (\<^verbatim>\<open>quantity.rs\<close>): binary64 arithmetic as the parser uses it, quantities
    to numbers and back, canonical strings with the value of the number they replace.
  \<^item> \<open>Store\<close> (\<^verbatim>\<open>store.rs\<close>, \<^verbatim>\<open>watch.rs\<close>, \<^verbatim>\<open>error.rs\<close>, \<^verbatim>\<open>test_store.rs\<close>), \<open>Etcd\<close>
    (\<^verbatim>\<open>storage/src/adapter.rs\<close>), \<open>ApiError\<close> (\<^verbatim>\<open>apiserver/src/error.rs\<close>), \<open>Storage\<close>
    (\<^verbatim>\<open>apiserver/src/storage.rs\<close>): the contracts \<open>kv_store\<close> and \<open>kv_mvcc\<close>, satisfied by the in-memory
    store and by the adapter over any \<open>etcd\<close>, and the storage layer over them. An update replaces
    exactly the object that was read; a paged list is one state of the datastore whatever is
    written meanwhile; the keys of two resources never mix.
  \<^item> \<open>WatchCache\<close> and \<open>WatchRun\<close> (\<^verbatim>\<open>watch_cache.rs\<close> and the cached reads of \<^verbatim>\<open>storage.rs\<close>): the
    pump, the freshness task and clients as \<open>wc_step\<close>. A client sees the datastore's history without
    gap or repetition or is told to start over; a page from the cache is a state of the datastore
    no older than the read demands.
  \<^item> \<open>Rbac\<close> (\<^verbatim>\<open>rbac_engine.rs\<close>), \<open>Escalation\<close> (\<^verbatim>\<open>escalation.rs\<close>) and \<open>Admission\<close> (\<^verbatim>\<open>admission.rs\<close>,
    \<^verbatim>\<open>csr_admission.rs\<close>, \<^verbatim>\<open>requester.rs\<close>): a request reaches a handler only if a binding grants
    exactly what its path and method ask for; a role one may write grants nothing one does not
    hold; the stamps in an object name its creator.
  \<^item> \<open>Claims\<close> and \<open>ServiceRun\<close> (\<^verbatim>\<open>service_ip.rs\<close>, \<^verbatim>\<open>node_port.rs\<close>, the Service paths of
    \<^verbatim>\<open>handlers/resource.rs\<close>): the requests as programs that stop at each access to the datastore.
    Interleaved in any way, they never give one address or node port to two Services.
  \<^item> \<open>Rollout\<close> (\<^verbatim>\<open>rollout.rs\<close>, \<^verbatim>\<open>deployment.rs\<close>): every pass of a rolling update keeps its surge
    and availability promises, and a rollout whose pods become available ends.
  \<^item> \<open>Cron\<close> (\<^verbatim>\<open>cron.rs\<close>): the next start found day by day is the first minute that matches.
  \<^item> \<open>Selector\<close> (both \<^verbatim>\<open>selector.rs\<close>), \<open>Taint\<close> (\<^verbatim>\<open>taint.rs\<close>), \<open>Generation\<close> (\<^verbatim>\<open>generation.rs\<close>),
    \<open>Backoff\<close> (\<^verbatim>\<open>backoff.rs\<close>): parsing and matching of selectors, the verdict on a tainted node,
    generation counters, and the wait before a failed pod is replaced.
  \<^item> \<open>SchedFilter\<close> (\<^verbatim>\<open>scheduler/src/filter.rs\<close>, \<^verbatim>\<open>score.rs\<close>, \<^verbatim>\<open>affinity.rs\<close>, \<^verbatim>\<open>spread.rs\<close>,
    \<^verbatim>\<open>volumebinding.rs\<close>, \<^verbatim>\<open>virtualmachine.rs\<close>, \<^verbatim>\<open>apimachinery/src/pod_resources.rs\<close>): which nodes a
    pod may run on and how they rank. A pod's total is the peak of what its containers hold at one time.
  \<^item> \<open>Preemption\<close> (\<^verbatim>\<open>preemption.rs\<close>): the pods to evict. With them gone the pod fits, and none of
    them could have been spared.
  \<^item> \<open>Scheduler\<close> (\<^verbatim>\<open>scheduler.rs\<close>, \<^verbatim>\<open>events.rs\<close>): \<open>sched_state\<close>, the books of what is placed, pending
    and promised, and the passes over them for pods, virtual machines and migrations, each with the
    requests it writes. \<open>SchedRun\<close>: passes, late observations and late binds as \<open>sc_step\<close>. No node
    is ever bound more than it has, and a pod is bound to a node that no other outscores.

  \<^bold>\<open>Bounds and fuel.\<close> Loops are structural or have a termination proof; none has fuel. The retries
  of a guaranteed update are a number, since the code bounds them by time. Revisions are below
  \<open>2 ^ 63\<close>, as an etcd's are; where the source counts in \<^verbatim>\<open>u64\<close> or \<^verbatim>\<open>i64\<close> the wrap-around is written
  out. Times are milliseconds or, in \<open>Cron\<close>, nanoseconds.

  \<^bold>\<open>Limits of the models.\<close> \<open>wc_step\<close> follows one cache from its creation: that the map of caches drops
  one whose pump ended is not a step. In \<open>sv_step\<close> a datastore that fails a write of a Service has
  not carried it out; with a write of unknown outcome the claims are given back while the
  Service may have been stored. Deletes of Services and PUTs without a resource version are modelled
  and are not among the requests of the theorem, which does not hold with them. Admission webhooks are taken to leave
  the claims of a Service alone. \<open>sc_step\<close> follows one leader's term in which nobody else binds pods;
  there are pods and no virtual machines, requests and capacities stay as they are, and what is seen of a pod never goes
  back. A failed write to a claim drops the pod's promise only while no bind made from the version last
  seen is outstanding; the code drops it in any case. The volumes a pass reads
  (\<^verbatim>\<open>indexed_volume_state\<close>) are an argument.

  \<^bold>\<open>Not modelled.\<close> Routing, middleware order and the HTTP server; TLS, tokens and signatures; admission
  webhooks, which are HTTP calls; discovery, OpenAPI, tables and protobuf, which render constant or
  stored data; custom resource schemas; metrics, logging and the command lines; reflectors and
  informers; the events that wake the scheduler's queue and its retry delays; the reconcile passes of the
  controllers other than Deployments, among them the garbage collector, volumes and virtual
  machines. The manifest lists these parts with the reason for each.
\<close>

end
